(* ===== verification/Prelude.thy ===== *)
theory Prelude
  imports Main "HOL-Library.Word" "HOL-Library.Signed_Division"
begin

text \<open>
  Shared vocabulary of the development: names for Rust's machine integers, the pure
  cores of the standard-library operations the sources call (bit counts, checked and
  saturating arithmetic, little-endian bytes), the collections of simp rules the
  component theories extend, and generic facts on words, options and lists.
\<close>

unbundle bit_operations_syntax

subsection \<open>Names\<close>

type_synonym u8 = "8 word"
type_synonym u16 = "16 word"
type_synonym u32 = "32 word"
type_synonym u64 = "64 word"
type_synonym u128 = "128 word"

named_theorems width_simps \<open>widths and masks of the compiler's value types\<close>
named_theorems device_simps \<open>register updates of the device models\<close>
named_theorems layout_simps \<open>byte layouts and packed fields\<close>

subsection \<open>Rust standard library: bit counts\<close>

definition count_ones :: "'a::len word \<Rightarrow> nat" where
  "count_ones w = length (filter (bit w) [0..<LENGTH('a)])"

definition leading_zeros :: "'a::len word \<Rightarrow> nat" where
  "leading_zeros w = length (takeWhile (\<lambda>n. \<not> bit w n) (rev [0..<LENGTH('a)]))"

definition trailing_zeros :: "'a::len word \<Rightarrow> nat" where
  "trailing_zeros w = length (takeWhile (\<lambda>n. \<not> bit w n) [0..<LENGTH('a)])"

definition trailing_ones :: "'a::len word \<Rightarrow> nat" where
  "trailing_ones w = length (takeWhile (bit w) [0..<LENGTH('a)])"

subsection \<open>Rust standard library: partial arithmetic\<close>

definition checked_div :: "'a::len word \<Rightarrow> 'a word \<Rightarrow> 'a word option" where
  "checked_div a b = (if b = 0 then None else Some (a div b))"

definition checked_rem :: "'a::len word \<Rightarrow> 'a word \<Rightarrow> 'a word option" where
  "checked_rem a b = (if b = 0 then None else Some (a mod b))"

text \<open>An \<open>i64\<close> is an integer in its range; \<open>checked_div\<close> also refuses the one overflow.\<close>

definition i64_min :: int where
  "i64_min = - (2 ^ 63)"

definition checked_div_i64 :: "int \<Rightarrow> int \<Rightarrow> int option" where
  "checked_div_i64 a b =
     (if b = 0 \<or> a = i64_min \<and> b = - 1 then None else Some (a sdiv b))"

definition checked_rem_i64 :: "int \<Rightarrow> int \<Rightarrow> int option" where
  "checked_rem_i64 a b =
     (if b = 0 \<or> a = i64_min \<and> b = - 1 then None else Some (a smod b))"

definition div_ceil :: "nat \<Rightarrow> nat \<Rightarrow> nat" where
  "div_ceil a b = (a + b - 1) div b"

subsection \<open>Rust standard library: little-endian bytes\<close>

definition to_le_bytes :: "'a::len word \<Rightarrow> u8 list" where
  "to_le_bytes w = map (\<lambda>i. ucast (drop_bit (8 * i) w)) [0..<LENGTH('a) div 8]"

fun from_le_bytes :: "u8 list \<Rightarrow> 'a::len word" where
  "from_le_bytes [] = 0"
| "from_le_bytes (b # bs) = ucast b OR push_bit 8 (from_le_bytes bs)"

subsection \<open>Options and lists\<close>

lemma option_bind_Some_iff [simp]:
  "Option.bind x f = Some y \<longleftrightarrow> (\<exists>z. x = Some z \<and> f z = Some y)"
  by (cases x) auto

lemma if_Some_eq [simp]:
  "(if b then Some x else None) = Some y \<longleftrightarrow> b \<and> x = y"
  by auto

lemma length_takeWhile_nth:
  "n < length (takeWhile P xs) \<Longrightarrow> P (xs ! n)"
  by (metis nth_mem set_takeWhileD takeWhile_nth)

lemma not_P_nth_length_takeWhile:
  "length (takeWhile P xs) < length xs \<Longrightarrow> \<not> P (xs ! length (takeWhile P xs))"
  by (rule nth_length_takeWhile)

subsection \<open>Words as bounded integers\<close>

lemma uint_less_exp_iff_bits:
  fixes w :: "'a::len word"
  shows "uint w < 2 ^ n \<longleftrightarrow> take_bit n w = w"
proof
  assume "uint w < 2 ^ n"
  then have "uint (take_bit n w) = uint w"
    by (simp add: unsigned_take_bit_eq take_bit_int_eq_self_iff)
  then show "take_bit n w = w"
    by (simp only: word_uint_eq_iff)
next
  assume "take_bit n w = w"
  then have "take_bit n (uint w) = uint w"
    by (simp flip: unsigned_take_bit_eq)
  then show "uint w < 2 ^ n"
    by (simp add: take_bit_int_eq_self_iff)
qed

lemma uint_less_exp_bits_zero:
  fixes w :: "'a::len word"
  shows "uint w < 2 ^ n \<longleftrightarrow> (\<forall>k\<ge>n. \<not> bit w k)"
proof -
  have "take_bit n w = w \<longleftrightarrow> (\<forall>k\<ge>n. \<not> bit w k)"
    by (auto simp: bit_eq_iff bit_take_bit_iff) (meson bit_imp_le_length leD not_less)+
  then show ?thesis by (simp only: uint_less_exp_iff_bits)
qed

lemma leading_zeros_le: "leading_zeros (w :: 'a::len word) \<le> LENGTH('a)"
  unfolding leading_zeros_def using length_takeWhile_le [of _ "rev [0..<LENGTH('a)]"] by simp

lemma leading_zeros_bits:
  fixes w :: "'a::len word"
  assumes "LENGTH('a) - leading_zeros w \<le> k"
  shows "\<not> bit w k"
proof (cases "k < LENGTH('a)")
  case True
  let ?i = "LENGTH('a) - Suc k"
  have "?i < leading_zeros w" using assms True leading_zeros_le [of w] by linarith
  then have "\<not> bit w (rev [0..<LENGTH('a)] ! ?i)"
    unfolding leading_zeros_def by (rule length_takeWhile_nth)
  moreover have "rev [0..<LENGTH('a)] ! ?i = k" using True by (simp add: rev_nth)
  ultimately show ?thesis by simp
next
  case False
  then show ?thesis using bit_imp_le_length not_less by blast
qed

lemma leading_zeros_top_bit:
  fixes w :: "'a::len word"
  assumes "leading_zeros w < LENGTH('a)"
  shows "bit w (LENGTH('a) - leading_zeros w - 1)"
proof -
  have "\<not> \<not> bit w (rev [0..<LENGTH('a)] ! leading_zeros w)"
    using assms unfolding leading_zeros_def by (intro not_P_nth_length_takeWhile) simp
  then show ?thesis using assms by (simp add: rev_nth)
qed

text \<open>\<open>BITS - leading_zeros\<close> is the number of significant bits.\<close>

lemma leading_zeros_bound:
  fixes w :: "'a::len word"
  shows "uint w < 2 ^ n \<longleftrightarrow> LENGTH('a) - leading_zeros w \<le> n"
proof
  assume *: "uint w < 2 ^ n"
  show "LENGTH('a) - leading_zeros w \<le> n"
  proof (rule ccontr)
    assume "\<not> ?thesis"
    then have "leading_zeros w < LENGTH('a)" and "n \<le> LENGTH('a) - leading_zeros w - 1"
      by linarith+
    with * show False using leading_zeros_top_bit uint_less_exp_bits_zero by blast
  qed
next
  assume "LENGTH('a) - leading_zeros w \<le> n"
  then show "uint w < 2 ^ n"
    using leading_zeros_bits uint_less_exp_bits_zero by (meson order_trans)
qed

lemma count_ones_le:
  fixes w :: "'a::len word"
  assumes "uint w < 2 ^ n"
  shows "count_ones w \<le> n"
proof -
  have "set (filter (bit w) [0..<LENGTH('a)]) \<subseteq> {..<n}"
    using assms uint_less_exp_bits_zero [of w n] by (auto simp: not_le [symmetric])
  then have "card (set (filter (bit w) [0..<LENGTH('a)])) \<le> card {..<n}"
    by (rule card_mono [rotated]) simp
  then show ?thesis
    unfolding count_ones_def by (subst distinct_card [symmetric]) simp_all
qed

lemma trailing_ones_take_bit:
  fixes w :: "'a::len word"
  shows "take_bit (trailing_ones w) w = mask (trailing_ones w)"
proof (rule bit_word_eqI)
  fix n assume n: "n < LENGTH('a)"
  have "n < trailing_ones w \<Longrightarrow> bit w n"
    unfolding trailing_ones_def using length_takeWhile_nth [of n "bit w" "[0..<LENGTH('a)]"] n
    by simp
  then show "bit (take_bit (trailing_ones w) w) n = bit (mask (trailing_ones w) :: 'a word) n"
    using n by (auto simp: bit_take_bit_iff bit_mask_iff)
qed

end
