(* ===== verification/Values.thy ===== *)
theory Values
  imports Prelude
begin

text \<open>
  The compiler's logical value types, literal encodings and integer operations:
  \<open>types.rs\<close>, \<open>literal.rs\<close>, \<open>integer.rs\<close> and \<open>bitwise.rs\<close> of the compiler crate.
  A scalar literal is a \<open>u64\<close> whose bits above the type's width are zero (logical)
  or above its carrier's width are zero (carrier); signed readings are integers.
\<close>

subsection \<open>types.rs\<close>

datatype ty = I1 | I8 | I16 | I32 | I64 | F64 | V64 | V128

fun carrier :: "ty \<Rightarrow> ty" where
  "carrier I1 = I32"
| "carrier I8 = I32"
| "carrier I16 = I32"
| "carrier I32 = I32"
| "carrier V64 = V128"
| "carrier I64 = I64"
| "carrier F64 = F64"
| "carrier V128 = V128"

fun is_integer :: "ty \<Rightarrow> bool" where
  "is_integer I1 = True"
| "is_integer I8 = True"
| "is_integer I16 = True"
| "is_integer I32 = True"
| "is_integer I64 = True"
| "is_integer _ = False"

fun is_scalar :: "ty \<Rightarrow> bool" where
  "is_scalar V64 = False"
| "is_scalar V128 = False"
| "is_scalar _ = True"

fun type_bits :: "ty \<Rightarrow> nat" where
  "type_bits I1 = 1"
| "type_bits I8 = 8"
| "type_bits I16 = 16"
| "type_bits I32 = 32"
| "type_bits I64 = 64"
| "type_bits F64 = 64"
| "type_bits V64 = 64"
| "type_bits V128 = 128"

subsection \<open>integer.rs: masks\<close>

definition low_mask :: "nat \<Rightarrow> u64" where
  "low_mask bits = (if 64 - bits < 64 then drop_bit (64 - bits) (- 1) else 0)"

definition type_mask :: "ty \<Rightarrow> u64" where
  "type_mask t = low_mask (type_bits t)"

definition type_normalize :: "ty \<Rightarrow> u64 \<Rightarrow> u64" where
  "type_normalize t bits = bits AND type_mask t"

subsection \<open>literal.rs\<close>

record literal =
  lit_low :: u64
  lit_high :: u64

definition literal_of_u64 :: "u64 \<Rightarrow> literal" where
  "literal_of_u64 bits = \<lparr>lit_low = bits, lit_high = 0\<rparr>"

definition literal_of_i32 :: "u32 \<Rightarrow> literal" where
  "literal_of_i32 bits = literal_of_u64 (scast bits)"

definition literal_of_u128 :: "u128 \<Rightarrow> literal" where
  "literal_of_u128 bits = \<lparr>lit_low = ucast bits, lit_high = ucast (drop_bit 64 bits)\<rparr>"

definition literal_of_bytes8 :: "u8 list \<Rightarrow> literal" where
  "literal_of_bytes8 bytes = literal_of_u64 (from_le_bytes bytes)"

definition literal_of_bytes16 :: "u8 list \<Rightarrow> literal" where
  "literal_of_bytes16 bytes = literal_of_u128 (from_le_bytes bytes)"

text \<open>The conversion a release build performs. A debug build also asserts that the high word is zero, which every
  normalized scalar meets (\<open>lit_normalize_one_word\<close>) and under which no bit is lost.\<close>

definition u64_of_literal :: "literal \<Rightarrow> u64" where
  "u64_of_literal l = lit_low l"

definition u128_of_literal :: "literal \<Rightarrow> u128" where
  "u128_of_literal l = ucast (lit_low l) OR push_bit 64 (ucast (lit_high l))"

definition unsigned_bits :: "literal \<Rightarrow> nat" where
  "unsigned_bits l =
     (if lit_high l = 0 then 64 - leading_zeros (lit_low l)
      else 128 - leading_zeros (lit_high l))"

definition lit_normalize :: "ty \<Rightarrow> literal \<Rightarrow> literal" where
  "lit_normalize t l =
     (if t = V64 then literal_of_u64 (lit_low l)
      else if is_scalar t then literal_of_u64 (type_normalize t (u64_of_literal l))
      else l)"

lemma lit_normalize_one_word: "is_scalar t \<or> t = V64 \<Longrightarrow> lit_high (lit_normalize t l) = 0"
  by (auto simp: lit_normalize_def literal_of_u64_def)

lemma u64_of_literal_exact: "lit_high l = 0 \<Longrightarrow> literal_of_u64 (u64_of_literal l) = l"
  by (cases l) (simp add: u64_of_literal_def literal_of_u64_def)

definition lit_scalar :: "ty \<Rightarrow> literal \<Rightarrow> u64 option" where
  "lit_scalar t l = (if is_scalar t then Some (u64_of_literal l) else None)"

subsection \<open>integer.rs: operators\<close>

datatype int_op = Add | Sub | Mul | DivUnsigned | DivSigned | RemUnsigned | RemSigned
datatype shift_op = ShiftLeft | ShiftRightUnsigned | ShiftRightSigned
datatype rotate_op = RotateLeft | RotateRight
datatype bit_count_op = Ones | LeadingZeros | TrailingZeros
datatype int_compare_op = Eq | Ne | LtUnsigned | GeUnsigned | LtSigned | GeSigned

definition signed_value :: "ty \<Rightarrow> u64 \<Rightarrow> int" where
  "signed_value t bits =
     (let shift = 64 - type_bits t in sint (signed_drop_bit shift (push_bit shift bits)))"

definition shift_count :: "ty \<Rightarrow> u32 \<Rightarrow> nat" where
  "shift_count t count = unat (count AND (if t = I64 then 63 else 31))"

definition rotate_count :: "ty \<Rightarrow> u32 \<Rightarrow> nat" where
  "rotate_count t count = unat (count AND of_nat (type_bits t - 1))"

fun int_binary :: "ty \<Rightarrow> int_op \<Rightarrow> u64 \<Rightarrow> u64 \<Rightarrow> u64 option" where
  "int_binary t Add left right = Some (left + right)"
| "int_binary t Sub left right = Some (left - right)"
| "int_binary t Mul left right = Some (left * right)"
| "int_binary t DivUnsigned left right = checked_div left right"
| "int_binary t RemUnsigned left right = checked_rem left right"
| "int_binary t DivSigned left right =
     (let l = signed_value t left; r = signed_value t right in
      if t = I32 \<and> l = - (2 ^ 31) \<and> r = - 1 then None
      else map_option word_of_int (checked_div_i64 l r))"
| "int_binary t RemSigned left right =
     (let l = signed_value t left; r = signed_value t right in
      if l = i64_min \<and> r = - 1 then Some 0
      else map_option word_of_int (checked_rem_i64 l r))"

fun int_compare :: "ty \<Rightarrow> int_compare_op \<Rightarrow> u64 \<Rightarrow> u64 \<Rightarrow> bool" where
  "int_compare t Eq left right = (left = right)"
| "int_compare t Ne left right = (left \<noteq> right)"
| "int_compare t LtUnsigned left right = (left < right)"
| "int_compare t GeUnsigned left right = (left \<ge> right)"
| "int_compare t LtSigned left right = (signed_value t left < signed_value t right)"
| "int_compare t GeSigned left right = (signed_value t left \<ge> signed_value t right)"

fun int_shift :: "ty \<Rightarrow> shift_op \<Rightarrow> u64 \<Rightarrow> u32 \<Rightarrow> u64" where
  "int_shift t ShiftLeft value count = push_bit (shift_count t count) value"
| "int_shift t ShiftRightUnsigned value count = drop_bit (shift_count t count) value"
| "int_shift t ShiftRightSigned value count =
     word_of_int (drop_bit (shift_count t count) (signed_value t value))"

definition int_rotate :: "ty \<Rightarrow> rotate_op \<Rightarrow> u64 \<Rightarrow> u32 \<Rightarrow> u64" where
  "int_rotate t operator value count =
     (let count = rotate_count t count in
      if count = 0 then value
      else let remaining = type_bits t - count in
        case operator of
          RotateLeft \<Rightarrow> push_bit count value OR drop_bit remaining value
        | RotateRight \<Rightarrow> drop_bit count value OR push_bit remaining value)"

fun int_bit_count :: "ty \<Rightarrow> bit_count_op \<Rightarrow> u64 \<Rightarrow> u64" where
  "int_bit_count t Ones value = of_nat (count_ones value)"
| "int_bit_count t LeadingZeros value = of_nat (leading_zeros value - (64 - type_bits t))"
| "int_bit_count t TrailingZeros value = of_nat (min (trailing_zeros value) (type_bits t))"

subsection \<open>bitwise.rs\<close>

datatype bitwise_op = And | Or | Xor

fun bitwise_apply :: "bitwise_op \<Rightarrow> literal \<Rightarrow> literal \<Rightarrow> literal" where
  "bitwise_apply And l r = literal_of_u128 (u128_of_literal l AND u128_of_literal r)"
| "bitwise_apply Or l r = literal_of_u128 (u128_of_literal l OR u128_of_literal r)"
| "bitwise_apply Xor l r = literal_of_u128 (u128_of_literal l XOR u128_of_literal r)"

subsection \<open>Widths and masks\<close>

lemma type_bits_pos [simp]: "0 < type_bits t"
  by (cases t) simp_all

lemma type_bits_scalar [simp]: "is_scalar t \<Longrightarrow> type_bits t \<le> 64"
  by (cases t) simp_all

lemma type_bits_carrier: "type_bits t \<le> type_bits (carrier t)"
  by (cases t) simp_all

lemma carrier_carrier [simp]: "carrier (carrier t) = carrier t"
  by (cases t) simp_all

lemma is_scalar_carrier [simp]: "is_scalar (carrier t) = is_scalar t"
  by (cases t) simp_all

lemma is_integer_scalar: "is_integer t \<Longrightarrow> is_scalar t"
  by (cases t) simp_all

lemma low_mask_eq_mask: "bits \<le> 64 \<Longrightarrow> low_mask bits = mask bits"
  by (rule bit_word_eqI)
    (auto simp: low_mask_def bit_drop_bit_eq bit_mask_iff bit_minus_1_iff)

lemma type_normalize_eq: "is_scalar t \<Longrightarrow> type_normalize t b = take_bit (type_bits t) b"
  by (simp add: type_normalize_def type_mask_def low_mask_eq_mask take_bit_eq_mask)

lemma type_normalize_idem [simp]:
  "is_scalar t \<Longrightarrow> type_normalize t (type_normalize t b) = type_normalize t b"
  by (simp add: type_normalize_eq)

lemma uint_type_normalize: "is_scalar t \<Longrightarrow> uint (type_normalize t b) = uint b mod 2 ^ type_bits t"
  by (simp add: type_normalize_eq unsigned_take_bit_eq flip: take_bit_eq_mod)

text \<open>The two shifts of \<open>signed_value\<close> sign-extend the low bits of the encoding.\<close>

lemma signed_value_eq:
  assumes "is_scalar t"
  shows "signed_value t b = signed_take_bit (type_bits t - 1) (uint b)"
proof -
  let ?s = "64 - type_bits t"
  have n: "0 < type_bits t" "type_bits t \<le> 64" using assms by simp_all
  have "signed_value t b = drop_bit ?s (sint (push_bit ?s b))"
    by (simp add: signed_value_def Let_def sint_signed_drop_bit_eq)
  also have "sint (push_bit ?s b) = signed_take_bit 63 (push_bit ?s (uint b))"
    by (simp add: sint_uint unsigned_push_bit_eq signed_take_bit_take_bit)
  also have "drop_bit ?s (signed_take_bit 63 (push_bit ?s (uint b)))
      = signed_take_bit (type_bits t - 1) (uint b)"
  proof (rule bit_eqI)
    fix k
    have "(63 - ?s) = type_bits t - 1" "min (?s + k) 63 - ?s = min k (type_bits t - 1)"
      using n by auto
    moreover have "?s \<le> min (?s + k) 63" using n by (auto simp del: type_bits_pos)
    ultimately show "bit (drop_bit ?s (signed_take_bit 63 (push_bit ?s (uint b)))) k
        = bit (signed_take_bit (type_bits t - 1) (uint b)) k"
      by (simp add: bit_drop_bit_eq bit_signed_take_bit_iff bit_push_bit_iff min.commute)
  qed
  finally show ?thesis .
qed

end
