(* ===== verification/Expressions.thy ===== *)
theory Expressions
  imports Values
begin

text \<open>
  Pure expressions of the compiler and their literal evaluation: \<open>expression.rs\<close>,
  \<open>expression/operators.rs\<close>, \<open>expression/shuffle.rs\<close>, \<open>expression/evaluate.rs\<close>,
  \<open>expression/evaluate/vector.rs\<close>, \<open>floating.rs\<close> and \<open>floating/vector.rs\<close>. The
  arithmetic of the host's IEEE formats is a parameter (\<open>float_host\<close>): the sources
  call the processor's operations on decoded encodings.
\<close>

subsection \<open>Floating-point operators\<close>

datatype float_format = Binary32 | Binary64
datatype float_binary_op = FAdd | FSub | FMul | FDiv
datatype float_unary_op = FAbs | FNeg | FCeil | FFloor | FTrunc | FNearest | FSqrt
datatype float_convert_op =
  PromoteBinary32 | DemoteBinary32 | FromSignedInteger | FromUnsignedInteger | TruncateSaturatingI32
datatype float_compare_op = FEq | FNe | FLt | FLe | FGt | FGe
datatype vector_convert_op =
  PromoteLowBinary32 | DemoteBinary64Zero
| FromSignedI32 float_format | VTruncateSaturatingI32 float_format

fun format_bits :: "float_format \<Rightarrow> nat" where
  "format_bits Binary32 = 32"
| "format_bits Binary64 = 64"

text \<open>Operations of the host processor on encodings.\<close>

record float_host =
  fh_binary :: "float_format \<Rightarrow> float_binary_op \<Rightarrow> u64 \<Rightarrow> u64 \<Rightarrow> u64"
  fh_unary :: "float_format \<Rightarrow> float_unary_op \<Rightarrow> u64 \<Rightarrow> u64"
  fh_compare :: "float_compare_op \<Rightarrow> u64 \<Rightarrow> u64 \<Rightarrow> bool"
  fh_promote :: "u32 \<Rightarrow> u64"
  fh_demote :: "u64 \<Rightarrow> u32"
  fh_of_int :: "float_format \<Rightarrow> int \<Rightarrow> u64"
  fh_to_i32 :: "float_format \<Rightarrow> u64 \<Rightarrow> u32"

text \<open>\<open>is_nan\<close> reads the encoding: exponent all ones and a nonzero fraction.\<close>

fun is_nan :: "float_format \<Rightarrow> u64 \<Rightarrow> bool" where
  "is_nan Binary32 b = (take_bit 8 (drop_bit 23 b) = 255 \<and> take_bit 23 b \<noteq> 0)"
| "is_nan Binary64 b = (take_bit 11 (drop_bit 52 b) = 2047 \<and> take_bit 52 b \<noteq> 0)"

definition not_nan :: "float_format \<Rightarrow> u64 \<Rightarrow> u64 option" where
  "not_nan f b = (if is_nan f b then None else Some b)"

definition float_binary ::
  "float_host \<Rightarrow> float_format \<Rightarrow> float_binary_op \<Rightarrow> u64 \<Rightarrow> u64 \<Rightarrow> u64 option" where
  "float_binary fh f operator left right =
     (let n = format_bits f in
      not_nan f (take_bit n (fh_binary fh f operator (take_bit n left) (take_bit n right))))"

definition float_unary ::
  "float_host \<Rightarrow> float_format \<Rightarrow> float_unary_op \<Rightarrow> u64 \<Rightarrow> u64 option" where
  "float_unary fh f operator bits =
     (let n = format_bits f; sign = push_bit (n - 1) 1 in
      case operator of
        FAbs \<Rightarrow> Some (bits AND NOT sign)
      | FNeg \<Rightarrow> Some (bits XOR sign)
      | _ \<Rightarrow> not_nan f (take_bit n (fh_unary fh f operator (take_bit n bits))))"

fun float_convert ::
  "float_host \<Rightarrow> float_convert_op \<Rightarrow> ty \<Rightarrow> u64 \<Rightarrow> u64 option" where
  "float_convert fh PromoteBinary32 t bits = not_nan Binary64 (fh_promote fh (ucast bits))"
| "float_convert fh DemoteBinary32 t bits = not_nan Binary32 (ucast (fh_demote fh bits))"
| "float_convert fh FromSignedInteger t bits =
     not_nan Binary64 (fh_of_int fh Binary64 (signed_value t bits))"
| "float_convert fh FromUnsignedInteger t bits =
     not_nan Binary64 (fh_of_int fh Binary64 (uint (type_normalize t bits)))"
| "float_convert fh TruncateSaturatingI32 t bits = Some (ucast (fh_to_i32 fh Binary64 bits))"

definition float_compare ::
  "float_host \<Rightarrow> float_format \<Rightarrow> float_compare_op \<Rightarrow> u64 \<Rightarrow> u64 \<Rightarrow> bool" where
  "float_compare fh f operator left right =
     (let value = (\<lambda>bits. case f of Binary32 \<Rightarrow> fh_promote fh (ucast bits) | Binary64 \<Rightarrow> bits) in
      fh_compare fh operator (value left) (value right))"

subsection \<open>Packed floating-point operators\<close>

fun map_lanes_from :: "nat list \<Rightarrow> (nat \<Rightarrow> u64 option) \<Rightarrow> u128 \<Rightarrow> u128 option" where
  "map_lanes_from [] calculate bits = Some bits"
| "map_lanes_from (offset # rest) calculate bits =
     (case calculate offset of
        None \<Rightarrow> None
      | Some lane \<Rightarrow> map_lanes_from rest calculate (bits OR push_bit offset (ucast lane)))"

definition lane_offsets :: "nat \<Rightarrow> nat list" where
  "lane_offsets width = map (\<lambda>i. i * width) [0..<128 div width]"

definition map_lanes :: "float_format \<Rightarrow> (nat \<Rightarrow> u64 option) \<Rightarrow> u128 option" where
  "map_lanes f calculate = map_lanes_from (lane_offsets (format_bits f)) calculate 0"

definition float_vector_binary ::
  "float_host \<Rightarrow> float_format \<Rightarrow> float_binary_op \<Rightarrow> u128 \<Rightarrow> u128 \<Rightarrow> u128 option" where
  "float_vector_binary fh f operator left right =
     map_lanes f (\<lambda>offset. float_binary fh f operator
       (ucast (drop_bit offset left)) (ucast (drop_bit offset right)))"

definition float_vector_unary ::
  "float_host \<Rightarrow> float_format \<Rightarrow> float_unary_op \<Rightarrow> u128 \<Rightarrow> u128 option" where
  "float_vector_unary fh f operator input =
     map_lanes f (\<lambda>offset. float_unary fh f operator
       (ucast (drop_bit offset input) AND drop_bit (64 - format_bits f) (- 1)))"

definition float_vector_compare ::
  "float_host \<Rightarrow> float_format \<Rightarrow> float_compare_op \<Rightarrow> u128 \<Rightarrow> u128 \<Rightarrow> u128" where
  "float_vector_compare fh f operator left right =
     (let lane_mask = drop_bit (64 - format_bits f) (- 1) in
      the (map_lanes f (\<lambda>offset. Some
        (if float_compare fh f operator
              (ucast (drop_bit offset left)) (ucast (drop_bit offset right))
         then lane_mask else 0))))"

fun convert_lane :: "float_host \<Rightarrow> vector_convert_op \<Rightarrow> u64 \<Rightarrow> u64 option" where
  "convert_lane fh PromoteLowBinary32 bits = float_convert fh PromoteBinary32 I32 bits"
| "convert_lane fh DemoteBinary64Zero bits = float_convert fh DemoteBinary32 F64 bits"
| "convert_lane fh (FromSignedI32 f) bits =
     Some (take_bit (format_bits f) (fh_of_int fh f (sint (ucast bits :: u32))))"
| "convert_lane fh (VTruncateSaturatingI32 f) bits =
     Some (ucast (fh_to_i32 fh f (take_bit (format_bits f) bits)))"

fun convert_shape :: "vector_convert_op \<Rightarrow> nat \<times> nat \<times> nat" where
  "convert_shape PromoteLowBinary32 = (2, 32, 64)"
| "convert_shape DemoteBinary64Zero = (2, 64, 32)"
| "convert_shape (FromSignedI32 f) = (128 div format_bits f, 32, format_bits f)"
| "convert_shape (VTruncateSaturatingI32 f) = (128 div format_bits f, format_bits f, 32)"

fun convert_lanes_from ::
  "float_host \<Rightarrow> vector_convert_op \<Rightarrow> nat \<Rightarrow> nat \<Rightarrow> nat list \<Rightarrow> u128 \<Rightarrow> u128 \<Rightarrow> u128 option" where
  "convert_lanes_from fh operator input_bits output_bits [] input result = Some result"
| "convert_lanes_from fh operator input_bits output_bits (lane # rest) input result =
     (case convert_lane fh operator (ucast (drop_bit (lane * input_bits) input)) of
        None \<Rightarrow> None
      | Some bits \<Rightarrow> convert_lanes_from fh operator input_bits output_bits rest input
          (result OR push_bit (lane * output_bits) (ucast bits)))"

definition float_vector_convert ::
  "float_host \<Rightarrow> vector_convert_op \<Rightarrow> u128 \<Rightarrow> u128 option" where
  "float_vector_convert fh operator input =
     (case convert_shape operator of (count, input_bits, output_bits) \<Rightarrow>
        convert_lanes_from fh operator input_bits output_bits [0..<count] input 0)"

subsection \<open>Shuffle masks\<close>

definition shuffle_bits :: "u8 list \<Rightarrow> u128" where
  "shuffle_bits indices =
     fold (\<lambda>position bits. bits OR push_bit (position * 5) (ucast (indices ! position)))
       [0..<length indices] 0"

text \<open>\<open>ShuffleMask::new\<close> panics (\<open>None\<close>) on an index of 32 or more.\<close>

definition shuffle_mask_new :: "u8 list \<Rightarrow> u8 list option" where
  "shuffle_mask_new indices =
     (if \<forall>index \<in> set indices. index < 32
      then Some (take 10 (to_le_bytes (shuffle_bits indices))) else None)"

definition shuffle_mask_indices :: "u8 list \<Rightarrow> u8 list" where
  "shuffle_mask_indices lanes =
     (let bits = (from_le_bytes (lanes @ replicate 6 0) :: u128) in
      map (\<lambda>position. ucast (drop_bit (position * 5) bits AND 31)) [0..<16])"

subsection \<open>Operators\<close>

datatype lane_op =
  LAdd | LSub | LMul | WideningMulLow bool | WideningMulHigh bool | DotI16Signed
| LEq | LGtSigned | LMinSigned | LMinUnsigned | LMaxSigned | LMaxUnsigned | LAverageUnsigned
| LAddSatSigned | LAddSatUnsigned | LSubSatSigned | LSubSatUnsigned

datatype compare_op = CmpInteger int_compare_op | CmpFloat float_compare_op

datatype shift_operator = Scalar shift_op | Rotate rotate_op | Lanes shift_op ty

datatype unary_op =
  UFloat float_unary_op | FloatConvert float_convert_op
| UFloatVector float_unary_op float_format | FloatVectorConvert vector_convert_op
| BitCount bit_count_op ty | ExtractLane nat | Bitmask ty | Splat ty | PairwiseAddUnsigned ty
| Reinterpret | SignExtend ty | ZeroTest bool | Convert | LowBits nat

datatype binary_op =
  Bitwise bitwise_op | Compare compare_op | ShuffleImmediate "u8 list" | Swizzle ty
| ReplaceLane ty nat | Integer int_op | BFloat float_binary_op
| BFloatVector float_binary_op float_format | FloatVectorCompare float_compare_op float_format
| Vector lane_op ty | Narrow bool ty

datatype ternary_op = Select | Bitselect | Shuffle ty

datatype 'v expression =
  Unary unary_op 'v
| Binary binary_op 'v 'v
| Shift shift_operator 'v 'v
| Ternary ternary_op 'v 'v 'v
| MultiplyWide bool 'v 'v

fun result_types :: "'v expression \<Rightarrow> ty \<Rightarrow> ty list" where
  "result_types (MultiplyWide _ _ _) t = [I64, I64]"
| "result_types _ t = [t]"

fun inputs :: "'v expression \<Rightarrow> 'v list" where
  "inputs (Unary _ a) = [a]"
| "inputs (Binary _ a b) = [a, b]"
| "inputs (Shift _ a b) = [a, b]"
| "inputs (Ternary _ a b c) = [a, b, c]"
| "inputs (MultiplyWide _ a b) = [a, b]"

fun try_map :: "('v \<Rightarrow> 'u option) \<Rightarrow> 'v expression \<Rightarrow> 'u expression option" where
  "try_map f (Unary operator a) = map_option (Unary operator) (f a)"
| "try_map f (Binary operator a b) =
     (case f a of None \<Rightarrow> None | Some a' \<Rightarrow> map_option (Binary operator a') (f b))"
| "try_map f (Shift operator a b) =
     (case f a of None \<Rightarrow> None | Some a' \<Rightarrow> map_option (Shift operator a') (f b))"
| "try_map f (Ternary operator a b c) =
     (case f a of None \<Rightarrow> None | Some a' \<Rightarrow>
       case f b of None \<Rightarrow> None | Some b' \<Rightarrow> map_option (Ternary operator a' b') (f c))"
| "try_map f (MultiplyWide sg a b) =
     (case f a of None \<Rightarrow> None | Some a' \<Rightarrow> map_option (MultiplyWide sg a') (f b))"

end
