(* ===== verification/Evaluate.thy ===== *)
theory Evaluate
  imports Expressions
begin

text \<open>
  Literal evaluation of expressions: \<open>expression/evaluate.rs\<close> and
  \<open>expression/evaluate/vector.rs\<close>. \<open>constant_result\<close> evaluates at the logical types,
  \<open>carrier_result\<close> at the carriers; \<open>None\<close> stands for an operation that is left in
  the expression (a trap, or a NaN whose payload the destination engine chooses).
\<close>

subsection \<open>evaluate/vector.rs\<close>

definition lane_at :: "ty \<Rightarrow> u128 \<Rightarrow> nat \<Rightarrow> u64" where
  "lane_at t v offset = ucast (drop_bit offset v) AND type_mask t"

definition or_lanes :: "nat list \<Rightarrow> (nat \<Rightarrow> u64) \<Rightarrow> u128" where
  "or_lanes offsets lane = fold (\<lambda>offset bits. bits OR push_bit offset (ucast (lane offset))) offsets 0"

definition widening_mul :: "ty \<Rightarrow> u128 \<Rightarrow> u128 \<Rightarrow> bool \<Rightarrow> u128" where
  "widening_mul t left right sg =
     (let result_width = type_bits t * 2; wide_mask = drop_bit (64 - result_width) (- 1) in
      fold (\<lambda>lane bits.
          let offset = lane * type_bits t;
              l = lane_at t left offset;
              r = lane_at t right offset;
              product = (if sg then word_of_int (signed_value t l * signed_value t r) else l * r)
          in bits OR push_bit (lane * result_width) (ucast (product AND wide_mask :: u64)))
        [0..<64 div type_bits t] 0)"

definition dot_i16_pairs :: "u128 \<Rightarrow> u128 \<Rightarrow> u128" where
  "dot_i16_pairs left right =
     (let product = (\<lambda>offset. signed_value I16 (ucast (drop_bit offset left))
                            * signed_value I16 (ucast (drop_bit offset right))) in
      fold (\<lambda>offset bits.
          bits OR push_bit offset (ucast (word_of_int (product offset + product (offset + 16)) :: u32)))
        (lane_offsets 32) 0)"

definition clamp :: "int \<Rightarrow> int \<Rightarrow> int \<Rightarrow> int" where
  "clamp lo hi x = max lo (min hi x)"

text \<open>One lane of a width-preserving operation; the width-changing ones were handled before.\<close>

fun lane_result :: "lane_op \<Rightarrow> ty \<Rightarrow> u64 \<Rightarrow> u64 \<Rightarrow> u64" where
  "lane_result LAdd t l r = l + r"
| "lane_result LSub t l r = l - r"
| "lane_result LMul t l r = l * r"
| "lane_result LMinUnsigned t l r = min l r"
| "lane_result LMaxUnsigned t l r = max l r"
| "lane_result LAverageUnsigned t l r = drop_bit 1 (l + r + 1)"
| "lane_result LMinSigned t l r = word_of_int (min (signed_value t l) (signed_value t r))"
| "lane_result LMaxSigned t l r = word_of_int (max (signed_value t l) (signed_value t r))"
| "lane_result LEq t l r = (if l = r then type_mask t else 0)"
| "lane_result LGtSigned t l r = (if signed_value t l > signed_value t r then type_mask t else 0)"
| "lane_result LAddSatUnsigned t l r = min (l + r) (type_mask t)"
| "lane_result LSubSatUnsigned t l r = (if l < r then 0 else l - r)"
| "lane_result LAddSatSigned t l r =
     (let limit = 2 ^ (type_bits t - 1) in
      word_of_int (clamp (- limit) (limit - 1) (signed_value t l + signed_value t r)))"
| "lane_result LSubSatSigned t l r =
     (let limit = 2 ^ (type_bits t - 1) in
      word_of_int (clamp (- limit) (limit - 1) (signed_value t l - signed_value t r)))"
| "lane_result _ t l r = 0"

definition vector_binary :: "lane_op \<Rightarrow> ty \<Rightarrow> u128 \<Rightarrow> u128 \<Rightarrow> u128" where
  "vector_binary operator t left right =
     (case operator of
        WideningMulLow sg \<Rightarrow> widening_mul t left right sg
      | WideningMulHigh sg \<Rightarrow> widening_mul t (drop_bit 64 left) (drop_bit 64 right) sg
      | DotI16Signed \<Rightarrow> dot_i16_pairs left right
      | _ \<Rightarrow> or_lanes (lane_offsets (type_bits t)) (\<lambda>offset.
          lane_result operator t (lane_at t left offset) (lane_at t right offset) AND type_mask t))"

fun lane_shift :: "shift_op \<Rightarrow> ty \<Rightarrow> u64 \<Rightarrow> nat \<Rightarrow> u64" where
  "lane_shift ShiftLeft t lane count = push_bit count lane"
| "lane_shift ShiftRightUnsigned t lane count = drop_bit count lane"
| "lane_shift ShiftRightSigned t lane count = word_of_int (drop_bit count (signed_value t lane))"

definition vector_shift :: "shift_op \<Rightarrow> ty \<Rightarrow> u128 \<Rightarrow> u32 \<Rightarrow> u128" where
  "vector_shift operator t v count =
     (let count = unat count mod type_bits t in
      or_lanes (lane_offsets (type_bits t)) (\<lambda>offset.
        lane_shift operator t (lane_at t v offset) count AND type_mask t))"

definition pairwise_add_unsigned :: "ty \<Rightarrow> u128 \<Rightarrow> u128" where
  "pairwise_add_unsigned t input =
     (let width = type_bits t; lane_mask = (ucast (type_mask t) :: u128) in
      fold (\<lambda>offset bits.
          let left = drop_bit offset input AND lane_mask;
              right = drop_bit (offset + width) input AND lane_mask
          in bits OR push_bit offset (left + right))
        (lane_offsets (width * 2)) 0)"

definition vector_shuffle :: "u128 \<Rightarrow> u128 \<Rightarrow> u8 list \<Rightarrow> u128" where
  "vector_shuffle left right lanes =
     (let bytes = [to_le_bytes left, to_le_bytes right] in
      from_le_bytes (map (\<lambda>lane. bytes ! (unat lane div 16) ! (unat lane mod 16)) lanes))"

definition narrow_input :: "ty \<Rightarrow> ty" where
  "narrow_input t = (case t of I8 \<Rightarrow> I16 | _ \<Rightarrow> I32)"

definition vector_narrow :: "bool \<Rightarrow> ty \<Rightarrow> u128 \<Rightarrow> u128 \<Rightarrow> u128" where
  "vector_narrow sg result_lane left right =
     (let input_lane = narrow_input result_lane;
          limit = 2 ^ (type_bits result_lane - 1);
          (minimum, maximum) =
            (if sg then (- limit, limit - 1) else (0, uint (type_mask result_lane)));
          half_bits = (\<lambda>half input bits. fold (\<lambda>lane bits.
              let v = signed_value input_lane (ucast (drop_bit (lane * type_bits input_lane) input));
                  result = word_of_int (clamp minimum maximum v) AND type_mask result_lane
              in bits OR push_bit (half * 64 + lane * type_bits result_lane) (ucast (result :: u64)))
            [0..<128 div type_bits input_lane] bits)
      in half_bits 1 right (half_bits 0 left 0))"

subsection \<open>evaluate.rs\<close>

record typed_literal =
  tl_ty :: ty
  tl_value :: literal

abbreviation scalar_of :: "typed_literal \<Rightarrow> u64 option" where
  "scalar_of x \<equiv> lit_scalar (tl_ty x) (tl_value x)"

abbreviation vector_of :: "typed_literal \<Rightarrow> u128" where
  "vector_of x \<equiv> u128_of_literal (tl_value x)"

definition shuffle_bytes :: "ty \<Rightarrow> u128 \<Rightarrow> u128 \<Rightarrow> u128 \<Rightarrow> u128" where
  "shuffle_bytes input_type first second indices =
     (let left = to_le_bytes first; right = to_le_bytes second;
          width = type_bits input_type div 8 in
      from_le_bytes (map (\<lambda>index.
          if unat index < width then left ! unat index
          else if unat index < width * 2 then right ! (unat index - width)
          else 0) (to_le_bytes indices)))"

definition swizzle_bytes :: "ty \<Rightarrow> u128 \<Rightarrow> u128 \<Rightarrow> u128" where
  "swizzle_bytes input_type v indices =
     (let bytes = take (type_bits input_type div 8) (to_le_bytes v) in
      from_le_bytes (map (\<lambda>i. if unat i < length bytes then bytes ! unat i else 0)
        (to_le_bytes indices)))"

definition splat_lanes :: "ty \<Rightarrow> u64 \<Rightarrow> u128" where
  "splat_lanes t bits =
     (let lane = (ucast (type_normalize t bits) :: u128) in
      fold (\<lambda>offset bits. bits OR push_bit offset lane) (lane_offsets (type_bits t)) 0)"

definition bitmask_lanes :: "ty \<Rightarrow> u128 \<Rightarrow> u32" where
  "bitmask_lanes t bits =
     fold (\<lambda>lane m. m OR push_bit lane (ucast (drop_bit ((lane + 1) * type_bits t - 1) bits AND 1)))
       [0..<128 div type_bits t] 0"

definition eval_ternary ::
  "ternary_op \<Rightarrow> typed_literal \<Rightarrow> typed_literal \<Rightarrow> typed_literal \<Rightarrow> ty \<Rightarrow> literal option" where
  "eval_ternary operator first second third result =
     (case operator of
        Select \<Rightarrow> (case scalar_of third of
            None \<Rightarrow> None
          | Some c \<Rightarrow> Some (lit_normalize result (if c \<noteq> 0 then tl_value first else tl_value second)))
      | Bitselect \<Rightarrow> (let m = vector_of third in
          Some (lit_normalize result
            (literal_of_u128 ((vector_of first AND m) OR (vector_of second AND NOT m)))))
      | Shuffle input_type \<Rightarrow>
          Some (lit_normalize result (literal_of_u128
            (shuffle_bytes input_type (vector_of first) (vector_of second) (vector_of third)))))"

abbreviation finish :: "ty \<Rightarrow> u64 option \<Rightarrow> literal option" where
  "finish result bits \<equiv> map_option (\<lambda>b. literal_of_u64 (type_normalize result b)) bits"

abbreviation finish_vector :: "ty \<Rightarrow> u128 \<Rightarrow> literal option" where
  "finish_vector result bits \<equiv> Some (lit_normalize result (literal_of_u128 bits))"

definition eval_unary :: "float_host \<Rightarrow> unary_op \<Rightarrow> typed_literal \<Rightarrow> ty \<Rightarrow> literal option" where
  "eval_unary fh operator input result =
     (case operator of
        UFloatVector op f \<Rightarrow> map_option literal_of_u128 (float_vector_unary fh f op (vector_of input))
      | FloatVectorConvert op \<Rightarrow> map_option literal_of_u128 (float_vector_convert fh op (vector_of input))
      | PairwiseAddUnsigned t \<Rightarrow> finish_vector result (pairwise_add_unsigned t (vector_of input))
      | Splat t \<Rightarrow> (case scalar_of input of None \<Rightarrow> None
          | Some b \<Rightarrow> finish_vector result (splat_lanes t b))
      | Reinterpret \<Rightarrow>
          (if \<not> is_scalar result then
             (case scalar_of input of None \<Rightarrow> None
              | Some b \<Rightarrow> (let lo = (ucast b :: u128) in finish_vector result (lo OR push_bit 64 lo)))
           else if \<not> is_scalar (tl_ty input) then finish result (Some (ucast (vector_of input)))
           else finish result (scalar_of input))
      | Convert \<Rightarrow>
          (if \<not> is_scalar (tl_ty input) then Some (lit_normalize result (tl_value input))
           else finish result (scalar_of input))
      | Bitmask t \<Rightarrow> finish result (Some (ucast (bitmask_lanes t (vector_of input))))
      | ExtractLane lane \<Rightarrow>
          finish result (Some (ucast (drop_bit (lane * type_bits result) (vector_of input))))
      | UFloat op \<Rightarrow> finish result (Option.bind (scalar_of input) (float_unary fh Binary64 op))
      | FloatConvert op \<Rightarrow>
          finish result (Option.bind (scalar_of input) (float_convert fh op (tl_ty input)))
      | BitCount op input_type \<Rightarrow>
          finish result (map_option (\<lambda>b. int_bit_count input_type op (type_normalize input_type b))
            (scalar_of input))
      | SignExtend input_type \<Rightarrow>
          finish result (map_option (\<lambda>b. word_of_int (signed_value input_type b)) (scalar_of input))
      | ZeroTest nonzero \<Rightarrow>
          finish result (map_option (\<lambda>b. of_bool ((b \<noteq> 0) = nonzero)) (scalar_of input))
      | LowBits bits \<Rightarrow> finish result (map_option (\<lambda>b. b AND low_mask bits) (scalar_of input)))"

abbreviation bind2 :: "u64 option \<Rightarrow> u64 option \<Rightarrow> (u64 \<Rightarrow> u64 \<Rightarrow> u64 option) \<Rightarrow> u64 option" where
  "bind2 a b f \<equiv> Option.bind a (\<lambda>x. Option.bind b (f x))"

definition replace_lane :: "ty \<Rightarrow> nat \<Rightarrow> u128 \<Rightarrow> u64 \<Rightarrow> u128" where
  "replace_lane t lane v bits =
     (let shift = lane * type_bits t; m = push_bit shift (ucast (type_mask t) :: u128) in
      (v AND NOT m) OR push_bit shift (ucast (type_normalize t bits)))"

definition eval_binary ::
  "float_host \<Rightarrow> binary_op \<Rightarrow> typed_literal \<Rightarrow> typed_literal \<Rightarrow> ty \<Rightarrow> literal option" where
  "eval_binary fh operator left right result =
     (case operator of
        BFloatVector op f \<Rightarrow>
          map_option literal_of_u128 (float_vector_binary fh f op (vector_of left) (vector_of right))
      | FloatVectorCompare op f \<Rightarrow>
          Some (literal_of_u128 (float_vector_compare fh f op (vector_of left) (vector_of right)))
      | Swizzle t \<Rightarrow> finish_vector result (swizzle_bytes t (vector_of left) (vector_of right))
      | Bitwise op \<Rightarrow> Some (lit_normalize result (bitwise_apply op (tl_value left) (tl_value right)))
      | Vector op t \<Rightarrow> finish_vector result (vector_binary op t (vector_of left) (vector_of right))
      | Narrow sg t \<Rightarrow> finish_vector result (vector_narrow sg t (vector_of left) (vector_of right))
      | ShuffleImmediate lanes \<Rightarrow> finish_vector result
          (vector_shuffle (vector_of left) (vector_of right) (shuffle_mask_indices lanes))
      | ReplaceLane t lane \<Rightarrow> (case scalar_of right of None \<Rightarrow> None
          | Some b \<Rightarrow> finish_vector result (replace_lane t lane (vector_of left) b))
      | Integer op \<Rightarrow>
          finish result (bind2 (scalar_of left) (scalar_of right) (int_binary (tl_ty left) op))
      | BFloat op \<Rightarrow>
          finish result (bind2 (scalar_of left) (scalar_of right) (float_binary fh Binary64 op))
      | Compare (CmpInteger op) \<Rightarrow>
          finish result (bind2 (scalar_of left) (scalar_of right)
            (\<lambda>l r. Some (of_bool (int_compare (tl_ty left) op l r))))
      | Compare (CmpFloat op) \<Rightarrow>
          finish result (bind2 (scalar_of left) (scalar_of right)
            (\<lambda>l r. Some (of_bool (float_compare fh Binary64 op l r)))))"

definition eval_shift ::
  "shift_operator \<Rightarrow> typed_literal \<Rightarrow> typed_literal \<Rightarrow> ty \<Rightarrow> literal option" where
  "eval_shift operator v count result =
     (case scalar_of count of None \<Rightarrow> None
      | Some c \<Rightarrow> (let count = (ucast c :: u32) in
          case operator of
            Lanes op t \<Rightarrow> finish_vector result (vector_shift op t (vector_of v) count)
          | Scalar op \<Rightarrow> finish result (map_option (\<lambda>b. int_shift (tl_ty v) op b count) (scalar_of v))
          | Rotate op \<Rightarrow> finish result (map_option (\<lambda>b. int_rotate (tl_ty v) op b count) (scalar_of v))))"

definition wide_product :: "bool \<Rightarrow> u64 \<Rightarrow> u64 \<Rightarrow> u128" where
  "wide_product sg left right =
     (if sg then word_of_int (sint left * sint right) else ucast left * ucast right)"

fun constant_result ::
  "float_host \<Rightarrow> typed_literal expression \<Rightarrow> ty \<Rightarrow> nat \<Rightarrow> literal option" where
  "constant_result fh (Unary operator input) result component = eval_unary fh operator input result"
| "constant_result fh (Binary operator left right) result component =
     eval_binary fh operator left right result"
| "constant_result fh (Shift operator v count) result component = eval_shift operator v count result"
| "constant_result fh (Ternary operator first second third) result component =
     eval_ternary operator first second third result"
| "constant_result fh (MultiplyWide sg left right) result component =
     finish result (bind2 (scalar_of left) (scalar_of right)
       (\<lambda>l r. Some (ucast (drop_bit (component * 64) (wide_product sg l r)))))"

definition to_carrier :: "typed_literal \<Rightarrow> typed_literal" where
  "to_carrier x =
     \<lparr>tl_ty = carrier (tl_ty x), tl_value = lit_normalize (carrier (tl_ty x)) (tl_value x)\<rparr>"

definition carrier_result ::
  "float_host \<Rightarrow> typed_literal expression \<Rightarrow> ty \<Rightarrow> nat \<Rightarrow> literal option" where
  "carrier_result fh e result component =
     (case e of
        Unary (ExtractLane lane) input \<Rightarrow> constant_result fh e result component
      | _ \<Rightarrow> constant_result fh (map_expression to_carrier e) (carrier result) component)"

end
