(* ===== verification/Value_Table.thy ===== *)
theory Value_Table
  imports Evaluate
begin

text \<open>
  The function graph's value table with its conservative bit bounds: \<open>body/values.rs\<close>,
  \<open>body/values/bounds.rs\<close>, the value definitions of \<open>body.rs\<close> and the producers of
  \<open>body/producer.rs\<close>. The hash table of canonical values is the list of interned ids.
\<close>

subsection \<open>Stored values\<close>

datatype block_item = EvaluateItem nat | EffectItem nat

datatype value_definition =
  Literal literal
| Expression "nat expression"
| Parameter nat nat
| Result block_item nat

record stored_value =
  sv_ty :: ty
  sv_def :: value_definition

definition scalar_literal :: "stored_value \<Rightarrow> u64 option" where
  "scalar_literal v = (case sv_def v of Literal l \<Rightarrow> lit_scalar (sv_ty v) l | _ \<Rightarrow> None)"

record bit_bounds =
  bb_unsigned :: nat
  bb_signed :: nat

subsection \<open>bounds.rs\<close>

definition bounds_union :: "bit_bounds \<Rightarrow> bit_bounds \<Rightarrow> bit_bounds" where
  "bounds_union a b =
     \<lparr>bb_unsigned = max (bb_unsigned a) (bb_unsigned b),
      bb_signed = max (bb_signed a) (bb_signed b)\<rparr>"

fun unary_unsigned :: "ty \<Rightarrow> unary_op \<Rightarrow> bit_bounds \<Rightarrow> nat" where
  "unary_unsigned t (BitCount operator input_type) input =
     (let maximum = (case operator of Ones \<Rightarrow> bb_unsigned input | _ \<Rightarrow> type_bits input_type)
      in 8 - leading_zeros (of_nat maximum :: u8))"
| "unary_unsigned t (LowBits bits) input = min (bb_unsigned input) bits"
| "unary_unsigned t Reinterpret input =
     (if t = V64 then type_bits (carrier t) else min (bb_unsigned input) (type_bits (carrier t)))"
| "unary_unsigned t Convert input = min (bb_unsigned input) (type_bits (carrier t))"
| "unary_unsigned t (ZeroTest _) input = 1"
| "unary_unsigned t (Bitmask lane_type) input = 128 div type_bits lane_type"
| "unary_unsigned t (ExtractLane _) input = type_bits t"
| "unary_unsigned t _ input = type_bits (carrier t)"

fun binary_unsigned :: "ty \<Rightarrow> binary_op \<Rightarrow> bit_bounds \<Rightarrow> bit_bounds \<Rightarrow> nat" where
  "binary_unsigned t (Integer Add) l r =
     min (max (bb_unsigned l) (bb_unsigned r) + 1) (type_bits (carrier t))"
| "binary_unsigned t (Integer Sub) l r = type_bits (carrier t)"
| "binary_unsigned t (Integer Mul) l r =
     min (bb_unsigned l + bb_unsigned r) (type_bits (carrier t))"
| "binary_unsigned t (Integer DivUnsigned) l r = type_bits t"
| "binary_unsigned t (Integer RemUnsigned) l r = type_bits t"
| "binary_unsigned t (Integer _) l r = type_bits (carrier t)"
| "binary_unsigned t (Bitwise And) l r = min (bb_unsigned l) (bb_unsigned r)"
| "binary_unsigned t (Bitwise _) l r = max (bb_unsigned l) (bb_unsigned r)"
| "binary_unsigned t (Compare _) l r = 1"
| "binary_unsigned t _ l r = type_bits (carrier t)"

definition shift_unsigned :: "ty \<Rightarrow> shift_operator \<Rightarrow> bit_bounds \<Rightarrow> u64 option \<Rightarrow> nat" where
  "shift_unsigned t operator input count =
     (case operator of
        Scalar op \<Rightarrow>
          (case count of
             Some bits \<Rightarrow> (let count = shift_count t (ucast bits) in
               case op of
                 ShiftLeft \<Rightarrow> min (bb_unsigned input + count) (type_bits (carrier t))
               | ShiftRightUnsigned \<Rightarrow> bb_unsigned input - count
               | ShiftRightSigned \<Rightarrow> type_bits (carrier t))
           | None \<Rightarrow> (case op of
                 ShiftLeft \<Rightarrow> type_bits (carrier t)
               | ShiftRightUnsigned \<Rightarrow> bb_unsigned input
               | ShiftRightSigned \<Rightarrow> type_bits (carrier t)))
      | _ \<Rightarrow> type_bits (carrier t))"

definition value_unsigned_bits :: "stored_value \<Rightarrow> stored_value list \<Rightarrow> bit_bounds list \<Rightarrow> nat" where
  "value_unsigned_bits v values ibs =
     (let t = sv_ty v; c = type_bits (carrier t) in
      case sv_def v of
        Parameter _ _ \<Rightarrow> c
      | Literal l \<Rightarrow> unsigned_bits l
      | Result (EffectItem _) _ \<Rightarrow> type_bits t
      | Result (EvaluateItem _) _ \<Rightarrow> c
      | Expression e \<Rightarrow>
          (case e of
             Unary operator input \<Rightarrow> unary_unsigned t operator (ibs ! input)
           | Binary operator left right \<Rightarrow> binary_unsigned t operator (ibs ! left) (ibs ! right)
           | Shift operator input count \<Rightarrow>
               shift_unsigned t operator (ibs ! input) (scalar_literal (values ! count))
           | Ternary Select first second third \<Rightarrow>
               max (bb_unsigned (ibs ! first)) (bb_unsigned (ibs ! second))
           | _ \<Rightarrow> c))"

definition literal_signed_bits :: "nat \<Rightarrow> u64 \<Rightarrow> nat" where
  "literal_signed_bits c bits =
     (let sv = (if c = 64 then sint bits else sint (ucast bits :: u32));
          magnitude = (word_of_int (if sv < 0 then NOT sv else sv) :: u64)
      in 65 - leading_zeros magnitude)"

definition for_value :: "stored_value \<Rightarrow> stored_value list \<Rightarrow> bit_bounds list \<Rightarrow> bit_bounds" where
  "for_value v values ibs =
     (let c = type_bits (carrier (sv_ty v));
          u = value_unsigned_bits v values ibs;
          fallback = min (u + 1) c
      in \<lparr>bb_unsigned = u,
          bb_signed = (case sv_def v of
             Literal l \<Rightarrow> (case lit_scalar (sv_ty v) l of None \<Rightarrow> fallback
                | Some bits \<Rightarrow> literal_signed_bits c bits)
           | Expression (Unary (SignExtend input_type) input) \<Rightarrow>
               min (bb_signed (ibs ! input)) (type_bits input_type)
           | Expression (Unary Convert input) \<Rightarrow>
               (if sv_ty v = I64 \<and> sv_ty (values ! input) \<noteq> I64
                then min (bb_unsigned (ibs ! input) + 1) c
                else min (bb_signed (ibs ! input)) c)
           | Expression (Binary (Integer Mul) left right) \<Rightarrow>
               min (bb_signed (ibs ! left) + bb_signed (ibs ! right)) c
           | _ \<Rightarrow> fallback)\<rparr>)"

subsection \<open>values.rs\<close>

record value_table =
  vt_values :: "stored_value list"
  vt_bounds :: "bit_bounds list"
  vt_interned :: "nat list"

definition empty_table :: value_table where
  "empty_table = \<lparr>vt_values = [], vt_bounds = [], vt_interned = []\<rparr>"

definition append_value :: "value_table \<Rightarrow> stored_value \<Rightarrow> bit_bounds \<Rightarrow> value_table" where
  "append_value T v b = T\<lparr>vt_values := vt_values T @ [v], vt_bounds := vt_bounds T @ [b]\<rparr>"

definition result_values :: "nat \<Rightarrow> stored_value \<Rightarrow> stored_value list" where
  "result_values index v =
     (case sv_def v of
        Expression e \<Rightarrow> map (\<lambda>(component, t). \<lparr>sv_ty = t, sv_def = Result (EvaluateItem index) component\<rparr>)
                          (drop 1 (enumerate 0 (result_types e (sv_ty v))))
      | _ \<Rightarrow> [])"

text \<open>Pushing a value also pushes the further results of its expression.\<close>

definition push_with_bounds :: "value_table \<Rightarrow> stored_value \<Rightarrow> bit_bounds \<Rightarrow> value_table \<times> nat" where
  "push_with_bounds T v b =
     (let index = length (vt_values T) in
      (fold (\<lambda>r T. append_value T r (for_value r (vt_values T) (vt_bounds T)))
         (result_values index v) (append_value T v b), index))"

definition push :: "value_table \<Rightarrow> stored_value \<Rightarrow> value_table \<times> nat" where
  "push T v = push_with_bounds T v (for_value v (vt_values T) (vt_bounds T))"

definition intern :: "value_table \<Rightarrow> stored_value \<Rightarrow> value_table \<times> nat" where
  "intern T v =
     (case find (\<lambda>i. vt_values T ! i = v) (vt_interned T) of
        Some index \<Rightarrow> (T, index)
      | None \<Rightarrow> (case push T v of (T', index) \<Rightarrow>
          (T'\<lparr>vt_interned := vt_interned T' @ [index]\<rparr>, index)))"

definition carrier_literal :: "value_table \<Rightarrow> ty \<Rightarrow> literal \<Rightarrow> value_table \<times> nat" where
  "carrier_literal T t bits =
     intern T \<lparr>sv_ty = t, sv_def = Literal (lit_normalize (carrier t) bits)\<rparr>"

definition table_literal :: "value_table \<Rightarrow> ty \<Rightarrow> literal \<Rightarrow> value_table \<times> nat" where
  "table_literal T t bits = carrier_literal T t (lit_normalize t bits)"

text \<open>\<open>ExpressionResult\<close> of an id; \<open>Inl ()\<close> is the panic of a result without an expression.\<close>

definition table_expression :: "value_table \<Rightarrow> nat \<Rightarrow> unit + (nat \<times> nat expression \<times> nat) option" where
  "table_expression T vid =
     (case (case sv_def (vt_values T ! vid) of
              Expression _ \<Rightarrow> Some (vid, 0)
            | Result (EvaluateItem producer) component \<Rightarrow> Some (producer, component)
            | _ \<Rightarrow> None) of
        None \<Rightarrow> Inr None
      | Some (producer, component) \<Rightarrow>
          (case sv_def (vt_values T ! producer) of
             Expression e \<Rightarrow> Inr (Some (producer, e, component))
           | _ \<Rightarrow> Inl ()))"

text \<open>The id of one component of a producer; \<open>None\<close> is the panic of an undeclared one.\<close>

definition expression_result :: "value_table \<Rightarrow> nat \<Rightarrow> nat \<Rightarrow> nat option" where
  "expression_result T producer component =
     (case sv_def (vt_values T ! producer) of
        Expression e \<Rightarrow>
          (if component < length (result_types e (sv_ty (vt_values T ! producer)))
           then Some (producer + component) else None)
      | _ \<Rightarrow> None)"

definition retain_bounds :: "value_table \<Rightarrow> nat \<Rightarrow> nat \<Rightarrow> value_table" where
  "retain_bounds T result original =
     (let known = vt_bounds T ! original; old = vt_bounds T ! result in
      T\<lparr>vt_bounds := (vt_bounds T)[result :=
          \<lparr>bb_unsigned = min (bb_unsigned old) (bb_unsigned known),
           bb_signed = min (bb_signed old) (bb_signed known)\<rparr>]\<rparr>)"

definition carrier_bits :: "value_table \<Rightarrow> nat \<Rightarrow> u64 \<Rightarrow> u64 option" where
  "carrier_bits T vid logical_bits =
     (let v = vt_values T ! vid; t = sv_ty v; b = vt_bounds T ! vid in
      case scalar_literal v of
        Some bits \<Rightarrow> Some (type_normalize (carrier t) bits)
      | None \<Rightarrow>
          (if bb_unsigned b > type_bits t \<and> bb_signed b > type_bits t then None
           else let bits = logical_bits AND type_mask t;
                    bits = (if type_bits t < 32 \<and> bb_signed b \<le> type_bits t
                              \<and> bits AND push_bit (type_bits t - 1) 1 \<noteq> 0
                            then word_of_int (signed_value t bits) else bits)
                in Some (type_normalize (carrier t) bits)))"

text \<open>The loop over carrier-preserving conversions; \<open>None\<close> is a loop that does not end.\<close>

partial_function (option) representation :: "value_table \<Rightarrow> nat \<Rightarrow> nat option" where
  "representation T vid =
     (case sv_def (vt_values T ! vid) of
        Expression (Unary Convert input) \<Rightarrow>
          (if carrier (sv_ty (vt_values T ! vid)) \<noteq> carrier (sv_ty (vt_values T ! input))
           then Some vid else representation T input)
      | _ \<Rightarrow> Some vid)"

end
