(* ===== verification/Bounds_Sound.thy ===== *)
theory Bounds_Sound
  imports Value_Table
begin

text \<open>
  Carrier semantics of the value table and soundness of its bit bounds. The meaning of
  an id is the carrier encoding its operation leaves, computed with the code's own
  literal evaluator; block parameters and effect results come from an environment.
\<close>

subsection \<open>Encodings as integers\<close>

definition lit_uint :: "literal \<Rightarrow> int" where
  "lit_uint l = uint (u128_of_literal l)"

lemma u128_of_literal_of_u128 [simp]: "u128_of_literal (literal_of_u128 b) = b"
  unfolding u128_of_literal_def literal_of_u128_def
  by (rule bit_word_eqI)
    (auto simp: bit_or_iff bit_push_bit_iff bit_ucast_iff bit_drop_bit_eq)

lemma u128_of_literal_of_u64 [simp]: "u128_of_literal (literal_of_u64 b) = ucast b"
  by (simp add: u128_of_literal_def literal_of_u64_def)

lemma lit_uint_of_u64 [simp]: "lit_uint (literal_of_u64 b) = uint b"
  using uint_lt2p [of b] by (simp add: lit_uint_def unsigned_ucast_eq take_bit_int_eq_self_iff)

lemma lit_uint_of_u128 [simp]: "lit_uint (literal_of_u128 b) = uint b"
  by (simp add: lit_uint_def)

lemma lit_uint_nonneg [simp]: "0 \<le> lit_uint l"
  by (simp add: lit_uint_def)

lemma lit_uint_less: "lit_uint l < 2 ^ 128"
  using uint_lt2p [of "u128_of_literal l"] by (simp add: lit_uint_def)

lemma lit_low_eq: "lit_low l = ucast (u128_of_literal l)"
  unfolding u128_of_literal_def
  by (rule bit_word_eqI) (auto simp: bit_or_iff bit_push_bit_iff bit_ucast_iff)

lemma uint_lit_low: "uint (lit_low l) = lit_uint l mod 2 ^ 64"
  by (simp add: lit_low_eq lit_uint_def unsigned_ucast_eq take_bit_eq_mod)

lemma lit_uint_normalize: "lit_uint (lit_normalize t l) = lit_uint l mod 2 ^ type_bits t"
proof (cases "is_scalar t")
  case True
  then have "type_bits t \<le> 64" and "t \<noteq> V64" by auto
  from \<open>type_bits t \<le> 64\<close> have "(2::int) ^ type_bits t dvd 2 ^ 64" by (rule le_imp_power_dvd)
  then show ?thesis using True \<open>t \<noteq> V64\<close>
    by (simp add: lit_normalize_def u64_of_literal_def uint_type_normalize uint_lit_low mod_mod_cancel)
next
  case False
  then have "t = V64 \<or> t = V128" by (cases t) auto
  then show ?thesis
    using lit_uint_less [of l]
    by (auto simp: lit_normalize_def uint_lit_low)
qed

lemma lit_uint_normalize_less: "lit_uint (lit_normalize t l) < 2 ^ type_bits t"
  by (simp add: lit_uint_normalize)

subsection \<open>Carrier semantics of the table\<close>

lemma try_map_cong [fundef_cong]:
  "e = e' \<Longrightarrow> (\<And>x. x \<in> set (inputs e') \<Longrightarrow> f x = g x) \<Longrightarrow> try_map f e = try_map g e'"
  by (cases e') (simp_all split: option.split)

text \<open>The expression and component that define an id, when there are any.\<close>

definition pure_result :: "stored_value list \<Rightarrow> nat \<Rightarrow> (nat expression \<times> nat) option" where
  "pure_result vs i =
     (case sv_def (vs ! i) of
        Expression e \<Rightarrow> Some (e, 0)
      | Result (EvaluateItem p) c \<Rightarrow> (case sv_def (vs ! p) of Expression e \<Rightarrow> Some (e, c) | _ \<Rightarrow> None)
      | _ \<Rightarrow> None)"

text \<open>The result of an operation in one run. An unsigned division reads its dividend as a logical value:
  construction normalizes the dividend, and \<open>place/reduce.rs\<close> drops the normalization on paths whose facts
  show that it changes nothing. A run whose dividend exceeds the logical width is on no such path, and
  the division is then left without a value.\<close>

definition in_logical_width :: "ty \<Rightarrow> typed_literal expression \<Rightarrow> bool" where
  "in_logical_width t e =
     (case e of
        Binary (Integer op) x y \<Rightarrow> op \<in> {DivUnsigned, RemUnsigned} \<longrightarrow> lit_uint (tl_value x) < 2 ^ type_bits t
      | _ \<Rightarrow> True)"

definition path_result :: "float_host \<Rightarrow> typed_literal expression \<Rightarrow> ty \<Rightarrow> nat \<Rightarrow> literal option" where
  "path_result fh e t c = (if in_logical_width t e then carrier_result fh e t c else None)"

lemma path_result_Some: "path_result fh e t c = Some v \<longleftrightarrow> in_logical_width t e \<and> carrier_result fh e t c = Some v"
  by (simp add: path_result_def)

lemma path_result_unary [simp]: "path_result fh (Unary op x) t c = carrier_result fh (Unary op x) t c"
  by (simp add: path_result_def in_logical_width_def)

function carrier_of ::
  "float_host \<Rightarrow> (nat \<Rightarrow> literal) \<Rightarrow> stored_value list \<Rightarrow> nat \<Rightarrow> literal option" where
  "carrier_of fh env vs i =
     (case sv_def (vs ! i) of
        Literal l \<Rightarrow> Some l
      | Parameter _ _ \<Rightarrow> Some (env i)
      | Result (EffectItem _) _ \<Rightarrow> Some (env i)
      | _ \<Rightarrow>
         (case pure_result vs i of
            None \<Rightarrow> None
          | Some (e, c) \<Rightarrow>
             (if \<forall>j \<in> set (inputs e). j < i
              then Option.bind
                (try_map (\<lambda>j. map_option (\<lambda>l. \<lparr>tl_ty = sv_ty (vs ! j), tl_value = l\<rparr>)
                   (if j < i then carrier_of fh env vs j else None)) e)
                (\<lambda>e'. path_result fh e' (sv_ty (vs ! i)) c)
              else None)))"
  by pat_completeness auto
termination
  by (relation "measure (\<lambda>(fh, env, vs, i). i)") auto

declare carrier_of.simps [simp del]

subsection \<open>Fitting a bound\<close>

abbreviation carrier_width :: "ty \<Rightarrow> nat" where
  "carrier_width t \<equiv> type_bits (carrier t)"

text \<open>The carrier's two's-complement reading of an encoding.\<close>

abbreviation carrier_signed :: "ty \<Rightarrow> int \<Rightarrow> int" where
  "carrier_signed t x \<equiv> signed_take_bit (carrier_width t - 1) x"

definition signed_fits :: "nat \<Rightarrow> int \<Rightarrow> bool" where
  "signed_fits s y \<longleftrightarrow> 0 < s \<and> - (2 ^ (s - 1)) \<le> y \<and> y < 2 ^ (s - 1)"

definition fits :: "ty \<Rightarrow> int \<Rightarrow> bit_bounds \<Rightarrow> bool" where
  "fits t x b \<longleftrightarrow>
     0 \<le> x \<and> x < 2 ^ bb_unsigned b \<and> bb_unsigned b \<le> carrier_width t \<and>
     signed_fits (bb_signed b) (carrier_signed t x) \<and> bb_signed b \<le> carrier_width t"

lemma signed_fits_carrier: "0 < w \<Longrightarrow> signed_fits w (signed_take_bit (w - 1) x)"
  using signed_take_bit_int_greater_eq_minus_exp [of "w - 1" x] signed_take_bit_int_less_exp [of "w - 1" x]
  by (simp add: signed_fits_def)

lemma exp_mono_int: "n \<le> m \<Longrightarrow> (2::int) ^ n \<le> 2 ^ m"
  by (rule power_increasing) simp_all

lemma signed_fits_mono: "signed_fits s y \<Longrightarrow> s \<le> s' \<Longrightarrow> signed_fits s' y"
  unfolding signed_fits_def using exp_mono_int [of "s - 1" "s' - 1"] by linarith

lemma signed_fits_self: "signed_fits s y \<Longrightarrow> s \<le> w \<Longrightarrow> signed_take_bit (w - 1) y = y"
  using signed_fits_mono [of s y w] by (auto simp: signed_fits_def signed_take_bit_int_eq_self_iff)

lemma fits_less_carrier: "fits t x b \<Longrightarrow> x < 2 ^ carrier_width t"
  unfolding fits_def by (meson less_le_trans one_le_numeral power_increasing)

text \<open>A zero-extended value needs one more bit for a nonnegative sign.\<close>

lemma fits_fallback:
  assumes "0 \<le> x" and "x < 2 ^ u" and "u \<le> carrier_width t"
  shows "fits t x \<lparr>bb_unsigned = u, bb_signed = min (u + 1) (carrier_width t)\<rparr>"
proof (cases "u < carrier_width t")
  case True
  then have "x < 2 ^ (carrier_width t - 1)"
    using assms(2) exp_mono_int [of u "carrier_width t - 1"] by linarith
  moreover have "- (2 ^ (carrier_width t - 1)) \<le> x"
    using assms(1) zero_le_power [of "2::int" "carrier_width t - 1"] by linarith
  ultimately have "carrier_signed t x = x"
    by (simp add: signed_take_bit_int_eq_self_iff)
  moreover have "- (2 ^ u) \<le> x"
    using assms(1) zero_le_power [of "2::int" u] by linarith
  ultimately show ?thesis using True assms
    by (simp add: fits_def signed_fits_def)
next
  case False
  with assms show ?thesis
    using signed_fits_carrier [of "carrier_width t" x] by (simp add: fits_def)
qed

subsection \<open>Operands and results at their carriers\<close>

abbreviation operand_fits :: "typed_literal \<Rightarrow> bit_bounds \<Rightarrow> bool" where
  "operand_fits x b \<equiv> fits (tl_ty x) (lit_uint (tl_value x)) b"

lemma lit_uint_to_carrier: "operand_fits x b \<Longrightarrow> lit_uint (tl_value (to_carrier x)) = lit_uint (tl_value x)"
  using fits_less_carrier [of "tl_ty x" "lit_uint (tl_value x)" b]
  by (simp add: to_carrier_def lit_uint_normalize)

lemma vector_of_to_carrier: "operand_fits x b \<Longrightarrow> vector_of (to_carrier x) = vector_of x"
  using lit_uint_to_carrier [of x b] by (simp add: lit_uint_def word_uint_eq_iff)

lemma scalar_of_to_carrier:
  assumes "operand_fits x b" and "is_scalar (tl_ty x)"
  obtains w where "scalar_of (to_carrier x) = Some w" and "uint w = lit_uint (tl_value x)"
proof -
  have "lit_uint (tl_value x) < 2 ^ 64"
    using fits_less_carrier [OF assms(1)] exp_mono_int [of "carrier_width (tl_ty x)" 64] assms(2)
    by (simp add: less_le_trans)
  then have "uint (lit_low (tl_value (to_carrier x))) = lit_uint (tl_value x)"
    using lit_uint_to_carrier [OF assms(1)] by (simp add: uint_lit_low)
  moreover have "scalar_of (to_carrier x) = Some (lit_low (tl_value (to_carrier x)))"
    using assms(2) by (simp add: lit_scalar_def u64_of_literal_def to_carrier_def)
  ultimately show ?thesis using that by blast
qed

lemma tl_ty_to_carrier [simp]: "tl_ty (to_carrier x) = carrier (tl_ty x)"
  by (simp add: to_carrier_def)

lemma uint_type_normalize_less: "uint (type_normalize t b) < 2 ^ type_bits t"
proof (cases "is_scalar t")
  case True
  then show ?thesis by (simp add: uint_type_normalize)
next
  case False
  then have "64 \<le> type_bits t" by (cases t) auto
  then show ?thesis using uint_lt2p [of "type_normalize t b"] exp_mono_int [of 64 "type_bits t"]
    by (simp add: less_le_trans)
qed

lemma uint_type_normalize_le: "is_scalar t \<Longrightarrow> uint (type_normalize t b) \<le> uint b"
  by (simp add: uint_type_normalize zmod_le_nonneg_dividend)

text \<open>Results that bypass normalization are full vectors.\<close>

fun raw_vector :: "'v expression \<Rightarrow> bool" where
  "raw_vector (Unary (UFloatVector _ _) _) = True"
| "raw_vector (Unary (FloatVectorConvert _) _) = True"
| "raw_vector (Binary (BFloatVector _ _) _ _) = True"
| "raw_vector (Binary (FloatVectorCompare _ _) _ _) = True"
| "raw_vector _ = False"

lemma constant_result_less:
  assumes "constant_result fh e t c = Some v" and "raw_vector e \<Longrightarrow> t = V128"
  shows "lit_uint v < 2 ^ type_bits t"
proof (cases e)
  case (Unary op a)
  with assms show ?thesis
    by (cases op) (auto simp: eval_unary_def lit_uint_normalize_less uint_type_normalize_less
        uint_lt2p [where 'a = 128, simplified] Let_def split: option.splits if_splits)
next
  case (Binary op a b)
  with assms show ?thesis
    by (cases op) (auto simp: eval_binary_def lit_uint_normalize_less uint_type_normalize_less
        uint_lt2p [where 'a = 128, simplified] split: option.splits compare_op.splits)
next
  case (Shift op a b)
  with assms show ?thesis
    by (cases op) (auto simp: eval_shift_def lit_uint_normalize_less uint_type_normalize_less Let_def
        split: option.splits)
next
  case (Ternary op a b d)
  with assms show ?thesis
    by (cases op) (auto simp: eval_ternary_def lit_uint_normalize_less Let_def split: option.splits)
next
  case (MultiplyWide sg a b)
  with assms show ?thesis by (auto simp: uint_type_normalize_less)
qed

lemma raw_vector_map [simp]: "raw_vector (map_expression f e) = raw_vector e"
proof (cases e)
  case (Unary op a)
  then show ?thesis by (cases op) simp_all
next
  case (Binary op a b)
  then show ?thesis by (cases op) simp_all
qed simp_all

lemma carrier_result_less:
  assumes "carrier_result fh e t c = Some v" and "raw_vector e \<Longrightarrow> \<not> is_scalar t"
  shows "lit_uint v < 2 ^ carrier_width t"
proof (cases "\<exists>lane a. e = Unary (ExtractLane lane) a")
  case True
  then have "constant_result fh e t c = Some v" and "\<not> raw_vector e"
    using assms(1) by (auto simp: carrier_result_def)
  then have "lit_uint v < 2 ^ type_bits t" using constant_result_less by blast
  then show ?thesis using exp_mono_int [OF type_bits_carrier, of t] by linarith
next
  case False
  then have "constant_result fh (map_expression to_carrier e) (carrier t) c = Some v"
    using assms(1) by (auto simp: carrier_result_def split: expression.splits unary_op.splits)
  moreover have "raw_vector (map_expression to_carrier e) \<Longrightarrow> carrier t = V128"
    using assms(2) by (cases t) auto
  ultimately show ?thesis by (rule constant_result_less)
qed

subsection \<open>Unsigned bounds of the operators\<close>

text \<open>What construction guarantees of an operation's types.\<close>

fun wt_unary :: "ty \<Rightarrow> unary_op \<Rightarrow> ty \<Rightarrow> bool" where
  "wt_unary t (UFloatVector _ _) ti = (\<not> is_scalar t)"
| "wt_unary t (FloatVectorConvert _) ti = (\<not> is_scalar t)"
| "wt_unary t (BitCount _ input_type) ti = (is_integer t \<and> is_integer ti \<and> is_integer input_type)"
| "wt_unary t (LowBits bits) ti = (is_integer t \<and> is_integer ti \<and> bits \<le> carrier_width t)"
| "wt_unary t Reinterpret ti = (type_bits t = type_bits ti \<and> t \<noteq> V128)"
| "wt_unary t Convert ti = (is_integer t \<and> is_integer ti \<or> \<not> is_scalar t \<and> \<not> is_scalar ti)"
| "wt_unary t (Bitmask lane_type) ti = (is_integer t \<and> 8 \<le> type_bits lane_type)"
| "wt_unary t (ExtractLane _) ti = is_scalar t"
| "wt_unary t (SignExtend input_type) ti =
     (is_integer t \<and> is_integer ti \<and> is_integer input_type \<and>
      type_bits input_type \<le> carrier_width ti \<and> type_bits input_type \<le> carrier_width t)"
| "wt_unary t (ZeroTest _) ti = (is_integer t \<and> is_scalar ti)"
| "wt_unary t _ ti = True"

fun wt_binary :: "ty \<Rightarrow> binary_op \<Rightarrow> ty \<Rightarrow> ty \<Rightarrow> bool" where
  "wt_binary t (BFloatVector _ _) t1 t2 = (\<not> is_scalar t)"
| "wt_binary t (FloatVectorCompare _ _) t1 t2 = (\<not> is_scalar t)"
| "wt_binary t (Integer op) t1 t2 =
     (is_integer t \<and> is_integer t1 \<and> is_integer t2 \<and> carrier t1 = carrier t \<and> carrier t2 = carrier t)"
| "wt_binary t (Bitwise _) t1 t2 = (carrier t1 = carrier t \<and> carrier t2 = carrier t)"
| "wt_binary t (Compare _) t1 t2 = (is_integer t \<and> is_scalar t1 \<and> is_scalar t2)"
| "wt_binary t _ t1 t2 = True"

fun wt_shift :: "ty \<Rightarrow> shift_operator \<Rightarrow> ty \<Rightarrow> ty \<Rightarrow> bool" where
  "wt_shift t (Scalar _) ti tc = (is_integer t \<and> is_integer ti \<and> is_integer tc \<and> carrier ti = carrier t)"
| "wt_shift t _ ti tc = True"

fun wt_ternary :: "ty \<Rightarrow> ternary_op \<Rightarrow> ty \<Rightarrow> ty \<Rightarrow> ty \<Rightarrow> bool" where
  "wt_ternary t Select ta tb tc = (carrier ta = carrier t \<and> carrier tb = carrier t \<and> is_scalar tc)"
| "wt_ternary t _ ta tb tc = True"

lemma carrier_width_integer: "is_integer t \<Longrightarrow> 32 \<le> carrier_width t"
  by (cases t) simp_all

lemma significant_bits_bound:
  assumes "n \<le> m" and "m \<le> 64"
  shows "int n < 2 ^ (8 - leading_zeros (of_nat m :: u8))"
proof -
  have "uint (of_nat m :: u8) = int m" using assms(2) by (simp add: uint_nat unat_of_nat)
  then show ?thesis
    using leading_zeros_bound [of "of_nat m :: u8" "8 - leading_zeros (of_nat m :: u8)"] assms(1)
    by simp
qed

lemma int_bit_count_bound:
  assumes "is_integer input_type" and "uint w = x" and "operand_fits x' b" and "lit_uint (tl_value x') = x"
    and "is_integer (tl_ty x')"
  shows "uint (int_bit_count input_type op (type_normalize input_type w))
    < 2 ^ unary_unsigned t (BitCount op input_type) b"
proof -
  let ?n = "type_normalize input_type w"
  have u: "bb_unsigned b \<le> 64"
    using assms(3,5) unfolding fits_def by (cases "tl_ty x'") auto
  have it: "type_bits input_type \<le> 64" using assms(1) by (simp add: is_integer_scalar)
  have le: "uint ?n < 2 ^ bb_unsigned b"
    using assms uint_type_normalize_le [of input_type w] by (simp add: is_integer_scalar fits_def)
  show ?thesis
  proof (cases op)
    case Ones
    have c: "count_ones ?n \<le> bb_unsigned b" by (rule count_ones_le [OF le])
    with u have "uint (of_nat (count_ones ?n) :: u64) = int (count_ones ?n)"
      by (simp add: uint_nat unat_of_nat)
    with Ones significant_bits_bound [OF c u] show ?thesis by simp
  next
    case LeadingZeros
    let ?c = "leading_zeros ?n - (64 - type_bits input_type)"
    have c: "?c \<le> type_bits input_type" using leading_zeros_le [of ?n] it by simp
    with it have "uint (of_nat ?c :: u64) = int ?c" by (simp add: uint_nat unat_of_nat)
    with LeadingZeros significant_bits_bound [OF c it] show ?thesis by simp
  next
    case TrailingZeros
    let ?c = "min (trailing_zeros ?n) (type_bits input_type)"
    have c: "?c \<le> type_bits input_type" by simp
    with it have "uint (of_nat ?c :: u64) = int ?c" by (simp add: uint_nat unat_of_nat)
    with TrailingZeros significant_bits_bound [OF c it] show ?thesis by simp
  qed
qed

lemma uint_and_low_mask_less:
  assumes "uint w < 2 ^ n" and "bits \<le> 64"
  shows "uint (w AND low_mask bits) < 2 ^ min n bits"
proof -
  have "uint (take_bit bits w) < 2 ^ bits" by (simp add: unsigned_take_bit_eq)
  moreover have "uint (take_bit bits w) \<le> uint w"
    by (simp add: unsigned_take_bit_eq take_bit_int_less_eq_self_iff)
  ultimately show ?thesis using assms
    by (simp add: low_mask_eq_mask min_def flip: take_bit_eq_mask)
qed

lemma uint_bitmask_lanes_less:
  "uint (bitmask_lanes t v) < 2 ^ (128 div type_bits t)"
proof -
  have "uint (fold (\<lambda>lane m. m OR push_bit lane (ucast (f lane AND (1 :: u128)) :: u32)) [0..<n] 0) < 2 ^ n"
    for f n
  proof (induction n)
    case (Suc n)
    let ?r = "fold (\<lambda>lane m. m OR push_bit lane (ucast (f lane AND (1 :: u128)) :: u32)) [0..<n] 0"
    have "\<not> bit (?r OR push_bit n (ucast (f n AND 1))) k" if "Suc n \<le> k" for k
      using that Suc.IH uint_less_exp_bits_zero [of ?r n]
      by (auto simp: bit_or_iff bit_push_bit_iff bit_ucast_iff bit_and_iff bit_1_iff)
    then show ?case using uint_less_exp_bits_zero [of "?r OR push_bit n (ucast (f n AND 1))" "Suc n"]
      by (simp del: power_Suc)
  qed simp
  then show ?thesis by (simp add: bitmask_lanes_def)
qed

lemma carrier_result_unary:
  "\<forall>lane. op \<noteq> ExtractLane lane \<Longrightarrow>
   carrier_result fh (Unary op x) t c = eval_unary fh op (to_carrier x) (carrier t)"
  by (cases op) (simp_all add: carrier_result_def)

lemma normalize_less:
  "is_scalar t \<Longrightarrow> uint w < 2 ^ n \<Longrightarrow> uint (type_normalize t w) < 2 ^ min n (type_bits t)"
  using uint_type_normalize_le [of t w] uint_type_normalize_less [of t w]
  by (simp add: min_def)

lemma normalize_of_bool_less: "is_scalar t \<Longrightarrow> uint (type_normalize t (of_bool p)) < 2"
  using uint_type_normalize_le [of t "of_bool p"] by (cases p) simp_all

lemmas carrier_eval = carrier_result_unary eval_unary_def

lemma operand_scalar:
  assumes "operand_fits x b" and "is_scalar (tl_ty x)"
  shows "\<exists>w. scalar_of (to_carrier x) = Some w \<and> uint w = lit_uint (tl_value x) \<and> uint w < 2 ^ bb_unsigned b"
  using scalar_of_to_carrier [OF assms] assms(1) by (metis fits_def)

lemma bit_count_bound:
  assumes "carrier_result fh (Unary (BitCount cop it) x) t c = Some v" and "operand_fits x b"
    and wt: "is_integer t" "is_integer (tl_ty x)" "is_integer it"
  shows "lit_uint v < 2 ^ unary_unsigned t (BitCount cop it) b"
proof -
  obtain w where w: "scalar_of (to_carrier x) = Some w" "uint w = lit_uint (tl_value x)"
    using operand_scalar [OF assms(2)] wt is_integer_scalar by blast
  have "uint (int_bit_count it cop (type_normalize it w)) < 2 ^ unary_unsigned t (BitCount cop it) b"
    by (rule int_bit_count_bound [OF wt(3) w(2) assms(2) refl wt(2)])
  then have "uint (type_normalize (carrier t) (int_bit_count it cop (type_normalize it w)))
      < 2 ^ unary_unsigned t (BitCount cop it) b"
    using uint_type_normalize_le [of "carrier t" "int_bit_count it cop (type_normalize it w)"] wt(1)
    by (simp add: is_integer_scalar)
  then show ?thesis using assms(1) w(1) by (auto simp: carrier_eval)
qed

lemma low_bits_bound:
  assumes "carrier_result fh (Unary (LowBits bits) x) t c = Some v" and "operand_fits x b"
    and wt: "is_integer t" "is_integer (tl_ty x)" "bits \<le> carrier_width t"
  shows "lit_uint v < 2 ^ min (bb_unsigned b) bits"
proof -
  obtain w where w: "scalar_of (to_carrier x) = Some w" "uint w < 2 ^ bb_unsigned b"
    using operand_scalar [OF assms(2)] wt is_integer_scalar by blast
  have "bits \<le> 64" using wt by (cases t) auto
  then have "uint (w AND low_mask bits) < 2 ^ min (bb_unsigned b) bits"
    using uint_and_low_mask_less w(2) by simp
  then have "uint (type_normalize (carrier t) (w AND low_mask bits)) < 2 ^ min (bb_unsigned b) bits"
    using uint_type_normalize_le [of "carrier t" "w AND low_mask bits"] wt(1)
    by (simp add: is_integer_scalar)
  then show ?thesis using assms(1) w(1) by (auto simp: carrier_eval)
qed

lemma scalar_move_bound:
  assumes "carrier_result fh (Unary op x) t c = Some v" and "operand_fits x b"
    and "op = Reinterpret \<or> op = Convert" and "is_scalar t" and "is_scalar (tl_ty x)"
  shows "lit_uint v < 2 ^ min (bb_unsigned b) (carrier_width t)"
proof -
  obtain w where "scalar_of (to_carrier x) = Some w" "uint w < 2 ^ bb_unsigned b"
    using operand_scalar [OF assms(2,5)] by blast
  then show ?thesis
    using assms normalize_less [of "carrier t" w "bb_unsigned b"] by (auto simp: carrier_eval)
qed

lemma reinterpret_bound:
  assumes "carrier_result fh (Unary Reinterpret x) t c = Some v" and "operand_fits x b"
    and "type_bits t = type_bits (tl_ty x)" and "lit_uint v < 2 ^ carrier_width t"
  shows "lit_uint v < 2 ^ unary_unsigned t Reinterpret b"
proof -
  consider "is_scalar t" "is_scalar (tl_ty x)" | "\<not> is_scalar t" | "is_scalar t" "\<not> is_scalar (tl_ty x)"
    by blast
  then show ?thesis
  proof cases
    case 1
    then show ?thesis using scalar_move_bound [OF assms(1,2)] by auto
  next
    case 2
    then show ?thesis using assms
      by (cases t; cases "tl_ty x") (auto simp: carrier_eval lit_scalar_def)
  next
    case 3
    have "uint (ucast (vector_of x) :: u64) \<le> lit_uint (tl_value x)"
      by (simp add: lit_uint_def unsigned_ucast_eq take_bit_int_less_eq_self_iff)
    then have "uint (ucast (vector_of x) :: u64) < 2 ^ bb_unsigned b"
      using assms(2) by (simp add: fits_def)
    then show ?thesis
      using assms(1) 3 vector_of_to_carrier [OF assms(2)]
        normalize_less [of "carrier t" "ucast (vector_of x)" "bb_unsigned b"]
      by (auto simp: carrier_eval)
  qed
qed

lemma convert_bound:
  assumes "carrier_result fh (Unary Convert x) t c = Some v" and "operand_fits x b"
    and "wt_unary t Convert (tl_ty x)" and "lit_uint v < 2 ^ carrier_width t"
  shows "lit_uint v < 2 ^ min (bb_unsigned b) (carrier_width t)"
proof (cases "is_scalar (tl_ty x)")
  case True
  then have "is_scalar t" using assms(3) is_integer_scalar by auto
  then show ?thesis using True assms by (blast intro: scalar_move_bound)
next
  case False
  then have "v = lit_normalize (carrier t) (tl_value (to_carrier x))"
    using assms(1) by (simp add: carrier_eval)
  then have "lit_uint v \<le> lit_uint (tl_value x)"
    using lit_uint_to_carrier [OF assms(2)] by (simp add: lit_uint_normalize zmod_le_nonneg_dividend)
  then show ?thesis using assms(2,4) by (simp add: min_def fits_def)
qed

lemma bitmask_bound:
  assumes "carrier_result fh (Unary (Bitmask lt) x) t c = Some v" and "operand_fits x b"
    and "is_integer t"
  shows "lit_uint v < 2 ^ (128 div type_bits lt)"
proof -
  have "uint (ucast (bitmask_lanes lt (vector_of x)) :: u64) = uint (bitmask_lanes lt (vector_of x))"
    using uint_lt2p [of "bitmask_lanes lt (vector_of x)"]
    by (simp add: unsigned_ucast_eq take_bit_int_eq_self_iff)
  then show ?thesis
    using assms vector_of_to_carrier [OF assms(2)] uint_bitmask_lanes_less [of lt "vector_of x"]
      uint_type_normalize_le [of "carrier t" "ucast (bitmask_lanes lt (vector_of x))"]
    by (auto simp: carrier_eval is_integer_scalar)
qed

lemma zero_test_bound:
  assumes "carrier_result fh (Unary (ZeroTest nz) x) t c = Some v" and "is_integer t"
  shows "lit_uint v < 2"
  using assms normalize_of_bool_less [of "carrier t"]
  by (auto simp: carrier_eval is_integer_scalar simp del: of_bool_eq)

lemma unary_bound:
  assumes "carrier_result fh (Unary op x) t c = Some v" and "operand_fits x b"
    and "wt_unary t op (tl_ty x)"
  shows "lit_uint v < 2 ^ unary_unsigned t op b \<and> unary_unsigned t op b \<le> carrier_width t"
proof -
  have carrier_bound: "lit_uint v < 2 ^ carrier_width t"
    using carrier_result_less [OF assms(1)] assms(3) by (cases op) auto
  show ?thesis
  proof (cases op)
    case (BitCount cop it)
    then show ?thesis using bit_count_bound [of fh cop it x t c v b] assms carrier_width_integer [of t]
      by (simp add: Let_def)
  next
    case (LowBits bits)
    then show ?thesis using low_bits_bound [of fh bits x t c v b] assms by auto
  next
    case Reinterpret
    then show ?thesis using reinterpret_bound [of fh x t c v b] assms carrier_bound by auto
  next
    case Convert
    then show ?thesis using convert_bound [of fh x t c v b] assms carrier_bound by auto
  next
    case (ZeroTest nz)
    then show ?thesis using zero_test_bound [of fh nz x t c v] assms carrier_width_integer [of t] by auto
  next
    case (Bitmask lt)
    then have "128 div type_bits lt \<le> 128 div 8" using assms(3) by (intro div_le_mono2) simp_all
    then show ?thesis using bitmask_bound [of fh lt x t c v b] assms Bitmask carrier_width_integer [of t]
      by auto
  next
    case (ExtractLane lane)
    then show ?thesis using assms(1,3) type_bits_carrier [of t] uint_type_normalize_less [of t]
      by (auto simp: carrier_result_def eval_unary_def)
  qed (use carrier_bound in simp_all)
qed

lemma carrier_result_binary:
  "carrier_result fh (Binary op x y) t c = eval_binary fh op (to_carrier x) (to_carrier y) (carrier t)"
  by (simp add: carrier_result_def)

lemma exp_max_Suc: "a < 2 ^ n \<Longrightarrow> b < 2 ^ m \<Longrightarrow> a + b < (2::int) ^ (max n m + 1)"
  using exp_mono_int [OF max.cobounded1, of n m] exp_mono_int [OF max.cobounded2, of m n]
  unfolding power_add power_one_right by linarith

lemma int_div_le: "0 \<le> a \<Longrightarrow> 0 \<le> b \<Longrightarrow> a div b \<le> (a::int)"
  using zdiv_mono2 [of a 1 b] by (cases "b = 0") simp_all

lemma exp_mult: "0 \<le> a \<Longrightarrow> a < 2 ^ n \<Longrightarrow> 0 \<le> b \<Longrightarrow> b < 2 ^ m \<Longrightarrow> a * b < (2::int) ^ (n + m)"
  by (simp add: power_add mult_strict_mono)

lemma integer_bound:
  assumes "carrier_result fh (Binary (Integer op) x y) t c = Some v"
    and "operand_fits x b1" and "operand_fits y b2"
    and dividend: "in_logical_width t (Binary (Integer op) x y)"
    and wt: "wt_binary t (Integer op) (tl_ty x) (tl_ty y)"
    and "lit_uint v < 2 ^ carrier_width t"
  shows "lit_uint v < 2 ^ binary_unsigned t (Integer op) b1 b2
    \<and> binary_unsigned t (Integer op) b1 b2 \<le> carrier_width t"
proof -
  have sc: "is_scalar (tl_ty x)" "is_scalar (tl_ty y)" "is_scalar t" using wt by (auto simp: is_integer_scalar)
  obtain l r where l: "scalar_of (to_carrier x) = Some l" "uint l < 2 ^ bb_unsigned b1" "uint l = lit_uint (tl_value x)"
    and r: "scalar_of (to_carrier y) = Some r" "uint r < 2 ^ bb_unsigned b2"
    using operand_scalar [OF assms(2) sc(1)] operand_scalar [OF assms(3) sc(2)] by blast
  obtain z where z: "int_binary (carrier (tl_ty x)) op l r = Some z"
    and v: "v = literal_of_u64 (type_normalize (carrier t) z)"
    using assms(1) l(1) r(1) by (auto simp: carrier_result_binary eval_binary_def)
  have *: "uint z < 2 ^ n \<Longrightarrow> lit_uint v < 2 ^ min n (carrier_width t)" for n
    using normalize_less [of "carrier t" z n] sc v by simp
  have small: "uint z \<le> uint l" if "op = DivUnsigned \<or> op = RemUnsigned"
    using z that by (auto simp: checked_div_def checked_rem_def uint_div uint_mod
        int_div_le zmod_le_nonneg_dividend split: if_splits)
  show ?thesis
  proof (cases op)
    case Add
    then have "z = l + r" using z by simp
    then have "uint z \<le> uint l + uint r" by (simp add: uint_word_ariths zmod_le_nonneg_dividend)
    then have "uint z < 2 ^ (max (bb_unsigned b1) (bb_unsigned b2) + 1)"
      using exp_max_Suc [OF l(2) r(2)] by linarith
    from * [OF this] Add show ?thesis by simp
  next
    case Mul
    then have "z = l * r" using z by simp
    then have "uint z \<le> uint l * uint r" by (simp add: uint_word_ariths zmod_le_nonneg_dividend)
    then have "uint z < 2 ^ (bb_unsigned b1 + bb_unsigned b2)"
      using exp_mult [OF _ l(2) _ r(2)] by simp
    from * [OF this] Mul show ?thesis by simp
  next
    case DivUnsigned
    then have "uint l < 2 ^ type_bits t" using dividend l(3) by (simp add: in_logical_width_def)
    moreover have "uint z \<le> uint l" using small DivUnsigned by simp
    ultimately have "uint z < 2 ^ type_bits t" by linarith
    from * [OF this] DivUnsigned show ?thesis using type_bits_carrier [of t] by simp
  next
    case RemUnsigned
    then have "uint l < 2 ^ type_bits t" using dividend l(3) by (simp add: in_logical_width_def)
    moreover have "uint z \<le> uint l" using small RemUnsigned by simp
    ultimately have "uint z < 2 ^ type_bits t" by linarith
    from * [OF this] RemUnsigned show ?thesis using type_bits_carrier [of t] by simp
  qed (use assms(6) in simp_all)
qed

lemma exp_and_less: "uint (a AND b :: 'a::len word) < 2 ^ n" if "uint a < 2 ^ n \<or> uint b < 2 ^ n"
  using that by (auto simp: uint_less_exp_bits_zero bit_and_iff)

lemma exp_or_less:
  fixes a b :: "'a::len word"
  assumes "uint a < 2 ^ n" and "uint b < 2 ^ m"
  shows "uint (a OR b) < 2 ^ max n m" and "uint (a XOR b) < 2 ^ max n m"
  using assms by (auto simp: uint_less_exp_bits_zero bit_or_iff bit_xor_iff)

lemma bitwise_bound:
  assumes "carrier_result fh (Binary (Bitwise op) x y) t c = Some v"
    and "operand_fits x b1" and "operand_fits y b2"
    and wt: "carrier (tl_ty x) = carrier t" "carrier (tl_ty y) = carrier t"
  shows "lit_uint v < 2 ^ binary_unsigned t (Bitwise op) b1 b2
    \<and> binary_unsigned t (Bitwise op) b1 b2 \<le> carrier_width t"
proof -
  let ?z = "bitwise_apply op (tl_value (to_carrier x)) (tl_value (to_carrier y))"
  have v: "v = lit_normalize (carrier t) ?z"
    using assms(1) by (auto simp: carrier_result_binary eval_binary_def)
  then have le: "lit_uint v \<le> lit_uint ?z" by (simp add: lit_uint_normalize zmod_le_nonneg_dividend)
  have u: "uint (vector_of x) < 2 ^ bb_unsigned b1" "uint (vector_of y) < 2 ^ bb_unsigned b2"
    and b: "bb_unsigned b1 \<le> carrier_width t" "bb_unsigned b2 \<le> carrier_width t"
    using assms(2,3) wt by (simp_all add: fits_def lit_uint_def)
  have "lit_uint ?z < 2 ^ binary_unsigned t (Bitwise op) b1 b2"
    using exp_and_less [of "vector_of x" _ "vector_of y"] exp_or_less [OF u] u
    by (cases op) (auto simp: vector_of_to_carrier [OF assms(2)] vector_of_to_carrier [OF assms(3)] min_def)
  with le b show ?thesis by (cases op) auto
qed

lemma compare_bound:
  assumes "carrier_result fh (Binary (Compare op) x y) t c = Some v" and "is_integer t"
  shows "lit_uint v < 2"
  using assms normalize_of_bool_less [of "carrier t"]
  by (cases op) (auto simp: carrier_result_binary eval_binary_def is_integer_scalar simp del: of_bool_eq)

lemma binary_bound:
  assumes "carrier_result fh (Binary op x y) t c = Some v"
    and "operand_fits x b1" and "operand_fits y b2"
    and "in_logical_width t (Binary op x y)" and "wt_binary t op (tl_ty x) (tl_ty y)"
  shows "lit_uint v < 2 ^ binary_unsigned t op b1 b2 \<and> binary_unsigned t op b1 b2 \<le> carrier_width t"
proof -
  have carrier_bound: "lit_uint v < 2 ^ carrier_width t"
    using carrier_result_less [OF assms(1)] assms(5) by (cases op) auto
  show ?thesis
  proof (cases op)
    case (Integer iop)
    then show ?thesis using integer_bound [of fh iop x y t c v b1 b2] assms carrier_bound by simp
  next
    case (Bitwise bop)
    then show ?thesis using bitwise_bound [of fh bop x y t c v b1 b2] assms by simp
  next
    case (Compare cop)
    then show ?thesis using compare_bound [of fh cop x y t c v] assms carrier_width_integer [of t] by auto
  qed (use carrier_bound in simp_all)
qed

lemma shift_count_carrier: "is_integer t \<Longrightarrow> shift_count (carrier t) k = shift_count t k"
  by (cases t) (simp_all add: shift_count_def)

lemma carrier_not_V64 [simp]: "carrier t \<noteq> V64"
  by (cases t) simp_all

lemma ucast_scalar_to_carrier:
  assumes "is_scalar (tl_ty y)" and "scalar_of y = Some bits" and "scalar_of (to_carrier y) = Some k"
  shows "(ucast k :: u32) = ucast bits"
proof -
  have "k = type_normalize (carrier (tl_ty y)) bits"
    using assms by (auto simp: lit_scalar_def to_carrier_def lit_normalize_def u64_of_literal_def literal_of_u64_def
        split: if_splits)
  moreover have "32 \<le> carrier_width (tl_ty y)" using assms(1) by (cases "tl_ty y") simp_all
  ultimately show ?thesis using assms(1)
    by (intro bit_word_eqI) (auto simp: type_normalize_eq bit_ucast_iff bit_take_bit_iff)
qed

lemma drop_bit_less: "uint (drop_bit n w) < 2 ^ (m - n)" if "uint (w :: 'a::len word) < 2 ^ m"
  using that by (auto simp: uint_less_exp_bits_zero bit_drop_bit_eq)

lemma push_bit_less: "uint (push_bit n w) < 2 ^ (m + n)" if "uint (w :: 'a::len word) < 2 ^ m"
  using that by (auto simp: uint_less_exp_bits_zero bit_push_bit_iff)

lemma shift_bound:
  assumes "carrier_result fh (Shift op x y) t c = Some v" and "operand_fits x b1"
    and "wt_shift t op (tl_ty x) (tl_ty y)"
    and lit: "\<And>bits. count = Some bits \<Longrightarrow> scalar_of y = Some bits"
  shows "lit_uint v < 2 ^ shift_unsigned t op b1 count \<and> shift_unsigned t op b1 count \<le> carrier_width t"
proof -
  have carrier_bound: "lit_uint v < 2 ^ carrier_width t"
    using carrier_result_less [OF assms(1)] by simp
  show ?thesis
  proof (cases op)
    case (Scalar sop)
    then have wt: "is_scalar (tl_ty x)" "is_scalar (tl_ty y)" "is_scalar t" "carrier (tl_ty x) = carrier t"
      and it: "is_integer t" using assms(3) by (simp_all add: is_integer_scalar)
    obtain w where w: "scalar_of (to_carrier x) = Some w" "uint w < 2 ^ bb_unsigned b1"
      using operand_scalar [OF assms(2) wt(1)] by blast
    obtain k where k: "scalar_of (to_carrier y) = Some k"
      using wt(2) by (simp add: lit_scalar_def)
    let ?n = "shift_count t (ucast k)"
    have v: "v = literal_of_u64 (type_normalize (carrier t) (int_shift (carrier t) sop w (ucast k)))"
      using assms(1) w(1) k wt Scalar by (simp add: carrier_result_def eval_shift_def)
    have *: "uint (int_shift (carrier t) sop w (ucast k)) < 2 ^ n \<Longrightarrow> lit_uint v < 2 ^ min n (carrier_width t)" for n
      using normalize_less [of "carrier t" "int_shift (carrier t) sop w (ucast k)" n] wt v by simp
    have b: "bb_unsigned b1 \<le> carrier_width t" using assms(2) wt(4) by (simp add: fits_def)
    have n: "shift_count t (ucast bits) = ?n" if "count = Some bits" for bits
      using ucast_scalar_to_carrier [OF wt(2) lit [OF that] k] by simp
    show ?thesis
    proof (cases sop)
      case ShiftLeft
      then show ?thesis
        using * [of "bb_unsigned b1 + ?n"] push_bit_less [OF w(2), of ?n] shift_count_carrier [OF it]
          carrier_bound n Scalar
        by (auto simp: shift_unsigned_def Let_def split: option.split)
    next
      case ShiftRightUnsigned
      have "uint (drop_bit ?n w) < 2 ^ (bb_unsigned b1 - ?n)" by (rule drop_bit_less [OF w(2)])
      then have "lit_uint v < 2 ^ min (bb_unsigned b1 - ?n) (carrier_width t)"
        using * shift_count_carrier [OF it] ShiftRightUnsigned by simp
      moreover have "min (bb_unsigned b1 - ?n) (carrier_width t) = bb_unsigned b1 - ?n" using b by simp
      ultimately have *: "lit_uint v < 2 ^ (bb_unsigned b1 - ?n)" by simp
      moreover have "(2::int) ^ (bb_unsigned b1 - ?n) \<le> 2 ^ bb_unsigned b1" by (rule exp_mono_int) simp
      ultimately have "lit_uint v < 2 ^ bb_unsigned b1" by linarith
      with * show ?thesis
        using n Scalar b ShiftRightUnsigned
        by (cases count) (simp_all add: shift_unsigned_def Let_def)
    next
      case ShiftRightSigned
      then show ?thesis using carrier_bound Scalar
        by (auto simp: shift_unsigned_def Let_def split: option.split)
    qed
  qed (use carrier_bound in \<open>simp_all add: shift_unsigned_def\<close>)
qed

lemma select_bound:
  assumes "carrier_result fh (Ternary Select x y z) t c = Some v"
    and "operand_fits x b1" and "operand_fits y b2"
    and "wt_ternary t Select (tl_ty x) (tl_ty y) (tl_ty z)"
  shows "lit_uint v < 2 ^ max (bb_unsigned b1) (bb_unsigned b2)
    \<and> max (bb_unsigned b1) (bb_unsigned b2) \<le> carrier_width t"
proof -
  have "lit_uint v \<le> lit_uint (tl_value x) \<or> lit_uint v \<le> lit_uint (tl_value y)"
    using assms(1) lit_uint_to_carrier [OF assms(2)] lit_uint_to_carrier [OF assms(3)]
    by (auto simp: carrier_result_def eval_ternary_def lit_uint_normalize zmod_le_nonneg_dividend
        split: option.splits if_splits)
  then show ?thesis
    using assms(2-4) exp_mono_int [OF max.cobounded1, of "bb_unsigned b1" "bb_unsigned b2"]
      exp_mono_int [OF max.cobounded2, of "bb_unsigned b2" "bb_unsigned b1"]
    unfolding fits_def by (auto simp del: power_increasing_iff)
qed

subsection \<open>Signed bounds\<close>

text \<open>Dropping to a narrower two's-complement reading keeps every bound that still fits.\<close>

lemma signed_fits_narrow:
  assumes "signed_fits s (signed_take_bit (w - 1) x)" and "n \<le> w" and "0 < n"
  shows "signed_fits (min s n) (signed_take_bit (n - 1) x)"
proof (cases "s \<le> n")
  case True
  have "signed_take_bit (n - 1) (signed_take_bit (w - 1) x) = signed_take_bit (n - 1) x"
    using assms(2) by (simp add: signed_take_bit_signed_take_bit min_def)
  moreover have "signed_take_bit (n - 1) (signed_take_bit (w - 1) x) = signed_take_bit (w - 1) x"
    using signed_fits_self [OF assms(1) True] .
  ultimately show ?thesis using assms(1) True by simp
next
  case False
  then show ?thesis using signed_fits_carrier [OF assms(3)] by simp
qed

lemma literal_signed_bits_fits:
  fixes bits :: u64
  assumes "c = 64 \<or> c = 32 \<and> uint bits < 2 ^ 32"
  shows "signed_fits (literal_signed_bits c bits) (signed_take_bit (c - 1) (uint bits))
    \<and> literal_signed_bits c bits \<le> c"
proof -
  define sv where "sv = signed_take_bit (c - 1) (uint bits)"
  define m where "m = (if sv < 0 then NOT sv else sv)"
  have sv: "sv = (if c = 64 then sint bits else sint (ucast bits :: u32))"
    using assms by (auto simp: sv_def sint_uint unsigned_ucast_eq signed_take_bit_take_bit)
  have c: "0 < c" "c \<le> 64" using assms by auto
  have "signed_fits c sv" unfolding sv_def by (rule signed_fits_carrier [OF c(1)])
  then have m: "0 \<le> m" "m < 2 ^ (c - 1)" by (auto simp: signed_fits_def m_def not_int_def)
  then have "m < 2 ^ 64" using exp_mono_int [of "c - 1" 64] c by linarith
  with m(1) have um: "uint (word_of_int m :: u64) = m" by (simp add: uint_word_of_int take_bit_int_eq_self_iff flip: take_bit_eq_mod)
  define k where "k = 64 - leading_zeros (word_of_int m :: u64)"
  have "m < 2 ^ k" using leading_zeros_bound [of "word_of_int m :: u64" k] um by (simp add: k_def)
  moreover have "k \<le> c - 1" using leading_zeros_bound [of "word_of_int m :: u64" "c - 1"] um m by (simp add: k_def)
  moreover have "literal_signed_bits c bits = k + 1"
    using leading_zeros_le [of "word_of_int m :: u64"]
    by (simp add: literal_signed_bits_def Let_def k_def m_def flip: sv)
  ultimately have "signed_fits (literal_signed_bits c bits) sv \<and> literal_signed_bits c bits \<le> c"
    using c m(1) zero_le_power [of "2::int" k]
    by (auto simp: signed_fits_def m_def not_int_def simp del: zero_le_power split: if_splits)
  then show ?thesis by (simp add: sv_def)
qed

lemma uint_normalize_word_of_int:
  "is_scalar t \<Longrightarrow> uint (type_normalize t (word_of_int x)) = take_bit (type_bits t) x"
  by (simp add: type_normalize_eq unsigned_take_bit_eq unsigned_of_int take_bit_take_bit min_def
      del: take_bit_eq_mod)

lemma carrier_signed_take_bit [simp]:
  "carrier_signed t (take_bit (carrier_width t) x) = carrier_signed t x"
proof -
  have "\<not> carrier_width t \<le> carrier_width t - 1" using type_bits_pos [of "carrier t"] by linarith
  then show ?thesis by (simp add: signed_take_bit_take_bit)
qed

lemma sign_extend_signed:
  assumes "carrier_result fh (Unary (SignExtend it) x) t c = Some v" and "operand_fits x b"
    and wt: "wt_unary t (SignExtend it) (tl_ty x)"
  shows "signed_fits (min (bb_signed b) (type_bits it)) (carrier_signed t (lit_uint v))"
proof -
  have sc: "is_scalar (tl_ty x)" "is_scalar t" "is_scalar it" using wt by (simp_all add: is_integer_scalar)
  obtain w where w: "scalar_of (to_carrier x) = Some w" "uint w = lit_uint (tl_value x)"
    using operand_scalar [OF assms(2) sc(1)] by blast
  let ?s = "signed_take_bit (type_bits it - 1) (lit_uint (tl_value x))"
  have cw: "0 < carrier_width t" "carrier_width t \<le> 64" using sc by simp_all
  have "lit_uint v = take_bit (carrier_width t) ?s"
    using assms(1) w sc
    by (auto simp: carrier_eval signed_value_eq uint_normalize_word_of_int)
  then have "carrier_signed t (lit_uint v) = carrier_signed t ?s"
    by (metis carrier_signed_take_bit)
  moreover have f: "signed_fits (min (bb_signed b) (type_bits it)) ?s"
    using signed_fits_narrow [of "bb_signed b" "carrier_width (tl_ty x)"] assms(2) wt by (simp add: fits_def)
  moreover have "carrier_signed t ?s = ?s" by (rule signed_fits_self [OF f]) (use wt in auto)
  ultimately show ?thesis by simp
qed

lemma convert_value:
  assumes "carrier_result fh (Unary Convert x) t c = Some v" and "operand_fits x b"
    and "wt_unary t Convert (tl_ty x)"
  shows "lit_uint v = take_bit (carrier_width t) (lit_uint (tl_value x))"
proof (cases "is_scalar (tl_ty x)")
  case True
  then have "is_scalar t" using assms(3) is_integer_scalar by auto
  moreover obtain w where "scalar_of (to_carrier x) = Some w" "uint w = lit_uint (tl_value x)"
    using operand_scalar [OF assms(2) True] by blast
  ultimately show ?thesis using assms(1) True
    by (auto simp: carrier_eval uint_type_normalize simp flip: take_bit_eq_mod)
next
  case False
  then show ?thesis using assms(1) lit_uint_to_carrier [OF assms(2)]
    by (auto simp: carrier_eval lit_uint_normalize simp flip: take_bit_eq_mod)
qed

lemma convert_signed:
  assumes "carrier_result fh (Unary Convert x) t c = Some v" and "operand_fits x b"
    and "wt_unary t Convert (tl_ty x)" and "carrier_width t \<le> carrier_width (tl_ty x)"
  shows "signed_fits (min (bb_signed b) (carrier_width t)) (carrier_signed t (lit_uint v))"
  using signed_fits_narrow [of "bb_signed b" "carrier_width (tl_ty x)" "lit_uint (tl_value x)" "carrier_width t"]
    assms(2,4) convert_value [OF assms(1-3)]
  by (metis carrier_signed_take_bit fits_def type_bits_pos)

text \<open>A product of two bounded factors needs at most the sum of their signed widths.\<close>

lemma signed_fits_mult:
  assumes "signed_fits s a" and "signed_fits r b"
  shows "signed_fits (s + r) (a * b)"
proof -
  have a: "\<bar>a\<bar> \<le> 2 ^ (s - 1)" "0 < s" and b: "\<bar>b\<bar> \<le> 2 ^ (r - 1)" "0 < r"
    using assms by (auto simp: signed_fits_def)
  have "\<bar>a * b\<bar> \<le> 2 ^ (s - 1) * 2 ^ (r - 1)" unfolding abs_mult using a(1) b(1) by (rule mult_mono) simp_all
  also have "\<dots> = 2 ^ (s + r - 2)" using a(2) b(2) by (simp flip: power_add)
  also have "\<dots> < 2 ^ (s + r - 1)" using a(2) b(2) by (intro power_strict_increasing) simp_all
  finally show ?thesis using a(2) by (auto simp: signed_fits_def abs_less_iff)
qed

lemma signed_take_bit_mult:
  "signed_take_bit n (signed_take_bit n a * signed_take_bit n b) = signed_take_bit n (a * b :: int)"
proof -
  have "take_bit (Suc n) (signed_take_bit n a * signed_take_bit n b) = take_bit (Suc n) (a * b)"
    using take_bit_mult [of "Suc n" "signed_take_bit n a" "signed_take_bit n b"] take_bit_mult [of "Suc n" a b]
    by (simp add: take_bit_signed_take_bit)
  then show ?thesis by (simp add: signed_take_bit_eq_iff_take_bit_eq)
qed

lemma mul_signed:
  assumes "carrier_result fh (Binary (Integer Mul) x y) t c = Some v"
    and "operand_fits x b1" and "operand_fits y b2"
    and wt: "wt_binary t (Integer Mul) (tl_ty x) (tl_ty y)"
  shows "signed_fits (min (bb_signed b1 + bb_signed b2) (carrier_width t)) (carrier_signed t (lit_uint v))"
proof -
  have sc: "is_scalar (tl_ty x)" "is_scalar (tl_ty y)" "is_scalar t" using wt by (auto simp: is_integer_scalar)
  let ?l = "lit_uint (tl_value x)" and ?r = "lit_uint (tl_value y)" and ?w = "carrier_width t"
  obtain l r where l: "scalar_of (to_carrier x) = Some l" "uint l = ?l"
    and r: "scalar_of (to_carrier y) = Some r" "uint r = ?r"
    using operand_scalar [OF assms(2) sc(1)] operand_scalar [OF assms(3) sc(2)] by blast
  have cw: "0 < ?w" "?w \<le> 64" using sc by simp_all
  have "l * r = word_of_int (?l * ?r)" using l(2) r(2) by (metis word_of_int_uint wi_hom_mult)
  then have "uint (type_normalize (carrier t) (l * r)) = take_bit ?w (?l * ?r)"
    using uint_normalize_word_of_int [of "carrier t" "?l * ?r"] sc by (simp del: wi_hom_syms)
  then have "lit_uint v = take_bit ?w (?l * ?r)"
    using assms(1) l(1) r(1) sc
    by (auto simp: carrier_result_binary eval_binary_def)
  then have "carrier_signed t (lit_uint v) = carrier_signed t (?l * ?r)"
    by (metis carrier_signed_take_bit)
  then have eq: "carrier_signed t (lit_uint v) = carrier_signed t (carrier_signed t ?l * carrier_signed t ?r)"
    by (simp add: signed_take_bit_mult)
  have f: "signed_fits (bb_signed b1 + bb_signed b2) (carrier_signed t ?l * carrier_signed t ?r)"
    using assms(2,3) wt by (intro signed_fits_mult) (simp_all add: fits_def)
  show ?thesis
  proof (cases "bb_signed b1 + bb_signed b2 \<le> ?w")
    case True
    then show ?thesis using eq f signed_fits_self [OF f True] by simp
  next
    case False
    then show ?thesis using signed_fits_carrier [OF cw(1)] eq by simp
  qed
qed

subsection \<open>Results stay in their type\<close>

text \<open>C36: constant folding is type-safe. Whatever the operator and its operands, a folded result is an
  encoding of its declared type, logical or carrier; operators that build whole vectors are the
  only ones that rely on being given the vector type.\<close>

theorem constant_result_typed:
  assumes "raw_vector e \<longrightarrow> t = V128"
  shows "(case constant_result fh e t c of None \<Rightarrow> True | Some v \<Rightarrow> lit_uint v < 2 ^ type_bits t) \<and>
    (case carrier_result fh e t c of None \<Rightarrow> True | Some v \<Rightarrow> lit_uint v < 2 ^ carrier_width t)"
proof -
  have "raw_vector e \<Longrightarrow> \<not> is_scalar t" using assms by auto
  then show ?thesis using constant_result_less [of fh e t c] carrier_result_less [of fh e t c] assms
    by (auto split: option.splits)
qed

theorem constant_result_typed_witness:
  "\<forall>fh. constant_result fh (Binary (Integer Add) \<lparr>tl_ty = I8, tl_value = literal_of_u64 200\<rparr>
       \<lparr>tl_ty = I8, tl_value = literal_of_u64 100\<rparr>) I8 0 = Some (literal_of_u64 44) \<and>
     lit_uint (literal_of_u64 44) < 2 ^ type_bits I8"
proof (intro allI conjI)
  fix fh
  let ?e = "Binary (Integer Add) \<lparr>tl_ty = I8, tl_value = literal_of_u64 200\<rparr> \<lparr>tl_ty = I8, tl_value = literal_of_u64 100\<rparr>"
  show r: "constant_result fh ?e I8 0 = Some (literal_of_u64 44)" by code_simp
  show "lit_uint (literal_of_u64 44) < 2 ^ type_bits I8"
    using constant_result_typed [of ?e I8 fh 0] unfolding r by simp
qed

end
