(* ===== verification/Table_Sound.thy ===== *)
theory Table_Sound
  imports Bounds_Sound
begin

text \<open>
  The value table as an abstract data type: every operation of \<open>body/values.rs\<close> keeps
  the bounds sound for the carrier semantics, keeps the meaning of older ids, and interns
  a canonical value once.
\<close>

subsection \<open>Bounds of a new value\<close>

fun wt_expression :: "stored_value list \<Rightarrow> ty \<Rightarrow> nat expression \<Rightarrow> bool" where
  "wt_expression vs t (Unary op a) = wt_unary t op (sv_ty (vs ! a))"
| "wt_expression vs t (Binary op a b) = wt_binary t op (sv_ty (vs ! a)) (sv_ty (vs ! b))"
| "wt_expression vs t (Shift op a b) = wt_shift t op (sv_ty (vs ! a)) (sv_ty (vs ! b))"
| "wt_expression vs t (Ternary op a b c) =
     wt_ternary t op (sv_ty (vs ! a)) (sv_ty (vs ! b)) (sv_ty (vs ! c))"
| "wt_expression vs t (MultiplyWide _ a b) = True"

text \<open>The operands an expression is evaluated on: typed, within their bounds, and equal to
  the stored literal where the operand is one.\<close>

definition operands_ok ::
  "stored_value list \<Rightarrow> bit_bounds list \<Rightarrow> (nat \<Rightarrow> typed_literal option) \<Rightarrow> nat set \<Rightarrow> bool" where
  "operands_ok vs bs f J \<longleftrightarrow>
     (\<forall>j\<in>J. \<forall>x. f j = Some x \<longrightarrow>
        tl_ty x = sv_ty (vs ! j) \<and> operand_fits x (bs ! j) \<and>
        (\<forall>l. sv_def (vs ! j) = Literal l \<longrightarrow> tl_value x = l))"

lemma operands_okD:
  assumes "operands_ok vs bs f J" and "j \<in> J" and "f j = Some x"
  shows "tl_ty x = sv_ty (vs ! j)" and "operand_fits x (bs ! j)"
    and "\<And>l. sv_def (vs ! j) = Literal l \<Longrightarrow> tl_value x = l"
  using assms unfolding operands_ok_def by blast+

lemma value_unsigned_sound:
  assumes "try_map f e = Some e'" and "carrier_result fh e' t 0 = Some v" and width: "in_logical_width t e'"
    and ok: "operands_ok vs bs f (set (inputs e))" and wt: "wt_expression vs t e"
  shows "lit_uint v < 2 ^ value_unsigned_bits \<lparr>sv_ty = t, sv_def = Expression e\<rparr> vs bs
    \<and> value_unsigned_bits \<lparr>sv_ty = t, sv_def = Expression e\<rparr> vs bs \<le> carrier_width t"
proof (cases e)
  case (Unary op a)
  with assms(1) obtain x where x: "f a = Some x" "e' = Unary op x" by auto
  note o = operands_okD [OF ok _ x(1)]
  then show ?thesis using unary_bound [of fh op x t 0 v "bs ! a"] assms(2) x wt Unary
    by (simp add: value_unsigned_bits_def)
next
  case (Binary op a b)
  with assms(1) obtain x y where x: "f a = Some x" and y: "f b = Some y" "e' = Binary op x y"
    by (auto split: option.splits)
  note o = operands_okD [OF ok _ x] operands_okD [OF ok _ y(1)]
  then show ?thesis using binary_bound [of fh op x y t 0 v "bs ! a" "bs ! b"] assms(2) width y wt Binary
    by (simp add: value_unsigned_bits_def)
next
  case (Shift op a b)
  with assms(1) obtain x y where x: "f a = Some x" and y: "f b = Some y" "e' = Shift op x y"
    by (auto split: option.splits)
  note ox = operands_okD [OF ok _ x] and oy = operands_okD [OF ok _ y(1)]
  have "scalar_of y = Some bits" if "scalar_literal (vs ! b) = Some bits" for bits
    using that oy Shift by (auto simp: scalar_literal_def split: value_definition.splits)
  then show ?thesis
    using shift_bound [of fh op x y t 0 v "bs ! a" "scalar_literal (vs ! b)"] assms(2) y wt Shift ox oy
    by (simp add: value_unsigned_bits_def)
next
  case (Ternary op a b c)
  with assms(1) obtain x y z where x: "f a = Some x" and y: "f b = Some y" and z: "f c = Some z"
    and e': "e' = Ternary op x y z" by (auto split: option.splits)
  note o = operands_okD [OF ok _ x] operands_okD [OF ok _ y] operands_okD [OF ok _ z]
  show ?thesis
  proof (cases op)
    case Select
    then show ?thesis using select_bound [of fh x y z t 0 v "bs ! a" "bs ! b"] assms(2) e' wt o Ternary
      by (simp add: value_unsigned_bits_def)
  qed (use carrier_result_less [OF assms(2)] Ternary e' in \<open>simp_all add: value_unsigned_bits_def\<close>)
next
  case (MultiplyWide sg a b)
  with assms(1) have "\<not> raw_vector e'" by (auto split: option.splits)
  with carrier_result_less [OF assms(2)] MultiplyWide show ?thesis by (simp add: value_unsigned_bits_def)
qed

lemma fits_signed:
  assumes "lit_uint v < 2 ^ u \<and> u \<le> carrier_width t"
    and "signed_fits s (carrier_signed t (lit_uint v))" and "s \<le> carrier_width t"
  shows "fits t (lit_uint v) \<lparr>bb_unsigned = u, bb_signed = s\<rparr>"
  using assms by (simp add: fits_def)

lemma widening_convert_fits:
  assumes "lit_uint v < 2 ^ min u c \<and> min u c \<le> carrier_width t" and "c = carrier_width t"
  shows "fits t (lit_uint v) \<lparr>bb_unsigned = min u c, bb_signed = min (u + 1) c\<rparr>"
  using fits_fallback [of "lit_uint v" "min u c" t] assms by (simp add: min_def split: if_splits)

lemma carrier_width_eq_iff_scalar: "is_scalar s \<Longrightarrow> s \<noteq> I64 \<Longrightarrow> is_integer s \<Longrightarrow> carrier_width s = 32"
  by (cases s) simp_all

lemma for_value_sound:
  assumes "try_map f e = Some e'" and "carrier_result fh e' t 0 = Some v" and width: "in_logical_width t e'"
    and ok: "operands_ok vs bs f (set (inputs e))" and wt: "wt_expression vs t e"
  shows "fits t (lit_uint v) (for_value \<lparr>sv_ty = t, sv_def = Expression e\<rparr> vs bs)"
proof -
  let ?u = "value_unsigned_bits \<lparr>sv_ty = t, sv_def = Expression e\<rparr> vs bs"
  have u: "lit_uint v < 2 ^ ?u \<and> ?u \<le> carrier_width t" by (rule value_unsigned_sound [OF assms])
  then have fallback: "fits t (lit_uint v) \<lparr>bb_unsigned = ?u, bb_signed = min (?u + 1) (carrier_width t)\<rparr>"
    by (intro fits_fallback) simp_all
  consider (sext) it a where "e = Unary (SignExtend it) a" | (conv) a where "e = Unary Convert a"
    | (mul) a b where "e = Binary (Integer Mul) a b"
    | (other) "\<forall>it a. e \<noteq> Unary (SignExtend it) a" "\<forall>a. e \<noteq> Unary Convert a"
        "\<forall>a b. e \<noteq> Binary (Integer Mul) a b" by blast
  then show ?thesis
  proof cases
    case (sext it a)
    with assms(1) obtain x where x: "f a = Some x" "e' = Unary (SignExtend it) x" by auto
    note o = operands_okD [OF ok _ x(1)]
    then have "signed_fits (min (bb_signed (bs ! a)) (type_bits it)) (carrier_signed t (lit_uint v))"
      using sign_extend_signed [of fh it x t 0 v "bs ! a"] assms(2) x wt sext by simp
    moreover have "min (bb_signed (bs ! a)) (type_bits it) \<le> carrier_width t" using wt sext by auto
    ultimately show ?thesis using fits_signed [OF u] sext by (simp add: for_value_def Let_def)
  next
    case (conv a)
    with assms(1) obtain x where x: "f a = Some x" "e' = Unary Convert x" by auto
    note o = operands_okD [OF ok _ x(1)]
    show ?thesis
    proof (cases "t = I64 \<and> sv_ty (vs ! a) \<noteq> I64")
      case True
      then have c: "carrier_width t = 64" by simp
      have "?u = min (bb_unsigned (bs ! a)) 64" using conv c by (simp add: value_unsigned_bits_def)
      then show ?thesis using widening_convert_fits [OF _ c [symmetric], of v "bb_unsigned (bs ! a)"] u conv c True
        by (simp add: for_value_def Let_def)
    next
      case False
      then have "carrier_width t \<le> carrier_width (tl_ty x)"
        using wt conv o(1) by (cases t; cases "sv_ty (vs ! a)") auto
      then have "signed_fits (min (bb_signed (bs ! a)) (carrier_width t)) (carrier_signed t (lit_uint v))"
        using convert_signed [of fh x t 0 v "bs ! a"] assms(2) x wt conv o by simp
      with fits_signed [OF u] False show ?thesis using conv by (auto simp add: for_value_def Let_def)
    qed
  next
    case (mul a b)
    with assms(1) obtain x y where x: "f a = Some x" and y: "f b = Some y" "e' = Binary (Integer Mul) x y"
      by (auto split: option.splits)
    note o = operands_okD [OF ok _ x] operands_okD [OF ok _ y(1)]
    then have "signed_fits (min (bb_signed (bs ! a) + bb_signed (bs ! b)) (carrier_width t))
        (carrier_signed t (lit_uint v))"
      using mul_signed [of fh x y t 0 v "bs ! a" "bs ! b"] assms(2) y wt mul by simp
    with fits_signed [OF u] show ?thesis using mul by (simp add: for_value_def Let_def)
  next
    case other
    then have "for_value \<lparr>sv_ty = t, sv_def = Expression e\<rparr> vs bs
        = \<lparr>bb_unsigned = ?u, bb_signed = min (?u + 1) (carrier_width t)\<rparr>"
      by (auto simp: for_value_def Let_def split: expression.split unary_op.split binary_op.split int_op.split)
    with fallback show ?thesis by simp
  qed
qed

lemma unsigned_bits_bound: "lit_uint l < 2 ^ n \<longleftrightarrow> unsigned_bits l \<le> n"
proof (cases "lit_high l = 0")
  case True
  then have "lit_uint l = uint (lit_low l)"
    using uint_lt2p [of "lit_low l"] by (simp add: lit_uint_def u128_of_literal_def unsigned_ucast_eq take_bit_int_eq_self_iff)
  then show ?thesis using True leading_zeros_bound [of "lit_low l" n] by (simp add: unsigned_bits_def)
next
  case False
  let ?k = "63 - leading_zeros (lit_high l)"
  have "leading_zeros (lit_high l) \<noteq> 64"
    using leading_zeros_bound [of "lit_high l" 0] False
      uint_less_exp_iff_bits [of "lit_high l" 0] by auto
  then have lz: "leading_zeros (lit_high l) < 64" using leading_zeros_le [of "lit_high l"] by simp
  then have "bit (lit_high l) ?k" using leading_zeros_top_bit [of "lit_high l"] by simp
  then have top: "bit (u128_of_literal l) (64 + ?k)"
    by (auto simp: u128_of_literal_def bit_or_iff bit_push_bit_iff bit_ucast_iff)
  have above: "\<not> bit (u128_of_literal l) k" if "64 + ?k < k" for k
    using that lz leading_zeros_bits [of "lit_high l" "k - 64"]
    by (auto simp: u128_of_literal_def bit_or_iff bit_push_bit_iff bit_ucast_iff dest: bit_imp_le_length)
  have "unsigned_bits l = 64 + ?k + 1" using False lz by (simp add: unsigned_bits_def)
  moreover have "(\<forall>k\<ge>n. \<not> bit (u128_of_literal l) k) \<longleftrightarrow> 64 + ?k < n"
    using top above by (meson leI less_le_trans)
  ultimately show ?thesis by (simp only: lit_uint_def uint_less_exp_bits_zero) linarith
qed

lemma for_value_literal:
  assumes "lit_uint l < 2 ^ carrier_width t"
  shows "fits t (lit_uint l) (for_value \<lparr>sv_ty = t, sv_def = Literal l\<rparr> vs bs)"
proof -
  have u: "lit_uint l < 2 ^ unsigned_bits l \<and> unsigned_bits l \<le> carrier_width t"
    using unsigned_bits_bound assms by blast
  show ?thesis
  proof (cases "is_scalar t")
    case False
    then show ?thesis using u fits_fallback [of "lit_uint l" "unsigned_bits l" t]
      by (simp add: for_value_def value_unsigned_bits_def Let_def lit_scalar_def)
  next
    case True
    then have c: "carrier_width t = 64 \<or> carrier_width t = 32" by (cases t) simp_all
    with assms have "lit_uint l < 2 ^ 64" by auto
    then have low: "uint (lit_low l) = lit_uint l" by (simp add: uint_lit_low)
    have "signed_fits (literal_signed_bits (carrier_width t) (lit_low l)) (carrier_signed t (lit_uint l))
        \<and> literal_signed_bits (carrier_width t) (lit_low l) \<le> carrier_width t"
      using literal_signed_bits_fits [of "carrier_width t" "lit_low l"] c assms low by auto
    then show ?thesis using u True fits_signed [OF u]
      by (simp add: for_value_def value_unsigned_bits_def Let_def lit_scalar_def u64_of_literal_def)
  qed
qed

lemma raw_vector_try_map:
  assumes "try_map f e = Some e'"
  shows "raw_vector e' = raw_vector e"
proof (cases e)
  case (Unary op a)
  with assms show ?thesis by (cases op) auto
next
  case (Binary op a b)
  with assms show ?thesis by (cases op) (auto split: option.splits)
qed (use assms in \<open>auto split: option.splits\<close>)

subsection \<open>Soundness of the table\<close>

definition operand_of ::
  "float_host \<Rightarrow> (nat \<Rightarrow> literal) \<Rightarrow> stored_value list \<Rightarrow> nat \<Rightarrow> typed_literal option" where
  "operand_of fh env vs j = map_option (\<lambda>l. \<lparr>tl_ty = sv_ty (vs ! j), tl_value = l\<rparr>) (carrier_of fh env vs j)"

text \<open>Definitions refer to older ids only.\<close>

definition def_ok :: "stored_value list \<Rightarrow> nat \<Rightarrow> stored_value \<Rightarrow> bool" where
  "def_ok vs n v =
     (case sv_def v of
        Expression e \<Rightarrow> (\<forall>j\<in>set (inputs e). j < n)
      | Result (EvaluateItem p) c \<Rightarrow>
          p < n \<and> (case sv_def (vs ! p) of Expression e \<Rightarrow> \<not> raw_vector e \<and> (\<forall>j\<in>set (inputs e). j < p) | _ \<Rightarrow> False)
      | _ \<Rightarrow> True)"

definition table_ok :: "float_host \<Rightarrow> (nat \<Rightarrow> literal) \<Rightarrow> value_table \<Rightarrow> bool" where
  "table_ok fh env T \<longleftrightarrow>
     length (vt_bounds T) = length (vt_values T) \<and>
     (\<forall>i\<in>set (vt_interned T). i < length (vt_values T)) \<and>
     (\<forall>i<length (vt_values T). def_ok (vt_values T) i (vt_values T ! i)) \<and>
     (\<forall>i<length (vt_values T). \<forall>l. carrier_of fh env (vt_values T) i = Some l \<longrightarrow>
        fits (sv_ty (vt_values T ! i)) (lit_uint l) (vt_bounds T ! i))"

text \<open>What a caller of \<open>push\<close> and \<open>intern\<close> guarantees of the value at the next id.\<close>

definition value_ok :: "(nat \<Rightarrow> literal) \<Rightarrow> value_table \<Rightarrow> stored_value \<Rightarrow> bool" where
  "value_ok env T v \<longleftrightarrow>
     (let n = length (vt_values T) in
      def_ok (vt_values T) n v \<and>
      (case sv_def v of
         Literal l \<Rightarrow> lit_uint l < 2 ^ carrier_width (sv_ty v)
       | Parameter _ _ \<Rightarrow> lit_uint (env n) < 2 ^ carrier_width (sv_ty v)
       | Result (EffectItem _) _ \<Rightarrow> lit_uint (env n) < 2 ^ type_bits (sv_ty v)
       | Result (EvaluateItem _) _ \<Rightarrow> True
       | Expression e \<Rightarrow> wt_expression (vt_values T) (sv_ty v) e))"

lemma def_ok_result:
  assumes "def_ok vs n v" and "sv_def v = Result (EvaluateItem q) c"
  shows "\<exists>e. q < n \<and> sv_def (vs ! q) = Expression e \<and> \<not> raw_vector e \<and> (\<forall>j\<in>set (inputs e). j < n)"
  using assms by (fastforce simp: def_ok_def split: value_definition.splits)

lemma carrier_of_unfold:
  assumes "def_ok vs i (vs ! i)"
  shows "carrier_of fh env vs i =
     (case sv_def (vs ! i) of
        Literal l \<Rightarrow> Some l
      | Parameter _ _ \<Rightarrow> Some (env i)
      | Result (EffectItem _) _ \<Rightarrow> Some (env i)
      | Expression e \<Rightarrow> Option.bind (try_map (operand_of fh env vs) e)
          (\<lambda>e'. path_result fh e' (sv_ty (vs ! i)) 0)
      | Result (EvaluateItem p) c \<Rightarrow> (case sv_def (vs ! p) of
          Expression e \<Rightarrow> Option.bind (try_map (operand_of fh env vs) e)
            (\<lambda>e'. path_result fh e' (sv_ty (vs ! i)) c)
        | _ \<Rightarrow> None))"
proof -
  have "try_map (\<lambda>j. map_option (\<lambda>l. \<lparr>tl_ty = sv_ty (vs ! j), tl_value = l\<rparr>)
          (if j < i then carrier_of fh env vs j else None)) e = try_map (operand_of fh env vs) e"
    if "\<forall>j\<in>set (inputs e). j < i" for e
    by (rule try_map_cong [OF refl]) (simp add: that operand_of_def)
  note args = this
  show ?thesis
  proof (cases "sv_def (vs ! i)")
    case (Result p c)
    show ?thesis
    proof (cases p)
      case (EvaluateItem q)
      then obtain e where e: "sv_def (vs ! q) = Expression e" "\<forall>j\<in>set (inputs e). j < i"
        using def_ok_result [OF assms, of q c] Result by blast
      show ?thesis using Result EvaluateItem e args [OF e(2)]
        by (subst carrier_of.simps) (simp add: pure_result_def)
    qed (use Result in \<open>simp add: carrier_of.simps\<close>)
  next
    case (Expression e)
    then have "\<forall>j\<in>set (inputs e). j < i" using assms by (simp add: def_ok_def)
    with args Expression show ?thesis by (subst carrier_of.simps) (simp add: pure_result_def)
  qed (simp_all add: carrier_of.simps)
qed

lemma def_ok_append: "n \<le> length vs \<Longrightarrow> def_ok (vs @ ws) n v = def_ok vs n v"
  by (cases "sv_def v"; simp add: def_ok_def split: block_item.split) (auto simp: nth_append)

text \<open>Appending values keeps the meaning of the older ids.\<close>

lemma carrier_of_append:
  assumes "\<forall>i<length vs. def_ok vs i (vs ! i)" and "i < length vs"
  shows "carrier_of fh env (vs @ ws) i = carrier_of fh env vs i"
  using assms(2)
proof (induction i rule: less_induct)
  case (less i)
  have ok: "def_ok vs i (vs ! i)" using assms(1) less.prems by blast
  then have ok': "def_ok (vs @ ws) i ((vs @ ws) ! i)"
    using less.prems by (simp add: def_ok_append nth_append)
  have e: "try_map (operand_of fh env (vs @ ws)) e = try_map (operand_of fh env vs) e"
    if "\<forall>j\<in>set (inputs e). j < i" for e
  proof (rule try_map_cong [OF refl])
    fix j assume "j \<in> set (inputs e)"
    with that have "j < i" "j < length vs" using less.prems by auto
    with less.IH show "operand_of fh env (vs @ ws) j = operand_of fh env vs j"
      by (simp add: operand_of_def nth_append)
  qed
  note unfold = carrier_of_unfold [OF ok] carrier_of_unfold [OF ok']
  show ?case
  proof (cases "sv_def (vs ! i)")
    case (Expression d)
    then have "\<forall>j\<in>set (inputs d). j < i" using ok by (simp add: def_ok_def)
    from e [OF this] Expression show ?thesis using less.prems by (simp add: unfold nth_append)
  next
    case (Result p c)
    show ?thesis
    proof (cases p)
      case (EvaluateItem q)
      then obtain d where d: "q < i" "sv_def (vs ! q) = Expression d" "\<forall>j\<in>set (inputs d). j < i"
        using def_ok_result [OF ok, of q c] Result by blast
      from e [OF d(3)] d(1,2) Result EvaluateItem show ?thesis
        using less.prems by (simp add: unfold nth_append)
    qed (use Result less.prems in \<open>simp add: unfold nth_append\<close>)
  qed (use less.prems in \<open>simp_all add: unfold nth_append\<close>)
qed

lemma operand_of_append:
  "\<forall>i<length vs. def_ok vs i (vs ! i) \<Longrightarrow> j < length vs \<Longrightarrow>
   operand_of fh env (vs @ ws) j = operand_of fh env vs j"
  by (simp add: operand_of_def carrier_of_append nth_append)

lemma table_ok_operands:
  assumes "table_ok fh env T" and "\<forall>j\<in>J. j < length (vt_values T)"
  shows "operands_ok (vt_values T) (vt_bounds T) (operand_of fh env (vt_values T)) J"
  using assms unfolding operands_ok_def operand_of_def table_ok_def
  by (auto simp: carrier_of.simps)

text \<open>The bound computed for a new value holds for its carrier value.\<close>

lemma new_value_fits:
  assumes T: "table_ok fh env T" and v: "value_ok env T v"
    and l: "carrier_of fh env (vt_values T @ [v]) (length (vt_values T)) = Some l"
  shows "fits (sv_ty v) (lit_uint l) (for_value v (vt_values T) (vt_bounds T))"
proof -
  let ?vs = "vt_values T" and ?n = "length (vt_values T)"
  have defs: "\<forall>i<?n. def_ok ?vs i (?vs ! i)" using T by (simp add: table_ok_def)
  have ok: "def_ok (?vs @ [v]) ?n ((?vs @ [v]) ! ?n)"
    using v by (simp add: value_ok_def def_ok_append Let_def)
  have args: "try_map (operand_of fh env (?vs @ [v])) e = try_map (operand_of fh env ?vs) e"
    if "\<forall>j\<in>set (inputs e). j < ?n" for e
    by (rule try_map_cong [OF refl]) (use that defs in \<open>simp add: operand_of_append\<close>)
  note l' = l [unfolded carrier_of_unfold [OF ok], simplified]
  have sv: "v = \<lparr>sv_ty = sv_ty v, sv_def = sv_def v\<rparr>" by simp
  show ?thesis
  proof (cases "sv_def v")
    case (Literal k)
    then have "lit_uint k < 2 ^ carrier_width (sv_ty v)" using v by (simp add: value_ok_def Let_def)
    then show ?thesis using l' for_value_literal Literal sv by (metis option.inject value_definition.simps(17))
  next
    case (Parameter a b)
    then show ?thesis using l' v fits_fallback [of "lit_uint l" "carrier_width (sv_ty v)" "sv_ty v"]
      by (auto simp: value_ok_def for_value_def value_unsigned_bits_def Let_def)
  next
    case (Expression e)
    then have e: "\<forall>j\<in>set (inputs e). j < ?n" "wt_expression ?vs (sv_ty v) e"
      using v by (simp_all add: value_ok_def def_ok_def Let_def)
    obtain e' where "try_map (operand_of fh env ?vs) e = Some e'" "carrier_result fh e' (sv_ty v) 0 = Some l"
        "in_logical_width (sv_ty v) e'"
      using l' Expression args [OF e(1)] by (auto simp: path_result_Some)
    then show ?thesis
      using for_value_sound [OF _ _ _ table_ok_operands [OF T e(1)] e(2)] Expression sv by metis
  next
    case (Result p c)
    show ?thesis
    proof (cases p)
      case (EffectItem s)
      then show ?thesis using l' v Result fits_fallback [of "lit_uint l" "type_bits (sv_ty v)" "sv_ty v"]
          type_bits_carrier [of "sv_ty v"]
        by (auto simp: value_ok_def for_value_def value_unsigned_bits_def Let_def)
    next
      case (EvaluateItem q)
      then obtain e where e: "sv_def (?vs ! q) = Expression e" "\<not> raw_vector e" "q < ?n"
        using v def_ok_result [of ?vs ?n v q c] Result by (auto simp: value_ok_def Let_def)
      then obtain e' where e': "try_map (operand_of fh env (?vs @ [v])) e = Some e'"
          "carrier_result fh e' (sv_ty v) c = Some l"
        using l' Result EvaluateItem by (auto simp: nth_append path_result_Some)
      have "raw_vector e' = raw_vector e" using e'(1) by (rule raw_vector_try_map)
      then have "lit_uint l < 2 ^ carrier_width (sv_ty v)"
        using carrier_result_less [OF e'(2)] e(2) by simp
      then show ?thesis using fits_fallback [of "lit_uint l" "carrier_width (sv_ty v)" "sv_ty v"] Result EvaluateItem
        by (auto simp: for_value_def value_unsigned_bits_def Let_def)
    qed
  qed
qed

subsection \<open>Operations keep the invariant\<close>

lemma nth_vt_values_append [simp]:
  "i < length (vt_values T) \<Longrightarrow> vt_values (append_value T v b) ! i = vt_values T ! i"
  "vt_values (append_value T v b) ! length (vt_values T) = v"
  by (simp_all add: append_value_def nth_append)

lemma append_value_ok:
  assumes T: "table_ok fh env T" and v: "def_ok (vt_values T) (length (vt_values T)) v"
    and fit: "\<And>l. carrier_of fh env (vt_values T @ [v]) (length (vt_values T)) = Some l \<Longrightarrow>
      fits (sv_ty v) (lit_uint l) b"
  shows "table_ok fh env (append_value T v b)"
proof -
  have defs: "\<forall>i<length (vt_values T). def_ok (vt_values T) i (vt_values T ! i)"
    using T by (simp add: table_ok_def)
  then have "def_ok (vt_values T @ [v]) i ((vt_values T @ [v]) ! i)" if "i < Suc (length (vt_values T))" for i
    using that v by (cases "i = length (vt_values T)") (simp_all add: def_ok_append nth_append)
  moreover have "fits (sv_ty ((vt_values T @ [v]) ! i)) (lit_uint l) ((vt_bounds T @ [b]) ! i)"
    if "i < Suc (length (vt_values T))" "carrier_of fh env (vt_values T @ [v]) i = Some l" for i l
  proof (cases "i = length (vt_values T)")
    case True
    then show ?thesis using that(2) fit T by (simp add: table_ok_def nth_append)
  next
    case False
    then show ?thesis using that T carrier_of_append [OF defs, of i fh env "[v]"]
      by (simp add: table_ok_def nth_append)
  qed
  ultimately show ?thesis using T by (simp add: table_ok_def append_value_def less_SucI)
qed

lemma push_single_ok:
  "table_ok fh env T \<Longrightarrow> value_ok env T v \<Longrightarrow>
   table_ok fh env (append_value T v (for_value v (vt_values T) (vt_bounds T)))"
  by (rule append_value_ok) (auto simp: value_ok_def Let_def intro: new_value_fits)

lemma result_values_cases:
  "result_values n v = [] \<or>
   (\<exists>sg a b. sv_def v = Expression (MultiplyWide sg a b) \<and>
      result_values n v = [\<lparr>sv_ty = I64, sv_def = Result (EvaluateItem n) 1\<rparr>])"
proof (cases "sv_def v")
  case (Expression e)
  then show ?thesis by (cases e) (simp_all add: result_values_def)
qed (simp_all add: result_values_def)

lemma push_with_bounds_ok:
  assumes T: "table_ok fh env T" and v: "def_ok (vt_values T) (length (vt_values T)) v"
    and fit: "\<And>l. carrier_of fh env (vt_values T @ [v]) (length (vt_values T)) = Some l \<Longrightarrow>
      fits (sv_ty v) (lit_uint l) b"
  shows "table_ok fh env (fst (push_with_bounds T v b))"
proof -
  let ?n = "length (vt_values T)" and ?A = "append_value T v b"
  have A: "table_ok fh env ?A" by (rule append_value_ok [OF assms])
  from result_values_cases [of ?n v] show ?thesis
  proof
    assume "result_values ?n v = []"
    then show ?thesis using A by (simp add: push_with_bounds_def Let_def)
  next
    assume "\<exists>sg a c. sv_def v = Expression (MultiplyWide sg a c) \<and>
      result_values ?n v = [\<lparr>sv_ty = I64, sv_def = Result (EvaluateItem ?n) 1\<rparr>]"
    then obtain sg a c where d: "sv_def v = Expression (MultiplyWide sg a c)"
      and r: "result_values ?n v = [\<lparr>sv_ty = I64, sv_def = Result (EvaluateItem ?n) 1\<rparr>]" by blast
    have "value_ok env ?A \<lparr>sv_ty = I64, sv_def = Result (EvaluateItem ?n) 1\<rparr>"
      using d v by (auto simp: value_ok_def def_ok_def Let_def) (simp add: append_value_def)
    from push_single_ok [OF A this] show ?thesis by (simp add: push_with_bounds_def Let_def r)
  qed
qed

lemma push_ok:
  "table_ok fh env T \<Longrightarrow> value_ok env T v \<Longrightarrow> table_ok fh env (fst (push T v))"
  unfolding push_def by (rule push_with_bounds_ok) (auto simp: value_ok_def Let_def intro: new_value_fits)

lemma push_with_bounds_extends:
  "\<exists>ws. vt_values (fst (push_with_bounds T v b)) = vt_values T @ v # ws
     \<and> vt_interned (fst (push_with_bounds T v b)) = vt_interned T
     \<and> snd (push_with_bounds T v b) = length (vt_values T)"
  using result_values_cases [of "length (vt_values T)" v]
  by (auto simp: push_with_bounds_def append_value_def Let_def)

lemma push_extends:
  "\<exists>ws. vt_values (fst (push T v)) = vt_values T @ v # ws \<and> vt_interned (fst (push T v)) = vt_interned T
     \<and> snd (push T v) = length (vt_values T)"
  unfolding push_def by (rule push_with_bounds_extends)

lemma intern_found:
  "find (\<lambda>i. vt_values T ! i = v) (vt_interned T) = Some i \<Longrightarrow> intern T v = (T, i)"
  by (simp add: intern_def)

lemma intern_new:
  "find (\<lambda>i. vt_values T ! i = v) (vt_interned T) = None \<Longrightarrow>
   intern T v = ((fst (push T v))\<lparr>vt_interned := vt_interned T @ [length (vt_values T)]\<rparr>, length (vt_values T))"
  using push_extends [of T v] by (auto simp: intern_def split: prod.split)

lemma intern_ok:
  assumes "table_ok fh env T" and "value_ok env T v"
  shows "table_ok fh env (fst (intern T v))"
proof (cases "find (\<lambda>i. vt_values T ! i = v) (vt_interned T)")
  case None
  have "table_ok fh env (fst (push T v))" by (rule push_ok [OF assms])
  then show ?thesis using push_extends [of T v] assms(1)
    by (auto simp: intern_new [OF None] table_ok_def)
qed (simp add: intern_found assms)

lemma carrier_literal_ok:
  "table_ok fh env T \<Longrightarrow> table_ok fh env (fst (carrier_literal T t bits))"
  unfolding carrier_literal_def
  by (rule intern_ok) (simp_all add: value_ok_def def_ok_def Let_def lit_uint_normalize_less)

text \<open>Retained bounds are those of an equal value of the same carrier.\<close>

lemma fits_min:
  "fits t x b \<Longrightarrow> fits t x c \<Longrightarrow>
   fits t x \<lparr>bb_unsigned = min (bb_unsigned b) (bb_unsigned c), bb_signed = min (bb_signed b) (bb_signed c)\<rparr>"
  unfolding fits_def by (auto simp: min_def)

lemma fits_carrier_cong: "carrier t = carrier s \<Longrightarrow> fits t x b = fits s x b"
  by (simp add: fits_def)

lemma retain_bounds_ok:
  assumes T: "table_ok fh env T" and ids: "r < length (vt_values T)" "q < length (vt_values T)"
    and same: "carrier_of fh env (vt_values T) r = carrier_of fh env (vt_values T) q"
      "carrier (sv_ty (vt_values T ! r)) = carrier (sv_ty (vt_values T ! q))"
  shows "table_ok fh env (retain_bounds T r q)"
proof -
  have "fits (sv_ty (vt_values T ! r)) (lit_uint l)
      \<lparr>bb_unsigned = min (bb_unsigned (vt_bounds T ! r)) (bb_unsigned (vt_bounds T ! q)),
       bb_signed = min (bb_signed (vt_bounds T ! r)) (bb_signed (vt_bounds T ! q))\<rparr>"
    if "carrier_of fh env (vt_values T) r = Some l" for l
    using that T ids same fits_carrier_cong [OF same(2)] by (intro fits_min) (auto simp: table_ok_def)
  then show ?thesis using T ids
    by (auto simp: table_ok_def retain_bounds_def Let_def nth_list_update)
qed

text \<open>The table as a state machine: what the body builder does to it.\<close>

inductive table_step :: "float_host \<Rightarrow> (nat \<Rightarrow> literal) \<Rightarrow> value_table \<Rightarrow> value_table \<Rightarrow> bool"
  for fh env where
  step_push: "value_ok env T v \<Longrightarrow> table_step fh env T (fst (push T v))"
| step_intern: "value_ok env T v \<Longrightarrow> table_step fh env T (fst (intern T v))"
| step_literal: "table_step fh env T (fst (table_literal T t bits))"
| step_parameter:
    "sv_def v = Parameter block k \<Longrightarrow> fits (sv_ty v) (lit_uint (env (length (vt_values T)))) b \<Longrightarrow>
     table_step fh env T (fst (push_with_bounds T v b))"
| step_retain:
    "r < length (vt_values T) \<Longrightarrow> q < length (vt_values T) \<Longrightarrow>
     carrier_of fh env (vt_values T) r = carrier_of fh env (vt_values T) q \<Longrightarrow>
     carrier (sv_ty (vt_values T ! r)) = carrier (sv_ty (vt_values T ! q)) \<Longrightarrow>
     table_step fh env T (retain_bounds T r q)"

lemma empty_table_ok: "table_ok fh env empty_table"
  by (simp add: table_ok_def empty_table_def)

lemma table_parameter_ok:
  assumes "table_ok fh env T" and "sv_def v = Parameter block k"
    and "fits (sv_ty v) (lit_uint (env (length (vt_values T)))) b"
  shows "table_ok fh env (fst (push_with_bounds T v b))"
  using assms(1)
proof (rule push_with_bounds_ok)
  fix l assume "carrier_of fh env (vt_values T @ [v]) (length (vt_values T)) = Some l"
  with assms(2,3) show "fits (sv_ty v) (lit_uint l) b"
    by (simp add: carrier_of_unfold def_ok_def)
qed (use assms in \<open>simp add: def_ok_def\<close>)

lemma table_step_ok: "table_step fh env T T' \<Longrightarrow> table_ok fh env T \<Longrightarrow> table_ok fh env T'"
  by (induction rule: table_step.induct)
    (auto simp: table_literal_def intro: push_ok intern_ok carrier_literal_ok table_parameter_ok retain_bounds_ok)

lemma intern_extends: "\<exists>ws. vt_values (fst (intern T v)) = vt_values T @ ws"
  using push_extends [of T v]
  by (cases "find (\<lambda>i. vt_values T ! i = v) (vt_interned T)") (auto simp: intern_found intern_new)

lemma table_step_extends: "table_step fh env T T' \<Longrightarrow> \<exists>ws. vt_values T' = vt_values T @ ws"
proof (induction rule: table_step.induct)
  case (step_push T v)
  then show ?case using push_extends [of T v] by blast
next
  case (step_parameter v block k T b)
  then show ?case using push_with_bounds_extends [of T v b] by blast
qed (auto simp: table_literal_def carrier_literal_def retain_bounds_def Let_def intro: intern_extends)

lemma table_steps_ok:
  "(table_step fh env)\<^sup>*\<^sup>* T T' \<Longrightarrow> table_ok fh env T \<Longrightarrow>
   table_ok fh env T' \<and> (\<exists>ws. vt_values T' = vt_values T @ ws)"
proof (induction rule: rtranclp_induct)
  case (step T1 T2)
  then show ?case using table_step_ok table_step_extends by (metis append.assoc)
qed simp

subsection \<open>Interning\<close>

text \<open>What a table of canonical values promises its clients: an added value is found at the
  returned id, and no id is reassigned.\<close>

locale value_store =
  fixes get :: "'t \<Rightarrow> nat \<Rightarrow> 'v" and used :: "'t \<Rightarrow> nat" and add :: "'t \<Rightarrow> 'v \<Rightarrow> 't \<times> nat"
    and good :: "'t \<Rightarrow> bool"
  assumes good_add: "good T \<Longrightarrow> good (fst (add T v))"
    and add_id: "good T \<Longrightarrow> snd (add T v) < used (fst (add T v))"
    and get_add: "good T \<Longrightarrow> get (fst (add T v)) (snd (add T v)) = v"
    and get_old: "good T \<Longrightarrow> i < used T \<Longrightarrow> i < used (fst (add T v)) \<and> get (fst (add T v)) i = get T i"
begin

lemma add_all:
  assumes "good T"
  shows "good (fold (\<lambda>v T. fst (add T v)) vs T) \<and>
    (\<forall>i < used T. i < used (fold (\<lambda>v T. fst (add T v)) vs T) \<and>
       get (fold (\<lambda>v T. fst (add T v)) vs T) i = get T i)"
  using assms
proof (induction vs arbitrary: T)
  case (Cons v vs)
  have "good (fst (add T v))" using Cons.prems by (rule good_add)
  with Cons.IH [OF this] get_old [OF Cons.prems, of _ v] show ?case by auto
qed simp

lemma add_then_all:
  assumes "good T"
  shows "get (fold (\<lambda>v T. fst (add T v)) vs (fst (add T v))) (snd (add T v)) = v"
  using add_all [OF good_add [OF assms]] add_id [OF assms] get_add [OF assms] by metis

end

definition interned_ok :: "value_table \<Rightarrow> bool" where
  "interned_ok T \<longleftrightarrow> (\<forall>i\<in>set (vt_interned T). i < length (vt_values T)) \<and>
     distinct (map (\<lambda>i. vt_values T ! i) (vt_interned T))"

lemma find_nth_Some:
  "find P xs = Some x \<Longrightarrow> x \<in> set xs \<and> P x"
  by (auto simp: find_Some_iff)

lemma intern_get:
  "vt_values (fst (intern T v)) ! snd (intern T v) = v"
proof (cases "find (\<lambda>i. vt_values T ! i = v) (vt_interned T)")
  case None
  then show ?thesis using push_extends [of T v] by (auto simp: intern_new nth_append)
next
  case (Some i)
  then show ?thesis using find_nth_Some [OF Some] by (simp add: intern_found)
qed

lemma interned_values_append:
  "\<forall>i\<in>set (vt_interned T). i < length (vt_values T) \<Longrightarrow>
   map ((!) (vt_values T @ ws)) (vt_interned T) = map ((!) (vt_values T)) (vt_interned T)"
  by (auto simp: nth_append)

lemma interned_ok_push:
  assumes "interned_ok T"
  shows "interned_ok (fst (push T v))"
proof -
  obtain ws where "vt_values (fst (push T v)) = vt_values T @ v # ws" "vt_interned (fst (push T v)) = vt_interned T"
    using push_extends by blast
  then show ?thesis using assms interned_values_append [of T "v # ws"]
    by (simp add: interned_ok_def less_SucI trans_less_add1 del: map_eq_conv)
qed

lemma interned_ok_intern:
  assumes "interned_ok T"
  shows "interned_ok (fst (intern T v))"
proof (cases "find (\<lambda>i. vt_values T ! i = v) (vt_interned T)")
  case None
  obtain ws where ws: "vt_values (fst (push T v)) = vt_values T @ v # ws" using push_extends by blast
  have "v \<notin> set (map ((!) (vt_values T)) (vt_interned T))"
    using None by (auto simp: find_None_iff)
  then have "distinct (map ((!) (vt_values T @ v # ws)) (vt_interned T @ [length (vt_values T)]))"
    using assms interned_values_append [of T "v # ws"] by (simp add: interned_ok_def del: map_eq_conv)
  then show ?thesis using assms ws
    by (auto simp: interned_ok_def intern_new [OF None] ball_Un intro: less_SucI trans_less_add1)
qed (simp add: intern_found assms)

lemma intern_id:
  assumes "interned_ok T"
  shows "snd (intern T v) < length (vt_values (fst (intern T v)))"
proof (cases "find (\<lambda>i. vt_values T ! i = v) (vt_interned T)")
  case None
  then show ?thesis using push_extends [of T v] by (auto simp: intern_new [OF None])
next
  case (Some i)
  then show ?thesis using find_nth_Some [OF Some] assms by (simp add: intern_found interned_ok_def)
qed

interpretation interning: value_store "\<lambda>T. (!) (vt_values T)" "\<lambda>T. length (vt_values T)" intern interned_ok
proof unfold_locales
  fix T v i assume "interned_ok T" "i < length (vt_values T)"
  then show "i < length (vt_values (fst (intern T v))) \<and> vt_values (fst (intern T v)) ! i = vt_values T ! i"
    using intern_extends [of T v] by (auto simp: nth_append)
qed (simp_all add: interned_ok_intern intern_id intern_get)

interpretation pushing: value_store "\<lambda>T. (!) (vt_values T)" "\<lambda>T. length (vt_values T)" push interned_ok
proof unfold_locales
  fix T v assume "interned_ok T"
  obtain ws where ws: "vt_values (fst (push T v)) = vt_values T @ v # ws" "snd (push T v) = length (vt_values T)"
    using push_extends by blast
  show "snd (push T v) < length (vt_values (fst (push T v)))" "vt_values (fst (push T v)) ! snd (push T v) = v"
    using ws by simp_all
  fix i assume "i < length (vt_values T)"
  then show "i < length (vt_values (fst (push T v))) \<and> vt_values (fst (push T v)) ! i = vt_values T ! i"
    using ws by (simp add: nth_append)
qed (simp add: interned_ok_push)

lemma intern_again:
  assumes "interned_ok T" and "v = vt_values T ! i" and "i \<in> set (vt_interned T)"
  shows "intern T v = (T, i)"
proof -
  obtain j where j: "find (\<lambda>i. vt_values T ! i = v) (vt_interned T) = Some j"
    using assms by (cases "find (\<lambda>i. vt_values T ! i = v) (vt_interned T)") (auto simp: find_None_iff)
  then have "j \<in> set (vt_interned T)" "vt_values T ! j = vt_values T ! i"
    using find_nth_Some [OF j] assms(2) by auto
  then have "j = i" using assms(1,3)
    by (auto simp: interned_ok_def distinct_map dest: inj_onD)
  with j show ?thesis by (simp add: intern_found)
qed

lemma intern_interned: "snd (intern T v) \<in> set (vt_interned (fst (intern T v)))"
  using find_nth_Some [of "\<lambda>i. vt_values T ! i = v" "vt_interned T"]
  by (cases "find (\<lambda>i. vt_values T ! i = v) (vt_interned T)") (auto simp: intern_found intern_new)

lemma interned_mono: "set (vt_interned T) \<subseteq> set (vt_interned (fst (intern T v)))"
  by (cases "find (\<lambda>i. vt_values T ! i = v) (vt_interned T)") (auto simp: intern_found intern_new)

subsection \<open>Representation\<close>

lemma lit_uint_inject: "lit_uint a = lit_uint b \<longleftrightarrow> a = b"
proof
  assume "lit_uint a = lit_uint b"
  then have eq: "u128_of_literal a = u128_of_literal b" by (simp add: lit_uint_def word_uint_eq_iff)
  have high: "lit_high l = ucast (drop_bit 64 (u128_of_literal l))" for l
    by (rule bit_word_eqI) (auto simp: u128_of_literal_def bit_ucast_iff bit_drop_bit_eq bit_or_iff bit_push_bit_iff
        dest: bit_imp_le_length)
  show "a = b" using eq high [of a] high [of b] lit_low_eq [of a] lit_low_eq [of b] by simp
qed simp

text \<open>A conversion within one carrier is the identity on carrier encodings.\<close>

lemma convert_same_carrier:
  assumes "operand_fits x b" and "carrier t = carrier (tl_ty x)"
  shows "carrier_result fh (Unary Convert x) t c = Some (tl_value x)"
proof (cases "is_scalar (tl_ty x)")
  case True
  then have sc: "is_scalar t" using assms(2) is_scalar_carrier by metis
  obtain w where w: "scalar_of (to_carrier x) = Some w" "uint w = lit_uint (tl_value x)"
    using operand_scalar [OF assms(1) True] by blast
  have "lit_uint (literal_of_u64 (type_normalize (carrier t) w)) = lit_uint (tl_value x)"
    using w True fits_less_carrier [OF assms(1)] assms(2) by (simp add: uint_type_normalize)
  then have "literal_of_u64 (type_normalize (carrier t) w) = tl_value x" by (simp only: lit_uint_inject)
  then show ?thesis using w(1) True by (simp add: carrier_eval)
next
  case False
  then have "carrier t = V128" using assms(2) by (cases "tl_ty x") simp_all
  then show ?thesis using False lit_uint_to_carrier [OF assms(1)] lit_uint_inject
    by (simp add: carrier_eval lit_normalize_def)
qed

lemma representation_ok:
  assumes "table_ok fh env T" and "vid < length (vt_values T)"
  shows "\<exists>r\<le>vid. representation T vid = Some r \<and>
    carrier (sv_ty (vt_values T ! r)) = carrier (sv_ty (vt_values T ! vid)) \<and>
    carrier_of fh env (vt_values T) r = carrier_of fh env (vt_values T) vid"
  using assms(2)
proof (induction vid rule: less_induct)
  case (less vid)
  let ?vs = "vt_values T"
  have ok: "def_ok ?vs vid (?vs ! vid)" using assms(1) less.prems by (simp add: table_ok_def)
  show ?case
  proof (cases "\<exists>input. sv_def (?vs ! vid) = Expression (Unary Convert input) \<and>
      carrier (sv_ty (?vs ! vid)) = carrier (sv_ty (?vs ! input))")
    case True
    then obtain input where d: "sv_def (?vs ! vid) = Expression (Unary Convert input)"
      and c: "carrier (sv_ty (?vs ! vid)) = carrier (sv_ty (?vs ! input))" by blast
    have lt: "input < vid" "input < length ?vs" using ok d less.prems by (simp_all add: def_ok_def)
    have "carrier_of fh env ?vs vid = carrier_of fh env ?vs input"
    proof (cases "carrier_of fh env ?vs input")
      case (Some l)
      then have "operand_fits \<lparr>tl_ty = sv_ty (?vs ! input), tl_value = l\<rparr> (vt_bounds T ! input)"
        using assms(1) lt by (simp add: table_ok_def)
      from convert_same_carrier [OF this] Some show ?thesis
        using d c by (simp add: carrier_of_unfold [OF ok] operand_of_def)
    qed (simp add: carrier_of_unfold [OF ok] d operand_of_def)
    with less.IH [OF lt] d c lt(1) show ?thesis
      by (subst representation.simps) (auto intro: order_trans less_imp_le)
  next
    case False
    then have "representation T vid = Some vid"
      by (subst representation.simps)
        (auto split: value_definition.split expression.split unary_op.split)
    then show ?thesis by auto
  qed
qed

subsection \<open>Carrier bits of a logical value\<close>

lemma small_unsigned_bits:
  assumes "fits t x b" and "bb_unsigned b \<le> type_bits t"
  shows "x mod 2 ^ type_bits t = x"
  using assms exp_mono_int [of "bb_unsigned b" "type_bits t"] unfolding fits_def
  by (intro mod_pos_pos_trivial) linarith+

lemma small_signed_bits:
  assumes "fits t x b" and "bb_signed b \<le> type_bits t"
  shows "carrier_signed t x = signed_take_bit (type_bits t - 1) x"
proof -
  have "signed_take_bit (type_bits t - 1) (carrier_signed t x) = carrier_signed t x"
    using assms by (intro signed_fits_self) (simp_all add: fits_def)
  moreover have "signed_take_bit (type_bits t - 1) (carrier_signed t x) = signed_take_bit (type_bits t - 1) x"
    using type_bits_carrier [of t] by (simp add: signed_take_bit_signed_take_bit min_def)
  ultimately show ?thesis by simp
qed

lemma carrier_signed_back: "take_bit (carrier_width t) (carrier_signed t x) = take_bit (carrier_width t) x"
  by (rule take_bit_signed_take_bit) simp

lemma fits_take_bit: "fits t x b \<Longrightarrow> take_bit (carrier_width t) x = x"
  using fits_less_carrier [of t x b] by (simp add: take_bit_int_eq_self_iff fits_def)

lemma sign_clear_bits:
  fixes x :: int
  assumes "\<not> bit x (n - 1)" and "0 < n"
  shows "signed_take_bit (n - 1) x = take_bit n x"
  using assms by (cases n) (simp_all add: signed_take_bit_eq_take_bit_minus)

lemma signed_take_bit_of_take_bit:
  "0 < n \<Longrightarrow> signed_take_bit (n - 1) (take_bit n x) = signed_take_bit (n - 1) (x :: int)"
  by (cases n) (simp_all add: signed_take_bit_take_bit)

lemma carrier_bits_value:
  assumes fit: "fits t x b" and sc: "is_scalar t"
    and small: "bb_unsigned b \<le> type_bits t \<or> bb_signed b \<le> type_bits t"
    and m: "uint m = x mod 2 ^ type_bits t"
  shows "uint (type_normalize (carrier t)
      (if type_bits t < 32 \<and> bb_signed b \<le> type_bits t \<and> m AND push_bit (type_bits t - 1) 1 \<noteq> 0
       then word_of_int (signed_value t m) else m)) = x"
proof (cases "type_bits t < 32 \<and> bb_signed b \<le> type_bits t \<and> bit m (type_bits t - 1)")
  case True
  have "signed_take_bit (type_bits t - 1) (uint m) = carrier_signed t x"
    using small_signed_bits [OF fit] True type_bits_pos [of t]
    by (simp only: m signed_take_bit_of_take_bit flip: take_bit_eq_mod)
  then have "take_bit (carrier_width t) (signed_value t m) = x"
    using carrier_signed_back fits_take_bit [OF fit] sc by (simp add: signed_value_eq)
  then show ?thesis using True sc
    by (simp add: uint_normalize_word_of_int bit_iff_and_push_bit_not_eq_0)
next
  case False
  have "x mod 2 ^ type_bits t = x"
  proof (cases "bb_unsigned b \<le> type_bits t")
    case True
    then show ?thesis by (rule small_unsigned_bits [OF fit])
  next
    case False': False
    then have s: "bb_signed b \<le> type_bits t" using small by blast
    show ?thesis
    proof (cases "type_bits t < 32")
      case True
      then have "\<not> bit m (type_bits t - 1)" using False s by blast
      then have "\<not> bit (uint m) (type_bits t - 1)" by (simp add: bit_uint_iff)
      then have "\<not> bit x (type_bits t - 1)"
        using type_bits_pos [of t] unfolding m by (simp add: bit_take_bit_iff flip: take_bit_eq_mod)
      then have "carrier_signed t x = take_bit (type_bits t) x"
        using sign_clear_bits small_signed_bits [OF fit s] by simp
      then have "take_bit (carrier_width t) (take_bit (type_bits t) x) = x"
        using carrier_signed_back [of t x] fits_take_bit [OF fit] by simp
      then show ?thesis using type_bits_carrier [of t] by (simp add: take_bit_take_bit min_absorb2 flip: take_bit_eq_mod)
    next
      case False
      then have "type_bits t = carrier_width t" using sc by (cases t) simp_all
      then show ?thesis using fits_take_bit [OF fit] by (simp flip: take_bit_eq_mod)
    qed
  qed
  moreover have "\<not> (type_bits t < 32 \<and> bb_signed b \<le> type_bits t \<and> m AND push_bit (type_bits t - 1) 1 \<noteq> 0)"
    using False by (simp add: bit_iff_and_push_bit_not_eq_0)
  ultimately show ?thesis using m sc fits_take_bit [OF fit]
    by (auto simp: uint_type_normalize simp flip: take_bit_eq_mod)
qed

lemma carrier_bits_ok:
  assumes T: "table_ok fh env T" "vid < length (vt_values T)" and sc: "is_scalar (sv_ty (vt_values T ! vid))"
    and l: "carrier_of fh env (vt_values T) vid = Some l"
    and logical: "lit_uint (lit_normalize (sv_ty (vt_values T ! vid)) l)
      = uint (type_normalize (sv_ty (vt_values T ! vid)) logical)"
    and c: "carrier_bits T vid logical = Some c"
  shows "lit_uint l = uint c"
proof -
  let ?v = "vt_values T ! vid" and ?b = "vt_bounds T ! vid"
  have fit: "fits (sv_ty ?v) (lit_uint l) ?b" using T l by (simp add: table_ok_def)
  show ?thesis
  proof (cases "scalar_literal ?v")
    case (Some bits)
    then have "bits = lit_low l" using l sc
      by (auto simp: scalar_literal_def lit_scalar_def u64_of_literal_def carrier_of.simps
          split: value_definition.splits)
    moreover have "lit_uint l < 2 ^ 64"
      using fits_less_carrier [OF fit] sc by (cases "sv_ty ?v") auto
    ultimately show ?thesis using c Some sc fits_take_bit [OF fit]
      by (auto simp: carrier_bits_def Let_def uint_type_normalize uint_lit_low simp flip: take_bit_eq_mod)
  next
    case None
    have m: "uint (logical AND type_mask (sv_ty ?v)) = lit_uint l mod 2 ^ type_bits (sv_ty ?v)"
      using logical by (simp add: lit_uint_normalize type_normalize_def)
    have small: "bb_unsigned ?b \<le> type_bits (sv_ty ?v) \<or> bb_signed ?b \<le> type_bits (sv_ty ?v)"
      using c None by (auto simp: carrier_bits_def Let_def split: if_splits)
    show ?thesis using carrier_bits_value [OF fit sc small m] c None small
      by (auto simp: carrier_bits_def Let_def split: if_splits)
  qed
qed

subsection \<open>Properties\<close>

lemma steps_from_empty:
  "(table_step fh env)\<^sup>*\<^sup>* empty_table T \<Longrightarrow> table_ok fh env T"
  using table_steps_ok empty_table_ok by blast

text \<open>C1: in every table built by steps that keep their contracts, and in every run, an id's carrier encoding
  lies within the bounds stored for it, read both as an unsigned and as a two's-complement number. The
  contracts: an interned operation has operands of the types construction gives it; in the run, parameters
  and effect results have encodings of their type, a parameter pushed with bounds meets them, and bounds
  are transferred between ids with equal encodings. A run gives an unsigned division a value only where
  its dividend is within the logical width, as construction or the facts of a path ensure.\<close>

theorem table_bounds_sound:
  assumes "(table_step fh env)\<^sup>*\<^sup>* empty_table T" and "i < length (vt_values T)"
    and "carrier_of fh env (vt_values T) i = Some l"
  shows "lit_uint l < 2 ^ bb_unsigned (vt_bounds T ! i) \<and>
    - (2 ^ (bb_signed (vt_bounds T ! i) - 1)) \<le> carrier_signed (sv_ty (vt_values T ! i)) (lit_uint l) \<and>
    carrier_signed (sv_ty (vt_values T ! i)) (lit_uint l) < 2 ^ (bb_signed (vt_bounds T ! i) - 1)"
  using steps_from_empty [OF assms(1)] assms(2,3)
  by (auto simp: table_ok_def fits_def signed_fits_def)

text \<open>The sum of two bytes needs nine bits at its carrier.\<close>

definition sum_table :: value_table where
  "sum_table = fst (intern (fst (table_literal (fst (table_literal empty_table I8 (literal_of_u64 200)))
      I8 (literal_of_u64 100))) \<lparr>sv_ty = I8, sv_def = Expression (Binary (Integer Add) 0 1)\<rparr>)"

lemma sum_table_eq:
  "sum_table = \<lparr>vt_values = [\<lparr>sv_ty = I8, sv_def = Literal (literal_of_u64 200)\<rparr>,
       \<lparr>sv_ty = I8, sv_def = Literal (literal_of_u64 100)\<rparr>,
       \<lparr>sv_ty = I8, sv_def = Expression (Binary (Integer Add) 0 1)\<rparr>],
     vt_bounds = [\<lparr>bb_unsigned = 8, bb_signed = 9\<rparr>, \<lparr>bb_unsigned = 7, bb_signed = 8\<rparr>,
       \<lparr>bb_unsigned = 9, bb_signed = 10\<rparr>], vt_interned = [0, 1, 2]\<rparr>"
  by code_simp

lemma sum_table_reachable: "(table_step fh env)\<^sup>*\<^sup>* empty_table sum_table"
proof -
  let ?A = "fst (table_literal empty_table I8 (literal_of_u64 200))"
  let ?B = "fst (table_literal ?A I8 (literal_of_u64 100))"
  have "?B = \<lparr>vt_values = [\<lparr>sv_ty = I8, sv_def = Literal (literal_of_u64 200)\<rparr>,
       \<lparr>sv_ty = I8, sv_def = Literal (literal_of_u64 100)\<rparr>],
     vt_bounds = [\<lparr>bb_unsigned = 8, bb_signed = 9\<rparr>, \<lparr>bb_unsigned = 7, bb_signed = 8\<rparr>],
     vt_interned = [0, 1]\<rparr>" by code_simp
  then have "value_ok env ?B \<lparr>sv_ty = I8, sv_def = Expression (Binary (Integer Add) 0 1)\<rparr>"
    by (simp add: value_ok_def def_ok_def Let_def)
  then have "table_step fh env ?B sum_table" unfolding sum_table_def by (rule step_intern)
  moreover have "table_step fh env empty_table ?A" "table_step fh env ?A ?B" by (rule step_literal)+
  ultimately show ?thesis by (meson converse_rtranclp_into_rtranclp rtranclp.rtrancl_refl)
qed

lemma sum_table_value: "carrier_of fh env (vt_values sum_table) 2 = Some (literal_of_u64 300)"
proof -
  have "carrier_of fh env (vt_values sum_table) 0 = Some (literal_of_u64 200)"
    "carrier_of fh env (vt_values sum_table) 1 = Some (literal_of_u64 100)"
    by (simp_all add: carrier_of.simps sum_table_eq)
  then show ?thesis
    by (subst carrier_of.simps) (simp add: sum_table_eq pure_result_def path_result_def in_logical_width_def carrier_result_def eval_binary_def
        to_carrier_def lit_scalar_def lit_normalize_def u64_of_literal_def literal_of_u64_def
        type_normalize_def type_mask_def low_mask_def mask_eq_exp_minus_1)
qed

theorem table_bounds_sound_witness:
  "\<forall>fh env. carrier_of fh env (vt_values sum_table) 2 = Some (literal_of_u64 300) \<and>
     lit_uint (literal_of_u64 300) < 2 ^ bb_unsigned (vt_bounds sum_table ! 2)"
  using table_bounds_sound [OF sum_table_reachable _ sum_table_value] sum_table_value
  by (simp add: sum_table_eq)

text \<open>An id keeps its carrier value whatever the builder adds to the table later.\<close>

theorem table_ids_stable:
  assumes "(table_step fh env)\<^sup>*\<^sup>* empty_table T" and "(table_step fh env)\<^sup>*\<^sup>* T T'"
    and "i < length (vt_values T)"
  shows "carrier_of fh env (vt_values T') i = carrier_of fh env (vt_values T) i
    \<and> vt_values T' ! i = vt_values T ! i"
proof -
  have ok: "table_ok fh env T" by (rule steps_from_empty [OF assms(1)])
  obtain ws where "vt_values T' = vt_values T @ ws" using table_steps_ok [OF assms(2) ok] by blast
  then show ?thesis using carrier_of_append [of "vt_values T" i] ok assms(3)
    by (simp add: table_ok_def nth_append)
qed

theorem table_ids_stable_witness:
  "\<forall>fh env. carrier_of fh env (vt_values (fst (table_literal sum_table I32 (literal_of_u64 7)))) 2
     = Some (literal_of_u64 300)"
proof (intro allI)
  fix fh env
  have "table_step fh env sum_table (fst (table_literal sum_table I32 (literal_of_u64 7)))"
    by (rule step_literal)
  from table_ids_stable [OF sum_table_reachable r_into_rtranclp [of "table_step fh env", OF this], of 2]
  show "carrier_of fh env (vt_values (fst (table_literal sum_table I32 (literal_of_u64 7)))) 2
     = Some (literal_of_u64 300)" using sum_table_value by (simp add: sum_table_eq)
qed

text \<open>Values are canonical. Interning a value again, after any number of other values
  were interned, returns the first id and leaves the table as it is.\<close>

theorem intern_canonical:
  assumes "interned_ok T"
  shows "intern (fold (\<lambda>v T. fst (intern T v)) vs (fst (intern T v))) v
    = (fold (\<lambda>v T. fst (intern T v)) vs (fst (intern T v)), snd (intern T v))"
proof -
  let ?F = "\<lambda>T. fold (\<lambda>v T. fst (intern T v)) vs T"
  have ok: "interned_ok (fst (intern T v))" by (rule interned_ok_intern [OF assms])
  have "set (vt_interned T) \<subseteq> set (vt_interned (?F T))" for T
    by (induction vs arbitrary: T) (simp, use interned_mono in \<open>fastforce\<close>)
  then have "snd (intern T v) \<in> set (vt_interned (?F (fst (intern T v))))"
    using intern_interned by blast
  moreover have "interned_ok (?F (fst (intern T v)))" using interning.add_all [OF ok] by blast
  ultimately show ?thesis
    by (intro intern_again interning.add_then_all [OF assms, symmetric])
qed

theorem intern_canonical_witness:
  "intern sum_table \<lparr>sv_ty = I8, sv_def = Literal (literal_of_u64 200)\<rparr> = (sum_table, 0)"
proof -
  let ?a = "\<lparr>sv_ty = I8, sv_def = Literal (literal_of_u64 200)\<rparr>"
  let ?vs = "[\<lparr>sv_ty = I8, sv_def = Literal (literal_of_u64 100)\<rparr>,
    \<lparr>sv_ty = I8, sv_def = Expression (Binary (Integer Add) 0 1)\<rparr>]"
  have "lit_normalize (carrier I8) (lit_normalize I8 (literal_of_u64 200)) = literal_of_u64 200"
    "lit_normalize (carrier I8) (lit_normalize I8 (literal_of_u64 100)) = literal_of_u64 100" by code_simp+
  then have "fold (\<lambda>v T. fst (intern T v)) ?vs (fst (intern empty_table ?a)) = sum_table"
    by (simp add: sum_table_def table_literal_def carrier_literal_def)
  moreover have "snd (intern empty_table ?a) = 0"
    by (simp add: intern_new empty_table_def)
  moreover have "interned_ok empty_table" by (simp add: interned_ok_def empty_table_def)
  ultimately show ?thesis using intern_canonical [of empty_table ?vs ?a] by simp
qed

text \<open>C29: following carrier-preserving conversions ends, at an older id of the same carrier
  and with the same carrier value.\<close>

theorem representation_total:
  assumes "(table_step fh env)\<^sup>*\<^sup>* empty_table T" and "vid < length (vt_values T)"
  shows "\<exists>r\<le>vid. representation T vid = Some r \<and>
    carrier (sv_ty (vt_values T ! r)) = carrier (sv_ty (vt_values T ! vid)) \<and>
    carrier_of fh env (vt_values T) r = carrier_of fh env (vt_values T) vid"
  using representation_ok [OF steps_from_empty [OF assms(1)] assms(2)] .

theorem representation_total_witness:
  "\<exists>r\<le>2. representation sum_table 2 = Some r"
  using representation_total [OF sum_table_reachable, of 2] by (auto simp: sum_table_eq)

text \<open>C37: where the bounds determine it, \<open>carrier_bits\<close> recovers the carrier encoding of a
  scalar value from its logical bits alone.\<close>

theorem carrier_bits_exact:
  assumes "(table_step fh env)\<^sup>*\<^sup>* empty_table T" and "vid < length (vt_values T)"
    and "is_scalar (sv_ty (vt_values T ! vid))"
    and "carrier_of fh env (vt_values T) vid = Some l"
    and "lit_uint (lit_normalize (sv_ty (vt_values T ! vid)) l)
      = uint (type_normalize (sv_ty (vt_values T ! vid)) logical)"
    and "carrier_bits T vid logical = Some c"
  shows "l = literal_of_u64 c"
  using carrier_bits_ok [OF steps_from_empty [OF assms(1)] assms(2-6)] lit_uint_inject [of l "literal_of_u64 c"]
  by simp

theorem carrier_bits_exact_witness:
  "\<forall>fh env. carrier_of fh env (vt_values sum_table) 1 = map_option literal_of_u64 (carrier_bits sum_table 1 100)"
proof (intro allI)
  fix fh env
  have v: "carrier_of fh env (vt_values sum_table) 1 = Some (literal_of_u64 100)"
    by (simp add: carrier_of.simps sum_table_eq)
  have c: "carrier_bits sum_table 1 100 = Some 100" by code_simp
  have "lit_uint (lit_normalize I8 (literal_of_u64 100)) = uint (type_normalize I8 100)" by code_simp
  then have "literal_of_u64 100 = literal_of_u64 (100 :: u64)"
    using carrier_bits_exact [OF sum_table_reachable _ _ v _ c] by (simp add: sum_table_eq)
  with v c show "carrier_of fh env (vt_values sum_table) 1
    = map_option literal_of_u64 (carrier_bits sum_table 1 100)" by simp
qed

end
