(* ===== verification/Io_Bus.thy ===== *)
theory Io_Bus
  imports Bytes "HOL-Library.Multiset"
begin

text \<open>
  The machine's device bus, \<open>machine/src/io.rs\<close>: routing of port transfers, splitting of
  memory-mapped transfers at device boundaries, interrupt polling, and the range check of
  \<open>IoBus::new\<close>. A connection is its address ranges, its device the connection's position;
  the devices' callbacks are parameters that act on one shared machine state. A \<open>u32\<close> bus
  address is a natural number, since \<open>check_mmio_range\<close> excludes every wrap-around.
\<close>

subsection \<open>Connections\<close>

type_synonym 'a range = "'a \<times> 'a"

record connection =
  con_mmio :: "nat range list"
  con_ports :: "u16 range list"

type_synonym io_bus = "connection list"

abbreviation in_range :: "'a::linorder \<Rightarrow> 'a range \<Rightarrow> bool" where
  "in_range x r \<equiv> fst r \<le> x \<and> x \<le> snd r"

fun windows2 :: "('a \<Rightarrow> 'a \<Rightarrow> bool) \<Rightarrow> 'a list \<Rightarrow> bool" where
  "windows2 P (x # y # xs) = (P x y \<and> windows2 P (y # xs))"
| "windows2 P _ = True"

definition validate_ranges :: "'a::linorder range list \<Rightarrow> bool" where
  "validate_ranges ranges \<longleftrightarrow>
     (\<forall>r \<in> set ranges. fst r \<le> snd r) \<and>
     windows2 (\<lambda>a b. snd a < fst b) (sort_key fst ranges)"

text \<open>\<open>IoBus::new\<close>; \<open>None\<close> is the panic on empty or overlapping ranges.\<close>

definition bus_new :: "connection list \<Rightarrow> io_bus option" where
  "bus_new connections =
     (if validate_ranges (concat (map con_mmio connections))
         \<and> validate_ranges (concat (map con_ports connections))
      then Some connections else None)"

definition bus_is_empty :: "io_bus \<Rightarrow> bool" where
  "bus_is_empty bus = (bus = [])"

subsection \<open>Interrupts\<close>

text \<open>Polls the devices in connection order until one is ready.\<close>

fun poll_devices :: "(nat \<Rightarrow> 's \<Rightarrow> 's \<times> u8 option) \<Rightarrow> nat list \<Rightarrow> 's \<Rightarrow> 's \<times> u8 option" where
  "poll_devices poll [] s = (s, None)"
| "poll_devices poll (d # ds) s =
     (case poll d s of
        (s', Some vector) \<Rightarrow> (s', Some vector)
      | (s', None) \<Rightarrow> poll_devices poll ds s')"

definition bus_poll_interrupt ::
  "(nat \<Rightarrow> 's \<Rightarrow> 's \<times> u8 option) \<Rightarrow> io_bus \<Rightarrow> 's \<Rightarrow> 's \<times> u8 option" where
  "bus_poll_interrupt poll bus s = poll_devices poll [0..<length bus] s"

subsection \<open>Ports\<close>

definition port_device :: "io_bus \<Rightarrow> u16 \<Rightarrow> nat option" where
  "port_device bus port =
     find (\<lambda>d. list_ex (in_range port) (con_ports (bus ! d))) [0..<length bus]"

definition port_mask :: "nat \<Rightarrow> u32" where
  "port_mask bytes = drop_bit ((4 - bytes) * 8) (- 1)"

text \<open>\<open>None\<close> is a panic: a failed width assertion, or one of the device's callback.\<close>

definition bus_read_port ::
  "(nat \<Rightarrow> u16 \<Rightarrow> nat \<Rightarrow> 's \<Rightarrow> ('s \<times> u32) option) \<Rightarrow> io_bus \<Rightarrow> u16 \<Rightarrow> nat \<Rightarrow> 's \<Rightarrow> ('s \<times> u32) option" where
  "bus_read_port rd bus port bytes s =
     (if bytes \<noteq> 1 \<and> bytes \<noteq> 2 \<and> bytes \<noteq> 4 then None
      else map_option (\<lambda>(s, v). (s, v AND port_mask bytes))
             (case port_device bus port of
                None \<Rightarrow> Some (s, - 1)
              | Some d \<Rightarrow> rd d port bytes s))"

definition bus_write_port ::
  "(nat \<Rightarrow> u16 \<Rightarrow> nat \<Rightarrow> u32 \<Rightarrow> 's \<Rightarrow> 's option) \<Rightarrow> io_bus \<Rightarrow> u16 \<Rightarrow> nat \<Rightarrow> u32 \<Rightarrow> 's \<Rightarrow> 's option" where
  "bus_write_port wr bus port bytes v s =
     (if bytes \<noteq> 1 \<and> bytes \<noteq> 2 \<and> bytes \<noteq> 4 then None
      else case port_device bus port of
             None \<Rightarrow> Some s
           | Some d \<Rightarrow> wr d port bytes (v AND port_mask bytes) s)"

subsection \<open>Memory-mapped transfers\<close>

definition check_mmio_range :: "nat \<Rightarrow> nat \<Rightarrow> bool" where
  "check_mmio_range address bytes \<longleftrightarrow> 1 \<le> bytes \<and> bytes \<le> 8 \<and> address + bytes \<le> 2 ^ 32"

text \<open>The scan over every range of every connection, with the running cnt.\<close>

fun span_ranges :: "nat \<Rightarrow> nat range list \<Rightarrow> nat \<Rightarrow> nat + nat" where
  "span_ranges address [] cnt = Inr cnt"
| "span_ranges address (r # rs) cnt =
     (if in_range address r then Inl (min cnt (snd r - address + 1))
      else span_ranges address rs (if address < fst r then min cnt (fst r - address) else cnt))"

fun span_connections :: "nat \<Rightarrow> connection list \<Rightarrow> nat \<Rightarrow> nat \<Rightarrow> nat option \<times> nat" where
  "span_connections address [] d cnt = (None, cnt)"
| "span_connections address (c # cs) d cnt =
     (case span_ranges address (con_mmio c) cnt of
        Inl cnt \<Rightarrow> (Some d, cnt)
      | Inr cnt \<Rightarrow> span_connections address cs (d + 1) cnt)"

definition mmio_span :: "io_bus \<Rightarrow> nat \<Rightarrow> nat \<Rightarrow> nat option \<times> nat" where
  "mmio_span bus address bytes = span_connections address bus 0 bytes"

lemma span_ranges_bounds:
  assumes "0 < cnt"
  shows "case span_ranges address rs cnt of
      Inl n \<Rightarrow> 0 < n \<and> n \<le> cnt | Inr n \<Rightarrow> 0 < n \<and> n \<le> cnt"
  using assms
proof (induction rs arbitrary: cnt)
  case (Cons r rs)
  from Cons.prems Cons.IH [of "if address < fst r then min cnt (fst r - address) else cnt"]
  show ?case by (auto split: sum.splits if_splits)
qed simp

lemma span_connections_bounds:
  "0 < cnt \<Longrightarrow> 0 < snd (span_connections address cs d cnt) \<and> snd (span_connections address cs d cnt) \<le> cnt"
proof (induction cs arbitrary: d cnt)
  case (Cons c cs)
  then show ?case using span_ranges_bounds [OF Cons.prems, of address "con_mmio c"]
    by (auto split: sum.splits) (meson dual_order.trans)+
qed simp

lemma mmio_span_bounds:
  "0 < bytes \<Longrightarrow> 0 < snd (mmio_span bus address bytes) \<and> snd (mmio_span bus address bytes) \<le> bytes"
  unfolding mmio_span_def by (rule span_connections_bounds)

lemma mmio_span_count: "(d, n) = mmio_span bus address bytes \<Longrightarrow> 0 < bytes \<Longrightarrow> 0 < n \<and> n \<le> bytes"
  using mmio_span_bounds [of bytes bus address] by (cases "mmio_span bus address bytes") simp

text \<open>The read loop, with the eight result bytes it fills.\<close>

function read_loop ::
  "(nat \<Rightarrow> nat \<Rightarrow> nat \<Rightarrow> 's \<Rightarrow> 's \<times> u64) \<Rightarrow> io_bus \<Rightarrow> nat \<Rightarrow> nat \<Rightarrow> nat \<Rightarrow> u8 list \<Rightarrow> 's \<Rightarrow> 's \<times> u8 list" where
  "read_loop rd bus address bytes don result s =
     (if don < bytes then
        (case mmio_span bus (address + don) (bytes - don) of
           (device, cnt) \<Rightarrow>
             (let (s, result) = (case device of
                    None \<Rightarrow> (s, result)
                  | Some d \<Rightarrow>
                      (let (s, v) = rd d (address + don) cnt s in
                       (s, take don result @ take cnt (to_le_bytes v) @ drop (don + cnt) result)))
              in read_loop rd bus address bytes (don + cnt) result s))
      else (s, result))"
  by pat_completeness auto
termination
  by (relation "measure (\<lambda>(rd, bus, address, bytes, don, result, s). bytes - don)")
    (auto dest: mmio_span_count)

definition bus_read_mmio ::
  "(nat \<Rightarrow> nat \<Rightarrow> nat \<Rightarrow> 's \<Rightarrow> 's \<times> u64) \<Rightarrow> io_bus \<Rightarrow> nat \<Rightarrow> nat \<Rightarrow> 's \<Rightarrow> ('s \<times> u64) option" where
  "bus_read_mmio rd bus address bytes s =
     (if \<not> check_mmio_range address bytes then None
      else let (s, result) = read_loop rd bus address bytes 0 (replicate 8 0xFF) s
           in Some (s, from_le_bytes (take bytes result @ replicate (8 - bytes) 0)))"

function write_loop ::
  "(nat \<Rightarrow> nat \<Rightarrow> nat \<Rightarrow> u64 \<Rightarrow> 's \<Rightarrow> 's) \<Rightarrow> io_bus \<Rightarrow> nat \<Rightarrow> nat \<Rightarrow> u8 list \<Rightarrow> nat \<Rightarrow> 's \<Rightarrow> 's" where
  "write_loop wr bus address bytes v don s =
     (if don < bytes then
        (case mmio_span bus (address + don) (bytes - don) of
           (device, cnt) \<Rightarrow>
             write_loop wr bus address bytes v (don + cnt)
               (case device of
                  None \<Rightarrow> s
                | Some d \<Rightarrow> wr d (address + don) cnt
                    (from_le_bytes (take cnt (drop don v) @ replicate (8 - cnt) 0)) s))
      else s)"
  by pat_completeness auto
termination
  by (relation "measure (\<lambda>(wr, bus, address, bytes, v, don, s). bytes - don)")
    (auto dest: mmio_span_count)

definition bus_write_mmio ::
  "(nat \<Rightarrow> nat \<Rightarrow> nat \<Rightarrow> u64 \<Rightarrow> 's \<Rightarrow> 's) \<Rightarrow> io_bus \<Rightarrow> nat \<Rightarrow> nat \<Rightarrow> u64 \<Rightarrow> 's \<Rightarrow> 's option" where
  "bus_write_mmio wr bus address bytes v s =
     (if \<not> check_mmio_range address bytes then None
      else Some (write_loop wr bus address bytes (to_le_bytes v) 0 s))"

declare read_loop.simps [simp del] write_loop.simps [simp del]

subsection \<open>Validation\<close>

lemma length_filter_mset: "mset xs = mset ys \<Longrightarrow> length (filter P xs) = length (filter P ys)"
  by (metis mset_filter size_mset)

lemma windows2_sorted:
  fixes xs :: "'a::linorder range list"
  assumes "sorted (map fst xs)" and "\<forall>r\<in>set xs. fst r \<le> snd r"
  shows "windows2 (\<lambda>a b. snd a < fst b) xs \<longleftrightarrow> (\<forall>x. length (filter (in_range x) xs) \<le> 1)"
  using assms
proof (induction xs rule: induct_list012)
  case (3 a b xs)
  show ?case
  proof (cases "snd a < fst b")
    case True
    have "filter (in_range x) (b # xs) = []" if "in_range x a" for x
      using 3(3) that True by (auto simp: filter_empty_conv)
    then have "length (filter (in_range x) (a # b # xs)) \<le> 1 \<longleftrightarrow> length (filter (in_range x) (b # xs)) \<le> 1" for x
      by (cases "in_range x a") (simp_all only: filter.simps if_True if_False, simp_all)
    then show ?thesis using 3 True by simp
  next
    case False
    then have "in_range (fst b) a" "in_range (fst b) b" using 3(3,4) by auto
    then have "\<not> length (filter (in_range (fst b)) (a # b # xs)) \<le> 1" by simp
    then show ?thesis using False by (simp only: windows2.simps) blast
  qed
qed auto

lemma validate_ranges_iff:
  "validate_ranges rs \<longleftrightarrow>
     (\<forall>r\<in>set rs. fst r \<le> snd r) \<and> (\<forall>x. length (filter (in_range x) rs) \<le> 1)"
  using windows2_sorted [of "sort_key fst rs"] length_filter_mset [of "sort_key fst rs" rs]
  by (auto simp: validate_ranges_def)

lemma two_hits:
  assumes "i < length xss" and "j < length xss" and "i \<noteq> j" and "list_ex P (xss ! i)" and "list_ex P (xss ! j)"
  shows "2 \<le> length (filter P (concat xss))"
proof -
  have *: "1 \<le> length (filter P (xss ! k))" if "list_ex P (xss ! k)" for k
    using that by (auto simp: list_ex_iff filter_empty_conv Suc_le_eq length_greater_0_conv simp del: length_greater_0_conv)
  have sum: "length (filter P (concat xss)) = (\<Sum>k<length xss. length (filter P (xss ! k)))"
    by (simp add: filter_concat length_concat sum_list_sum_nth atLeast0LessThan)
  have "(\<Sum>k\<in>{i, j}. length (filter P (xss ! k))) \<le> (\<Sum>k<length xss. length (filter P (xss ! k)))"
    by (rule sum_mono2) (use assms in auto)
  then show ?thesis using assms(3) * [OF assms(4)] * [OF assms(5)] sum by simp
qed

lemma unique_owner:
  assumes "validate_ranges (concat (map f bus))" and "i < length bus" and "j < length bus"
    and "list_ex (in_range x) (f (bus ! i))" and "list_ex (in_range x) (f (bus ! j))"
  shows "i = j"
proof (rule ccontr)
  assume "i \<noteq> j"
  then have "2 \<le> length (filter (in_range x) (concat (map f bus)))"
    using assms by (intro two_hits [of i _ j]) simp_all
  then show False using assms(1) unfolding validate_ranges_iff by (metis Suc_1 not_less_eq_eq One_nat_def)
qed

definition owner :: "(connection \<Rightarrow> 'a::linorder range list) \<Rightarrow> io_bus \<Rightarrow> 'a \<Rightarrow> nat option" where
  "owner f bus x = find (\<lambda>d. list_ex (in_range x) (f (bus ! d))) [0..<length bus]"

lemma owner_Some:
  assumes "validate_ranges (concat (map f bus))"
  shows "owner f bus x = Some d \<longleftrightarrow> d < length bus \<and> list_ex (in_range x) (f (bus ! d))"
proof
  assume "owner f bus x = Some d"
  then show "d < length bus \<and> list_ex (in_range x) (f (bus ! d))"
    by (auto simp: owner_def find_Some_iff)
next
  assume d: "d < length bus \<and> list_ex (in_range x) (f (bus ! d))"
  then obtain e where e: "owner f bus x = Some e"
    by (cases "owner f bus x") (auto simp: owner_def find_None_iff)
  then have "e < length bus" "list_ex (in_range x) (f (bus ! e))"
    by (auto simp: owner_def find_Some_iff)
  with unique_owner [OF assms, of e d x] d e show "owner f bus x = Some d" by simp
qed

lemma owner_None: "owner f bus x = None \<longleftrightarrow> (\<forall>c\<in>set bus. \<not> list_ex (in_range x) (f c))"
  by (simp add: owner_def find_None_iff all_set_conv_all_nth)

subsection \<open>Spans\<close>

lemma span_ranges_Inl:
  "span_ranges a rs n = Inl k \<Longrightarrow> \<exists>r\<in>set rs. in_range a r \<and> a + k \<le> snd r + 1"
  by (induction rs arbitrary: n) (auto split: if_splits)

lemma span_ranges_Inr:
  "span_ranges a rs n = Inr k \<Longrightarrow> k \<le> n \<and> (\<forall>r\<in>set rs. snd r < a \<or> a + k \<le> fst r)"
proof (induction rs arbitrary: n)
  case (Cons r rs)
  let ?n = "if a < fst r then min n (fst r - a) else n"
  have "\<not> in_range a r" "span_ranges a rs ?n = Inr k" using Cons.prems by (auto split: if_splits)
  then show ?case using Cons.IH [of ?n] by (auto split: if_splits)
qed simp

lemma span_connections_Some:
  "span_connections a cs d n = (Some e, k) \<Longrightarrow>
   d \<le> e \<and> e < d + length cs \<and> (\<exists>r\<in>set (con_mmio (cs ! (e - d))). in_range a r \<and> a + k \<le> snd r + 1)"
proof (induction cs arbitrary: d n)
  case (Cons c cs)
  show ?case
  proof (cases "span_ranges a (con_mmio c) n")
    case (Inl m)
    then show ?thesis using Cons.prems span_ranges_Inl [OF Inl] by auto
  next
    case (Inr m)
    then show ?thesis using Cons.prems Cons.IH [of "d + 1" m] by (auto simp: nth_Cons' Suc_le_eq)
  qed
qed simp

lemma span_connections_None:
  "span_connections a cs d n = (None, k) \<Longrightarrow>
   k \<le> n \<and> (\<forall>c\<in>set cs. \<forall>r\<in>set (con_mmio c). snd r < a \<or> a + k \<le> fst r)"
proof (induction cs arbitrary: d n)
  case (Cons c cs)
  then obtain m where m: "span_ranges a (con_mmio c) n = Inr m" "span_connections a cs (d + 1) m = (None, k)"
    by (auto split: sum.splits)
  then show ?case using Cons.IH [OF m(2)] span_ranges_Inr [OF m(1)] by fastforce
qed simp

text \<open>Every byte of a span belongs to the span's device, or to none.\<close>

lemma mmio_span_owner:
  assumes "validate_ranges (concat (map con_mmio bus))" and "mmio_span bus a n = (d, k)" and "a \<le> x" and "x < a + k"
  shows "owner con_mmio bus x = d"
proof (cases d)
  case (Some e)
  then obtain r where "e < length bus" "r \<in> set (con_mmio (bus ! e))" "in_range a r" "a + k \<le> snd r + 1"
    using span_connections_Some [of a bus 0 n e k] assms(2) by (auto simp: mmio_span_def)
  then show ?thesis using assms Some owner_Some [OF assms(1), of x e]
    by (auto simp: list_ex_iff intro!: bexI [of _ r])
next
  case None
  then show ?thesis using span_connections_None [of a bus 0 n k] assms
    by (force simp: mmio_span_def owner_None list_ex_iff)
qed

subsection \<open>Properties\<close>

lemma bus_new_Some:
  "bus_new cs = Some bus \<longleftrightarrow> bus = cs \<and> validate_ranges (concat (map con_mmio cs))
     \<and> validate_ranges (concat (map con_ports cs))"
  by (auto simp: bus_new_def)

text \<open>C40: the bus is created exactly when no range is empty and no address of either bus is
  claimed twice, although the check only compares neighbours of the sorted ranges.\<close>

theorem bus_new_iff:
  "bus_new cs = Some cs \<longleftrightarrow>
     (\<forall>c\<in>set cs. (\<forall>r\<in>set (con_mmio c). fst r \<le> snd r) \<and> (\<forall>r\<in>set (con_ports c). fst r \<le> snd r)) \<and>
     (\<forall>x. length (filter (in_range x) (concat (map con_mmio cs))) \<le> 1) \<and>
     (\<forall>x. length (filter (in_range x) (concat (map con_ports cs))) \<le> 1)"
  by (auto simp: bus_new_Some validate_ranges_iff)

text \<open>Two adjacent memory windows and one port range.\<close>

definition sample_bus :: io_bus where
  "sample_bus = [\<lparr>con_mmio = [(0xA0000, 0xA0003)], con_ports = [(0x3C0, 0x3CF)]\<rparr>,
    \<lparr>con_mmio = [(0xA0004, 0xA0005)], con_ports = []\<rparr>]"

lemma sample_bus_new: "bus_new sample_bus = Some sample_bus"
  by (simp add: bus_new_def sample_bus_def validate_ranges_def)

theorem bus_new_iff_witness: "length (filter (in_range 0xA0003) (concat (map con_mmio sample_bus))) \<le> 1"
  using bus_new_iff [of sample_bus] sample_bus_new by blast

text \<open>Port transfers reach the one device that claims the port. The first match the code
  takes is the only one, so routing does not depend on the order of the connections.\<close>

theorem port_routing_unique:
  assumes "bus_new cs = Some bus"
  shows "port_device bus port = Some d \<longleftrightarrow>
      d < length bus \<and> (\<exists>r\<in>set (con_ports (bus ! d)). in_range port r)"
  using owner_Some [of con_ports bus port d] assms
  by (simp add: bus_new_Some port_device_def owner_def list_ex_iff)

theorem port_routing_unique_witness: "port_device sample_bus 0x3C4 = Some 0"
  using port_routing_unique [OF sample_bus_new, of "0x3C4" 0] by (simp add: sample_bus_def)

end
