(* ===== verification/Pit_Counter.thy ===== *)
theory Pit_Counter
  imports Prelude
begin

text \<open>
  One 8254 counter and the PC/AT input clock: \<open>pit/src/lib.rs\<close> and \<open>pit/src/clock.rs\<close>.
  Counts and phases are natural numbers; the invariant keeps them within \<open>u32\<close> (at most
  65536), so no conversion or subtraction of the code loses anything. The closed-form
  \<open>advance\<close> is proved equal to a clock-by-clock reference.
\<close>

subsection \<open>lib.rs\<close>

record counter =
  control_word :: u8
  gate :: bool
  reload :: nat
  active :: nat
  phase :: nat
  loading :: bool
  null_count :: bool
  write_low :: "u8 option"
  read_high :: bool
  latched_count :: "u16 option"
  latched_status :: "u8 option"

definition counter_default :: counter where
  "counter_default =
     \<lparr>control_word = 0, gate = False, reload = 0, active = 0, phase = 0, loading = False,
      null_count = False, write_low = None, read_high = False, latched_count = None,
      latched_status = None\<rparr>"

definition mode :: "counter \<Rightarrow> nat option" where
  "mode c =
     (let m = unat (drop_bit 1 (control_word c) AND 3) in
      if control_word c AND 1 = 0 \<and> (m = 2 \<or> m = 3) then Some m else None)"

definition high_clocks :: "counter \<Rightarrow> nat" where
  "high_clocks c = (if mode c = Some 3 then div_ceil (active c) 2 else active c - 1)"

definition counter_output :: "counter \<Rightarrow> bool" where
  "counter_output c \<longleftrightarrow>
     mode c \<noteq> None \<and> (\<not> gate c \<or> loading c \<or> active c = 0 \<or> phase c < high_clocks c)"

definition counter_count :: "counter \<Rightarrow> u16" where
  "counter_count c = of_nat
     (if mode c = Some 2 then active c - phase c
      else if active c = 0 then 0
      else let half_phase = (if phase c < high_clocks c then phase c else phase c - high_clocks c)
           in 2 * (active c div 2) - 2 * half_phase)"

definition latch :: "bool \<Rightarrow> bool \<Rightarrow> counter \<Rightarrow> counter" where
  "latch cnt status c =
     (let c = (if cnt \<and> latched_count c = None then c\<lparr>latched_count := Some (counter_count c)\<rparr> else c)
      in if status \<and> latched_status c = None
         then c\<lparr>latched_status := Some (control_word c OR push_bit 6 (of_bool (null_count c))
                                   OR push_bit 7 (of_bool (counter_output c)))\<rparr>
         else c)"

definition counter_control :: "u8 \<Rightarrow> counter \<Rightarrow> counter" where
  "counter_control val c =
     (if val AND 0x30 = 0 then latch True False c
      else counter_default\<lparr>control_word := val AND 0x3F, gate := gate c, null_count := True\<rparr>)"

definition set_count :: "u16 \<Rightarrow> counter \<Rightarrow> counter" where
  "set_count n c =
     (let c = c\<lparr>reload := (if n = 0 then 65536 else unat n), null_count := True\<rparr>
      in if active c = 0 then c\<lparr>loading := True\<rparr> else c)"

definition counter_write :: "u8 \<Rightarrow> counter \<Rightarrow> counter" where
  "counter_write val c =
     (let access = control_word c AND 0x30 in
      if access = 0x10 then set_count (ucast val) c
      else if access = 0x20 then set_count (push_bit 8 (ucast val)) c
      else if access = 0x30 then
        (case write_low c of
           Some low \<Rightarrow> set_count (from_le_bytes [low, val]) (c\<lparr>write_low := None\<rparr>)
         | None \<Rightarrow> c\<lparr>write_low := Some val\<rparr>)
      else c)"

definition counter_read :: "counter \<Rightarrow> counter \<times> u8" where
  "counter_read c =
     (case latched_status c of
        Some status \<Rightarrow> (c\<lparr>latched_status := None\<rparr>, status)
      | None \<Rightarrow>
          (let n = (case latched_count c of Some n \<Rightarrow> n | None \<Rightarrow> counter_count c);
               access = control_word c AND 0x30;
               high = (access = 0x20 \<or> access = 0x30 \<and> read_high c);
               c = c\<lparr>read_high := (access = 0x30 \<and> \<not> read_high c)\<rparr>;
               c = (if \<not> read_high c then c\<lparr>latched_count := None\<rparr> else c)
           in (c, if high then ucast (drop_bit 8 n) else ucast n)))"

definition set_gate :: "bool \<Rightarrow> counter \<Rightarrow> counter" where
  "set_gate high c =
     (let c' = (if high \<and> \<not> gate c \<and> reload c \<noteq> 0 then c\<lparr>loading := True\<rparr> else c)
      in c'\<lparr>gate := high\<rparr>)"

definition load :: "counter \<Rightarrow> counter" where
  "load c = c\<lparr>active := (if reload c \<ge> 2 then reload c else 0), null_count := False\<rparr>"

definition advance_periodic :: "nat \<Rightarrow> counter \<Rightarrow> counter \<times> nat" where
  "advance_periodic clocks c =
     (let period = active c; high = high_clocks c; end_phase = phase c + clocks;
          integral = end_phase div period * high + min (end_phase mod period) high - min (phase c) high
      in (c\<lparr>phase := end_phase mod period\<rparr>, integral))"

definition reload_boundary :: "counter \<Rightarrow> nat" where
  "reload_boundary c =
     (if mode c = Some 3 \<and> phase c < high_clocks c then high_clocks c else active c)"

text \<open>The three stages of \<open>advance\<close>: an initial load, a pending reload, and whole periods.\<close>

definition advance_rest :: "nat \<Rightarrow> counter \<Rightarrow> counter \<times> nat" where
  "advance_rest clocks c =
     (if active c = 0 then (c, clocks * of_bool (counter_output c)) else advance_periodic clocks c)"

definition advance_loaded :: "nat \<Rightarrow> counter \<Rightarrow> counter \<times> nat" where
  "advance_loaded clocks c =
     (if mode c = None \<or> active c = 0 \<or> \<not> gate c then (c, clocks * of_bool (counter_output c))
      else if null_count c \<and> clocks \<ge> reload_boundary c - phase c then
        (let boundary = reload_boundary c;
             until_reload = boundary - phase c;
             next_high = (boundary = active c);
             (c, high) = advance_periodic until_reload c;
             c = load c;
             c = c\<lparr>phase := (if next_high then 0 else high_clocks c)\<rparr>;
             (c, rest) = advance_rest (clocks - until_reload) c
         in (c, high + rest))
      else advance_rest clocks c)"

definition advance :: "nat \<Rightarrow> counter \<Rightarrow> counter \<times> nat" where
  "advance clocks c =
     (if loading c \<and> clocks \<noteq> 0 then
        (let (c', rest) = advance_loaded (clocks - 1) ((load c)\<lparr>phase := 0, loading := False\<rparr>)
         in (c', of_bool (counter_output c) + rest))
      else advance_loaded clocks c)"

definition next_transition :: "counter \<Rightarrow> nat option" where
  "next_transition c =
     (if mode c = None \<or> \<not> gate c then None
      else if loading c then Some 1
      else if active c = 0 then None
      else let boundary = (if phase c < high_clocks c then high_clocks c else active c)
           in Some (boundary - phase c))"

text \<open>The loop of \<open>next_rising_edge\<close>; the outer \<open>None\<close> is a loop that does not end.\<close>

partial_function (option) rising_loop :: "counter \<Rightarrow> nat \<Rightarrow> nat option option" where
  "rising_loop c clocks =
     (case next_transition c of
        None \<Rightarrow> Some None
      | Some until \<Rightarrow>
          (let c' = fst (advance until c) in
           if \<not> counter_output c \<and> counter_output c' then Some (Some (clocks + until))
           else rising_loop c' (clocks + until)))"

definition next_rising_edge :: "counter \<Rightarrow> nat option option" where
  "next_rising_edge c = rising_loop c 0"

subsection \<open>clock.rs\<close>

definition INPUT_HZ :: nat where
  "INPUT_HZ = 1193182"

text \<open>A \<open>Duration\<close> is its nanoseconds; \<open>None\<close> is the failed conversion to \<open>u64\<close>.\<close>

definition clocks_at :: "nat \<Rightarrow> nat option" where
  "clocks_at time =
     (let clocks = time * INPUT_HZ div 1000000000 in if clocks < 2 ^ 64 then Some clocks else None)"

definition time_at :: "nat \<Rightarrow> nat" where
  "time_at clocks =
     clocks div INPUT_HZ * 1000000000 + div_ceil (clocks mod INPUT_HZ * 1000000000) INPUT_HZ"

subsection \<open>Invariant\<close>

definition counter_ok :: "counter \<Rightarrow> bool" where
  "counter_ok c \<longleftrightarrow>
     reload c \<le> 65536 \<and> active c \<le> 65536 \<and> active c \<noteq> 1 \<and>
     (if active c = 0 then phase c = 0 else phase c < active c)"

lemma high_clocks_less: "counter_ok c \<Longrightarrow> active c \<noteq> 0 \<Longrightarrow> 0 < high_clocks c \<and> high_clocks c < active c"
  by (auto simp: counter_ok_def high_clocks_def div_ceil_def)

lemma high_clocks_0 [simp]: "active c = 0 \<Longrightarrow> high_clocks c = 0"
  by (simp add: high_clocks_def div_ceil_def)

lemma mode_cong: "control_word d = control_word c \<Longrightarrow> mode d = mode c"
  by (simp add: mode_def)

lemma high_clocks_cong: "control_word d = control_word c \<Longrightarrow> active d = active c \<Longrightarrow> high_clocks d = high_clocks c"
  by (simp add: high_clocks_def mode_def)

lemma load_fields [simp]:
  "control_word (load c) = control_word c" "gate (load c) = gate c" "reload (load c) = reload c"
  "loading (load c) = loading c" "null_count (load c) = False"
  "active (load c) = (if reload c \<ge> 2 then reload c else 0)"
  by (simp_all add: load_def)

lemma mode_updates [simp]:
  "mode (c\<lparr>phase := p\<rparr>) = mode c" "mode (load c) = mode c" "mode (c\<lparr>loading := l\<rparr>) = mode c"
  by (simp_all add: mode_def)

subsection \<open>Clock-by-clock reference\<close>

definition tick :: "counter \<Rightarrow> counter" where
  "tick c =
     (if loading c then (load c)\<lparr>phase := 0, loading := False\<rparr>
      else if mode c = None \<or> active c = 0 \<or> \<not> gate c then c
      else if null_count c \<and> phase c + 1 = reload_boundary c then
        (load c)\<lparr>phase := (if reload_boundary c = active c then 0 else high_clocks (load c))\<rparr>
      else c\<lparr>phase := (if phase c + 1 = active c then 0 else phase c + 1)\<rparr>)"

definition high_ticks :: "nat \<Rightarrow> counter \<Rightarrow> nat" where
  "high_ticks n c = length (filter (\<lambda>i. counter_output ((tick ^^ i) c)) [0..<n])"

text \<open>The number of high intervals before an absolute clock, counted from phase zero.\<close>

definition high_before :: "nat \<Rightarrow> nat \<Rightarrow> nat \<Rightarrow> nat" where
  "high_before period high n = n div period * high + min (n mod period) high"

lemma high_before_Suc:
  assumes "high < period"
  shows "high_before period high (Suc n) = high_before period high n + of_bool (n mod period < high)"
proof (cases "Suc (n mod period) = period")
  case True
  then have m: "Suc n mod period = 0" "Suc n div period = Suc (n div period)"
    by (simp_all add: mod_Suc div_Suc)
  have "high \<le> n mod period" using True assms by linarith
  then show ?thesis by (simp add: high_before_def m)
next
  case False
  then have m: "Suc n mod period = Suc (n mod period)" "Suc n div period = n div period"
    by (simp_all add: mod_Suc div_Suc)
  show ?thesis by (simp add: high_before_def m)
qed

lemma high_before_mono:
  assumes "high < period" and "m \<le> n"
  shows "high_before period high m \<le> high_before period high n"
  using assms(2) by (induction n rule: dec_induct) (simp_all add: high_before_Suc [OF assms(1)])

lemma advance_periodic_eq:
  "advance_periodic n c = (c\<lparr>phase := (phase c + n) mod active c\<rparr>,
     high_before (active c) (high_clocks c) (phase c + n) - min (phase c) (high_clocks c))"
  by (simp add: advance_periodic_def high_before_def Let_def)

definition running :: "counter \<Rightarrow> bool" where
  "running c \<longleftrightarrow> \<not> loading c \<and> mode c \<noteq> None \<and> active c \<noteq> 0 \<and> gate c"

lemma running_output: "running c \<Longrightarrow> counter_output c = (phase c < high_clocks c)"
  by (auto simp: running_def counter_output_def)

text \<open>One clock of the periodic part.\<close>

definition next_phase :: "counter \<Rightarrow> counter" where
  "next_phase c = c\<lparr>phase := (if phase c + 1 = active c then 0 else phase c + 1)\<rparr>"

lemma advance_periodic_Suc:
  assumes "counter_ok c" and "active c \<noteq> 0"
  shows "advance_periodic (Suc n) c =
    (let (d, h) = advance_periodic n (next_phase c) in (d, of_bool (phase c < high_clocks c) + h))"
proof -
  let ?P = "active c" and ?H = "high_clocks c" and ?p = "phase c"
  have H: "?H < ?P" "0 < ?H" using high_clocks_less [OF assms] by simp_all
  have p: "?p < ?P" using assms by (simp add: counter_ok_def)
  have hp: "high_clocks (next_phase c) = ?H" "active (next_phase c) = ?P"
    by (simp_all add: next_phase_def high_clocks_def mode_def)
  have first: "high_before ?P ?H ?p = min ?p ?H" "?p mod ?P = ?p" using p by (simp_all add: high_before_def)
  have le: "min ?p ?H + of_bool (?p < ?H) \<le> high_before ?P ?H (?p + Suc n)"
    using high_before_mono [OF H(1), of "Suc ?p" "?p + Suc n"] high_before_Suc [OF H(1), of ?p] first by simp
  show ?thesis
  proof (cases "?p + 1 = ?P")
    case True
    then have "?p + Suc n = ?P + n" by simp
    then have "(?p + Suc n) mod ?P = n mod ?P" "high_before ?P ?H (?p + Suc n) = ?H + high_before ?P ?H n"
      using assms(2) by (simp_all only: high_before_def) (simp_all add: div_add_self1)
    moreover have "\<not> ?p < ?H" using H True by linarith
    ultimately show ?thesis using True H
      by (simp add: advance_periodic_eq hp) (simp add: next_phase_def)
  next
    case False
    then show ?thesis using le hp
      by (simp add: advance_periodic_eq) (auto simp: next_phase_def min_def split: if_splits)
  qed
qed

lemma tick_running:
  assumes "running c" and "\<not> (null_count c \<and> phase c + 1 = reload_boundary c)"
  shows "tick c = next_phase c"
  using assms by (auto simp: tick_def running_def next_phase_def)

lemma running_next_phase [simp]: "running (next_phase c) = running c" "null_count (next_phase c) = null_count c"
  by (simp_all add: running_def next_phase_def mode_def)

lemma counter_ok_next_phase: "counter_ok c \<Longrightarrow> active c \<noteq> 0 \<Longrightarrow> counter_ok (next_phase c)"
  by (auto simp: counter_ok_def next_phase_def)

lemma counter_ok_load:
  "reload c \<le> 65536 \<Longrightarrow> p = 0 \<or> p = high_clocks (load c) \<Longrightarrow> counter_ok ((load c)\<lparr>phase := p, loading := l\<rparr>)"
  by (auto simp: counter_ok_def high_clocks_def div_ceil_def)

lemma counter_ok_load':
  "reload c \<le> 65536 \<Longrightarrow> p = 0 \<or> p = high_clocks (load c) \<Longrightarrow> counter_ok ((load c)\<lparr>phase := p\<rparr>)"
  by (auto simp: counter_ok_def high_clocks_def div_ceil_def)

lemma counter_ok_tick: "counter_ok c \<Longrightarrow> counter_ok (tick c)"
proof -
  assume ok: "counter_ok c"
  then have r: "reload c \<le> 65536" by (simp add: counter_ok_def)
  show ?thesis
    using ok counter_ok_load [OF r, of 0 False] counter_ok_load' [OF r] counter_ok_next_phase [of c]
    by (auto simp: tick_def next_phase_def)
qed

text \<open>Before the boundary a pending reload stays pending at the same boundary.\<close>

lemma reload_boundary_next:
  assumes "counter_ok c" and "running c" and "phase c + 1 < reload_boundary c"
  shows "reload_boundary (next_phase c) = reload_boundary c" and "phase (next_phase c) = phase c + 1"
proof -
  have "reload_boundary c \<le> active c"
    using high_clocks_less [OF assms(1)] assms(2) by (auto simp: reload_boundary_def running_def)
  then show "phase (next_phase c) = phase c + 1" using assms(3) by (simp add: next_phase_def)
  moreover have "high_clocks (next_phase c) = high_clocks c" "mode (next_phase c) = mode c"
      "active (next_phase c) = active c"
    by (simp_all add: next_phase_def high_clocks_def mode_def)
  ultimately show "reload_boundary (next_phase c) = reload_boundary c"
    using assms(3) by (auto simp: reload_boundary_def split: if_splits)
qed

lemma reload_boundary_less: "counter_ok c \<Longrightarrow> running c \<Longrightarrow> phase c < reload_boundary c"
  by (auto simp: reload_boundary_def running_def counter_ok_def)

lemma load_next_phase: "(load (next_phase c))\<lparr>phase := p\<rparr> = (load c)\<lparr>phase := p\<rparr>"
  by (simp add: next_phase_def load_def)

lemma high_clocks_phase [simp]: "high_clocks (c\<lparr>phase := p\<rparr>) = high_clocks c"
  by (simp add: high_clocks_def mode_def)

lemma high_clocks_load_phase [simp]: "high_clocks (load (c\<lparr>phase := p\<rparr>)) = high_clocks (load c)"
  by (simp add: high_clocks_def mode_def load_def)

lemma load_phase_twice: "(load (c\<lparr>phase := q\<rparr>))\<lparr>phase := p\<rparr> = (load c)\<lparr>phase := p\<rparr>"
  by (simp add: load_def)

text \<open>The pending-reload stage, with the periodic advance up to the boundary simplified.\<close>

definition reloaded :: "counter \<Rightarrow> counter" where
  "reloaded c = (load c)\<lparr>phase := (if reload_boundary c = active c then 0 else high_clocks (load c))\<rparr>"

lemma fst_advance_periodic: "fst (advance_periodic n c) = c\<lparr>phase := (phase c + n) mod active c\<rparr>"
  by (simp add: advance_periodic_eq)

lemma advance_periodic_0: "counter_ok c \<Longrightarrow> active c \<noteq> 0 \<Longrightarrow> advance_periodic 0 c = (c, 0)"
  by (simp add: advance_periodic_eq high_before_def counter_ok_def)

lemma advance_loaded_reload:
  assumes "running c" and "null_count c" and "reload_boundary c - phase c \<le> n"
  shows "advance_loaded n c =
    (let (d, rest) = advance_rest (n - (reload_boundary c - phase c)) (reloaded c)
     in (d, snd (advance_periodic (reload_boundary c - phase c) c) + rest))"
  using assms
  by (auto simp: advance_loaded_def running_def reloaded_def Let_def split_beta fst_advance_periodic load_phase_twice)

lemma advance_loaded_run:
  assumes "running c" and "null_count c \<longrightarrow> n < reload_boundary c - phase c"
  shows "advance_loaded n c = advance_periodic n c"
  using assms by (auto simp: advance_loaded_def advance_rest_def running_def not_le)

lemma advance_rest_eq:
  assumes "\<not> loading c" and "\<not> null_count c" and "gate c" and "mode c \<noteq> None"
  shows "advance_rest n c = advance n c"
  using assms by (auto simp: advance_def advance_loaded_def advance_rest_def)

lemma advance_Suc:
  assumes ok: "counter_ok c"
  shows "advance (Suc n) c = (let (d, h) = advance n (tick c) in (d, of_bool (counter_output c) + h))"
proof (cases "loading c")
  case True
  then show ?thesis by (simp add: advance_def tick_def split_beta)
next
  case not_loading: False
  show ?thesis
  proof (cases "running c")
    case False
    then show ?thesis using not_loading by (auto simp: advance_def advance_loaded_def tick_def running_def)
  next
    case run: True
    then have nz: "active c \<noteq> 0" by (simp add: running_def)
    have out: "counter_output c = (phase c < high_clocks c)" by (rule running_output [OF run])
    have adv: "advance m d = advance_loaded m d" if "\<not> loading d" for m d using that by (simp add: advance_def)
    have nl: "\<not> loading (next_phase c)" using run running_next_phase(1) [of c] by (simp add: running_def)
    note Suc_step = advance_periodic_Suc [OF ok nz]
    let ?u = "reload_boundary c - phase c"
    have less: "phase c < reload_boundary c" by (rule reload_boundary_less [OF ok run])
    show ?thesis
    proof (cases "null_count c")
      case False
      then have "tick c = next_phase c" using tick_running [OF run] by simp
      then show ?thesis using run False nl not_loading Suc_step [of n] out
        by (simp add: adv advance_loaded_run split_beta)
    next
      case null: True
      show ?thesis
      proof (cases "?u = 1")
        case True
        then have t: "tick c = reloaded c" using run null less
          by (auto simp: tick_def running_def reloaded_def)
        have "snd (advance_periodic 1 c) = of_bool (phase c < high_clocks c)"
          using Suc_step [of 0] advance_periodic_0 [OF counter_ok_next_phase [OF ok nz]] nz
          by (simp add: next_phase_def)
        moreover have "advance_rest n (reloaded c) = advance n (reloaded c)"
          using run by (intro advance_rest_eq) (auto simp: reloaded_def running_def mode_def)
        ultimately show ?thesis using advance_loaded_reload [OF run null, of "Suc n"] True t out not_loading
          by (simp add: adv split_beta)
      next
        case False
        then have lt: "phase c + 1 < reload_boundary c" using less by linarith
        have t: "tick c = next_phase c" using tick_running [OF run] lt by simp
        note nb = reload_boundary_next [OF ok run lt]
        have u': "reload_boundary (next_phase c) - phase (next_phase c) = ?u - 1" using nb by simp
        have r: "reloaded (next_phase c) = reloaded c"
          using nb by (simp add: reloaded_def load_next_phase) (simp add: next_phase_def)
        show ?thesis
        proof (cases "?u \<le> Suc n")
          case True
          then have "?u - 1 \<le> n" by linarith
          moreover have "snd (advance_periodic ?u c) = of_bool (phase c < high_clocks c)
              + snd (advance_periodic (?u - 1) (next_phase c))"
            using Suc_step [of "?u - 1"] lt by (simp add: split_beta Suc_diff_Suc)
          ultimately show ?thesis
            using advance_loaded_reload [OF run null True] advance_loaded_reload [of "next_phase c" n] run null
              u' r t out nl not_loading lt
            by (simp add: adv split_beta Let_def)
        next
          case False
          then show ?thesis using run null t out nl not_loading Suc_step [of n] u'
            by (simp add: adv advance_loaded_run split_beta)
        qed
      qed
    qed
  qed
qed

lemma advance_0: "counter_ok c \<Longrightarrow> advance 0 c = (c, 0)"
  using reload_boundary_less [of c] advance_periodic_0 [of c]
  by (auto simp: advance_def advance_loaded_def advance_rest_def reload_boundary_def counter_ok_def running_def)

lemma high_ticks_Suc: "high_ticks (Suc n) c = of_bool (counter_output c) + high_ticks n (tick c)"
proof -
  have "filter (\<lambda>i. counter_output ((tick ^^ i) c)) [0..<Suc n]
      = filter (\<lambda>i. counter_output ((tick ^^ i) c)) (0 # map Suc [0..<n])"
    by (simp only: upt_conv_Cons map_Suc_upt zero_less_Suc)
  then show ?thesis
    by (simp add: high_ticks_def filter_map o_def funpow_Suc_right del: upt_Suc funpow.simps(2))
qed

lemma advance_ticks:
  assumes "counter_ok c"
  shows "advance n c = ((tick ^^ n) c, high_ticks n c)"
  using assms
proof (induction n arbitrary: c)
  case 0
  then show ?case by (simp add: advance_0 high_ticks_def)
next
  case (Suc n)
  then show ?case using Suc.IH [OF counter_ok_tick [OF Suc.prems]]
    by (simp add: advance_Suc high_ticks_Suc funpow_swap1)
qed

lemma counter_ok_ticks: "counter_ok c \<Longrightarrow> counter_ok ((tick ^^ n) c)"
  by (induction n) (simp_all add: counter_ok_tick)

subsection \<open>Edges\<close>

definition rises :: "counter \<Rightarrow> nat \<Rightarrow> bool" where
  "rises c n \<longleftrightarrow> 0 < n \<and> \<not> counter_output ((tick ^^ (n - 1)) c) \<and> counter_output ((tick ^^ n) c)"

lemma tick_fields [simp]: "mode (tick c) = mode c" "gate (tick c) = gate c"
  by (simp_all add: tick_def mode_def)

lemma ticks_fields [simp]: "mode ((tick ^^ n) c) = mode c" "gate ((tick ^^ n) c) = gate c"
  by (induction n) simp_all

lemma idle_output:
  assumes "next_transition c = None"
  shows "counter_output ((tick ^^ n) c) = counter_output c"
proof (cases "mode c = None \<or> \<not> gate c")
  case True
  then show ?thesis by (auto simp: counter_output_def)
next
  case False
  then have "tick c = c" using assms by (auto simp: next_transition_def tick_def Let_def split: if_splits)
  then have "(tick ^^ n) c = c" by (induction n) simp_all
  then show ?thesis by simp
qed

text \<open>Up to the next transition the phase counts up and nothing reloads.\<close>

lemma running_ticks:
  assumes "counter_ok c" and "running c" and "next_transition c = Some k" and "i < k"
  shows "(tick ^^ i) c = c\<lparr>phase := phase c + i\<rparr>"
  using assms(4)
proof (induction i)
  case (Suc i)
  let ?d = "c\<lparr>phase := phase c + i\<rparr>"
  have H: "high_clocks c < active c" "active c \<noteq> 0"
    using high_clocks_less [OF assms(1)] assms(2) by (auto simp: running_def)
  have k: "k = (if phase c < high_clocks c then high_clocks c else active c) - phase c"
    using assms(2,3) by (auto simp: next_transition_def running_def Let_def split: if_splits)
  have "running ?d" using assms(2) by (simp add: running_def mode_def)
  moreover have "phase ?d + 1 < active c" "phase ?d + 1 \<noteq> reload_boundary ?d"
    using Suc.prems k H by (auto simp: reload_boundary_def split: if_splits)
  ultimately have "tick ?d = c\<lparr>phase := phase c + Suc i\<rparr>"
    using tick_running [of ?d] by (simp add: next_phase_def)
  with Suc show ?case by simp
qed simp

lemma output_constant:
  assumes "counter_ok c" and "next_transition c = Some k" and "i < k"
  shows "counter_output ((tick ^^ i) c) = counter_output c"
proof (cases "loading c")
  case True
  then have "k = 1" using assms(2) by (auto simp: next_transition_def split: if_splits)
  with assms(3) show ?thesis by simp
next
  case False
  then have run: "running c" using assms(2) by (auto simp: next_transition_def running_def split: if_splits)
  have k: "k = (if phase c < high_clocks c then high_clocks c else active c) - phase c"
    using run assms(2) by (auto simp: next_transition_def running_def Let_def split: if_splits)
  let ?d = "c\<lparr>phase := phase c + i\<rparr>"
  have "running ?d" using run by (simp add: running_def mode_def)
  then have "counter_output ?d = (phase c + i < high_clocks c)" by (simp add: running_output)
  with running_ticks [OF assms(1) run assms(2,3)] running_output [OF run] k assms(3)
  show ?thesis by (auto split: if_splits)
qed

lemma next_transition_pos: "counter_ok c \<Longrightarrow> next_transition c = Some k \<Longrightarrow> 0 < k"
  using high_clocks_less [of c]
  by (auto simp: next_transition_def Let_def counter_ok_def split: if_splits)

text \<open>So an edge within the window is an edge at its end.\<close>

lemma rises_within:
  assumes "counter_ok c" and "next_transition c = Some k" and "n \<le> k"
  shows "rises c n \<longleftrightarrow> n = k \<and> \<not> counter_output c \<and> counter_output ((tick ^^ k) c)"
proof (cases "n = k")
  case True
  then show ?thesis using next_transition_pos [OF assms(1,2)] output_constant [OF assms(1,2), of "k - 1"]
    by (auto simp: rises_def)
next
  case False
  then have "n < k" using assms(3) by simp
  then show ?thesis using output_constant [OF assms(1,2), of n] output_constant [OF assms(1,2), of "n - 1"]
    by (auto simp: rises_def)
qed

lemma ticks_add: "(tick ^^ a) ((tick ^^ b) c) = (tick ^^ (a + b)) c"
  by (simp add: funpow_add)

lemma rises_after: "k < n \<Longrightarrow> rises c n \<longleftrightarrow> rises ((tick ^^ k) c) (n - k)"
proof -
  assume k: "k < n"
  then have "(n - k) + k = n" "(n - k - 1) + k = n - 1" by simp_all
  then show ?thesis using k by (simp only: rises_def ticks_add) simp
qed

text \<open>Where the loop stands: a load, a high half and a low half come before the edge.\<close>

definition edge_stage :: "counter \<Rightarrow> nat" where
  "edge_stage c =
     (if loading c then 3 else if active c = 0 then 0 else if phase c < high_clocks c then 2 else 1)"

lemma stage_load:
  assumes "next_transition c = Some k" and "loading c"
  shows "edge_stage ((tick ^^ k) c) < 3"
  using assms by (auto simp: next_transition_def tick_def edge_stage_def split: if_splits)

lemma stage_high:
  assumes "counter_ok c" and "next_transition c = Some k" and "\<not> loading c" and "phase c < high_clocks c"
  shows "edge_stage ((tick ^^ k) c) < 2"
proof -
  have run: "running c" using assms(2,3) by (auto simp: next_transition_def running_def split: if_splits)
  have k: "k = high_clocks c - phase c"
    using run assms(2,4) by (auto simp: next_transition_def running_def Let_def split: if_splits)
  have H: "high_clocks c < active c" using high_clocks_less [OF assms(1)] run by (auto simp: running_def)
  let ?d = "c\<lparr>phase := phase c + (k - 1)\<rparr>"
  have "(tick ^^ (k - 1)) c = ?d" using running_ticks [OF assms(1) run assms(2)] next_transition_pos [OF assms(1,2)] by simp
  then have "(tick ^^ k) c = tick ?d" using next_transition_pos [OF assms(1,2)]
    by (metis One_nat_def Suc_pred comp_apply funpow.simps(2))
  moreover have "phase ?d + 1 = high_clocks c" using k assms(4) by simp
  moreover have "high_clocks (load ?d) < active (load ?d) \<or> active (load ?d) = 0"
    by (auto simp: high_clocks_def div_ceil_def)
  ultimately show ?thesis using run H
    by (auto simp: tick_def running_def edge_stage_def
        split: if_splits)
qed

lemma stage_low:
  assumes "counter_ok c" and "next_transition c = Some k" and "\<not> loading c" and "\<not> phase c < high_clocks c"
  shows "counter_output ((tick ^^ k) c)"
proof -
  have run: "running c" using assms(2,3) by (auto simp: next_transition_def running_def split: if_splits)
  have k: "k = active c - phase c"
    using run assms(2,4) by (auto simp: next_transition_def running_def Let_def split: if_splits)
  have p: "phase c < active c" using assms(1) run by (auto simp: counter_ok_def running_def)
  let ?d = "c\<lparr>phase := phase c + (k - 1)\<rparr>"
  have "(tick ^^ (k - 1)) c = ?d" using running_ticks [OF assms(1) run assms(2)] next_transition_pos [OF assms(1,2)] by simp
  then have "(tick ^^ k) c = tick ?d" using next_transition_pos [OF assms(1,2)]
    by (metis One_nat_def Suc_pred comp_apply funpow.simps(2))
  moreover have "phase ?d + 1 = active c" "\<not> phase ?d < high_clocks c" using k p assms(4) by simp_all
  moreover have "reload_boundary ?d = active c" using calculation(3) by (simp add: reload_boundary_def)
  moreover have "0 < high_clocks c" using high_clocks_less [OF assms(1)] run by (auto simp: running_def)
  moreover have "0 < high_clocks (load ?d) \<or> active (load ?d) = 0" by (auto simp: high_clocks_def div_ceil_def)
  ultimately show ?thesis using run
    by (auto simp: tick_def running_def counter_output_def split: if_splits)
qed

lemma stage_decreases:
  assumes "counter_ok c" and "next_transition c = Some k"
    and "counter_output c \<or> \<not> counter_output ((tick ^^ k) c)"
  shows "edge_stage ((tick ^^ k) c) < edge_stage c"
proof (cases "loading c")
  case True
  then show ?thesis using stage_load [OF assms(2)] by (simp add: edge_stage_def)
next
  case False
  then have run: "running c" using assms(2) by (auto simp: next_transition_def running_def split: if_splits)
  then have "phase c < high_clocks c"
    using stage_low [OF assms(1,2) False] running_output [OF run] assms(3) by blast
  then show ?thesis using stage_high [OF assms(1,2) False] run False by (auto simp: edge_stage_def running_def)
qed

lemma rising_loop_correct:
  assumes "counter_ok c"
  shows "\<exists>r. rising_loop c clocks = Some r \<and>
    (case r of None \<Rightarrow> \<forall>n. \<not> rises c n
     | Some n \<Rightarrow> clocks < n \<and> rises c (n - clocks) \<and> (\<forall>m<n - clocks. \<not> rises c m))"
  using assms
proof (induction "edge_stage c" arbitrary: c clocks rule: less_induct)
  case less
  show ?case
  proof (cases "next_transition c")
    case None
    then have "\<not> rises c n" for n using idle_output [OF None] by (auto simp: rises_def)
    then show ?thesis using None by (subst rising_loop.simps) simp
  next
    case (Some k)
    let ?d = "(tick ^^ k) c"
    have pos: "0 < k" by (rule next_transition_pos [OF less.prems Some])
    have adv: "fst (advance k c) = ?d" by (simp add: advance_ticks [OF less.prems])
    note within = rises_within [OF less.prems Some]
    show ?thesis
    proof (cases "\<not> counter_output c \<and> counter_output ?d")
      case True
      then show ?thesis using Some adv pos within by (subst rising_loop.simps) auto
    next
      case False
      then have "edge_stage ?d < edge_stage c" using stage_decreases [OF less.prems Some] by blast
      from less.hyps [OF this counter_ok_ticks [OF less.prems], of "clocks + k"]
      obtain r where r: "rising_loop ?d (clocks + k) = Some r"
        "case r of None \<Rightarrow> \<forall>n. \<not> rises ?d n
         | Some n \<Rightarrow> clocks + k < n \<and> rises ?d (n - (clocks + k)) \<and> (\<forall>m<n - (clocks + k). \<not> rises ?d m)"
        by blast
      have none: "\<not> rises c m" if "m \<le> k" for m using within that False by blast
      have shift: "rises c m = rises ?d (m - k)" if "k < m" for m using rises_after [OF that] .
      have loop: "rising_loop c clocks = Some r" using Some adv False r(1) by (subst rising_loop.simps) auto
      show ?thesis
      proof (cases r)
        case None
        then have "\<not> rises c n" for n using r(2) none [of n] shift [of n] by (cases "n \<le> k") auto
        with loop None show ?thesis by simp
      next
        case (Some n)
        then have n: "clocks + k < n" "rises ?d (n - (clocks + k))" "\<forall>m<n - (clocks + k). \<not> rises ?d m"
          using r(2) by simp_all
        have "rises c (n - clocks)" using n(1,2) shift [of "n - clocks"] by (simp add: diff_diff_left)
        moreover have "\<not> rises c m" if "m < n - clocks" for m
          using none [of m] shift [of m] n(3) that by (cases "m \<le> k") auto
        ultimately show ?thesis using loop Some n(1) by simp
      qed
    qed
  qed
qed

subsection \<open>Register operations\<close>

lemma counter_ok_default [simp]: "counter_ok counter_default"
  by (simp add: counter_ok_def counter_default_def)

lemma counter_ok_latch [simp]: "counter_ok (latch n st c) = counter_ok c"
  by (simp add: latch_def Let_def counter_ok_def)

lemma counter_ok_control: "counter_ok c \<Longrightarrow> counter_ok (counter_control val c)"
  by (auto simp: counter_control_def) (simp add: counter_ok_def counter_default_def)

lemma counter_ok_set_count: "counter_ok c \<Longrightarrow> counter_ok (set_count n c)"
  using unsigned_less [of n, where 'a = nat] by (auto simp: set_count_def Let_def counter_ok_def)

lemma counter_ok_write: "counter_ok c \<Longrightarrow> counter_ok (counter_write val c)"
proof -
  assume ok: "counter_ok c"
  then have "counter_ok (c\<lparr>write_low := w\<rparr>)" for w by (simp add: counter_ok_def)
  with ok show ?thesis
    by (auto simp: counter_write_def Let_def intro: counter_ok_set_count split: option.split)
qed

lemma counter_ok_read: "counter_ok c \<Longrightarrow> counter_ok (fst (counter_read c))"
  by (simp add: counter_read_def Let_def counter_ok_def split: option.split)

lemma counter_ok_set_gate: "counter_ok c \<Longrightarrow> counter_ok (set_gate high c)"
  by (simp add: set_gate_def Let_def counter_ok_def)

lemma counter_ok_advance: "counter_ok c \<Longrightarrow> counter_ok (fst (advance n c))"
  by (simp add: advance_ticks counter_ok_ticks)

lemma counter_output_cong:
  assumes "control_word d = control_word c" "gate d = gate c" "loading d = loading c"
    "active d = active c" "phase d = phase c"
  shows "counter_output d = counter_output c"
  using assms mode_cong [OF assms(1)] high_clocks_cong [OF assms(1,4)] by (simp add: counter_output_def)

lemma counter_output_latch [simp]: "counter_output (latch n st c) = counter_output c"
  by (rule counter_output_cong) (simp_all add: latch_def Let_def)

lemma counter_output_read [simp]: "counter_output (fst (counter_read c)) = counter_output c"
  by (rule counter_output_cong) (simp_all add: counter_read_def Let_def split: option.split)

lemma tick_registers [simp]:
  "control_word (tick c) = control_word c" "read_high (tick c) = read_high c"
  "latched_count (tick c) = latched_count c" "latched_status (tick c) = latched_status c"
  by (simp_all add: tick_def load_def)

lemma ticks_registers [simp]:
  "control_word ((tick ^^ n) c) = control_word c" "read_high ((tick ^^ n) c) = read_high c"
  "latched_count ((tick ^^ n) c) = latched_count c" "latched_status ((tick ^^ n) c) = latched_status c"
  by (induction n) simp_all

lemma u16_bytes: "from_le_bytes [ucast n, ucast (drop_bit 8 n)] = (n :: u16)"
  by (rule bit_word_eqI) (auto simp: bit_or_iff bit_push_bit_iff bit_ucast_iff bit_drop_bit_eq)

subsection \<open>Clock conversion\<close>

lemma div_ceil_le_iff: "0 < b \<Longrightarrow> div_ceil a b \<le> t \<longleftrightarrow> a \<le> t * b"
proof -
  assume b: "0 < b"
  have "div_ceil a b \<le> t \<longleftrightarrow> a + b - 1 < Suc t * b"
    using div_less_iff_less_mult [OF b, of "a + b - 1" "Suc t"] by (simp add: div_ceil_def less_Suc_eq_le)
  also have "\<dots> \<longleftrightarrow> a \<le> t * b" using b by auto
  finally show ?thesis .
qed

lemma time_at_le_iff: "time_at k \<le> t \<longleftrightarrow> k * 1000000000 \<le> t * INPUT_HZ"
proof -
  let ?B = "1000000000 :: nat" and ?h = INPUT_HZ
  have h: "0 < ?h" by (simp add: INPUT_HZ_def)
  define q r where "q = k div ?h" and "r = k mod ?h"
  have k: "k = q * ?h + r" by (simp add: q_def r_def)
  have "time_at k = q * ?B + div_ceil (r * ?B) ?h" by (simp add: time_at_def q_def r_def)
  also have "\<dots> \<le> t \<longleftrightarrow> q * ?B \<le> t \<and> div_ceil (r * ?B) ?h \<le> t - q * ?B" by linarith
  also have "\<dots> \<longleftrightarrow> q * ?B \<le> t \<and> r * ?B \<le> (t - q * ?B) * ?h" by (simp only: div_ceil_le_iff [OF h])
  also have "\<dots> \<longleftrightarrow> k * ?B \<le> t * ?h"
  proof (cases "q * ?B \<le> t")
    case True
    then obtain s where "t = q * ?B + s" using le_Suc_ex by blast
    then show ?thesis unfolding k by (simp add: algebra_simps)
  next
    case False
    then have "t * ?h < q * ?B * ?h" using h by simp
    also have "\<dots> \<le> k * ?B" unfolding k by (simp add: algebra_simps)
    finally show ?thesis using False by simp
  qed
  finally show ?thesis .
qed

lemma time_at_le_clocks: "time_at k \<le> t \<longleftrightarrow> k \<le> t * INPUT_HZ div 1000000000"
  by (simp add: time_at_le_iff less_eq_div_iff_mult_less_eq)

lemma clocks_at_time_at: "time_at k * INPUT_HZ div 1000000000 = k"
proof (rule antisym)
  show "k \<le> time_at k * INPUT_HZ div 1000000000" using time_at_le_clocks [of k "time_at k"] by simp
  show "time_at k * INPUT_HZ div 1000000000 \<le> k"
  proof (cases "time_at k")
    case (Suc s)
    then have "\<not> time_at k \<le> s" by simp
    then have "s * INPUT_HZ < k * 1000000000" by (simp add: time_at_le_iff)
    then have "time_at k * INPUT_HZ < Suc k * 1000000000" using Suc by (simp add: INPUT_HZ_def)
    then have "time_at k * INPUT_HZ div 1000000000 < Suc k" by (rule less_mult_imp_div_less)
    then show ?thesis by linarith
  qed simp
qed

lemma clocks_at_Some: "clocks_at t = Some n \<longleftrightarrow> n = t * INPUT_HZ div 1000000000 \<and> n < 2 ^ 64"
  by (auto simp: clocks_at_def Let_def)

subsection \<open>Properties\<close>

text \<open>C13: the closed form \<open>advance\<close> is the clock-by-clock counter. Advancing by any number of
  input clocks reaches the state of that many single clocks and counts exactly the
  intervals in which the output was high, across loads, pending reloads and whole periods.\<close>

theorem advance_is_ticks:
  assumes "counter_ok c"
  shows "advance n c = ((tick ^^ n) c, high_ticks n c)"
  by (rule advance_ticks [OF assms])

text \<open>A square wave of divisor five, loaded: three clocks high and two low.\<close>

definition square_wave :: counter where
  "square_wave = counter_default\<lparr>control_word := 0x16, gate := True, reload := 5, active := 5\<rparr>"

lemma square_wave_ok: "counter_ok square_wave"
  by (simp add: square_wave_def counter_ok_def counter_default_def)

theorem advance_is_ticks_witness: "high_ticks 12 square_wave = 8"
proof -
  have "snd (advance 12 square_wave) = 8" by code_simp
  then show ?thesis using advance_is_ticks [OF square_wave_ok, of 12] by simp
qed

text \<open>The search for the next rising edge ends, and finds it: the result is the first
  clock at which the clock-by-clock output rises, and none exactly when it never rises.\<close>

theorem next_rising_edge_first:
  assumes "counter_ok c"
  shows "\<exists>r. next_rising_edge c = Some r \<and>
    (case r of None \<Rightarrow> \<forall>n. \<not> rises c n | Some n \<Rightarrow> rises c n \<and> (\<forall>m<n. \<not> rises c m))"
  using rising_loop_correct [OF assms, of 0] by (auto simp: next_rising_edge_def split: option.splits)

theorem next_rising_edge_first_witness: "next_rising_edge square_wave \<noteq> None"
  using next_rising_edge_first [OF square_wave_ok] by auto

text \<open>\<open>time_at\<close> is the earliest time at which \<open>clocks_at\<close> has completed that many
  clocks: the two conversions are adjoint, so a deadline computed from a clock index is
  met exactly at that clock.\<close>

theorem time_at_earliest:
  assumes "clocks_at t = Some n"
  shows "(time_at k \<le> t \<longleftrightarrow> k \<le> n) \<and> (k < 2 ^ 64 \<longrightarrow> clocks_at (time_at k) = Some k)"
  using assms time_at_le_clocks [of k t] clocks_at_time_at [of k] by (simp add: clocks_at_Some)

theorem time_at_earliest_witness: "clocks_at 1000000000 = Some 1193182 \<and> time_at 1193182 \<le> 1000000000"
proof -
  have "clocks_at 1000000000 = Some 1193182" by (simp add: clocks_at_def INPUT_HZ_def)
  then show ?thesis using time_at_earliest [of 1000000000 1193182 1193182] by simp
qed

text \<open>A latched count is read as it was. However many clocks pass before and between the
  two reads of the low/high access mode, they return the two bytes of the count at the
  latch command, and then release the latch.\<close>

theorem latched_count_stable:
  assumes "counter_ok c" and "control_word c AND 0x30 = 0x30" and "\<not> read_high c"
    and "latched_count c = None" and "latched_status c = None"
    and "counter_read (fst (advance n (counter_control val c))) = (d, lo)"
    and "counter_read (fst (advance m d)) = (e, hi)" and "val AND 0x30 = 0"
  shows "from_le_bytes [lo, hi] = counter_count c \<and> latched_count e = None \<and> \<not> read_high e"
proof -
  have l: "counter_control val c = c\<lparr>latched_count := Some (counter_count c)\<rparr>"
    using assms(4,8) by (simp add: counter_control_def latch_def)
  have ok: "counter_ok (c\<lparr>latched_count := Some (counter_count c)\<rparr>)" using assms(1) by (simp add: counter_ok_def)
  have d: "counter_ok d" "control_word d AND 0x30 = 0x30" "read_high d" "latched_count d = Some (counter_count c)"
    "latched_status d = None" "lo = ucast (counter_count c)"
    using assms(2,3,5,6) counter_ok_read [OF counter_ok_advance [OF ok], of n] l
    by (auto simp: advance_ticks [OF ok] counter_read_def Let_def)
  have "hi = ucast (drop_bit 8 (counter_count c))" "latched_count e = None" "\<not> read_high e"
    using assms(7) d(2-5) by (auto simp: advance_ticks [OF d(1)] counter_read_def Let_def)
  with d(6) show ?thesis using u16_bytes [of "counter_count c"] by simp
qed

definition word_wave :: counter where
  "word_wave = square_wave\<lparr>control_word := 0x36, reload := 0x1234, active := 0x1234\<rparr>"

theorem latched_count_stable_witness:
  "from_le_bytes [snd (counter_read (fst (advance 7 (counter_control 0 word_wave)))),
     snd (counter_read (fst (advance 9 (fst (counter_read (fst (advance 7 (counter_control 0 word_wave))))))))]
   = counter_count word_wave"
proof -
  have "counter_ok word_wave" by (simp add: word_wave_def square_wave_def counter_ok_def counter_default_def)
  then show ?thesis
    using latched_count_stable [of word_wave 7 0 _ _ 9, OF _ _ _ _ _ surjective_pairing surjective_pairing]
    by (simp add: word_wave_def square_wave_def counter_default_def)
qed

end
