(* ===== verification/Pic.thy ===== *)
theory Pic
  imports Prelude
begin

text \<open>
  The PC master 8259A: \<open>pic/src/controller.rs\<close> (registers and arbitration) and
  \<open>pic/src/lib.rs\<close> (the device, its interrupt lines and its wake-ups). The shared
  \<open>Rc<RefCell<Controller>>\<close> is the controller state passed explicitly; a registered
  waker is a flag, and waking it is an output of the operation.
\<close>

subsection \<open>controller.rs\<close>

datatype initialization =
  Ready
| VectorBase bool bool
| Cascade bool
| Mode

record controller =
  vector_base :: u8
  imr :: u8
  requests :: u8
  in_service :: u8
  levels :: u8
  highest_priority_irq :: u8
  level_triggered :: bool
  auto_eoi :: bool
  rotate_on_auto_eoi :: bool
  special_mask :: bool
  read_in_service :: bool
  poll_pending :: bool
  initialization :: initialization
  waker :: bool

definition controller_new :: "u8 \<Rightarrow> controller" where
  "controller_new base =
     \<lparr>vector_base = base, imr = 0xFF, requests = 0, in_service = 0, levels = 0,
      highest_priority_irq = 0, level_triggered = False, auto_eoi = False,
      rotate_on_auto_eoi = False, special_mask = False, read_in_service = False,
      poll_pending = False, initialization = Ready, waker = False\<rparr>"

abbreviation irq_bit :: "u8 \<Rightarrow> u8" where
  "irq_bit irq \<equiv> push_bit (unat irq) 1"

definition priority_order :: "controller \<Rightarrow> u8 list" where
  "priority_order c = map (\<lambda>offset. (highest_priority_irq c + of_nat offset) mod 8) [0..<8]"

definition highest_priority :: "controller \<Rightarrow> u8 \<Rightarrow> u8 option" where
  "highest_priority c bits = find (\<lambda>irq. bits AND irq_bit irq \<noteq> 0) (priority_order c)"

definition priority_rank :: "controller \<Rightarrow> u8 \<Rightarrow> u8" where
  "priority_rank c irq = (irq - highest_priority_irq c) AND 7"

definition set_lowest_priority :: "u8 \<Rightarrow> controller \<Rightarrow> controller" where
  "set_lowest_priority irq c = c\<lparr>highest_priority_irq := (irq + 1) mod 8\<rparr>"

definition blocking_service :: "controller \<Rightarrow> u8" where
  "blocking_service c = (if special_mask c then in_service c AND NOT (imr c) else in_service c)"

definition next_irq :: "controller \<Rightarrow> u8 option" where
  "next_irq c =
     (if initialization c \<noteq> Ready then None
      else case highest_priority c (requests c AND NOT (imr c)) of
        None \<Rightarrow> None
      | Some pending \<Rightarrow>
          (case highest_priority c (blocking_service c) of
             Some active \<Rightarrow>
               (if priority_rank c pending \<ge> priority_rank c active then None else Some pending)
           | None \<Rightarrow> Some pending))"

definition refresh_levels :: "controller \<Rightarrow> controller" where
  "refresh_levels c = (if level_triggered c then c\<lparr>requests := levels c\<rparr> else c)"

definition acknowledge :: "controller \<Rightarrow> controller \<times> u8 option" where
  "acknowledge c =
     (case next_irq c of
        None \<Rightarrow> (c, None)
      | Some irq \<Rightarrow>
          (let c = c\<lparr>requests := requests c AND NOT (irq_bit irq)\<rparr>;
               c = (if auto_eoi c
                    then (if rotate_on_auto_eoi c then set_lowest_priority irq c else c)
                    else c\<lparr>in_service := in_service c OR irq_bit irq\<rparr>)
           in (refresh_levels c, Some irq)))"

definition record_level :: "u8 \<Rightarrow> bool \<Rightarrow> controller \<Rightarrow> controller" where
  "record_level irq high c =
     refresh_levels
       (if high then c\<lparr>levels := levels c OR irq_bit irq\<rparr>
        else c\<lparr>levels := levels c AND NOT (irq_bit irq)\<rparr>)"

definition set_level :: "u8 \<Rightarrow> bool \<Rightarrow> controller \<Rightarrow> controller" where
  "set_level irq high c =
     record_level irq high
       (if high \<and> levels c AND irq_bit irq = 0
        then c\<lparr>requests := requests c OR irq_bit irq\<rparr> else c)"

definition read_command :: "controller \<Rightarrow> controller \<times> u8" where
  "read_command c =
     (if poll_pending c then
        (case acknowledge (c\<lparr>poll_pending := False\<rparr>) of
           (c', None) \<Rightarrow> (c', 0)
         | (c', Some irq) \<Rightarrow> (c', 0x80 OR irq))
      else if read_in_service c then (c, in_service c)
      else (c, requests c))"

definition initialize :: "u8 \<Rightarrow> controller \<Rightarrow> controller" where
  "initialize val c =
     (controller_new 0)
       \<lparr>waker := waker c,
        levels := levels c,
        imr := 0,
        level_triggered := val AND 8 \<noteq> 0,
        initialization := VectorBase (val AND 2 = 0) (val AND 1 \<noteq> 0)\<rparr>"

definition write_ocw2 :: "u8 \<Rightarrow> controller \<Rightarrow> controller" where
  "write_ocw2 val c =
     (let specific = val AND 0x40 \<noteq> 0; rotate = val AND 0x80 \<noteq> 0 in
      if val AND 0x20 \<noteq> 0 then
        (case (if specific then Some (val AND 7) else highest_priority c (blocking_service c)) of
           None \<Rightarrow> c
         | Some irq \<Rightarrow>
             (let c = c\<lparr>in_service := in_service c AND NOT (irq_bit irq)\<rparr> in
              if rotate then set_lowest_priority irq c else c))
      else if \<not> specific then c\<lparr>rotate_on_auto_eoi := rotate\<rparr>
      else if rotate then set_lowest_priority (val AND 7) c
      else c)"

definition write_ocw3 :: "u8 \<Rightarrow> controller \<Rightarrow> controller" where
  "write_ocw3 val c =
     (let c = (if val AND 2 \<noteq> 0 then c\<lparr>read_in_service := val AND 1 \<noteq> 0\<rparr> else c);
          c = (if val AND 0x40 \<noteq> 0 then c\<lparr>special_mask := val AND 0x20 \<noteq> 0\<rparr> else c)
      in c\<lparr>poll_pending := val AND 4 \<noteq> 0\<rparr>)"

definition pic_command :: "u8 \<Rightarrow> controller \<Rightarrow> controller" where
  "pic_command val c =
     (if val AND 0x10 \<noteq> 0 then initialize val c
      else if val AND 8 \<noteq> 0 then write_ocw3 val c
      else write_ocw2 val c)"

definition pic_data :: "u8 \<Rightarrow> controller \<Rightarrow> controller" where
  "pic_data val c =
     refresh_levels
       (case initialization c of
          Ready \<Rightarrow> c\<lparr>imr := val\<rparr>
        | VectorBase needs_cascade needs_icw4 \<Rightarrow>
            c\<lparr>vector_base := val AND NOT 7,
              initialization := (if needs_cascade then Cascade needs_icw4
                                 else if needs_icw4 then Mode else Ready)\<rparr>
        | Cascade needs_icw4 \<Rightarrow> c\<lparr>initialization := (if needs_icw4 then Mode else Ready)\<rparr>
        | Mode \<Rightarrow> c\<lparr>auto_eoi := val AND 2 \<noteq> 0, initialization := Ready\<rparr>)"

subsection \<open>lib.rs\<close>

text \<open>\<open>Pic::new\<close> and the line operations; \<open>None\<close> is a failed assertion.\<close>

definition pic_new :: "u8 \<Rightarrow> controller option" where
  "pic_new base = (if base mod 8 = 0 then Some (controller_new base) else None)"

definition pic_default :: "controller option" where
  "pic_default = pic_new 8"

text \<open>\<open>update\<close> wakes the registered waker, once, when an interrupt can be delivered.\<close>

definition pic_update :: "(controller \<Rightarrow> controller) \<Rightarrow> controller \<Rightarrow> controller \<times> bool" where
  "pic_update change c =
     (let c = change c in
      if next_irq c \<noteq> None then (c\<lparr>waker := False\<rparr>, waker c) else (c, False))"

definition unmask_irq :: "u8 \<Rightarrow> controller \<Rightarrow> (controller \<times> bool) option" where
  "unmask_irq number c =
     (if number < 8
      then Some (pic_update (\<lambda>c. c\<lparr>imr := imr c AND NOT (irq_bit number)\<rparr>) c) else None)"

definition connect_irq :: "u8 \<Rightarrow> bool \<Rightarrow> controller \<Rightarrow> (controller \<times> bool) option" where
  "connect_irq number initial_high c =
     (if number < 8 then Some (pic_update (record_level number initial_high) c) else None)"

definition line_set_level :: "u8 \<Rightarrow> bool \<Rightarrow> controller \<Rightarrow> controller \<times> bool" where
  "line_set_level number high c = pic_update (set_level number high) c"

definition line_pulse :: "u8 \<Rightarrow> controller \<Rightarrow> controller \<times> bool" where
  "line_pulse number c =
     (let (c, woke1) = line_set_level number False c;
          (c, woke2) = line_set_level number True c;
          (c, woke3) = line_set_level number False c
      in (c, woke1 \<or> woke2 \<or> woke3))"

definition pic_read_port :: "u16 \<Rightarrow> nat \<Rightarrow> controller \<Rightarrow> controller \<times> u32" where
  "pic_read_port port bytes c =
     (if bytes \<noteq> 1 then (c, - 1)
      else if port = 0x20 then (case read_command c of (c', b) \<Rightarrow> (c', ucast b))
      else if port = 0x21 then (c, ucast (imr c))
      else (c, - 1))"

definition pic_write_port :: "u16 \<Rightarrow> nat \<Rightarrow> u32 \<Rightarrow> controller \<Rightarrow> controller \<times> bool" where
  "pic_write_port port bytes val c =
     (if bytes \<noteq> 1 then (c, False)
      else pic_update (\<lambda>c. if port = 0x20 then pic_command (ucast val) c
                           else if port = 0x21 then pic_data (ucast val) c
                           else c) c)"

text \<open>\<open>Some\<close> is \<open>Poll::Ready\<close> of the acknowledged vector.\<close>

definition pic_poll_interrupt :: "controller \<Rightarrow> controller \<times> u8 option" where
  "pic_poll_interrupt c =
     (case acknowledge (c\<lparr>waker := True\<rparr>) of
        (c', Some irq) \<Rightarrow> (c', Some (vector_base c' OR irq))
      | (c', None) \<Rightarrow> (c', None))"

subsection \<open>Arbitration\<close>

lemma u8_less_8_cases:
  fixes k :: u8
  assumes "k < 8"
  obtains "k = 0" | "k = 1" | "k = 2" | "k = 3" | "k = 4" | "k = 5" | "k = 6" | "k = 7"
proof -
  have "unat k < 8" using assms by (simp add: word_less_nat_alt)
  then have "unat k \<in> {0, 1, 2, 3, 4, 5, 6, 7}" by auto
  then show ?thesis using that by (auto simp: word_unat_eq_iff)
qed

lemma and_irq_bit: "(bits AND irq_bit irq \<noteq> 0) = bit bits (unat irq)" for bits :: u8
  by (simp add: bit_iff_and_push_bit_not_eq_0)

lemma and_exp_eq_0: "(bits AND 2 ^ n = 0) = (\<not> bit bits n)" for bits :: u8
  using bit_iff_and_push_bit_not_eq_0 [of bits n] by simp

lemma bit_irq_bit: "bit (irq_bit irq) (unat j) \<longleftrightarrow> irq = j \<and> irq < 8" for irq j :: u8
  by (auto simp: bit_exp_iff word_less_nat_alt word_unat_eq_iff)

definition in_order :: "controller \<Rightarrow> nat \<Rightarrow> u8" where
  "in_order c k = (highest_priority_irq c + of_nat k) mod 8"

lemma rank_in_order:
  assumes "highest_priority_irq c < 8" and "k < 8"
  shows "unat (priority_rank c (in_order c k)) = k" and "in_order c k < 8"
proof -
  have k: "k \<in> {0, 1, 2, 3, 4, 5, 6, 7}" using assms(2) by auto
  from assms(1) have "unat (priority_rank c (in_order c k)) = k \<and> in_order c k < 8"
    by (rule u8_less_8_cases) (use k in \<open>auto simp: priority_rank_def in_order_def\<close>)
  then show "unat (priority_rank c (in_order c k)) = k" "in_order c k < 8" by simp_all
qed

lemma in_order_rank:
  assumes "highest_priority_irq c < 8" and "i < 8"
  shows "in_order c (unat (priority_rank c i)) = i" and "unat (priority_rank c i) < 8"
proof -
  have "in_order c (unat (priority_rank c i)) = i \<and> unat (priority_rank c i) < 8"
    by (rule u8_less_8_cases [OF assms(1)]; rule u8_less_8_cases [OF assms(2)];
        simp add: priority_rank_def in_order_def)
  then show "in_order c (unat (priority_rank c i)) = i" "unat (priority_rank c i) < 8" by simp_all
qed

lemma find_map_upt_Some:
  "find P (map f [0..<n]) = Some i \<longleftrightarrow> (\<exists>k<n. i = f k \<and> P i \<and> (\<forall>k'<k. \<not> P (f k')))"
  by (auto simp: find_Some_iff)

text \<open>The search finds the requested input of least rank.\<close>

lemma highest_priority_Some:
  assumes h: "highest_priority_irq c < 8"
  shows "highest_priority c bits = Some i \<longleftrightarrow>
    i < 8 \<and> bit bits (unat i) \<and> (\<forall>j<8. bit bits (unat j) \<longrightarrow> priority_rank c i \<le> priority_rank c j)"
    (is "?L \<longleftrightarrow> ?R")
proof -
  have "?L \<longleftrightarrow> (\<exists>k<8. i = in_order c k \<and> bit bits (unat i) \<and> (\<forall>k'<k. \<not> bit bits (unat (in_order c k'))))"
    unfolding highest_priority_def priority_order_def in_order_def and_irq_bit by (rule find_map_upt_Some)
  also have "\<dots> \<longleftrightarrow> ?R"
  proof
    assume "\<exists>k<8. i = in_order c k \<and> bit bits (unat i) \<and> (\<forall>k'<k. \<not> bit bits (unat (in_order c k')))"
    then obtain k where k: "k < 8" "i = in_order c k" "bit bits (unat i)"
      "\<forall>k'<k. \<not> bit bits (unat (in_order c k'))" by blast
    have "priority_rank c i \<le> priority_rank c j" if "j < 8" "bit bits (unat j)" for j
      using k in_order_rank [OF h that(1)] rank_in_order [OF h k(1)] that(2)
      by (metis not_less word_le_nat_alt)
    then show ?R using k rank_in_order [OF h k(1)] by simp
  next
    assume R: ?R
    let ?k = "unat (priority_rank c i)"
    have "\<not> bit bits (unat (in_order c k'))" if "k' < ?k" for k'
      using R that rank_in_order [OF h, of k'] in_order_rank [OF h, of i]
      by (metis less_trans not_less word_le_nat_alt)
    then show "\<exists>k<8. i = in_order c k \<and> bit bits (unat i) \<and> (\<forall>k'<k. \<not> bit bits (unat (in_order c k')))"
      using R in_order_rank [OF h, of i] by (intro exI [of _ ?k]) simp
  qed
  finally show ?thesis .
qed

lemma highest_priority_None:
  assumes h: "highest_priority_irq c < 8"
  shows "highest_priority c bits = None \<longleftrightarrow> bits = 0"
proof
  assume "highest_priority c bits = None"
  then have none: "\<not> bit bits (unat (in_order c k))" if "k < 8" for k
    using that by (auto simp: highest_priority_def priority_order_def find_None_iff and_exp_eq_0 in_order_def)
  show "bits = 0"
  proof (rule bit_word_eqI)
    fix n assume n: "n < LENGTH(8)"
    then have "(of_nat n :: u8) < 8" "unat (of_nat n :: u8) = n"
      by (simp_all add: word_less_nat_alt unat_of_nat)
    then show "bit bits n = bit 0 n"
      using none [OF in_order_rank(2) [OF h]] in_order_rank(1) [OF h] by (metis bit_0_eq bot_apply bot_bool_def)
  qed
next
  assume "bits = 0"
  then show "highest_priority c bits = None"
    by (auto simp: highest_priority_def find_None_iff)
qed

definition pending_irq :: "controller \<Rightarrow> u8 \<Rightarrow> bool" where
  "pending_irq c i \<longleftrightarrow> i < 8 \<and> bit (requests c) (unat i) \<and> \<not> bit (imr c) (unat i)"

definition blocking_irq :: "controller \<Rightarrow> u8 \<Rightarrow> bool" where
  "blocking_irq c i \<longleftrightarrow> i < 8 \<and> bit (in_service c) (unat i) \<and> (special_mask c \<longrightarrow> \<not> bit (imr c) (unat i))"

lemma bit_requests_unmasked:
  "i < 8 \<Longrightarrow> bit (requests c AND NOT (imr c)) (unat i) = pending_irq c i"
  by (auto simp: pending_irq_def bit_and_iff bit_not_iff word_less_nat_alt)

lemma bit_blocking_service: "i < 8 \<Longrightarrow> bit (blocking_service c) (unat i) = blocking_irq c i"
  by (auto simp: blocking_irq_def blocking_service_def bit_and_iff bit_not_iff word_less_nat_alt)

lemma next_irq_spec:
  assumes h: "highest_priority_irq c < 8"
  shows "next_irq c = Some i \<longleftrightarrow>
    initialization c = Ready \<and> pending_irq c i \<and>
    (\<forall>j. pending_irq c j \<longrightarrow> priority_rank c i \<le> priority_rank c j) \<and>
    (\<forall>j. blocking_irq c j \<longrightarrow> priority_rank c i < priority_rank c j)"
proof -
  have p: "highest_priority c (requests c AND NOT (imr c)) = Some i \<longleftrightarrow>
      pending_irq c i \<and> (\<forall>j. pending_irq c j \<longrightarrow> priority_rank c i \<le> priority_rank c j)" for i
    unfolding highest_priority_Some [OF h] using bit_requests_unmasked [of _ c]
    by (auto simp: pending_irq_def)
  have b: "highest_priority c (blocking_service c) = Some i \<longleftrightarrow>
      blocking_irq c i \<and> (\<forall>j. blocking_irq c j \<longrightarrow> priority_rank c i \<le> priority_rank c j)" for i
    unfolding highest_priority_Some [OF h] using bit_blocking_service [of _ c]
    by (auto simp: blocking_irq_def)
  have n: "highest_priority c (blocking_service c) = None \<longleftrightarrow> (\<forall>j. \<not> blocking_irq c j)"
  proof
    assume "highest_priority c (blocking_service c) = None"
    then have "blocking_service c = 0" using highest_priority_None [OF h] by simp
    then show "\<forall>j. \<not> blocking_irq c j" using bit_blocking_service blocking_irq_def by (metis bit_0_eq bot_apply bot_bool_def)
  next
    assume "\<forall>j. \<not> blocking_irq c j"
    then show "highest_priority c (blocking_service c) = None" using b by (meson not_None_eq)
  qed
  have "next_irq c = Some i \<longleftrightarrow> initialization c = Ready \<and>
      highest_priority c (requests c AND NOT (imr c)) = Some i \<and>
      (\<forall>active. highest_priority c (blocking_service c) = Some active \<longrightarrow> priority_rank c i < priority_rank c active)"
    by (auto simp: next_irq_def not_le split: option.splits if_splits)
  moreover have "(\<forall>active. highest_priority c (blocking_service c) = Some active \<longrightarrow>
        priority_rank c i < priority_rank c active)
      \<longleftrightarrow> (\<forall>j. blocking_irq c j \<longrightarrow> priority_rank c i < priority_rank c j)"
    using b n by (metis less_le_trans option.exhaust)
  ultimately show ?thesis using p by simp
qed

subsection \<open>Invariant\<close>

definition pic_ok :: "controller \<Rightarrow> bool" where
  "pic_ok c \<longleftrightarrow> highest_priority_irq c < 8 \<and> vector_base c AND 7 = 0 \<and>
     (level_triggered c \<and> initialization c = Ready \<longrightarrow> requests c = levels c)"

lemma mod_8_less: "x mod 8 < (8 :: u8)"
  by (simp add: word_less_nat_alt unat_mod)

lemma and_7_less: "x AND 7 < (8 :: u8)"
proof -
  have "x AND 7 \<le> (7 :: u8)" by (rule word_and_le1)
  then show ?thesis by (simp add: word_le_nat_alt word_less_nat_alt)
qed

lemma set_lowest_priority_ok: "pic_ok c \<Longrightarrow> pic_ok (set_lowest_priority irq c)"
  by (simp add: pic_ok_def set_lowest_priority_def mod_8_less)

lemma refresh_levels_ok:
  "highest_priority_irq c < 8 \<Longrightarrow> vector_base c AND 7 = 0 \<Longrightarrow> pic_ok (refresh_levels c)"
  by (simp add: pic_ok_def refresh_levels_def)

lemma acknowledge_ok: "pic_ok c \<Longrightarrow> pic_ok (fst (acknowledge c))"
  unfolding acknowledge_def
  by (auto simp: Let_def pic_ok_def set_lowest_priority_def mod_8_less refresh_levels_def split: option.split)

lemma record_level_ok: "pic_ok c \<Longrightarrow> pic_ok (record_level irq high c)"
  unfolding record_level_def by (rule refresh_levels_ok) (auto simp: pic_ok_def)

lemma set_level_ok: "pic_ok c \<Longrightarrow> pic_ok (set_level irq high c)"
  unfolding set_level_def record_level_def by (rule refresh_levels_ok) (auto simp: pic_ok_def)

lemma read_command_ok: "pic_ok c \<Longrightarrow> pic_ok (fst (read_command c))"
  using acknowledge_ok [of "c\<lparr>poll_pending := False\<rparr>"]
  by (auto simp: read_command_def pic_ok_def split: prod.splits option.splits)

lemma write_ocw2_ok: "pic_ok c \<Longrightarrow> pic_ok (write_ocw2 val c)"
  by (auto simp: write_ocw2_def Let_def pic_ok_def set_lowest_priority_def mod_8_less split: option.split)

lemma write_ocw3_ok: "pic_ok c \<Longrightarrow> pic_ok (write_ocw3 val c)"
  by (simp add: write_ocw3_def Let_def pic_ok_def)

lemma initialize_ok: "pic_ok (initialize val c)"
  by (simp add: initialize_def controller_new_def pic_ok_def)

lemma pic_command_ok: "pic_ok c \<Longrightarrow> pic_ok (pic_command val c)"
  by (simp add: pic_command_def write_ocw2_ok write_ocw3_ok initialize_ok)

lemma and_not_7_and_7: "(val AND - 8) AND 7 = (0 :: u8)"
  by (simp add: and.assoc)

lemma pic_data_ok: "pic_ok c \<Longrightarrow> pic_ok (pic_data val c)"
  unfolding pic_data_def
  by (rule refresh_levels_ok) (auto simp: pic_ok_def and_not_7_and_7 split: initialization.split)

lemma pic_update_ok: "(\<And>c. pic_ok c \<Longrightarrow> pic_ok (f c)) \<Longrightarrow> pic_ok c \<Longrightarrow> pic_ok (fst (pic_update f c))"
  by (simp add: pic_update_def Let_def pic_ok_def)

lemma pic_read_port_ok: "pic_ok c \<Longrightarrow> pic_ok (fst (pic_read_port port bytes c))"
  using read_command_ok [of c] by (auto simp: pic_read_port_def split: prod.splits)

lemma pic_write_port_ok: "pic_ok c \<Longrightarrow> pic_ok (fst (pic_write_port port bytes val c))"
  by (auto simp: pic_write_port_def pic_command_ok pic_data_ok intro!: pic_update_ok)

lemma pic_poll_interrupt_ok: "pic_ok c \<Longrightarrow> pic_ok (fst (pic_poll_interrupt c))"
  using acknowledge_ok [of "c\<lparr>waker := True\<rparr>"]
  by (auto simp: pic_poll_interrupt_def pic_ok_def split: prod.splits option.splits)

lemma pic_new_ok: "pic_new base = Some c \<Longrightarrow> pic_ok c"
proof -
  assume "pic_new base = Some c"
  then have "base mod 8 = 0" and c: "c = controller_new base" by (auto simp: pic_new_def split: if_splits)
  moreover have "base mod 8 = base AND 7"
    using take_bit_eq_mod [of 3 base] take_bit_eq_mask [of 3 base] by (simp add: mask_eq_exp_minus_1)
  ultimately show ?thesis by (simp add: pic_ok_def controller_new_def)
qed

subsection \<open>Interrupt lines\<close>

text \<open>What a peripheral relies on when it drives an interrupt line: in edge-triggered mode a
  rising edge, and nothing else it does, leaves a request behind.\<close>

locale irq_input =
  fixes drive :: "bool \<Rightarrow> 's \<Rightarrow> 's" and requested :: "'s \<Rightarrow> bool" and line :: "'s \<Rightarrow> bool"
    and edge_mode :: "'s \<Rightarrow> bool"
  assumes edge_mode_drive [simp]: "edge_mode (drive high s) = edge_mode s"
    and line_drive [simp]: "line (drive high s) = high"
    and requested_drive: "edge_mode s \<Longrightarrow> requested (drive high s) = (requested s \<or> high \<and> \<not> line s)"
begin

lemma edge_mode_fold [simp]: "edge_mode (fold drive hs s) = edge_mode s"
  by (induction hs arbitrary: s) simp_all

lemma line_fold: "line (fold drive hs s) = last (line s # hs)"
  by (induction hs arbitrary: s) simp_all

text \<open>A request is pending after a sequence of levels iff it was, or the sequence rises.\<close>

lemma requested_fold:
  "edge_mode s \<Longrightarrow> requested (fold drive hs s) =
     (requested s \<or> (\<exists>i<length hs. hs ! i \<and> \<not> (line s # hs) ! i))"
proof (induction hs arbitrary: s)
  case (Cons h hs)
  have "(\<exists>i<length (h # hs). (h # hs) ! i \<and> \<not> (line s # h # hs) ! i) \<longleftrightarrow>
      h \<and> \<not> line s \<or> (\<exists>i<length hs. hs ! i \<and> \<not> (h # hs) ! i)"
    by (simp add: Ex_less_Suc2)
  then show ?case using Cons by (simp add: requested_drive)
qed simp

lemma pulse_requests:
  "edge_mode s \<Longrightarrow> requested (fold drive [False, True, False] s) \<and> \<not> line (fold drive [False, True, False] s)"
  by (simp add: requested_drive)

end

definition irq_requested :: "u8 \<Rightarrow> controller \<Rightarrow> bool" where
  "irq_requested irq c \<longleftrightarrow> bit (requests c) (unat irq)"

definition irq_level :: "u8 \<Rightarrow> controller \<Rightarrow> bool" where
  "irq_level irq c \<longleftrightarrow> bit (levels c) (unat irq)"

abbreviation drive_line :: "u8 \<Rightarrow> bool \<Rightarrow> controller \<Rightarrow> controller" where
  "drive_line irq high c \<equiv> fst (line_set_level irq high c)"

lemma pic_update_fields [simp]:
  "requests (fst (pic_update f c)) = requests (f c)" "levels (fst (pic_update f c)) = levels (f c)"
  "level_triggered (fst (pic_update f c)) = level_triggered (f c)"
  "imr (fst (pic_update f c)) = imr (f c)" "in_service (fst (pic_update f c)) = in_service (f c)"
  "highest_priority_irq (fst (pic_update f c)) = highest_priority_irq (f c)"
  "vector_base (fst (pic_update f c)) = vector_base (f c)"
  "initialization (fst (pic_update f c)) = initialization (f c)"
  by (simp_all add: pic_update_def Let_def)

lemma drive_line_edge:
  "irq < 8 \<Longrightarrow> \<not> level_triggered c \<Longrightarrow> j < 8 \<Longrightarrow>
   irq_requested j (drive_line irq high c) = (irq_requested j c \<or> j = irq \<and> high \<and> \<not> irq_level irq c)"
  by (auto simp: line_set_level_def set_level_def record_level_def refresh_levels_def irq_requested_def
      irq_level_def bit_or_iff and_exp_eq_0 bit_irq_bit [simplified])

lemma drive_line_level:
  "irq < 8 \<Longrightarrow> j < 8 \<Longrightarrow> irq_level j (drive_line irq high c) = (if j = irq then high else irq_level j c)"
  by (auto simp: line_set_level_def set_level_def record_level_def refresh_levels_def
      irq_level_def bit_or_iff bit_and_iff bit_not_iff bit_irq_bit [simplified] word_less_nat_alt)

lemma drive_line_mode: "level_triggered (drive_line irq high c) = level_triggered c"
  by (simp add: line_set_level_def set_level_def record_level_def refresh_levels_def)

interpretation timer_line: irq_input "drive_line 0" "irq_requested 0" "irq_level 0" "\<lambda>c. \<not> level_triggered c"
  by unfold_locales (simp_all add: drive_line_edge drive_line_level drive_line_mode)

interpretation keyboard_line: irq_input "drive_line 1" "irq_requested 1" "irq_level 1" "\<lambda>c. \<not> level_triggered c"
  by unfold_locales (simp_all add: drive_line_edge drive_line_level drive_line_mode)

lemma line_pulse_fold: "fst (line_pulse irq c) = fold (drive_line irq) [False, True, False] c"
  by (simp add: line_pulse_def split_beta)

subsection \<open>Delivery and wake-ups\<close>

text \<open>The device as its owner sees it: the controller and whether the CPU is parked, that
  is, whether its last poll was pending and it has not been woken since.\<close>

inductive pic_step :: "controller \<times> bool \<Rightarrow> controller \<times> bool \<Rightarrow> bool" where
  step_poll: "pic_poll_interrupt c = (c', r) \<Longrightarrow> pic_step (c, parked) (c', r = None)"
| step_read: "pic_read_port port bytes c = (c', v) \<Longrightarrow> pic_step (c, parked) (c', parked)"
| step_write: "pic_write_port port bytes v c = (c', woke) \<Longrightarrow> pic_step (c, parked) (c', parked \<and> \<not> woke)"
| step_line: "irq < 8 \<Longrightarrow> line_set_level irq high c = (c', woke) \<Longrightarrow> pic_step (c, parked) (c', parked \<and> \<not> woke)"
| step_connect: "connect_irq irq high c = Some (c', woke) \<Longrightarrow> pic_step (c, parked) (c', parked \<and> \<not> woke)"
| step_unmask: "unmask_irq irq c = Some (c', woke) \<Longrightarrow> pic_step (c, parked) (c', parked \<and> \<not> woke)"

definition parked_ok :: "controller \<times> bool \<Rightarrow> bool" where
  "parked_ok s \<longleftrightarrow> pic_ok (fst s) \<and> (snd s \<longrightarrow> waker (fst s) \<and> next_irq (fst s) = None)"

lemma next_irq_waker [simp]: "next_irq (c\<lparr>waker := w\<rparr>) = next_irq c"
  by (simp add: next_irq_def highest_priority_def priority_order_def blocking_service_def priority_rank_def
      cong: option.case_cong)

lemma next_irq_poll_pending [simp]: "next_irq (c\<lparr>poll_pending := p\<rparr>) = next_irq c"
  by (simp add: next_irq_def highest_priority_def priority_order_def blocking_service_def priority_rank_def
      cong: option.case_cong)

lemma acknowledge_None: "next_irq c = None \<Longrightarrow> acknowledge c = (c, None)"
  by (simp add: acknowledge_def)

lemma acknowledge_Some: "next_irq c = Some irq \<Longrightarrow> snd (acknowledge c) = Some irq"
  by (simp add: acknowledge_def Let_def)

lemma pic_update_parked:
  assumes "parked_ok (c, parked)" and "pic_ok (f c)" and "waker (f c) = waker c"
    and "pic_update f c = (c', woke)"
  shows "parked_ok (c', parked \<and> \<not> woke)"
  using assms by (auto simp: parked_ok_def pic_update_def Let_def pic_ok_def split: if_splits)

lemma refresh_levels_waker [simp]: "waker (refresh_levels c) = waker c"
  by (simp add: refresh_levels_def)

lemma waker_kept:
  "waker (pic_command v c) = waker c" "waker (pic_data v c) = waker c"
  "waker (set_level irq high c) = waker c" "waker (record_level irq high c) = waker c"
  by (auto simp: pic_command_def initialize_def write_ocw2_def write_ocw3_def pic_data_def set_level_def
      record_level_def set_lowest_priority_def Let_def split: option.split initialization.split)

lemma pic_step_parked: "pic_step s s' \<Longrightarrow> parked_ok s \<Longrightarrow> parked_ok s'"
proof (induction rule: pic_step.induct)
  case (step_poll c c' r parked)
  have "pic_ok c'" using pic_poll_interrupt_ok [of c] step_poll by (simp add: parked_ok_def)
  moreover have "waker c' \<and> next_irq c' = None" if "r = None"
  proof (cases "next_irq c")
    case None
    then have "acknowledge (c\<lparr>waker := True\<rparr>) = (c\<lparr>waker := True\<rparr>, None)" by (simp add: acknowledge_None)
    then show ?thesis using step_poll.hyps None by (auto simp: pic_poll_interrupt_def)
  next
    case (Some i)
    then have "snd (acknowledge (c\<lparr>waker := True\<rparr>)) = Some i" by (simp add: acknowledge_Some)
    then show ?thesis using step_poll.hyps that by (auto simp: pic_poll_interrupt_def split: prod.splits)
  qed
  ultimately show ?case by (simp add: parked_ok_def)
next
  case (step_read port bytes c c' v parked)
  have "pic_ok c'" using pic_read_port_ok [of c port bytes] step_read by (simp add: parked_ok_def)
  moreover have "waker c' \<and> next_irq c' = None" if parked
    using that step_read acknowledge_None [of "c\<lparr>poll_pending := False\<rparr>"]
    by (auto simp: parked_ok_def pic_read_port_def read_command_def split: if_splits prod.splits)
  ultimately show ?case by (simp add: parked_ok_def)
next
  case (step_write port bytes v c c' woke parked)
  show ?case
  proof (cases "bytes = 1")
    case True
    let ?f = "\<lambda>c. if port = 0x20 then pic_command (ucast v) c else if port = 0x21 then pic_data (ucast v) c else c"
    have "pic_ok (?f c)" using step_write by (simp add: parked_ok_def pic_command_ok pic_data_ok)
    then show ?thesis using pic_update_parked [of c parked ?f c' woke] step_write True
      by (simp add: pic_write_port_def waker_kept)
  qed (use step_write in \<open>simp add: pic_write_port_def\<close>)
next
  case (step_line irq high c c' woke parked)
  then show ?case using pic_update_parked [of c parked "set_level irq high" c' woke] set_level_ok [of c]
    by (simp add: line_set_level_def waker_kept parked_ok_def)
next
  case (step_connect irq high c c' woke parked)
  then show ?case using pic_update_parked [of c parked "record_level irq high" c' woke] record_level_ok [of c]
    by (simp add: connect_irq_def waker_kept parked_ok_def)
next
  case (step_unmask irq c c' woke parked)
  then show ?case
    using pic_update_parked [of c parked "\<lambda>c. c\<lparr>imr := imr c AND NOT (irq_bit irq)\<rparr>" c' woke]
    by (simp add: unmask_irq_def parked_ok_def pic_ok_def)
qed

lemma pic_reachable_ok:
  assumes "pic_new base = Some c" and "pic_step\<^sup>*\<^sup>* (c, False) s"
  shows "parked_ok s"
  using assms(2)
proof (induction rule: rtranclp_induct)
  case base
  then show ?case using pic_new_ok [OF assms(1)] by (simp add: parked_ok_def)
next
  case (step s s')
  then show ?case using pic_step_parked by blast
qed

text \<open>C16: no wake-up is lost. Whatever the guest and the peripherals do, a CPU that parked on
  a pending poll and was not woken since has no deliverable interrupt to miss.\<close>

theorem pic_no_lost_wakeup:
  assumes "pic_new base = Some c" and "pic_step\<^sup>*\<^sup>* (c, False) (c', True)"
  shows "next_irq c' = None \<and> waker c'"
  using pic_reachable_ok [OF assms] by (simp add: parked_ok_def)

theorem pic_no_lost_wakeup_witness:
  "next_irq ((controller_new 8)\<lparr>waker := True\<rparr>) = None"
proof -
  have "pic_poll_interrupt (controller_new 8) = ((controller_new 8)\<lparr>waker := True\<rparr>, None)" by code_simp
  from step_poll [OF this, of False] have "pic_step\<^sup>*\<^sup>* (controller_new 8, False) ((controller_new 8)\<lparr>waker := True\<rparr>, True)"
    by simp
  from pic_no_lost_wakeup [OF _ this, of 8] show ?thesis by (simp add: pic_new_def)
qed

text \<open>Arbitration. In every reachable controller the delivered input is the requested and
  unmasked one of highest priority, and it strictly outranks everything being serviced
  (in special mask mode, everything unmasked being serviced).\<close>

theorem pic_arbitration:
  assumes "pic_new base = Some c" and "pic_step\<^sup>*\<^sup>* (c, False) (c', parked)"
  shows "next_irq c' = Some i \<longleftrightarrow>
    initialization c' = Ready \<and> pending_irq c' i \<and>
    (\<forall>j. pending_irq c' j \<longrightarrow> priority_rank c' i \<le> priority_rank c' j) \<and>
    (\<forall>j. blocking_irq c' j \<longrightarrow> priority_rank c' i < priority_rank c' j)"
  using pic_reachable_ok [OF assms] by (intro next_irq_spec) (simp add: parked_ok_def pic_ok_def)

theorem pic_arbitration_witness: "next_irq (controller_new 8) = Some 3 \<longleftrightarrow>
    pending_irq (controller_new 8) 3 \<and>
    (\<forall>j. pending_irq (controller_new 8) j \<longrightarrow> priority_rank (controller_new 8) 3 \<le> priority_rank (controller_new 8) j) \<and>
    (\<forall>j. blocking_irq (controller_new 8) j \<longrightarrow> priority_rank (controller_new 8) 3 < priority_rank (controller_new 8) j)"
  using pic_arbitration [of 8 "controller_new 8" "controller_new 8" False 3]
  by (simp add: pic_new_def controller_new_def)

subsection \<open>Servicing\<close>

lemma priority_rank_cong: "highest_priority_irq d = highest_priority_irq c \<Longrightarrow> priority_rank d = priority_rank c"
  by (simp add: priority_rank_def fun_eq_iff)

lemma pending_not_in_service:
  assumes "highest_priority_irq c < 8" and "next_irq c = Some i"
  shows "i < 8" and "\<not> bit (in_service c) (unat i)"
  using assms next_irq_spec [of c i] by (auto simp: pending_irq_def blocking_irq_def)

lemma eoi_restores:
  assumes "pic_ok c" and "acknowledge c = (c', Some i)" and "\<not> auto_eoi c"
  shows "in_service c' = in_service c OR irq_bit i \<and>
    in_service (pic_command 0x20 c') = in_service c \<and>
    priority_rank (pic_command 0x20 c') = priority_rank c"
proof -
  have h: "highest_priority_irq c < 8" using assms(1) by (simp add: pic_ok_def)
  have n: "next_irq c = Some i" using assms(2) by (auto simp: acknowledge_def Let_def split: option.splits)
  note i = pending_not_in_service [OF h n]
  have fields: "in_service c' = in_service c OR irq_bit i" "highest_priority_irq c' = highest_priority_irq c"
    "special_mask c' = special_mask c" "imr c' = imr c"
    using assms(2,3) n by (auto simp: acknowledge_def Let_def refresh_levels_def split: if_splits)
  have "blocking_irq c' j \<longleftrightarrow> blocking_irq c j \<or> j = i" for j
    using next_irq_spec [OF h, of i] n i(1)
    by (auto simp: blocking_irq_def fields bit_or_iff bit_irq_bit [simplified] pending_irq_def)
  moreover have "\<forall>j. blocking_irq c j \<longrightarrow> priority_rank c i < priority_rank c j"
    using next_irq_spec [OF h, of i] n by blast
  ultimately have "\<forall>j<8. bit (blocking_service c') (unat j) \<longrightarrow> priority_rank c' i \<le> priority_rank c' j"
    "bit (blocking_service c') (unat i)"
    using i(1) priority_rank_cong [OF fields(2)] by (auto simp: bit_blocking_service)
  then have "highest_priority c' (blocking_service c') = Some i"
    using highest_priority_Some [of c' "blocking_service c'" i] fields(2) h i(1) by simp
  then have eoi: "pic_command 0x20 c' = c'\<lparr>in_service := in_service c' AND NOT (irq_bit i)\<rparr>"
    by (simp add: pic_command_def write_ocw2_def)
  have "(in_service c OR irq_bit i) AND NOT (irq_bit i) = in_service c"
    using i(2) by (intro bit_word_eqI) (auto simp: bit_or_iff bit_and_iff bit_not_iff bit_exp_iff)
  then show ?thesis using fields eoi priority_rank_cong [of "pic_command 0x20 c'" c] by simp
qed

text \<open>Interrupts nest. Unless the controller ends interrupts by itself, the command
  \<open>end_of_interrupt\<close> sends clears exactly the input that was acknowledged last and brings
  the in-service register back to what it was.\<close>

theorem pic_eoi_restores:
  assumes "pic_ok c" and "acknowledge c = (c', Some i)" and "\<not> auto_eoi c"
  shows "in_service c' = in_service c OR irq_bit i \<and>
    in_service (pic_command 0x20 c') = in_service c \<and>
    priority_rank (pic_command 0x20 c') = priority_rank c"
  by (rule eoi_restores [OF assms])

theorem pic_eoi_restores_witness:
  "in_service (pic_command 0x20 (fst (acknowledge
     ((controller_new 8)\<lparr>imr := 0, requests := 0x0A, in_service := 0x10\<rparr>)))) = 0x10"
proof -
  let ?c = "(controller_new 8)\<lparr>imr := 0, requests := 0x0A, in_service := 0x10\<rparr>"
  have "snd (acknowledge ?c) = Some 1" by code_simp
  then have "acknowledge ?c = (fst (acknowledge ?c), Some 1)" by (metis prod.collapse)
  moreover have "pic_ok ?c" "\<not> auto_eoi ?c" by (simp_all add: pic_ok_def controller_new_def)
  ultimately show ?thesis using pic_eoi_restores [of ?c] by auto
qed

lemma and_not_disjoint:
  fixes a b :: u8
  assumes "a AND b = 0"
  shows "a AND NOT b = a"
proof (rule bit_word_eqI)
  fix n assume "n < LENGTH(8)"
  moreover have "bit (a AND b) n = False" using assms by simp
  ultimately show "bit (a AND NOT b) n = bit a n" by (auto simp: bit_and_iff bit_not_iff)
qed

lemma poll_vector:
  assumes "pic_ok c" and "pic_poll_interrupt c = (c', Some v)"
  shows "v AND NOT 7 = vector_base c \<and> next_irq c = Some (v AND 7) \<and>
    (\<not> level_triggered c \<longrightarrow> requests c' = requests c AND NOT (irq_bit (v AND 7)))"
proof -
  obtain d i where a: "acknowledge (c\<lparr>waker := True\<rparr>) = (d, Some i)" "c' = d" "v = vector_base d OR i"
    using assms(2) by (auto simp: pic_poll_interrupt_def split: prod.splits option.splits)
  have n: "next_irq c = Some i" using a(1) by (auto simp: acknowledge_def Let_def split: option.splits)
  have h: "highest_priority_irq c < 8" and b: "vector_base c AND 7 = 0" using assms(1) by (simp_all add: pic_ok_def)
  have d: "vector_base d = vector_base c" "\<not> level_triggered c \<longrightarrow> requests d = requests c AND NOT (irq_bit i)"
    using a(1) n by (auto simp: acknowledge_def Let_def refresh_levels_def set_lowest_priority_def split: if_splits)
  have i: "i AND 7 = i" "i AND NOT 7 = 0"
    using u8_less_8_cases [OF pending_not_in_service(1) [OF h n]] by (cases, simp_all)+
  have "vector_base c AND NOT 7 = vector_base c" by (rule and_not_disjoint [OF b])
  then show ?thesis using a d i b n by (simp add: bit.conj_disj_distrib2)
qed

text \<open>One poll delivers one vector, and its low three bits are the acknowledged input: the
  input's request is consumed in edge-triggered mode, and the upper bits are the
  programmed vector base.\<close>

theorem pic_poll_vector:
  assumes "pic_ok c" and "pic_poll_interrupt c = (c', Some v)"
  shows "v AND NOT 7 = vector_base c \<and> next_irq c = Some (v AND 7) \<and>
    (\<not> level_triggered c \<longrightarrow> requests c' = requests c AND NOT (irq_bit (v AND 7)))"
  by (rule poll_vector [OF assms])

definition pending_pic :: controller where
  "pending_pic = (controller_new 8)\<lparr>imr := 0, requests := 0x0A\<rparr>"

theorem pic_poll_vector_witness:
  "(0x09 :: u8) AND NOT 7 = vector_base pending_pic \<and> next_irq pending_pic = Some (0x09 AND 7)"
proof -
  have "snd (pic_poll_interrupt pending_pic) = Some 0x09" by code_simp
  then have "pic_poll_interrupt pending_pic = (fst (pic_poll_interrupt pending_pic), Some 0x09)"
    by (metis prod.collapse)
  moreover have "pic_ok pending_pic" by (simp add: pending_pic_def pic_ok_def controller_new_def)
  ultimately show ?thesis using pic_poll_vector [of pending_pic] by blast
qed

end
