(* ===== verification/Pit.thy ===== *)
theory Pit
  imports Pit_Counter Pic
begin

text \<open>
  The PC timer device, \<open>pit/src/timer.rs\<close>: two counters on the machine clock, channel 0
  driving IRQ 0 of the interrupt controller. The shared controller is passed explicitly;
  the current time of the clock is an argument in nanoseconds; the \<open>changed\<close> event is the
  flag its listener consumes. \<open>None\<close> is a panic: a time outside the clock range, or a clock
  that ran backwards.
\<close>

subsection \<open>timer.rs\<close>

record pit =
  pit_at :: nat
  channel0 :: counter
  channel2 :: counter
  channel2_latest :: "counter option"
  pit_changed :: bool

definition bios_channel0 :: counter where
  "bios_channel0 =
     fst (advance 1 (counter_write 0 (counter_write 0 (counter_control 0x36 (set_gate True counter_default)))))"

definition pit_with_clock :: "nat \<Rightarrow> controller \<Rightarrow> (pit \<times> controller) option" where
  "pit_with_clock now pic =
     (case connect_irq 0 (counter_output bios_channel0) pic of
        None \<Rightarrow> None
      | Some (pic, woke) \<Rightarrow>
          Some (\<lparr>pit_at = now, channel0 = bios_channel0, channel2 = counter_default,
                 channel2_latest = None, pit_changed = False\<rparr>, pic))"

definition sync_to_clock :: "nat \<Rightarrow> pit \<times> controller \<Rightarrow> (pit \<times> controller) option" where
  "sync_to_clock now s =
     (case s of (p, pic) \<Rightarrow>
      (case (clocks_at now, clocks_at (pit_at p)) of
         (Some current, Some previous) \<Rightarrow>
           (if current < previous then None
            else
              (let clocks = current - previous in
               case next_rising_edge (channel0 p) of
                 None \<Rightarrow> None
               | Some edge \<Rightarrow>
                   (let pic = (if (case edge of None \<Rightarrow> False | Some n \<Rightarrow> n \<le> clocks)
                               then fst (line_pulse 0 pic) else pic);
                        c0 = fst (advance clocks (channel0 p));
                        pic = fst (line_set_level 0 (counter_output c0) pic)
                    in Some (p\<lparr>channel0 := c0, channel2 := fst (advance clocks (channel2 p)),
                               pit_at := now\<rparr>, pic))))
       | _ \<Rightarrow> None))"

definition pit_channel2 :: "nat \<Rightarrow> pit \<times> controller \<Rightarrow> ((pit \<times> controller) \<times> counter) option" where
  "pit_channel2 now s = map_option (\<lambda>s. (s, channel2 (fst s))) (sync_to_clock now s)"

definition pit_channel2_output :: "nat \<Rightarrow> pit \<times> controller \<Rightarrow> ((pit \<times> controller) \<times> bool) option" where
  "pit_channel2_output now s =
     map_option (\<lambda>s. (s, counter_output (channel2 (fst s)))) (sync_to_clock now s)"

definition set_channel2_gate :: "nat \<Rightarrow> bool \<Rightarrow> pit \<times> controller \<Rightarrow> (pit \<times> controller) option" where
  "set_channel2_gate now high s =
     map_option (\<lambda>(p, pic). let c = set_gate high (channel2 p) in
         (p\<lparr>channel2 := c, channel2_latest := Some c\<rparr>, pic))
       (sync_to_clock now s)"

definition take_channel2_update :: "pit \<Rightarrow> pit \<times> counter option" where
  "take_channel2_update p = (p\<lparr>channel2_latest := None\<rparr>, channel2_latest p)"

text \<open>The deadline the activity waits for; it then synchronizes again.\<close>

definition pit_deadline :: "pit \<Rightarrow> nat option option" where
  "pit_deadline p =
     (case next_transition (channel0 p) of
        None \<Rightarrow> Some None
      | Some clocks \<Rightarrow> map_option (\<lambda>previous. Some (time_at (previous + clocks))) (clocks_at (pit_at p)))"

definition pit_activity :: "nat \<Rightarrow> pit \<times> controller \<Rightarrow> (pit \<times> controller) option" where
  "pit_activity now s = sync_to_clock now (case s of (p, pic) \<Rightarrow> (p\<lparr>pit_changed := False\<rparr>, pic))"

definition pit_read_port ::
  "nat \<Rightarrow> u16 \<Rightarrow> nat \<Rightarrow> pit \<times> controller \<Rightarrow> ((pit \<times> controller) \<times> u32) option" where
  "pit_read_port now port bytes s =
     map_option (\<lambda>(p, pic).
        if port = 0x40 \<and> bytes = 1 then
          (case counter_read (channel0 p) of (c, b) \<Rightarrow> ((p\<lparr>channel0 := c\<rparr>, pic), ucast b))
        else if port = 0x42 \<and> bytes = 1 then
          (case counter_read (channel2 p) of (c, b) \<Rightarrow> ((p\<lparr>channel2 := c\<rparr>, pic), ucast b))
        else ((p, pic), - 1))
       (sync_to_clock now s)"

definition read_back :: "u8 \<Rightarrow> pit \<Rightarrow> pit" where
  "read_back v p =
     (if v AND 1 = 0 then
        (let request = latch (v AND 0x20 = 0) (v AND 0x10 = 0);
             p = (if v AND 2 \<noteq> 0 then p\<lparr>channel0 := request (channel0 p)\<rparr> else p)
         in if v AND 8 \<noteq> 0 then p\<lparr>channel2 := request (channel2 p)\<rparr> else p)
      else p)"

definition pit_write_channel :: "u16 \<Rightarrow> u8 \<Rightarrow> u8 \<Rightarrow> pit \<times> controller \<Rightarrow> pit \<times> controller" where
  "pit_write_channel port channel v s =
     (case s of (p, pic) \<Rightarrow>
      let update = (if port = 0x43 then counter_control v else counter_write v);
          latched = (port = 0x43 \<and> v AND 0x30 = 0) in
      if channel = 0 then
        (let c = update (channel0 p) in
         if latched then (p\<lparr>channel0 := c\<rparr>, pic)
         else (p\<lparr>channel0 := c, pit_changed := True\<rparr>, fst (line_set_level 0 (counter_output c) pic)))
      else if channel = 2 then
        (let c = update (channel2 p) in
         if latched then (p\<lparr>channel2 := c\<rparr>, pic)
         else (p\<lparr>channel2 := c, channel2_latest := Some c\<rparr>, pic))
      else (p, pic))"

definition pit_write_port ::
  "nat \<Rightarrow> u16 \<Rightarrow> nat \<Rightarrow> u32 \<Rightarrow> pit \<times> controller \<Rightarrow> (pit \<times> controller) option" where
  "pit_write_port now port bytes val s =
     map_option (\<lambda>(p, pic).
        if bytes \<noteq> 1 then (p, pic)
        else let v = (ucast val :: u8) in
          if port = 0x40 then pit_write_channel port 0 v (p, pic)
          else if port = 0x42 then pit_write_channel port 2 v (p, pic)
          else if port = 0x43 \<and> drop_bit 6 v = 3 then (read_back v p, pic)
          else if port = 0x43 then pit_write_channel port (drop_bit 6 v) v (p, pic)
          else (p, pic))
       (sync_to_clock now s)"

subsection \<open>Invariant\<close>

text \<open>Counters in range, and the interrupt line at the level of the channel's output.\<close>

definition pit_ok :: "pit \<times> controller \<Rightarrow> bool" where
  "pit_ok s \<longleftrightarrow> counter_ok (channel0 (fst s)) \<and> counter_ok (channel2 (fst s)) \<and>
     irq_level 0 (snd s) = counter_output (channel0 (fst s)) \<and> pic_ok (snd s)"

lemma drive_line_ok: "pic_ok c \<Longrightarrow> pic_ok (drive_line irq high c)"
  unfolding line_set_level_def by (rule pic_update_ok) (simp_all add: set_level_ok)

lemma line_pulse_ok: "pic_ok c \<Longrightarrow> pic_ok (fst (line_pulse irq c))"
  by (simp add: line_pulse_fold drive_line_ok)

lemma sync_to_clock_cases:
  assumes "pit_ok (p, pic)"
  shows "sync_to_clock now (p, pic) =
    (case (clocks_at now, clocks_at (pit_at p)) of
       (Some current, Some previous) \<Rightarrow>
         (if current < previous then None
          else let n = current - previous; c0 = (tick ^^ n) (channel0 p);
                   pic' = (if \<exists>m\<le>n. rises (channel0 p) m then fst (line_pulse 0 pic) else pic)
               in Some (p\<lparr>channel0 := c0, channel2 := (tick ^^ n) (channel2 p), pit_at := now\<rparr>,
                        drive_line 0 (counter_output c0) pic'))
     | _ \<Rightarrow> None)"
proof -
  have ok: "counter_ok (channel0 p)" "counter_ok (channel2 p)" using assms by (simp_all add: pit_ok_def)
  obtain r where r: "next_rising_edge (channel0 p) = Some r"
    "case r of None \<Rightarrow> \<forall>n. \<not> rises (channel0 p) n
     | Some n \<Rightarrow> rises (channel0 p) n \<and> (\<forall>m<n. \<not> rises (channel0 p) m)"
    using rising_loop_correct [OF ok(1), of 0] by (auto simp: next_rising_edge_def split: option.splits)
  have "(case r of None \<Rightarrow> False | Some m \<Rightarrow> m \<le> n) \<longleftrightarrow> (\<exists>m\<le>n. rises (channel0 p) m)" for n
    using r(2) by (auto split: option.splits) (meson leI order_trans)
  then show ?thesis using r(1)
    by (auto simp: sync_to_clock_def advance_ticks [OF ok(1)] advance_ticks [OF ok(2)] Let_def split: option.split)
qed

lemma sync_to_clock_Some:
  assumes "pit_ok (p, pic)" and "sync_to_clock now (p, pic) = Some s'"
  obtains a b where "clocks_at (pit_at p) = Some a" and "clocks_at now = Some b" and "a \<le> b"
    and "s' = (p\<lparr>channel0 := (tick ^^ (b - a)) (channel0 p), channel2 := (tick ^^ (b - a)) (channel2 p), pit_at := now\<rparr>,
      drive_line 0 (counter_output ((tick ^^ (b - a)) (channel0 p)))
        (if \<exists>m\<le>b - a. rises (channel0 p) m then fst (line_pulse 0 pic) else pic))"
  using assms(2) that unfolding sync_to_clock_cases [OF assms(1)]
  by (auto simp: Let_def split: option.splits if_splits)

lemma sync_to_clock_ok:
  assumes "pit_ok s" and "sync_to_clock now s = Some s'"
  shows "pit_ok s'"
proof -
  obtain p pic where s: "s = (p, pic)" by fastforce
  have ok: "counter_ok (channel0 p)" "counter_ok (channel2 p)" "pic_ok pic"
    using assms(1) s by (simp_all add: pit_ok_def)
  from sync_to_clock_Some [OF assms(1) [unfolded s] assms(2) [unfolded s]]
  show ?thesis
    by cases (use ok in \<open>auto simp: pit_ok_def counter_ok_ticks drive_line_level drive_line_ok line_pulse_ok\<close>)
qed

lemma pit_with_clock_ok: "pic_ok pic \<Longrightarrow> pit_with_clock now pic = Some s \<Longrightarrow> pit_ok s"
proof -
  assume pic: "pic_ok pic" and s: "pit_with_clock now pic = Some s"
  have c: "counter_ok bios_channel0" unfolding bios_channel0_def
    by (intro counter_ok_advance counter_ok_write counter_ok_control counter_ok_set_gate counter_ok_default)
  have "irq_level 0 (fst (pic_update (record_level 0 high) pic)) = high" for high
    by (auto simp: irq_level_def record_level_def refresh_levels_def bit_or_iff bit_and_iff bit_not_iff)
  moreover have "pic_ok (fst (pic_update (record_level 0 high) pic))" for high
    by (rule pic_update_ok [OF record_level_ok pic])
  ultimately show ?thesis using s c
    by (auto simp: pit_with_clock_def connect_irq_def pit_ok_def split: prod.splits) (metis fst_conv)+
qed

lemma pit_read_port_ok:
  assumes "pit_ok s" and "pit_read_port now port bytes s = Some (s', v)"
  shows "pit_ok s'"
proof -
  obtain p pic where sync: "sync_to_clock now s = Some (p, pic)"
    using assms(2) by (auto simp: pit_read_port_def)
  have "pit_ok (p, pic)" by (rule sync_to_clock_ok [OF assms(1) sync])
  then show ?thesis
    using assms(2) sync counter_ok_read [of "channel0 p"] counter_ok_read [of "channel2 p"]
    by (auto simp: pit_read_port_def pit_ok_def split_beta split: if_splits)
qed

lemma pit_write_channel_ok: "pit_ok (p, pic) \<Longrightarrow> pit_ok (pit_write_channel port channel v (p, pic))"
  using counter_ok_control [of "channel0 p" v] counter_ok_write [of "channel0 p" v]
    counter_ok_control [of "channel2 p" v] counter_ok_write [of "channel2 p" v]
  by (auto simp: pit_ok_def pit_write_channel_def Let_def drive_line_level drive_line_ok)
    (simp_all add: counter_control_def)

lemma pit_write_port_ok:
  assumes "pit_ok s" and "pit_write_port now port bytes v s = Some s'"
  shows "pit_ok s'"
proof -
  obtain p pic where sync: "sync_to_clock now s = Some (p, pic)"
    using assms(2) by (auto simp: pit_write_port_def)
  have ok: "pit_ok (p, pic)" by (rule sync_to_clock_ok [OF assms(1) sync])
  moreover have "pit_ok (read_back w p, pic)" for w
    using ok by (simp add: pit_ok_def read_back_def Let_def)
  ultimately show ?thesis using assms(2) sync
    by (auto simp: pit_write_port_def Let_def pit_write_channel_ok split: if_splits)
qed

subsection \<open>Interrupt edges\<close>

lemma no_rise_stays_low:
  assumes "\<forall>m\<le>n. \<not> rises c m" and "\<not> counter_output c"
  shows "\<not> counter_output ((tick ^^ n) c)"
  using assms(1)
proof (induction n)
  case (Suc n)
  then show ?case using assms(1) by (auto simp: rises_def dest: spec [of _ "Suc n"])
qed (use assms(2) in simp)

lemma rises_split:
  "(\<exists>m\<le>k + n. rises c m) \<longleftrightarrow> (\<exists>m\<le>k. rises c m) \<or> (\<exists>m\<le>n. rises ((tick ^^ k) c) m)"
proof
  assume "\<exists>m\<le>k + n. rises c m"
  then obtain m where m: "m \<le> k + n" "rises c m" by blast
  show "(\<exists>m\<le>k. rises c m) \<or> (\<exists>m\<le>n. rises ((tick ^^ k) c) m)"
  proof (cases "m \<le> k")
    case False
    then have "rises ((tick ^^ k) c) (m - k)" "m - k \<le> n" using m rises_after [of k m c] by simp_all
    then show ?thesis by blast
  qed (use m in blast)
next
  assume "(\<exists>m\<le>k. rises c m) \<or> (\<exists>m\<le>n. rises ((tick ^^ k) c) m)"
  then show "\<exists>m\<le>k + n. rises c m"
  proof
    assume "\<exists>m\<le>n. rises ((tick ^^ k) c) m"
    then obtain m where m: "m \<le> n" "rises ((tick ^^ k) c) m" by blast
    then have "0 < m" by (simp add: rises_def)
    then have "rises c (k + m)" using m(2) rises_after [of k "k + m" c] by simp
    then show ?thesis using m(1) by (intro exI [of _ "k + m"]) simp
  qed (auto intro: trans_le_add1)
qed

lemma sync_requested:
  assumes ok: "pit_ok (p, pic)" and edge: "\<not> level_triggered pic"
    and sync: "sync_to_clock now (p, pic) = Some (p', pic')"
    and a: "clocks_at (pit_at p) = Some a" and b: "clocks_at now = Some b"
  shows "irq_requested 0 pic' \<longleftrightarrow> irq_requested 0 pic \<or> (\<exists>m\<le>b - a. rises (channel0 p) m)"
proof -
  let ?c = "(tick ^^ (b - a)) (channel0 p)"
  let ?q = "if \<exists>m\<le>b - a. rises (channel0 p) m then fst (line_pulse 0 pic) else pic"
  have pic': "pic' = drive_line 0 (counter_output ?c) ?q"
    by (rule sync_to_clock_Some [OF ok sync]) (use a b in simp)
  have level: "irq_level 0 pic = counter_output (channel0 p)" using ok by (simp add: pit_ok_def)
  show ?thesis
  proof (cases "\<exists>m\<le>b - a. rises (channel0 p) m")
    case True
    then have "irq_requested 0 ?q" "\<not> level_triggered ?q"
      using timer_line.pulse_requests [OF edge] timer_line.edge_mode_fold [of "[False, True, False]" pic] edge
      by (simp_all add: line_pulse_fold)
    then show ?thesis using True pic' by (simp add: timer_line.requested_drive)
  next
    case False
    then have "counter_output ?c \<Longrightarrow> irq_level 0 pic"
      using no_rise_stays_low [of "b - a" "channel0 p"] level by blast
    then show ?thesis using False pic' timer_line.requested_drive [OF edge] by auto
  qed
qed

subsection \<open>Properties\<close>

text \<open>The timer requests IRQ 0 exactly when its output rose. After a synchronization of an
  edge-triggered controller the request is pending iff it was before or channel 0 rose at
  some clock that elapsed, however late the synchronization came, and the line and the
  counter stand where the clock puts them.\<close>

theorem pit_irq_edges:
  assumes "pit_ok (p, pic)" and "\<not> level_triggered pic"
    and "sync_to_clock now (p, pic) = Some (p', pic')"
    and "clocks_at (pit_at p) = Some a" and "clocks_at now = Some b"
  shows "(irq_requested 0 pic' \<longleftrightarrow> irq_requested 0 pic \<or> (\<exists>m\<le>b - a. rises (channel0 p) m)) \<and>
    channel0 p' = (tick ^^ (b - a)) (channel0 p) \<and>
    irq_level 0 pic' = counter_output (channel0 p')"
proof -
  have "channel0 p' = (tick ^^ (b - a)) (channel0 p)"
    by (rule sync_to_clock_Some [OF assms(1,3)]) (use assms(4,5) in simp)
  moreover have "irq_level 0 pic' = counter_output (channel0 p')"
    using sync_to_clock_ok [OF assms(1,3)] by (simp add: pit_ok_def)
  ultimately show ?thesis using sync_requested [OF assms] by blast
qed

lemma bios_channel0_eq:
  "bios_channel0 = \<lparr>control_word = 0x36, gate = True, reload = 65536, active = 65536, phase = 0,
     loading = False, null_count = False, write_low = None, read_high = False, latched_count = None,
     latched_status = None\<rparr>"
  by (simp add: bios_channel0_def counter_write_def counter_control_def set_gate_def set_count_def
      counter_default_def advance_def advance_loaded_def advance_rest_def load_def mode_def Let_def
      advance_periodic_def high_clocks_def div_ceil_def)

lemma bios_ok: "counter_ok bios_channel0"
  by (simp add: bios_channel0_eq counter_ok_def)

lemma bios_rising: "rising_loop bios_channel0 0 = Some (Some 65536)"
proof -
  let ?low = "bios_channel0\<lparr>phase := 32768\<rparr>"
  have high: "next_transition bios_channel0 = Some 32768" "fst (advance 32768 bios_channel0) = ?low"
    "counter_output bios_channel0"
    by (simp_all add: bios_channel0_eq next_transition_def advance_def advance_loaded_def advance_rest_def
        advance_periodic_def mode_def high_clocks_def div_ceil_def counter_output_def Let_def)
  have low: "next_transition ?low = Some 32768" "fst (advance 32768 ?low) = bios_channel0"
    "\<not> counter_output ?low"
    by (simp_all add: bios_channel0_eq next_transition_def advance_def advance_loaded_def advance_rest_def
        advance_periodic_def mode_def high_clocks_def div_ceil_def counter_output_def Let_def)
  have "rising_loop ?low 32768 = Some (Some 65536)"
    using low high(3) by (subst rising_loop.simps) simp
  then show ?thesis using high by (subst rising_loop.simps) simp
qed

lemma bios_rises: "rises bios_channel0 65536 \<and> (\<forall>m<65536. \<not> rises bios_channel0 m)"
  using rising_loop_correct [OF bios_ok, of 0] by (simp add: bios_rising)

definition bios_pit :: pit where
  "bios_pit = \<lparr>pit_at = 0, channel0 = bios_channel0, channel2 = counter_default,
     channel2_latest = None, pit_changed = False\<rparr>"

definition bios_pic :: controller where
  "bios_pic = (controller_new 8)\<lparr>levels := 1\<rparr>"

lemma bios_pit_ok: "pit_ok (bios_pit, bios_pic)"
  by (simp add: pit_ok_def bios_pit_def bios_pic_def bios_ok irq_level_def pic_ok_def controller_new_def)
    (simp add: bios_channel0_eq counter_output_def mode_def high_clocks_def div_ceil_def)

lemma one_second_clocks: "clocks_at 0 = Some 0" "clocks_at 1000000000 = Some 1193182"
  by (simp_all add: clocks_at_def INPUT_HZ_def)

lemma bios_sync: "sync_to_clock 1000000000 (bios_pit, bios_pic) \<noteq> None"
proof -
  have "clocks_at (pit_at bios_pit) = Some 0" by (simp add: bios_pit_def one_second_clocks)
  then show ?thesis by (simp add: sync_to_clock_cases [OF bios_pit_ok] one_second_clocks Let_def)
qed

theorem pit_irq_edges_witness:
  "\<exists>p' pic'. sync_to_clock 1000000000 (bios_pit, bios_pic) = Some (p', pic') \<and> irq_requested 0 pic'"
proof -
  obtain p' pic' where sync: "sync_to_clock 1000000000 (bios_pit, bios_pic) = Some (p', pic')"
    using bios_sync by fastforce
  have "clocks_at (pit_at bios_pit) = Some 0" "channel0 bios_pit = bios_channel0" "\<not> level_triggered bios_pic"
    by (simp_all add: bios_pit_def bios_pic_def one_second_clocks controller_new_def)
  moreover have "\<exists>m\<le>1193182 - 0. rises bios_channel0 m" using bios_rises by (intro exI [of _ 65536]) simp
  ultimately show ?thesis
    using pit_irq_edges [OF bios_pit_ok _ sync, of 0 1193182] one_second_clocks sync by simp
qed

text \<open>It does not matter how often the device is synchronized. Stopping at an intermediate
  time leads to the same counters, the same line level and the same pending request as
  synchronizing once.\<close>

theorem pit_sync_split:
  assumes "pit_ok s" and "\<not> level_triggered (snd s)"
    and "sync_to_clock t1 s = Some s1" and "sync_to_clock t2 s1 = Some s2"
  shows "\<exists>s3. sync_to_clock t2 s = Some s3 \<and> fst s3 = fst s2 \<and>
    irq_requested 0 (snd s3) = irq_requested 0 (snd s2) \<and> irq_level 0 (snd s3) = irq_level 0 (snd s2)"
proof -
  obtain p pic p1 pic1 p2 pic2 where s: "s = (p, pic)" "s1 = (p1, pic1)" "s2 = (p2, pic2)"
    by (metis surj_pair)
  note ok = assms(1) [unfolded s] and sync1 = assms(3) [unfolded s] and sync2 = assms(4) [unfolded s]
  have edge: "\<not> level_triggered pic" using assms(2) s by simp
  have ok1: "pit_ok (p1, pic1)" by (rule sync_to_clock_ok [OF ok sync1])
  obtain a b where ab: "clocks_at (pit_at p) = Some a" "clocks_at t1 = Some b" "a \<le> b"
    and s1: "p1 = p\<lparr>channel0 := (tick ^^ (b - a)) (channel0 p), channel2 := (tick ^^ (b - a)) (channel2 p), pit_at := t1\<rparr>"
      "level_triggered pic1 = level_triggered pic"
    by (rule sync_to_clock_Some [OF ok sync1]) (simp add: drive_line_mode line_pulse_fold)
  obtain d where d: "clocks_at t2 = Some d" "b \<le> d"
    and s2: "p2 = p1\<lparr>channel0 := (tick ^^ (d - b)) (channel0 p1), channel2 := (tick ^^ (d - b)) (channel2 p1), pit_at := t2\<rparr>"
    by (rule sync_to_clock_Some [OF ok1 sync2]) (use s1 ab in simp)
  obtain p3 pic3 where sync3: "sync_to_clock t2 (p, pic) = Some (p3, pic3)"
    using ab d by (simp add: sync_to_clock_cases [OF ok] Let_def)
  have p3: "p3 = p\<lparr>channel0 := (tick ^^ (d - a)) (channel0 p), channel2 := (tick ^^ (d - a)) (channel2 p), pit_at := t2\<rparr>"
    by (rule sync_to_clock_Some [OF ok sync3]) (use ab d in simp)
  have add: "d - b + (b - a) = d - a" using ab d by simp
  have eq: "p3 = p2" using s1(1) s2 p3 by (simp add: ticks_add add)
  have "(\<exists>m\<le>d - a. rises (channel0 p) m) \<longleftrightarrow>
      (\<exists>m\<le>b - a. rises (channel0 p) m) \<or> (\<exists>m\<le>d - b. rises (channel0 p1) m)"
    using rises_split [of "b - a" "d - b" "channel0 p"] s1(1) add by (simp add: add.commute)
  then have "irq_requested 0 pic3 = irq_requested 0 pic2"
    using sync_requested [OF ok edge sync1 ab(1,2)] sync_requested [OF ok1 _ sync2] sync_requested [OF ok edge sync3 ab(1)]
      edge s1 ab d by simp
  moreover have "irq_level 0 pic3 = irq_level 0 pic2"
    using sync_to_clock_ok [OF ok sync3] sync_to_clock_ok [OF ok1 sync2] eq by (simp add: pit_ok_def)
  ultimately show ?thesis using sync3 eq s by auto
qed

theorem pit_sync_split_witness:
  "\<exists>s1 s2 s3. sync_to_clock 1000000000 (bios_pit, bios_pic) = Some s1 \<and>
     sync_to_clock 2000000000 s1 = Some s2 \<and>
     sync_to_clock 2000000000 (bios_pit, bios_pic) = Some s3 \<and> fst s3 = fst s2"
proof -
  obtain s1 where s1: "sync_to_clock 1000000000 (bios_pit, bios_pic) = Some s1" using bios_sync by fastforce
  obtain p1 pic1 where p1: "s1 = (p1, pic1)" by fastforce
  have at: "pit_at p1 = 1000000000"
    by (rule sync_to_clock_Some [OF bios_pit_ok s1 [unfolded p1]]) simp
  have "clocks_at 2000000000 = Some 2386364" by (simp add: clocks_at_def INPUT_HZ_def)
  then have "sync_to_clock 2000000000 s1 \<noteq> None"
    using sync_to_clock_cases [OF sync_to_clock_ok [OF bios_pit_ok s1, unfolded p1], of 2000000000]
    by (simp add: p1 at one_second_clocks Let_def)
  then obtain s2 where s2: "sync_to_clock 2000000000 s1 = Some s2" by fastforce
  have "\<not> level_triggered (snd (bios_pit, bios_pic))" by (simp add: bios_pic_def controller_new_def)
  from pit_sync_split [OF bios_pit_ok this s1 s2] s1 s2 show ?thesis by blast
qed

text \<open>The activity sleeps exactly until something happens. Before its deadline the output of
  channel 0 does not change, and at the deadline precisely the clocks up to the next load
  or transition have elapsed.\<close>

theorem pit_deadline_exact:
  assumes "pit_ok (p, pic)" and "pit_deadline p = Some (Some deadline)"
    and "clocks_at (pit_at p) = Some a" and "clocks_at now = Some b" and "a \<le> b"
  shows "\<exists>k. next_transition (channel0 p) = Some k \<and>
    (now < deadline \<longrightarrow> b - a < k \<and> counter_output ((tick ^^ (b - a)) (channel0 p)) = counter_output (channel0 p)) \<and>
    (now = deadline \<longrightarrow> b - a = k)"
proof -
  obtain k where k: "next_transition (channel0 p) = Some k" "deadline = time_at (a + k)"
    using assms(2,3) by (auto simp: pit_deadline_def split: option.splits)
  have b: "b = now * INPUT_HZ div 1000000000" using assms(4) by (simp add: clocks_at_Some)
  have "b - a < k" if "now < deadline"
    using that time_at_le_clocks [of "a + k" now] k(2) b assms(5) next_transition_pos [OF _ k(1)] assms(1)
    by (auto simp: pit_ok_def)
  moreover have "b - a = k" if "now = deadline"
    using that clocks_at_time_at [of "a + k"] k(2) b by simp
  ultimately show ?thesis
    using k(1) output_constant [OF _ k(1), of "b - a"] assms(1) by (auto simp: pit_ok_def)
qed

theorem pit_deadline_exact_witness:
  "\<exists>k. next_transition (channel0 bios_pit) = Some k \<and> (0 < time_at 32768 \<longrightarrow> 0 < k)"
proof -
  have "pit_deadline bios_pit = Some (Some (time_at 32768))"
    by (simp add: pit_deadline_def bios_pit_def bios_channel0_eq next_transition_def one_second_clocks
        mode_def high_clocks_def div_ceil_def)
  moreover have "clocks_at (pit_at bios_pit) = Some 0" by (simp add: bios_pit_def one_second_clocks)
  ultimately show ?thesis
    using pit_deadline_exact [OF bios_pit_ok, of _ 0 0 0] one_second_clocks(1) by auto
qed

text \<open>The timer BIOS leaves behind raises its first edge after 65536 input clocks, that is,
  the search for the next rising edge of the initial channel returns exactly that clock.\<close>

theorem bios_tick_period:
  "next_rising_edge bios_channel0 = Some (Some 65536) \<and> counter_output bios_channel0"
  by (simp add: next_rising_edge_def bios_rising)
    (simp add: bios_channel0_eq counter_output_def mode_def high_clocks_def div_ceil_def)

end
