(* ===== verification/Scancodes.thy ===== *)
theory Scancodes
  imports Prelude
begin

text \<open>
  Physical keys and their wire codes: \<open>at-keyboard/src/scancodes.rs\<close>. A key code of the front
  end's window library is identified by the name of its variant.
\<close>

subsection \<open>scancodes.rs\<close>

type_synonym keycode = string

definition KEYS :: "(keycode \<times> u8 \<times> u8 \<times> bool) list" where
  "KEYS = [
     (''Escape'', 0x01, 0x76, False), (''Digit1'', 0x02, 0x16, False),
     (''Digit2'', 0x03, 0x1E, False), (''Digit3'', 0x04, 0x26, False),
     (''Digit4'', 0x05, 0x25, False), (''Digit5'', 0x06, 0x2E, False),
     (''Digit6'', 0x07, 0x36, False), (''Digit7'', 0x08, 0x3D, False),
     (''Digit8'', 0x09, 0x3E, False), (''Digit9'', 0x0A, 0x46, False),
     (''Digit0'', 0x0B, 0x45, False), (''Minus'', 0x0C, 0x4E, False),
     (''Equal'', 0x0D, 0x55, False), (''Backspace'', 0x0E, 0x66, False),
     (''Tab'', 0x0F, 0x0D, False), (''KeyQ'', 0x10, 0x15, False),
     (''KeyW'', 0x11, 0x1D, False), (''KeyE'', 0x12, 0x24, False),
     (''KeyR'', 0x13, 0x2D, False), (''KeyT'', 0x14, 0x2C, False),
     (''KeyY'', 0x15, 0x35, False), (''KeyU'', 0x16, 0x3C, False),
     (''KeyI'', 0x17, 0x43, False), (''KeyO'', 0x18, 0x44, False),
     (''KeyP'', 0x19, 0x4D, False), (''BracketLeft'', 0x1A, 0x54, False),
     (''BracketRight'', 0x1B, 0x56, False), (''Enter'', 0x1C, 0x5A, False),
     (''NumpadEnter'', 0x1C, 0x5A, True), (''KeyA'', 0x1E, 0x1C, False),
     (''KeyS'', 0x1F, 0x1B, False), (''KeyD'', 0x20, 0x23, False),
     (''KeyF'', 0x21, 0x2B, False), (''KeyG'', 0x22, 0x34, False),
     (''KeyH'', 0x23, 0x33, False), (''KeyJ'', 0x24, 0x3B, False),
     (''KeyK'', 0x25, 0x42, False), (''KeyL'', 0x26, 0x4B, False),
     (''Semicolon'', 0x27, 0x4C, False), (''Quote'', 0x28, 0x52, False),
     (''Backquote'', 0x29, 0x0E, False), (''Backslash'', 0x2B, 0x5D, False),
     (''KeyZ'', 0x2C, 0x1A, False), (''KeyX'', 0x2D, 0x22, False),
     (''KeyC'', 0x2E, 0x21, False), (''KeyV'', 0x2F, 0x2A, False),
     (''KeyB'', 0x30, 0x32, False), (''KeyN'', 0x31, 0x31, False),
     (''KeyM'', 0x32, 0x3A, False), (''Comma'', 0x33, 0x41, False),
     (''Period'', 0x34, 0x49, False), (''Slash'', 0x35, 0x4A, False),
     (''NumpadDivide'', 0x35, 0x4A, True), (''NumpadMultiply'', 0x37, 0x7C, False),
     (''Space'', 0x39, 0x29, False), (''F1'', 0x3B, 0x05, False), (''F2'', 0x3C, 0x06, False),
     (''F3'', 0x3D, 0x04, False), (''F4'', 0x3E, 0x0C, False), (''F5'', 0x3F, 0x03, False),
     (''F6'', 0x40, 0x0B, False), (''F7'', 0x41, 0x83, False), (''F8'', 0x42, 0x0A, False),
     (''F9'', 0x43, 0x01, False), (''F10'', 0x44, 0x09, False), (''Home'', 0x47, 0x6C, True),
     (''Numpad7'', 0x47, 0x6C, False), (''ArrowUp'', 0x48, 0x75, True),
     (''Numpad8'', 0x48, 0x75, False), (''PageUp'', 0x49, 0x7D, True),
     (''Numpad9'', 0x49, 0x7D, False), (''NumpadSubtract'', 0x4A, 0x7B, False),
     (''ArrowLeft'', 0x4B, 0x6B, True), (''Numpad4'', 0x4B, 0x6B, False),
     (''Numpad5'', 0x4C, 0x73, False), (''ArrowRight'', 0x4D, 0x74, True),
     (''Numpad6'', 0x4D, 0x74, False), (''NumpadAdd'', 0x4E, 0x79, False),
     (''End'', 0x4F, 0x69, True), (''Numpad1'', 0x4F, 0x69, False),
     (''ArrowDown'', 0x50, 0x72, True), (''Numpad2'', 0x50, 0x72, False),
     (''PageDown'', 0x51, 0x7A, True), (''Numpad3'', 0x51, 0x7A, False),
     (''Insert'', 0x52, 0x70, True), (''Numpad0'', 0x52, 0x70, False),
     (''Delete'', 0x53, 0x71, True), (''NumpadDecimal'', 0x53, 0x71, False),
     (''F11'', 0x57, 0x78, False), (''F12'', 0x58, 0x07, False),
     (''ShiftLeft'', 0x2A, 0x12, False), (''ShiftRight'', 0x36, 0x59, False),
     (''ControlLeft'', 0x1D, 0x14, False), (''ControlRight'', 0x1D, 0x14, True),
     (''AltLeft'', 0x38, 0x11, False), (''AltRight'', 0x38, 0x11, True),
     (''CapsLock'', 0x3A, 0x58, False), (''NumLock'', 0x45, 0x77, False),
     (''ScrollLock'', 0x46, 0x7E, False), (''IntlBackslash'', 0x56, 0x61, False),
     (''SuperLeft'', 0x5B, 0x1F, True), (''SuperRight'', 0x5C, 0x27, True),
     (''ContextMenu'', 0x5D, 0x2F, True)]"

definition supported :: "keycode \<Rightarrow> bool" where
  "supported key \<longleftrightarrow>
     key = ''PrintScreen'' \<or> key = ''Pause'' \<or> list_ex (\<lambda>(code, _). code = key) KEYS"

definition repeatable :: "keycode \<Rightarrow> bool" where
  "repeatable key \<longleftrightarrow> key \<noteq> ''Pause''"

definition code_bytes :: "u8 \<Rightarrow> bool \<Rightarrow> bool \<Rightarrow> u8 \<Rightarrow> u8 list" where
  "code_bytes code extended pressed st =
     (if extended then [0xE0] else []) @
     (if \<not> pressed \<and> st = 2 then [0xF0] else []) @
     [if \<not> pressed \<and> st = 1 then code OR 0x80 else code]"

definition pause_bytes :: "bool \<Rightarrow> bool \<Rightarrow> u8 \<Rightarrow> u8 list" where
  "pause_bytes pressed control st =
     (if \<not> pressed then []
      else if control then
        (if st = 1 then [0xE0, 0x46, 0xE0, 0xC6] else [0xE0, 0x7E, 0xE0, 0xF0, 0x7E])
      else if st = 1 then [0xE1, 0x1D, 0x45, 0xE1, 0x9D, 0xC5]
      else [0xE1, 0x14, 0x77, 0xE1, 0xF0, 0x14, 0xF0, 0x77])"

definition print_screen_bytes :: "bool \<Rightarrow> bool \<Rightarrow> bool \<Rightarrow> bool \<Rightarrow> u8 \<Rightarrow> u8 list" where
  "print_screen_bytes pressed control alt shift st =
     (if alt then code_bytes (if st = 1 then 0x54 else 0x84) False pressed st
      else
        (let bytes = code_bytes (if st = 1 then 0x37 else 0x7C) True pressed st;
             fake_shift = code_bytes (if st = 1 then 0x2A else 0x12) True pressed st
         in if \<not> control \<and> \<not> shift
            then (if pressed then fake_shift @ bytes else bytes @ fake_shift)
            else bytes))"

definition sequence :: "keycode \<Rightarrow> bool \<Rightarrow> u8 \<Rightarrow> keycode list \<Rightarrow> u8 list" where
  "sequence key pressed st held =
     (let control = (''ControlLeft'' \<in> set held \<or> ''ControlRight'' \<in> set held);
          alt = (''AltLeft'' \<in> set held \<or> ''AltRight'' \<in> set held);
          shift = (''ShiftLeft'' \<in> set held \<or> ''ShiftRight'' \<in> set held)
      in if key = ''Pause'' then pause_bytes pressed control st
         else if key = ''PrintScreen'' then print_screen_bytes pressed control alt shift st
         else case find (\<lambda>(code, _). code = key) KEYS of
                None \<Rightarrow> []
              | Some (_, set1, set2, extended) \<Rightarrow>
                  code_bytes (if st = 1 then set1 else set2) extended pressed st)"

definition translate :: "u8 \<Rightarrow> u8" where
  "translate byte =
     (if byte = 0 then 0xFF
      else if byte = 2 then 0x41
      else if byte = 0x84 then 0x54
      else case find (\<lambda>(_, _, set2, _). set2 = byte) KEYS of
             None \<Rightarrow> byte
           | Some (_, set1, _) \<Rightarrow> set1)"

subsection \<open>Translation of the wire\<close>

text \<open>What the 8042 makes of a set-2 byte stream: a release prefix is held back and marks
  the code after it. This is the keyboard side of \<open>Controller::send\<close>.\<close>

fun translate_stream :: "bool \<Rightarrow> u8 list \<Rightarrow> u8 list" where
  "translate_stream prefix [] = []"
| "translate_stream prefix (b # bs) =
     (if b = 0xF0 then translate_stream True bs
      else (if prefix then translate b OR 0x80 else translate b) # translate_stream False bs)"

lemma translate_KEYS:
  "list_all (\<lambda>(_, set1, set2, _). set2 \<noteq> 0xF0 \<and> set2 \<noteq> 0xE0 \<and> translate set2 = set1) KEYS"
  by code_simp

lemma translate_special:
  "translate 0xE0 = 0xE0" "translate 0xE1 = 0xE1" "translate 0x7E = 0x46" "translate 0x14 = 0x1D"
  "translate 0x77 = 0x45" "translate 0x84 = 0x54" "translate 0x7C = 0x37" "translate 0x12 = 0x2A"
  by (simp_all add: translate_def KEYS_def)

lemma translate_code_bytes:
  assumes "code2 \<noteq> 0xF0" and "translate code2 = code1"
  shows "translate_stream False (code_bytes code2 extended pressed 2 @ bs)
    = code_bytes code1 extended pressed 1 @ translate_stream False bs"
  using assms by (auto simp: code_bytes_def translate_special)

lemma find_KEYS:
  assumes "find (\<lambda>(code, _). code = key) KEYS = Some (k, set1, set2, extended)"
  shows "set2 \<noteq> 0xF0 \<and> translate set2 = set1"
proof -
  have "(k, set1, set2, extended) \<in> set KEYS" using assms by (auto simp: find_Some_iff in_set_conv_nth)
  then show ?thesis using translate_KEYS by (fastforce simp: list_all_iff)
qed

text \<open>Translating what is sent in set 2 gives what would have been sent in set 1, for every key,
  press or release and state of the modifiers.\<close>

lemma translate_sequence:
  "translate_stream False (sequence key pressed 2 held) = sequence key pressed 1 held"
proof -
  have code: "translate_stream False (code_bytes code2 extended p 2) = code_bytes code1 extended p 1"
    if "code2 \<noteq> 0xF0" "translate code2 = code1" for code2 code1 extended p
    using translate_code_bytes [OF that, of extended p "[]"] by simp
  have pause: "translate_stream False (pause_bytes pressed control 2) = pause_bytes pressed control 1" for control
    by (simp add: pause_bytes_def translate_special)
  have print: "translate_stream False (print_screen_bytes pressed control alt shift 2)
      = print_screen_bytes pressed control alt shift 1" for control alt shift
    by (simp add: print_screen_bytes_def Let_def code translate_code_bytes translate_special)
  show ?thesis using find_KEYS [of key]
    by (auto simp: sequence_def Let_def pause print code split: option.split)
qed

lemma sequence_length: "length (sequence key pressed st held) \<le> 8"
  by (auto simp: sequence_def pause_bytes_def print_screen_bytes_def code_bytes_def Let_def split: option.split)

end
