(* ===== verification/Keyboard_Controller.thy ===== *)
theory Keyboard_Controller
  imports Scancodes Pic
begin

text \<open>
  The 8042 controller, \<open>at-keyboard/src/controller.rs\<close>. The registers are shared by the port
  callbacks and the firmware task; the interrupt line is input 1 of the explicitly passed
  interrupt controller. An \<open>async\<close> function is its atomic segments: a segment that has to
  wait is \<open>None\<close>, and the firmware's program point is part of the state. The \<open>changed\<close>
  event only wakes waiting segments, so it is left to the scheduler.
\<close>

subsection \<open>controller.rs\<close>

datatype kc_input = Command u8 | Data u8

datatype kc_source = FromController | FromKeyboard

record registers =
  kc_pending :: "kc_input option"
  kc_output :: u8
  output_full :: bool
  command_byte :: u8
  last_command :: bool
  break_prefix :: bool

type_synonym kc_state = "registers \<times> controller"

definition kc_new :: "controller \<Rightarrow> kc_state option" where
  "kc_new pic =
     map_option (\<lambda>(pic, woke).
        (\<lparr>kc_pending = None, kc_output = 0xFF, output_full = False, command_byte = 1 OR 4 OR 0x40,
          last_command = False, break_prefix = False\<rparr>, pic))
       (connect_irq 1 False pic)"

definition kc_status :: "registers \<Rightarrow> u8" where
  "kc_status r =
     0x10 OR (command_byte r AND 4)
       OR (if last_command r then 8 else 0)
       OR (if kc_pending r \<noteq> None then 2 else 0)
       OR (if output_full r then 1 else 0)"

definition kc_read_data :: "kc_state \<Rightarrow> kc_state \<times> u8" where
  "kc_read_data s =
     (case s of (r, pic) \<Rightarrow> ((r\<lparr>output_full := False\<rparr>, drive_line 1 False pic), kc_output r))"

definition kc_accept :: "kc_input \<Rightarrow> registers \<Rightarrow> registers" where
  "kc_accept i r =
     (if kc_pending r \<noteq> None then r
      else r\<lparr>kc_pending := Some i, last_command := (case i of Command _ \<Rightarrow> True | Data _ \<Rightarrow> False)\<rparr>)"

definition kc_write :: "u16 \<Rightarrow> u8 \<Rightarrow> registers \<Rightarrow> registers" where
  "kc_write port val r =
     (if port = 0x60 then kc_accept (Data val) r
      else if port = 0x64 then kc_accept (Command val) r
      else r)"

definition inhibited :: "registers \<Rightarrow> bool" where
  "inhibited r \<longleftrightarrow> output_full r \<or> command_byte r AND 0x10 \<noteq> 0"

definition update_irq :: "kc_state \<Rightarrow> kc_state" where
  "update_irq s =
     (case s of (r, pic) \<Rightarrow> (r, drive_line 1 (output_full r \<and> command_byte r AND 1 \<noteq> 0) pic))"

definition kc_receive :: "registers \<Rightarrow> (registers \<times> kc_input) option" where
  "kc_receive r = map_option (\<lambda>i. (r\<lparr>kc_pending := None\<rparr>, i)) (kc_pending r)"

definition kc_send :: "kc_source \<Rightarrow> u8 \<Rightarrow> kc_state \<Rightarrow> kc_state option" where
  "kc_send source byte s =
     (case s of (r, pic) \<Rightarrow>
      if \<not> output_full r \<and> (source = FromController \<or> command_byte r AND 0x10 = 0) then
        (if source = FromKeyboard \<and> command_byte r AND 0x40 \<noteq> 0 then
           (if byte = 0xF0 then Some (r\<lparr>break_prefix := True\<rparr>, pic)
            else let byte = (if break_prefix r then translate byte OR 0x80 else translate byte)
                 in Some (update_irq (r\<lparr>break_prefix := False, kc_output := byte, output_full := True\<rparr>, pic)))
         else Some (update_irq (r\<lparr>kc_output := byte, output_full := True\<rparr>, pic)))
      else None)"

text \<open>The firmware's program points: waiting for input, for the parameter of a command, for
  room in the output buffer, or for room in the channel to the keyboard.\<close>

datatype firmware =
  Idle
| AwaitParameter u8
| Sending u8
| Forwarding u8

definition finish_command :: "kc_state \<Rightarrow> kc_state \<times> firmware" where
  "finish_command s = (update_irq s, Idle)"

definition start_command :: "u8 \<Rightarrow> kc_state \<Rightarrow> kc_state \<times> firmware" where
  "start_command command s =
     (case s of (r, pic) \<Rightarrow>
      if command = 0x20 then (s, Sending (command_byte r))
      else if command = 0x60 \<or> command = 0xD2 then (s, AwaitParameter command)
      else if command = 0xAA then ((r\<lparr>command_byte := command_byte r OR 4\<rparr>, pic), Sending 0x55)
      else if command = 0xAB then (s, Sending 0)
      else if command = 0xAD then finish_command (r\<lparr>command_byte := command_byte r OR 0x10\<rparr>, pic)
      else if command = 0xAE then finish_command (r\<lparr>command_byte := command_byte r AND NOT 0x10\<rparr>, pic)
      else finish_command s)"

definition parameter :: "u8 \<Rightarrow> kc_input \<Rightarrow> kc_state \<Rightarrow> kc_state \<times> firmware" where
  "parameter command i s =
     (case i of
        Command replacement \<Rightarrow> start_command replacement s
      | Data val \<Rightarrow>
          (if command = 0x60 then
             (case s of (r, pic) \<Rightarrow>
              let r = (if (command_byte r XOR val) AND 0x40 \<noteq> 0 then r\<lparr>break_prefix := False\<rparr> else r)
              in finish_command (r\<lparr>command_byte := val\<rparr>, pic))
           else (s, Sending val)))"

text \<open>One segment of \<open>Controller::run\<close>, with the bounded channel of one byte to the keyboard.\<close>

definition firmware_step ::
  "kc_state \<times> firmware \<times> u8 option \<Rightarrow> (kc_state \<times> firmware \<times> u8 option) option" where
  "firmware_step f =
     (case f of ((r, pic), task, queue) \<Rightarrow>
      (case task of
         Idle \<Rightarrow>
           (case kc_receive r of
              None \<Rightarrow> None
            | Some (r, Command command) \<Rightarrow>
                (case start_command command (r, pic) of (s, task) \<Rightarrow> Some (s, task, queue))
            | Some (r, Data val) \<Rightarrow> Some ((r, pic), Forwarding val, queue))
       | AwaitParameter command \<Rightarrow>
           (case kc_receive r of
              None \<Rightarrow> None
            | Some (r, i) \<Rightarrow>
                (case parameter command i (r, pic) of (s, task) \<Rightarrow> Some (s, task, queue)))
       | Sending byte \<Rightarrow>
           map_option (\<lambda>s. case finish_command s of (s, task) \<Rightarrow> (s, task, queue))
             (kc_send FromController byte (r, pic))
       | Forwarding byte \<Rightarrow>
           (if queue = None then Some ((r, pic), Idle, Some byte) else None)))"

subsection \<open>lib.rs\<close>

definition kc_read_port :: "u16 \<Rightarrow> nat \<Rightarrow> kc_state \<Rightarrow> kc_state \<times> u32" where
  "kc_read_port port bytes s =
     (if bytes \<noteq> 1 then (s, - 1)
      else if port = 0x60 then (case kc_read_data s of (s, b) \<Rightarrow> (s, ucast b))
      else if port = 0x64 then (s, ucast (kc_status (fst s)))
      else (s, - 1))"

definition kc_write_port :: "u16 \<Rightarrow> nat \<Rightarrow> u32 \<Rightarrow> kc_state \<Rightarrow> kc_state" where
  "kc_write_port port bytes val s =
     (if bytes = 1 then (kc_write port (ucast val) (fst s), snd s) else s)"

subsection \<open>The interrupt line follows the output buffer\<close>

definition kc_ok :: "kc_state \<Rightarrow> bool" where
  "kc_ok s \<longleftrightarrow> irq_level 1 (snd s) = (output_full (fst s) \<and> command_byte (fst s) AND 1 \<noteq> 0) \<and> pic_ok (snd s)"

lemma kc_drive_ok: "pic_ok c \<Longrightarrow> pic_ok (drive_line irq high c)"
  unfolding line_set_level_def by (rule pic_update_ok) (simp_all add: set_level_ok)

lemma update_irq_ok: "pic_ok (snd s) \<Longrightarrow> kc_ok (update_irq s)"
  by (cases s) (simp add: kc_ok_def update_irq_def drive_line_level kc_drive_ok)

lemma finish_command_ok: "pic_ok (snd s) \<Longrightarrow> kc_ok (fst (finish_command s))"
  by (simp add: finish_command_def update_irq_ok)

lemma or_4_and_1: "(b OR 4) AND 1 = b AND (1 :: u8)"
  by (rule bit_word_eqI) (auto simp: bit_or_iff bit_and_iff bit_1_iff)

lemma start_command_ok: "kc_ok s \<Longrightarrow> kc_ok (fst (start_command command s))"
  by (cases s) (auto simp: start_command_def finish_command_def or_4_and_1 kc_ok_def update_irq_def
      drive_line_level kc_drive_ok)

lemma kc_ok_pic: "kc_ok (r, pic) \<Longrightarrow> pic_ok pic"
  by (simp add: kc_ok_def)

lemma parameter_ok: "kc_ok s \<Longrightarrow> kc_ok (fst (parameter command i s))"
  by (cases s) (auto simp: parameter_def Let_def start_command_ok finish_command_ok dest: kc_ok_pic split: kc_input.split)

lemma kc_send_ok: "kc_ok s \<Longrightarrow> kc_send source byte s = Some s' \<Longrightarrow> kc_ok s'"
  by (cases s) (auto simp: kc_send_def Let_def kc_ok_def update_irq_def drive_line_level kc_drive_ok split: if_splits)

lemma kc_receive_ok: "kc_receive r = Some (r', i) \<Longrightarrow> kc_ok (r, pic) \<Longrightarrow> kc_ok (r', pic)"
  by (auto simp: kc_receive_def kc_ok_def)

lemma firmware_step_ok:
  assumes "kc_ok (fst f)" and "firmware_step f = Some f'"
  shows "kc_ok (fst f')"
proof -
  obtain r pic task queue where f: "f = ((r, pic), task, queue)" by (metis prod.exhaust)
  have ok: "kc_ok (r, pic)" using assms(1) f by simp
  show ?thesis
  proof (cases task)
    case Idle
    then obtain r' i where r: "kc_receive r = Some (r', i)"
      using assms(2) f by (auto simp: firmware_step_def split: option.splits)
    have "kc_ok (r', pic)" by (rule kc_receive_ok [OF r ok])
    then show ?thesis using assms(2) f r Idle start_command_ok [of "(r', pic)"]
      by (auto simp: firmware_step_def split_beta split: kc_input.splits)
  next
    case (AwaitParameter command)
    then obtain r' i where r: "kc_receive r = Some (r', i)"
      using assms(2) f by (auto simp: firmware_step_def split: option.splits)
    have "kc_ok (r', pic)" by (rule kc_receive_ok [OF r ok])
    then show ?thesis using assms(2) f r AwaitParameter parameter_ok [of "(r', pic)" command i]
      by (auto simp: firmware_step_def split_beta)
  next
    case (Sending byte)
    then obtain s where "kc_send FromController byte (r, pic) = Some s" "f' = (fst (finish_command s), Idle, queue)"
      using assms(2) f by (auto simp: firmware_step_def finish_command_def)
    then show ?thesis using kc_send_ok [OF ok] finish_command_ok [of s] by (auto simp: kc_ok_def)
  next
    case (Forwarding byte)
    then show ?thesis using assms(2) f ok by (auto simp: firmware_step_def split: if_splits)
  qed
qed

lemma kc_read_port_ok: "kc_ok s \<Longrightarrow> kc_ok (fst (kc_read_port port bytes s))"
  by (cases s) (simp add: kc_read_port_def kc_read_data_def kc_ok_def drive_line_level kc_drive_ok)

lemma kc_write_port_ok: "kc_ok s \<Longrightarrow> kc_ok (kc_write_port port bytes val s)"
  by (simp add: kc_write_port_def kc_write_def kc_accept_def kc_ok_def)

lemma kc_new_ok: "pic_ok pic \<Longrightarrow> kc_new pic = Some s \<Longrightarrow> kc_ok s"
proof -
  assume "pic_ok pic" and s: "kc_new pic = Some s"
  then have "pic_ok (fst (pic_update (record_level 1 False) pic))" by (intro pic_update_ok record_level_ok)
  moreover have "\<not> irq_level 1 (fst (pic_update (record_level 1 False) pic))"
    by (simp add: irq_level_def record_level_def refresh_levels_def bit_and_iff bit_not_iff bit_exp_iff)
  ultimately show ?thesis using s by (auto simp: kc_new_def connect_irq_def kc_ok_def split_beta)
qed

subsection \<open>Bytes on their way to the guest\<close>

text \<open>Sending a byte row as the keyboard does, the guest reading every output byte: the bytes
  the guest sees.\<close>

fun deliver :: "u8 list \<Rightarrow> kc_state \<Rightarrow> (kc_state \<times> u8 list) option" where
  "deliver [] s = Some (s, [])"
| "deliver (b # bs) s =
     (case kc_send FromKeyboard b s of
        None \<Rightarrow> None
      | Some s \<Rightarrow>
          (let (s, seen) = (if output_full (fst s) then (case kc_read_data s of (s, v) \<Rightarrow> (s, [v])) else (s, []))
           in map_option (\<lambda>(s, rest). (s, seen @ rest)) (deliver bs s)))"

lemma deliver_translated:
  assumes "\<not> output_full r" and "command_byte r AND 0x10 = 0" and "command_byte r AND 0x40 \<noteq> 0"
  shows "\<exists>s'. deliver bs (r, pic) = Some (s', translate_stream (break_prefix r) bs)"
  using assms
proof (induction bs arbitrary: r pic)
  case (Cons b bs)
  show ?case
  proof (cases "b = 0xF0")
    case True
    then have "kc_send FromKeyboard b (r, pic) = Some (r\<lparr>break_prefix := True\<rparr>, pic)"
      using Cons.prems by (simp add: kc_send_def)
    then show ?thesis using Cons.IH [of "r\<lparr>break_prefix := True\<rparr>" pic] Cons.prems True by auto
  next
    case False
    let ?b = "if break_prefix r then translate b OR 0x80 else translate b"
    let ?r = "r\<lparr>break_prefix := False, kc_output := ?b, output_full := True\<rparr>"
    have "kc_send FromKeyboard b (r, pic) = Some (update_irq (?r, pic))"
      using Cons.prems False by (simp add: kc_send_def)
    then show ?thesis
      using Cons.IH [of "?r\<lparr>output_full := False\<rparr>"] Cons.prems False
      by (auto simp: update_irq_def kc_read_data_def)
  qed
qed simp

lemma deliver_raw:
  assumes "\<not> output_full r" and "command_byte r AND 0x10 = 0" and "command_byte r AND 0x40 = 0"
  shows "\<exists>s'. deliver bs (r, pic) = Some (s', bs)"
  using assms
proof (induction bs arbitrary: r pic)
  case (Cons b bs)
  let ?r = "r\<lparr>kc_output := b, output_full := True\<rparr>"
  have "kc_send FromKeyboard b (r, pic) = Some (update_irq (?r, pic))"
    using Cons.prems by (simp add: kc_send_def)
  then show ?case using Cons.IH [of "?r\<lparr>output_full := False\<rparr>"] Cons.prems
    by (auto simp: update_irq_def kc_read_data_def)
qed simp

subsection \<open>Properties\<close>

inductive kc_step :: "kc_state \<times> firmware \<times> u8 option \<Rightarrow> kc_state \<times> firmware \<times> u8 option \<Rightarrow> bool" where
  guest_read: "kc_read_port port bytes s = (s', v) \<Longrightarrow> kc_step (s, task, queue) (s', task, queue)"
| guest_write: "kc_step (s, task, queue) (kc_write_port port bytes v s, task, queue)"
| firmware: "firmware_step f = Some f' \<Longrightarrow> kc_step f f'"
| keyboard_takes: "kc_step (s, task, Some b) (s, task, None)"
| keyboard_sends: "kc_send FromKeyboard b s = Some s' \<Longrightarrow> kc_step (s, task, queue) (s', task, queue)"

lemma kc_step_ok: "kc_step f f' \<Longrightarrow> kc_ok (fst f) \<Longrightarrow> kc_ok (fst f')"
proof (induction rule: kc_step.induct)
  case (guest_read port bytes s s' v task queue)
  then show ?case using kc_read_port_ok [of s port bytes] by simp
qed (auto simp: kc_write_port_ok intro: firmware_step_ok kc_send_ok)

lemma kc_steps_ok: "kc_step\<^sup>*\<^sup>* f f' \<Longrightarrow> kc_ok (fst f) \<Longrightarrow> kc_ok (fst f')"
  by (induction rule: rtranclp_induct) (auto intro: kc_step_ok)

text \<open>The interrupt line is the output buffer. In every interleaving of guest port accesses,
  firmware segments and keyboard bytes, IRQ 1 is asserted exactly while an output byte
  waits and the command byte enables the interrupt.\<close>

theorem kc_irq_follows_output:
  assumes "pic_ok pic" and "kc_new pic = Some s" and "kc_step\<^sup>*\<^sup>* (s, Idle, None) ((r, pic'), task, queue)"
  shows "irq_level 1 pic' \<longleftrightarrow> output_full r \<and> command_byte r AND 1 \<noteq> 0"
  using kc_steps_ok [OF assms(3)] kc_new_ok [OF assms(1,2)] by (simp add: kc_ok_def)

definition kc_start :: kc_state where
  "kc_start = (\<lparr>kc_pending = None, kc_output = 0xFF, output_full = False, command_byte = 0x45,
     last_command = False, break_prefix = False\<rparr>, controller_new 8)"

lemma kc_start_new: "kc_new (controller_new 8) = Some kc_start"
  by code_simp

theorem kc_irq_follows_output_witness:
  "\<exists>r pic'. kc_step\<^sup>*\<^sup>* (kc_start, Idle, None) ((r, pic'), Idle, None) \<and> output_full r \<and> irq_level 1 pic'"
proof -
  obtain r pic' where s: "kc_send FromKeyboard 0x1C kc_start = Some (r, pic')" "output_full r" "command_byte r AND 1 \<noteq> 0"
    by (auto simp: kc_send_def kc_start_def update_irq_def)
  from keyboard_sends [OF s(1)] have "kc_step\<^sup>*\<^sup>* (kc_start, Idle, None) ((r, pic'), Idle, None)" by blast
  moreover have "pic_ok (controller_new 8)" by (simp add: pic_ok_def controller_new_def)
  ultimately show ?thesis using kc_irq_follows_output [OF _ kc_start_new] s by blast
qed

text \<open>An accepted byte is not lost. A guest write leaves a waiting input byte alone, and
  nothing replaces a waiting output byte until the guest reads it, translation prefixes
  included.\<close>

theorem kc_buffers_safe:
  assumes "kc_step ((r, pic), task, queue) ((r', pic'), task', queue')"
  shows "(kc_pending r = Some i \<longrightarrow> kc_pending r' = Some i \<or> kc_pending r' = None \<and> (task = Idle \<or> (\<exists>c. task = AwaitParameter c))) \<and>
    (output_full r \<and> output_full r' \<longrightarrow> kc_output r' = kc_output r)"
  using assms
proof (cases rule: kc_step.cases)
  case (firmware)
  then show ?thesis
    by (auto simp: firmware_step_def kc_receive_def start_command_def parameter_def finish_command_def update_irq_def
        kc_send_def Let_def split: firmware.splits option.splits kc_input.splits if_splits)
next
  case (keyboard_sends b)
  then show ?thesis by (auto simp: kc_send_def update_irq_def Let_def split: if_splits)
qed (auto simp: kc_read_port_def kc_read_data_def kc_write_port_def kc_write_def kc_accept_def split: if_splits)

theorem kc_buffers_safe_witness:
  "kc_pending (kc_write 0x60 2 (kc_write 0x60 1 (fst kc_start))) = Some (Data 1)"
proof -
  let ?r = "kc_write 0x60 1 (fst kc_start)"
  have "kc_step ((?r, controller_new 8), Sending 0, None) (kc_write_port 0x60 1 2 (?r, controller_new 8), Sending 0, None)"
    by (rule guest_write)
  then have "kc_step ((?r, controller_new 8), Sending 0, None) ((kc_write 0x60 2 ?r, controller_new 8), Sending 0, None)"
    by (simp add: kc_write_port_def)
  from kc_buffers_safe [OF this, of "Data 1"] show ?thesis
    by (simp add: kc_write_def kc_accept_def kc_start_def)
qed

text \<open>C38: the guest sees set-1 codes. With translation enabled the bytes the keyboard sends for a
  key in set 2 arrive at the guest as the bytes of set 1, and without translation they
  arrive unchanged, for every key and state of the modifiers, the multi-byte Pause and
  Print Screen sequences included.\<close>

theorem kc_delivers_key:
  assumes "\<not> output_full r" and "command_byte r AND 0x10 = 0" and "\<not> break_prefix r"
  shows "\<exists>s'. deliver (sequence key pressed 2 held) (r, pic) =
    Some (s', sequence key pressed (if command_byte r AND 0x40 \<noteq> 0 then 1 else 2) held)"
  using deliver_translated [OF assms(1,2), of "sequence key pressed 2 held" pic]
    deliver_raw [OF assms(1,2), of "sequence key pressed 2 held" pic] assms(3)
  by (simp add: translate_sequence)

theorem kc_delivers_key_witness:
  "\<exists>s'. deliver [0xE0, 0xF0, 0x75] kc_start = Some (s', [0xE0, 0xC8])"
proof -
  have "sequence ''ArrowUp'' False 2 [] = [0xE0, 0xF0, 0x75]" "sequence ''ArrowUp'' False 1 [] = [0xE0, 0xC8]"
    by (simp_all add: sequence_def KEYS_def code_bytes_def)
  then show ?thesis
    using kc_delivers_key [of "fst kc_start" "''ArrowUp''" False "[]" "controller_new 8"]
    by (simp add: kc_start_def)
qed

end
