(* ===== verification/Keyboard.thy ===== *)
theory Keyboard
  imports Keyboard_Controller
begin

text \<open>
  The keyboard behind the 8042, \<open>at-keyboard/src/keyboard.rs\<close>: commands and replies, the held
  keys, the bounded scan buffer and typematic repeat. Times are nanoseconds of the machine
  clock. A \<open>BTreeSet\<close> of keys is the list of its elements in iteration order, which the
  window library's ordering of key codes decides: it enters as the argument \<open>rank\<close>.
  The \<open>async\<close> functions are their atomic segments with an explicit program point.
\<close>

subsection \<open>State\<close>

record keyboard =
  events_open :: bool
  last_sent :: u8
  held :: "keycode list"
  scans :: "u8 list"
  overflow :: bool
  paused :: "keycode list option"
  scanning :: bool
  scan_set :: u8
  leds :: u8
  typematic :: u8
  repeating :: "(keycode \<times> nat) option"

definition keyboard_new :: keyboard where
  "keyboard_new =
     \<lparr>events_open = True, last_sent = 0xFE, held = [], scans = [], overflow = False, paused = None,
      scanning = True, scan_set = 2, leds = 0, typematic = 0x2B, repeating = None\<rparr>"

datatype key_event =
  Key keycode bool
| UnidentifiedKey
| FocusLost
| Modifiers bool bool bool bool

definition duration_max :: nat where
  "duration_max = 2 ^ 64 * 1000000000 - 1"

definition duration_add :: "nat \<Rightarrow> nat \<Rightarrow> nat" where
  "duration_add a b = min (a + b) duration_max"

subsection \<open>Scanning\<close>

definition emit :: "keycode \<Rightarrow> bool \<Rightarrow> keyboard \<Rightarrow> keyboard" where
  "emit key pressed k =
     (let bytes = sequence key pressed (scan_set k) (held k) in
      if length (scans k) + length bytes \<le> 16
      then k\<lparr>scans := scans k @ bytes\<rparr>
      else k\<lparr>overflow := True\<rparr>)"

definition delay :: "keyboard \<Rightarrow> nat" where
  "delay k = 250 * (unat (drop_bit 5 (typematic k) AND 3) + 1) * 1000000"

definition scan :: "keycode \<Rightarrow> bool \<Rightarrow> nat \<Rightarrow> keyboard \<Rightarrow> keyboard" where
  "scan key pressed now k =
     (let k = emit key pressed k in
      if pressed \<and> repeatable key
      then k\<lparr>repeating := Some (key, duration_add now (delay k))\<rparr> else k)"

definition key_changed :: "(keycode \<Rightarrow> nat) \<Rightarrow> keycode \<Rightarrow> bool \<Rightarrow> nat \<Rightarrow> keyboard \<Rightarrow> keyboard" where
  "key_changed rank key pressed now k =
     (if \<not> supported key then k
      else if pressed = (key \<in> set (held k)) then k
      else
        (let k = k\<lparr>held := (if pressed then insort_key rank key (held k) else remove1 key (held k))\<rparr>;
             k = (if scanning k \<and> paused k = None then scan key pressed now k else k)
         in if \<not> pressed \<and> (case repeating k of Some (r, _) \<Rightarrow> r = key | None \<Rightarrow> False)
            then k\<lparr>repeating := None\<rparr> else k))"

definition pause :: "keyboard \<Rightarrow> keyboard" where
  "pause k = k\<lparr>paused := (case paused k of None \<Rightarrow> Some (held k) | Some b \<Rightarrow> Some b), repeating := None\<rparr>"

definition resume :: "nat \<Rightarrow> keyboard \<Rightarrow> keyboard" where
  "resume now k =
     (case paused k of
        None \<Rightarrow> k
      | Some before \<Rightarrow>
          (let k = k\<lparr>paused := None\<rparr> in
           if scanning k then
             (let now_held = held k;
                  k = fold (\<lambda>key. scan key False now) (filter (\<lambda>key. key \<notin> set now_held) before) k
              in fold (\<lambda>key. scan key True now) (filter (\<lambda>key. key \<notin> set before) now_held) k)
           else k))"

definition repeat_due :: "nat \<Rightarrow> registers \<Rightarrow> keyboard \<Rightarrow> keyboard" where
  "repeat_due now r k =
     (case repeating k of
        Some (key, deadline) \<Rightarrow>
          (if now \<ge> deadline then
             (let k = (if \<not> inhibited r then emit key True k else k);
                  clocks = (8 + unat (typematic k AND 7)) * 2 ^ unat (drop_bit 3 (typematic k) AND 3);
                  period = div_ceil (clocks * 1000000000) 240
              in k\<lparr>repeating := Some (key, duration_add now period)\<rparr>)
           else k)
      | None \<Rightarrow> k)"

definition clear_scans :: "keyboard \<Rightarrow> keyboard" where
  "clear_scans k = k\<lparr>scans := [], overflow := False, repeating := None\<rparr>"

definition defaults :: "bool \<Rightarrow> keyboard \<Rightarrow> keyboard" where
  "defaults scan_enabled k =
     (clear_scans k)\<lparr>scanning := scan_enabled, scan_set := 2, typematic := 0x2B, leds := 0\<rparr>"

definition peek_byte :: "keyboard \<Rightarrow> u8 option" where
  "peek_byte k =
     (case scans k of
        b # _ \<Rightarrow> Some b
      | [] \<Rightarrow> (if overflow k then Some (if scan_set k = 1 then 0xFF else 0) else None))"

definition consume_byte :: "keyboard \<Rightarrow> keyboard" where
  "consume_byte k = (case scans k of [] \<Rightarrow> k\<lparr>overflow := False\<rparr> | _ # bs \<Rightarrow> k\<lparr>scans := bs\<rparr>)"

definition modifier :: "(keycode \<Rightarrow> nat) \<Rightarrow> nat \<Rightarrow> bool \<times> keycode \<times> keycode \<Rightarrow> keyboard \<Rightarrow> keyboard" where
  "modifier rank now m k =
     (case m of (active, left, right) \<Rightarrow>
      if \<not> active then key_changed rank right False now (key_changed rank left False now k)
      else if left \<notin> set (held k) \<and> right \<notin> set (held k) then key_changed rank left True now k
      else k)"

definition event :: "(keycode \<Rightarrow> nat) \<Rightarrow> nat \<Rightarrow> key_event \<Rightarrow> keyboard \<Rightarrow> keyboard" where
  "event rank now e k =
     (case e of
        Key key pressed \<Rightarrow> key_changed rank key pressed now k
      | UnidentifiedKey \<Rightarrow> k
      | FocusLost \<Rightarrow> fold (\<lambda>key. key_changed rank key False now) (held k) k
      | Modifiers shift control alt super \<Rightarrow>
          fold (modifier rank now)
            [(shift, ''ShiftLeft'', ''ShiftRight''), (control, ''ControlLeft'', ''ControlRight''),
             (alt, ''AltLeft'', ''AltRight''), (super, ''SuperLeft'', ''SuperRight'')] k)"

subsection \<open>Commands\<close>

text \<open>What follows a reply once it has reached the controller.\<close>

datatype kb_after =
  Finish
| ReplyThen u8 kb_after
| ReplySet
| ResetDefaults
| OptionLoop u8

datatype kb_task =
  Main
| Replying u8 kb_after
| AwaitOption u8

definition execute :: "u8 \<Rightarrow> keyboard \<Rightarrow> keyboard \<times> kb_task" where
  "execute command k =
     (if command = 0xED \<or> command = 0xF0 \<or> command = 0xF3 then
        (let k = pause k; k = (if command = 0xF0 then clear_scans k else k)
         in (k, Replying 0xFA (OptionLoop command)))
      else if command = 0xEE then (k, Replying 0xEE Finish)
      else if command = 0xF2 then (pause k, Replying 0xFA (ReplyThen 0xAB (ReplyThen 0x83 Finish)))
      else if command = 0xF4 then ((clear_scans k)\<lparr>scanning := True\<rparr>, Replying 0xFA Finish)
      else if command = 0xF5 \<or> command = 0xF6 then
        (defaults (command \<noteq> 0xF5) k, Replying 0xFA Finish)
      else if command = 0xFF then (pause k, Replying 0xFA ResetDefaults)
      else if command = 0xFE then (k, Replying (last_sent k) Finish)
      else (k, Replying 0xFE Finish))"

text \<open>A replaced or finished command resumes scanning before the next one runs.\<close>

definition replaced :: "nat \<Rightarrow> u8 \<Rightarrow> keyboard \<Rightarrow> keyboard \<times> kb_task" where
  "replaced now command k = execute command (resume now k)"

definition option_value :: "nat \<Rightarrow> u8 \<Rightarrow> u8 \<Rightarrow> keyboard \<Rightarrow> keyboard \<times> kb_task" where
  "option_value now command v k =
     (if v = 0xFE then (k, Replying (last_sent k) (OptionLoop command))
      else if v \<ge> 0xED then replaced now v k
      else if command = 0xED \<and> v < 8 then (k\<lparr>leds := v\<rparr>, Replying 0xFA Finish)
      else if command = 0xF3 \<and> v < 128 then (k\<lparr>typematic := v\<rparr>, Replying 0xFA Finish)
      else if command = 0xF0 \<and> v = 0 then (k, Replying 0xFA ReplySet)
      else if command = 0xF0 \<and> v \<le> 2 then (k\<lparr>scan_set := v\<rparr>, Replying 0xFA Finish)
      else (k, Replying 0xFE (OptionLoop command)))"

definition kb_command :: "nat \<Rightarrow> u8 \<Rightarrow> keyboard \<times> kb_task \<Rightarrow> keyboard \<times> kb_task" where
  "kb_command now v s =
     (case s of (k, task) \<Rightarrow>
      (case task of
         Main \<Rightarrow> execute v k
       | Replying _ _ \<Rightarrow> replaced now v k
       | AwaitOption command \<Rightarrow> option_value now command v k))"

definition outgoing :: "keyboard \<times> kb_task \<Rightarrow> u8 option" where
  "outgoing s =
     (case s of (k, task) \<Rightarrow>
      (case task of
         Replying byte _ \<Rightarrow> Some byte
       | _ \<Rightarrow> (if paused k = None then peek_byte k else None)))"

definition kb_continue :: "nat \<Rightarrow> kb_after \<Rightarrow> keyboard \<Rightarrow> keyboard \<times> kb_task" where
  "kb_continue now after k =
     (case after of
        Finish \<Rightarrow> (resume now k, Main)
      | ReplyThen b rest \<Rightarrow> (k, Replying b rest)
      | ReplySet \<Rightarrow> (k, Replying (scan_set k) Finish)
      | ResetDefaults \<Rightarrow> (defaults True k, Replying 0xAA Finish)
      | OptionLoop command \<Rightarrow> (k, AwaitOption command))"

definition kb_sent :: "nat \<Rightarrow> u8 \<Rightarrow> keyboard \<times> kb_task \<Rightarrow> keyboard \<times> kb_task" where
  "kb_sent now byte s =
     (case s of (k, task) \<Rightarrow>
      let k = (if byte \<noteq> 0xFE then k\<lparr>last_sent := byte\<rparr> else k) in
      (case task of
         Replying _ after \<Rightarrow> kb_continue now after k
       | _ \<Rightarrow> (consume_byte k, task)))"

text \<open>The end of the event stream counts as a loss of focus, once.\<close>

definition kb_event ::
  "(keycode \<Rightarrow> nat) \<Rightarrow> nat \<Rightarrow> key_event option \<Rightarrow> keyboard \<Rightarrow> keyboard" where
  "kb_event rank now e k =
     (case e of
        Some e \<Rightarrow> event rank now e k
      | None \<Rightarrow> event rank now FocusLost (k\<lparr>events_open := False\<rparr>))"

text \<open>One wake-up of \<open>transfer\<close>, in the order in which it prefers its sources.\<close>

inductive kb_step ::
  "(keycode \<Rightarrow> nat) \<Rightarrow> kc_state \<times> u8 option \<times> keyboard \<times> kb_task \<Rightarrow> kc_state \<times> u8 option \<times> keyboard \<times> kb_task \<Rightarrow> bool"
  for rank where
  wake_command: "kb_step rank (c, Some v, s) (c, None, kb_command now v s)"
| wake_sent: "outgoing s = Some b \<Longrightarrow> kc_send FromKeyboard b c = Some c' \<Longrightarrow>
    kb_step rank (c, None, s) (c', None, kb_sent now b s)"
| wake_event: "outgoing (k, task) = None \<or> kc_send FromKeyboard (the (outgoing (k, task))) c = None \<Longrightarrow>
    events_open k \<Longrightarrow> kb_step rank (c, None, k, task) (c, None, kb_event rank now e k, task)"
| wake_repeat: "outgoing (k, task) = None \<or> kc_send FromKeyboard (the (outgoing (k, task))) c = None \<Longrightarrow>
    repeating k \<noteq> None \<Longrightarrow> kb_step rank (c, None, k, task) (c, None, repeat_due now (fst c) k, task)"

subsection \<open>Invariant\<close>

definition kb_ok :: "keyboard \<Rightarrow> bool" where
  "kb_ok k \<longleftrightarrow>
     length (scans k) \<le> 16 \<and> distinct (held k) \<and> (\<forall>key\<in>set (held k). supported key) \<and>
     (\<forall>key d. repeating k = Some (key, d) \<longrightarrow> key \<in> set (held k) \<and> repeatable key) \<and>
     (paused k \<noteq> None \<longrightarrow> repeating k = None) \<and>
     leds k < 8 \<and> typematic k < 128 \<and> (scan_set k = 1 \<or> scan_set k = 2)"

lemma emit_fields [simp]:
  "held (emit key p k) = held k" "repeating (emit key p k) = repeating k" "paused (emit key p k) = paused k"
  "leds (emit key p k) = leds k" "typematic (emit key p k) = typematic k" "scan_set (emit key p k) = scan_set k"
  "scanning (emit key p k) = scanning k"
  by (simp_all add: emit_def Let_def)

lemma emit_ok: "kb_ok k \<Longrightarrow> kb_ok (emit key pressed k)"
  by (simp add: kb_ok_def) (simp add: emit_def Let_def)

lemma scan_ok: "kb_ok k \<Longrightarrow> paused k = None \<Longrightarrow> (pressed \<Longrightarrow> key \<in> set (held k)) \<Longrightarrow> kb_ok (scan key pressed now k)"
  using emit_ok [of k key pressed] by (auto simp: scan_def Let_def kb_ok_def)

lemma scan_fields [simp]: "held (scan key p now k) = held k" "paused (scan key p now k) = paused k"
  "scanning (scan key p now k) = scanning k"
  by (simp_all add: scan_def Let_def)

lemma emit_scans: "length (scans k) \<le> 16 \<Longrightarrow> length (scans (emit key p k)) \<le> 16"
  by (simp add: emit_def Let_def)

lemma scan_release: "scan key False now k = emit key False k"
  by (simp add: scan_def)

lemma press_ok:
  assumes "kb_ok k" and "supported key" and "key \<notin> set (held k)"
  shows "kb_ok (key_changed rank key True now k)"
proof -
  let ?k = "k\<lparr>held := insort_key rank key (held k)\<rparr>"
  have "kb_ok ?k" using assms by (auto simp: kb_ok_def set_insort_key distinct_insort)
  then show ?thesis using assms scan_ok [of ?k True key now]
    by (auto simp: key_changed_def Let_def set_insort_key)
qed

lemma release_ok:
  assumes "kb_ok k" and "supported key" and "key \<in> set (held k)"
  shows "kb_ok (key_changed rank key False now k)"
proof -
  have "set (remove1 key (held k)) = set (held k) - {key}" using assms(1) by (simp add: kb_ok_def)
  then show ?thesis using assms emit_scans [of "k\<lparr>held := remove1 key (held k)\<rparr>" key False]
    by (auto simp: key_changed_def Let_def scan_release kb_ok_def split: option.splits)
qed

lemma key_changed_ok: "kb_ok k \<Longrightarrow> kb_ok (key_changed rank key pressed now k)"
proof (cases "supported key \<and> pressed \<noteq> (key \<in> set (held k))")
  case True
  assume "kb_ok k"
  with True show ?thesis using press_ok release_ok by (cases pressed) auto
qed (simp add: key_changed_def)

lemma pause_ok: "kb_ok k \<Longrightarrow> kb_ok (pause k)"
  by (simp add: pause_def kb_ok_def)

lemma fold_scan_ok:
  "kb_ok k \<Longrightarrow> paused k = None \<Longrightarrow> (pressed \<Longrightarrow> set ks \<subseteq> set (held k)) \<Longrightarrow>
   kb_ok (fold (\<lambda>key. scan key pressed now) ks k) \<and> paused (fold (\<lambda>key. scan key pressed now) ks k) = None
     \<and> held (fold (\<lambda>key. scan key pressed now) ks k) = held k"
  by (induction ks arbitrary: k) (simp_all add: scan_ok)

lemma resume_ok: "kb_ok k \<Longrightarrow> kb_ok (resume now k)"
proof (cases "paused k")
  case (Some before)
  assume ok: "kb_ok k"
  let ?k = "k\<lparr>paused := None\<rparr>"
  let ?r = "fold (\<lambda>key. scan key False now) (filter (\<lambda>key. key \<notin> set (held k)) before) ?k"
  have k: "kb_ok ?k" using ok by (simp add: kb_ok_def)
  have r: "kb_ok ?r \<and> paused ?r = None \<and> held ?r = held k" using fold_scan_ok [of ?k False] k by simp
  then have "kb_ok (fold (\<lambda>key. scan key True now) (filter (\<lambda>key. key \<notin> set before) (held k)) ?r)"
    using fold_scan_ok [of ?r True "filter (\<lambda>key. key \<notin> set before) (held k)" now] by auto
  then show ?thesis using Some k by (simp add: resume_def Let_def)
qed (simp add: resume_def)

lemma repeat_due_ok:
  assumes "kb_ok k" shows "kb_ok (repeat_due now r k)"
proof (cases "repeating k")
  case (Some kd)
  obtain key d where kd: "kd = (key, d)" by fastforce
  then have "kb_ok (k\<lparr>repeating := Some (key, t)\<rparr>)" "kb_ok ((emit key True k)\<lparr>repeating := Some (key, t)\<rparr>)" for t
    using assms Some emit_ok [OF assms, of key True] by (auto simp: kb_ok_def)
  then show ?thesis using Some kd assms by (simp add: repeat_due_def Let_def)
qed (simp add: repeat_due_def assms)

lemma clear_scans_ok: "kb_ok k \<Longrightarrow> kb_ok (clear_scans k)"
  by (simp add: clear_scans_def kb_ok_def)

lemma defaults_ok: "kb_ok k \<Longrightarrow> kb_ok (defaults e k)"
  by (simp add: defaults_def clear_scans_def kb_ok_def)

lemma fold_invariant: "(\<And>x k. P k \<Longrightarrow> P (f x k)) \<Longrightarrow> P k \<Longrightarrow> P (fold f xs k)"
  by (induction xs arbitrary: k) simp_all

lemma event_ok: "kb_ok k \<Longrightarrow> kb_ok (event rank now e k)"
proof -
  assume ok: "kb_ok k"
  have m: "kb_ok (modifier rank now m k)" if "kb_ok k" for m k
    using that by (auto simp: modifier_def key_changed_ok split: prod.split)
  show ?thesis using ok
    by (auto simp: event_def key_changed_ok m split: key_event.split intro!: fold_invariant [of kb_ok])
qed

lemma execute_ok: "kb_ok k \<Longrightarrow> kb_ok (fst (execute command k))"
  using clear_scans_ok [OF pause_ok, of k] clear_scans_ok [of k] pause_ok [of k]
  by (auto simp: execute_def Let_def defaults_ok) (simp add: kb_ok_def)

lemma option_value_ok: "kb_ok k \<Longrightarrow> kb_ok (fst (option_value now command v k))"
proof -
  assume ok: "kb_ok k"
  have "v = 1 \<or> v = 2" if "v \<noteq> 0" "v \<le> 2"
    using that by (auto simp: word_le_nat_alt word_unat_eq_iff)
  with ok show ?thesis
    using execute_ok [OF resume_ok [OF ok]] by (auto simp: option_value_def replaced_def kb_ok_def)
qed

lemma kb_command_ok: "kb_ok k \<Longrightarrow> kb_ok (fst (kb_command now v (k, task)))"
  by (simp add: kb_command_def replaced_def execute_ok resume_ok option_value_ok split: kb_task.split)

lemma consume_byte_ok: "kb_ok k \<Longrightarrow> kb_ok (consume_byte k)"
  by (auto simp: consume_byte_def kb_ok_def split: list.split)

lemma kb_sent_ok: "kb_ok k \<Longrightarrow> kb_ok (fst (kb_sent now b (k, task)))"
proof -
  assume ok: "kb_ok k"
  then have "kb_ok (k\<lparr>last_sent := b\<rparr>)" by (simp add: kb_ok_def)
  with ok show ?thesis
    by (auto simp: kb_sent_def Let_def kb_continue_def resume_ok defaults_ok consume_byte_ok
        split: kb_task.split kb_after.split)
qed

lemma kb_step_ok: "kb_step rank s s' \<Longrightarrow> kb_ok (fst (snd (snd s))) \<Longrightarrow> kb_ok (fst (snd (snd s')))"
proof (induction rule: kb_step.induct)
  case (wake_command c v s now)
  then show ?case using kb_command_ok [of "fst s" now v "snd s"] by simp
next
  case (wake_sent s b c c' now)
  then show ?case using kb_sent_ok [of "fst s" now b "snd s"] by simp
next
  case (wake_event k task c now e)
  then have "kb_ok (k\<lparr>events_open := False\<rparr>)" by (simp add: kb_ok_def)
  then show ?case using wake_event by (auto simp: kb_event_def event_ok split: option.split)
next
  case (wake_repeat k task c now)
  then show ?case by (simp add: repeat_due_ok)
qed

text \<open>The whole device: guest and firmware steps interleaved with the keyboard's.\<close>

inductive device_step ::
  "(keycode \<Rightarrow> nat) \<Rightarrow> kc_state \<times> firmware \<times> u8 option \<times> keyboard \<times> kb_task \<Rightarrow>
   kc_state \<times> firmware \<times> u8 option \<times> keyboard \<times> kb_task \<Rightarrow> bool" for rank where
  controller_moves: "kc_step (c, f, q) (c', f', q') \<Longrightarrow> device_step rank (c, f, q, k, t) (c', f', q', k, t)"
| keyboard_moves: "kb_step rank (c, q, k, t) (c', q', k', t') \<Longrightarrow> device_step rank (c, f, q, k, t) (c', f, q', k', t')"

inductive_cases device_stepE: "device_step rank (c, f, q, k, t) (c', f', q', k', t')"

lemma kb_step_controller: "kb_step rank (c, q, k, t) (c', q', k', t') \<Longrightarrow> kc_ok c \<Longrightarrow> kc_ok c'"
  by (cases rule: kb_step.cases) (auto intro: kc_send_ok)

lemma device_step_ok:
  "device_step rank (c, f, q, k, t) (c', f', q', k', t') \<Longrightarrow> kc_ok c \<Longrightarrow> kb_ok k \<Longrightarrow> kc_ok c' \<and> kb_ok k'"
  using kc_step_ok [of "(c, f, q)" "(c', f', q')"] kb_step_ok [of rank "(c, q, k, t)" "(c', q', k', t')"]
    kb_step_controller [of rank c q k t c' q' k' t']
  by (auto elim: device_stepE)

lemma device_steps_ok:
  assumes "(device_step rank)\<^sup>*\<^sup>* s s'" and "kc_ok (fst s)" and "kb_ok (fst (snd (snd (snd s))))"
  shows "kc_ok (fst s') \<and> kb_ok (fst (snd (snd (snd s'))))"
  using assms
proof (induction rule: rtranclp_induct)
  case (step y z)
  obtain c f q k t c' f' q' k' t' where "y = (c, f, q, k, t)" "z = (c', f', q', k', t')"
    by (metis prod.exhaust)
  with step device_step_ok [of rank c f q k t c' f' q' k' t'] show ?case by simp
qed simp

subsection \<open>Properties\<close>

lemma keyboard_new_ok: "kb_ok keyboard_new"
  by (simp add: kb_ok_def keyboard_new_def)

text \<open>In every interleaving of the guest, the controller firmware, host key events, timers
  and the keyboard, the scan buffer holds at most sixteen bytes, only keys that are held and
  may repeat are repeated, nothing repeats while scanning is paused, and the programmed
  settings stay in their ranges.\<close>

theorem keyboard_invariant:
  assumes "pic_ok pic" and "kc_new pic = Some c"
    and "(device_step rank)\<^sup>*\<^sup>* (c, Idle, None, keyboard_new, Main) (c', f, q, k, t)"
  shows "length (scans k) \<le> 16 \<and>
    (\<forall>key d. repeating k = Some (key, d) \<longrightarrow> key \<in> set (held k) \<and> repeatable key \<and> paused k = None) \<and>
    leds k < 8 \<and> typematic k < 128 \<and> (scan_set k = 1 \<or> scan_set k = 2)"
proof -
  have "kb_ok k" using device_steps_ok [OF assms(3)] kc_new_ok [OF assms(1,2)] keyboard_new_ok by simp
  then show ?thesis by (auto simp: kb_ok_def)
qed

theorem keyboard_invariant_witness:
  "\<exists>c' k. (device_step length)\<^sup>*\<^sup>* (kc_start, Idle, None, keyboard_new, Main) (c', Idle, None, k, Main) \<and>
     scans k = [0x1C] \<and> leds k < 8"
proof -
  let ?k = "kb_event length 0 (Some (Key ''KeyA'' True)) keyboard_new"
  have "kb_step length (kc_start, None, keyboard_new, Main) (kc_start, None, ?k, Main)"
    by (rule wake_event) (simp_all add: outgoing_def peek_byte_def keyboard_new_def)
  from keyboard_moves [OF this, of Idle]
  have step: "(device_step length)\<^sup>*\<^sup>* (kc_start, Idle, None, keyboard_new, Main) (kc_start, Idle, None, ?k, Main)" by blast
  have "pic_ok (controller_new 8)" by (simp add: pic_ok_def controller_new_def)
  then have "leds ?k < 8" using keyboard_invariant [OF _ kc_start_new step] by blast
  moreover have "supported ''KeyA''" "sequence ''KeyA'' True 2 [''KeyA''] = [0x1C]"
    by (simp_all add: supported_def sequence_def KEYS_def code_bytes_def)
  then have "scans ?k = [0x1C]"
    by (simp add: kb_event_def event_def key_changed_def keyboard_new_def scan_def emit_def Let_def)
  ultimately show ?thesis using step by blast
qed

text \<open>The buffer admits whole sequences. A key either queues all bytes of its sequence behind
  the earlier ones or none of them, and then the overflow is remembered; with at most eight
  bytes waiting it is always queued.\<close>

theorem emit_whole_sequences:
  "(scans (emit key pressed k) = scans k @ sequence key pressed (scan_set k) (held k)
      \<and> overflow (emit key pressed k) = overflow k
    \<or> scans (emit key pressed k) = scans k \<and> overflow (emit key pressed k)) \<and>
   (length (scans k) \<le> 8 \<longrightarrow>
     scans (emit key pressed k) = scans k @ sequence key pressed (scan_set k) (held k))"
  using sequence_length [of key pressed "scan_set k" "held k"] by (auto simp: emit_def Let_def)

theorem emit_whole_sequences_witness:
  "scans (emit ''KeyA'' True keyboard_new) = [] @ sequence ''KeyA'' True 2 []"
  using emit_whole_sequences [of "''KeyA''" True keyboard_new] by (simp add: keyboard_new_def)

end
