(* ===== verification/Pc_Devices.thy ===== *)
theory Pc_Devices
  imports Io_Bus Pit Keyboard
begin

text \<open>
  The PC assembled by \<open>pc/src/lib.rs\<close>: the interrupt controller, the timer, the speaker of
  \<open>pc-speaker/src/lib.rs\<close>, a video adapter and the keyboard controller as connections of an \<open>IoBus\<close>, sharing the interrupt controller's state. The
  bus interface is a locale whose client lemmas hold for any devices that keep an invariant.
\<close>

subsection \<open>Devices behind a bus\<close>

locale bus_devices =
  fixes rd :: "nat \<Rightarrow> u16 \<Rightarrow> nat \<Rightarrow> 's \<Rightarrow> ('s \<times> u32) option"
    and wr :: "nat \<Rightarrow> u16 \<Rightarrow> nat \<Rightarrow> u32 \<Rightarrow> 's \<Rightarrow> 's option"
    and poll :: "nat \<Rightarrow> 's \<Rightarrow> 's \<times> u8 option"
    and good :: "'s \<Rightarrow> bool"
  assumes rd_good: "good s \<Longrightarrow> rd d port bytes s = Some (s', v) \<Longrightarrow> good s'"
    and wr_good: "good s \<Longrightarrow> wr d port bytes v s = Some s' \<Longrightarrow> good s'"
    and poll_good: "good s \<Longrightarrow> good (fst (poll d s))"
begin

lemma bus_read_port_good: "good s \<Longrightarrow> bus_read_port rd bus port bytes s = Some (s', v) \<Longrightarrow> good s'"
  by (auto simp: bus_read_port_def split: if_splits option.splits intro: rd_good)

lemma bus_write_port_good: "good s \<Longrightarrow> bus_write_port wr bus port bytes v s = Some s' \<Longrightarrow> good s'"
  by (auto simp: bus_write_port_def split: if_splits option.splits intro: wr_good)

lemma poll_devices_good: "good s \<Longrightarrow> good (fst (poll_devices poll ds s))"
proof (induction ds arbitrary: s)
  case (Cons d ds)
  then show ?case using poll_good [of s d] by (auto split: prod.splits option.splits)
qed simp

lemma bus_poll_good: "good s \<Longrightarrow> good (fst (bus_poll_interrupt poll bus s))"
  by (simp add: bus_poll_interrupt_def poll_devices_good)

end

subsection \<open>pc-speaker/src/lib.rs\<close>

text \<open>The speaker holds its control bits; the gated counter is channel 2 of the timer.\<close>

definition speaker_new :: u8 where
  "speaker_new = 0"

definition speaker_output :: "nat \<Rightarrow> u8 \<Rightarrow> pit \<times> controller \<Rightarrow> ((pit \<times> controller) \<times> bool) option" where
  "speaker_output now control s =
     map_option (\<lambda>(s, out). (s, control AND 2 \<noteq> 0 \<and> out)) (pit_channel2_output now s)"

definition speaker_read_port ::
  "nat \<Rightarrow> u16 \<Rightarrow> nat \<Rightarrow> u8 \<Rightarrow> pit \<times> controller \<Rightarrow> ((pit \<times> controller) \<times> u32) option" where
  "speaker_read_port now port bytes control s =
     (if port = 0x61 \<and> bytes = 1
      then map_option (\<lambda>(s, out). (s, ucast (control OR push_bit 5 (if out then 1 else 0))))
             (pit_channel2_output now s)
      else Some (s, - 1))"

definition speaker_write_port ::
  "nat \<Rightarrow> u16 \<Rightarrow> nat \<Rightarrow> u32 \<Rightarrow> u8 \<times> pit \<times> controller \<Rightarrow> (u8 \<times> pit \<times> controller) option" where
  "speaker_write_port now port bytes val s =
     (case s of (control, pit) \<Rightarrow>
      if port \<noteq> 0x61 \<or> bytes \<noteq> 1 then Some s
      else let control' = (ucast val :: u8) AND 3 in
        if control = control' then Some s
        else map_option (Pair control') (set_channel2_gate now (control' AND 1 \<noteq> 0) pit))"

subsection \<open>The wiring, pc/src/lib.rs\<close>

text \<open>
  The video adapter takes no interrupt line; its state and its port callbacks, which may
  panic, are parameters. The devices are numbered in bus order.
\<close>

record 'v pc =
  pc_now :: nat
  pc_pic :: controller
  pc_pit :: pit
  pc_speaker :: u8
  pc_vga :: 'v
  pc_kc :: registers

definition vga_connection :: connection where
  "vga_connection = \<lparr>con_mmio = [(0xA0000, 0xBFFFF)],
     con_ports = [(0x1CE, 0x1CF), (0x102, 0x102), (0x3B4, 0x3B5), (0x3BA, 0x3BA), (0x3C0, 0x3CF),
       (0x3D4, 0x3D5), (0x3DA, 0x3DA), (0x46E8, 0x46E8)]\<rparr>"

definition pc_bus :: io_bus where
  "pc_bus =
     [\<lparr>con_mmio = [], con_ports = [(0x20, 0x21)]\<rparr>,
      \<lparr>con_mmio = [], con_ports = [(0x40, 0x43)]\<rparr>,
      \<lparr>con_mmio = [], con_ports = [(0x61, 0x61)]\<rparr>,
      vga_connection,
      \<lparr>con_mmio = [], con_ports = [(0x60, 0x60), (0x64, 0x64)]\<rparr>]"

definition pc_new :: "nat \<Rightarrow> 'v \<Rightarrow> 'v pc option" where
  "pc_new now vga =
     Option.bind pic_default (\<lambda>pic.
     Option.bind (pit_with_clock now pic) (\<lambda>(pit, pic).
     Option.bind (kc_new pic) (\<lambda>(kc, pic).
     Option.bind (unmask_irq 0 pic) (\<lambda>(pic, _).
     Option.bind (unmask_irq 1 pic) (\<lambda>(pic, _).
       Some \<lparr>pc_now = now, pc_pic = pic, pc_pit = pit, pc_speaker = speaker_new, pc_vga = vga,
             pc_kc = kc\<rparr>)))))"

definition pc_read ::
  "(u16 \<Rightarrow> nat \<Rightarrow> 'v \<Rightarrow> ('v \<times> u32) option) \<Rightarrow> nat \<Rightarrow> u16 \<Rightarrow> nat \<Rightarrow> 'v pc \<Rightarrow> ('v pc \<times> u32) option" where
  "pc_read vga d port bytes s =
     (if d = 0 then
        (case pic_read_port port bytes (pc_pic s) of (pic, v) \<Rightarrow> Some (s\<lparr>pc_pic := pic\<rparr>, v))
      else if d = 1 then
        map_option (\<lambda>((p, pic), v). (s\<lparr>pc_pit := p, pc_pic := pic\<rparr>, v))
          (pit_read_port (pc_now s) port bytes (pc_pit s, pc_pic s))
      else if d = 2 then
        map_option (\<lambda>((p, pic), v). (s\<lparr>pc_pit := p, pc_pic := pic\<rparr>, v))
          (speaker_read_port (pc_now s) port bytes (pc_speaker s) (pc_pit s, pc_pic s))
      else if d = 3 then
        map_option (\<lambda>(vga, v). (s\<lparr>pc_vga := vga\<rparr>, v)) (vga port bytes (pc_vga s))
      else
        (case kc_read_port port bytes (pc_kc s, pc_pic s) of ((r, pic), v) \<Rightarrow>
           Some (s\<lparr>pc_kc := r, pc_pic := pic\<rparr>, v)))"

definition pc_write ::
  "(u16 \<Rightarrow> nat \<Rightarrow> u32 \<Rightarrow> 'v \<Rightarrow> 'v option) \<Rightarrow> nat \<Rightarrow> u16 \<Rightarrow> nat \<Rightarrow> u32 \<Rightarrow> 'v pc \<Rightarrow> 'v pc option" where
  "pc_write vga d port bytes v s =
     (if d = 0 then Some (s\<lparr>pc_pic := fst (pic_write_port port bytes v (pc_pic s))\<rparr>)
      else if d = 1 then
        map_option (\<lambda>(p, pic). s\<lparr>pc_pit := p, pc_pic := pic\<rparr>)
          (pit_write_port (pc_now s) port bytes v (pc_pit s, pc_pic s))
      else if d = 2 then
        map_option (\<lambda>(control, p, pic). s\<lparr>pc_speaker := control, pc_pit := p, pc_pic := pic\<rparr>)
          (speaker_write_port (pc_now s) port bytes v (pc_speaker s, pc_pit s, pc_pic s))
      else if d = 3 then
        map_option (\<lambda>vga. s\<lparr>pc_vga := vga\<rparr>) (vga port bytes v (pc_vga s))
      else
        (case kc_write_port port bytes v (pc_kc s, pc_pic s) of (r, pic) \<Rightarrow>
           Some (s\<lparr>pc_kc := r, pc_pic := pic\<rparr>)))"

text \<open>Only the interrupt controller supplies interrupts; the other devices keep the default.\<close>

definition pc_poll :: "nat \<Rightarrow> 'v pc \<Rightarrow> 'v pc \<times> u8 option" where
  "pc_poll d s =
     (if d = 0 then (case pic_poll_interrupt (pc_pic s) of (pic, v) \<Rightarrow> (s\<lparr>pc_pic := pic\<rparr>, v))
      else (s, None))"

subsection \<open>Guest-side helpers of the devices\<close>

definition end_of_interrupt ::
  "(nat \<Rightarrow> u16 \<Rightarrow> nat \<Rightarrow> u32 \<Rightarrow> 's \<Rightarrow> 's option) \<Rightarrow> io_bus \<Rightarrow> 's \<Rightarrow> 's option" where
  "end_of_interrupt wr io s = bus_write_port wr io 0x20 1 0x20 s"

definition read_scan_code ::
  "(nat \<Rightarrow> u16 \<Rightarrow> nat \<Rightarrow> 's \<Rightarrow> ('s \<times> u32) option) \<Rightarrow> io_bus \<Rightarrow> 's \<Rightarrow> ('s \<times> u8 option) option" where
  "read_scan_code rd io s =
     (case bus_read_port rd io 0x64 1 s of
        None \<Rightarrow> None
      | Some (s, status) \<Rightarrow>
          (if status AND 1 \<noteq> 0
           then map_option (\<lambda>(s, v). (s, Some (ucast v))) (bus_read_port rd io 0x60 1 s)
           else Some (s, None)))"

definition pc_ok :: "'v pc \<Rightarrow> bool" where
  "pc_ok s \<longleftrightarrow> pit_ok (pc_pit s, pc_pic s) \<and> kc_ok (pc_kc s, pc_pic s)"

subsection \<open>Devices keep each other's lines\<close>

lemma levels_refresh [simp]: "levels (refresh_levels c) = levels c"
  by (simp add: refresh_levels_def)

lemma levels_acknowledge [simp]: "levels (fst (acknowledge c)) = levels c"
  by (auto simp: acknowledge_def Let_def set_lowest_priority_def split: option.split)

lemma levels_pic_ports [simp]:
  "levels (fst (pic_read_port port bytes c)) = levels c"
  "levels (fst (pic_write_port port bytes v c)) = levels c"
  "levels (fst (pic_poll_interrupt c)) = levels c"
proof -
  have "levels (fst (read_command c)) = levels c"
    by (simp add: read_command_def split_beta split: option.split)
  then show "levels (fst (pic_read_port port bytes c)) = levels c"
    by (simp add: pic_read_port_def split_beta)
  have "levels (pic_command v c) = levels c" "levels (pic_data v c) = levels c" for v
    by (auto simp: pic_command_def initialize_def write_ocw2_def write_ocw3_def pic_data_def Let_def
        set_lowest_priority_def split: option.split initialization.split)
  then show "levels (fst (pic_write_port port bytes v c)) = levels c"
    by (simp add: pic_write_port_def)
  show "levels (fst (pic_poll_interrupt c)) = levels c"
    by (simp add: pic_poll_interrupt_def split_beta split: option.split)
qed

lemma pulse_level_1: "irq_level 1 (fst (line_pulse 0 c)) = irq_level 1 c"
  by (simp add: line_pulse_fold drive_line_level)

lemma sync_level_1:
  assumes "pit_ok (p, pic)" and "sync_to_clock now (p, pic) = Some (p', pic')"
  shows "irq_level 1 pic' = irq_level 1 pic"
  by (rule sync_to_clock_Some [OF assms]) (simp add: drive_line_level pulse_level_1)

lemma pit_ports_level_1:
  assumes "pit_ok (p, pic)"
  shows "pit_read_port now port bytes (p, pic) = Some ((p', pic'), v) \<Longrightarrow> irq_level 1 pic' = irq_level 1 pic"
    and "pit_write_port now port bytes w (p, pic) = Some (p', pic') \<Longrightarrow> irq_level 1 pic' = irq_level 1 pic"
proof -
  assume "pit_read_port now port bytes (p, pic) = Some ((p', pic'), v)"
  then obtain q where "sync_to_clock now (p, pic) = Some (q, pic')"
    by (auto simp: pit_read_port_def split: if_splits prod.splits)
  then show "irq_level 1 pic' = irq_level 1 pic" by (rule sync_level_1 [OF assms])
next
  assume w: "pit_write_port now port bytes w (p, pic) = Some (p', pic')"
  then obtain q pic1 where s: "sync_to_clock now (p, pic) = Some (q, pic1)"
    by (auto simp: pit_write_port_def)
  then have "irq_level 1 pic' = irq_level 1 pic1"
    using w by (auto simp: pit_write_port_def pit_write_channel_def Let_def drive_line_level split: if_splits)
  then show "irq_level 1 pic' = irq_level 1 pic" using sync_level_1 [OF assms s] by simp
qed

lemma gate_ok:
  assumes "pit_ok (p, pic)" and "set_channel2_gate now high (p, pic) = Some (p', pic')"
  shows "pit_ok (p', pic') \<and> irq_level 1 pic' = irq_level 1 pic"
proof -
  obtain q where s: "sync_to_clock now (p, pic) = Some (q, pic')"
    and p': "p' = q\<lparr>channel2 := set_gate high (channel2 q), channel2_latest := Some (set_gate high (channel2 q))\<rparr>"
    using assms(2) by (auto simp: set_channel2_gate_def Let_def)
  show ?thesis using sync_to_clock_ok [OF assms(1) s] sync_level_1 [OF assms(1) s] p'
    by (simp add: pit_ok_def counter_ok_set_gate)
qed

lemma pit_channel2_output_ok:
  assumes "pit_ok (p, pic)" and "pit_channel2_output now (p, pic) = Some ((p', pic'), out)"
  shows "pit_ok (p', pic') \<and> irq_level 1 pic' = irq_level 1 pic"
  using assms(2) sync_to_clock_ok [OF assms(1)] sync_level_1 [OF assms(1)]
  by (auto simp: pit_channel2_output_def)

lemma speaker_ports_ok:
  assumes "pit_ok (p, pic)"
  shows "speaker_read_port now port bytes control (p, pic) = Some ((p', pic'), v) \<Longrightarrow>
      pit_ok (p', pic') \<and> irq_level 1 pic' = irq_level 1 pic"
    and "speaker_write_port now port bytes w (control, p, pic) = Some (control', p', pic') \<Longrightarrow>
      pit_ok (p', pic') \<and> irq_level 1 pic' = irq_level 1 pic"
  using assms pit_channel2_output_ok [OF assms] gate_ok [OF assms]
  by (auto simp: speaker_read_port_def speaker_write_port_def Let_def split: if_splits)

lemma kc_ports_level_0:
  "irq_level 0 (snd (fst (kc_read_port port bytes (r, pic)))) = irq_level 0 pic"
  "snd (kc_write_port port bytes v (r, pic)) = pic"
  by (simp_all add: kc_read_port_def kc_read_data_def drive_line_level kc_write_port_def)

lemma pc_pic_ok:
  assumes "pc_ok s" and "pic_ok pic" and "levels pic = levels (pc_pic s)"
  shows "pc_ok (s\<lparr>pc_pic := pic\<rparr>)"
  using assms by (simp add: pc_ok_def pit_ok_def kc_ok_def irq_level_def)

lemma pc_timer_ok:
  assumes "pc_ok s" and "pit_ok (p, pic)" and "irq_level 1 pic = irq_level 1 (pc_pic s)"
  shows "pc_ok (s\<lparr>pc_pit := p, pc_pic := pic\<rparr>)" and "pc_ok (s\<lparr>pc_speaker := b, pc_pit := p, pc_pic := pic\<rparr>)"
  using assms by (simp_all add: pc_ok_def kc_ok_def pit_ok_def)

lemma pc_keyboard_ok:
  assumes "pc_ok s" and "kc_ok (r, pic)" and "irq_level 0 pic = irq_level 0 (pc_pic s)"
  shows "pc_ok (s\<lparr>pc_kc := r, pc_pic := pic\<rparr>)"
  using assms by (simp add: pc_ok_def kc_ok_def pit_ok_def)

lemma pc_okD:
  assumes "pc_ok s"
  shows "pit_ok (pc_pit s, pc_pic s)" and "kc_ok (pc_kc s, pc_pic s)" and "pic_ok (pc_pic s)"
  using assms by (simp_all add: pc_ok_def pit_ok_def)

lemma pc_read_ok:
  assumes ok: "pc_ok s" and "pc_read vga d port bytes s = Some (s', v)"
  shows "pc_ok s'"
proof -
  note parts = pc_okD [OF ok]
  have r: "kc_ok (fst (kc_read_port port bytes (pc_kc s, pc_pic s)))" by (rule kc_read_port_ok [OF parts(2)])
  consider "d = 0" | "d = 1" | "d = 2" | "d = 3" | "d > 3" by linarith
  then show ?thesis
  proof cases
    case 1
    then show ?thesis using assms(2) pc_pic_ok [OF ok pic_read_port_ok [OF parts(3)]]
      by (auto simp: pc_read_def split_beta)
  next
    case 2
    then show ?thesis
      using assms(2) pc_timer_ok(1) [OF ok] pit_read_port_ok [OF parts(1)] pit_ports_level_1(1) [OF parts(1)]
      by (fastforce simp: pc_read_def)
  next
    case 3
    then show ?thesis using assms(2) pc_timer_ok(1) [OF ok] speaker_ports_ok(1) [OF parts(1)]
      by (fastforce simp: pc_read_def)
  next
    case 4
    then show ?thesis using assms by (auto simp: pc_read_def pc_ok_def)
  next
    case 5
    then show ?thesis
      using assms(2) r pc_keyboard_ok [OF ok, of "fst (fst (kc_read_port port bytes (pc_kc s, pc_pic s)))"
          "snd (fst (kc_read_port port bytes (pc_kc s, pc_pic s)))"] kc_ports_level_0(1) [of port bytes "pc_kc s" "pc_pic s"]
      by (auto simp: pc_read_def split_beta)
  qed
qed

lemma pc_write_ok:
  assumes ok: "pc_ok s" and "pc_write vga d port bytes v s = Some s'"
  shows "pc_ok s'"
proof -
  note parts = pc_okD [OF ok]
  have r: "kc_ok (kc_write_port port bytes v (pc_kc s, pc_pic s))" by (rule kc_write_port_ok [OF parts(2)])
  consider "d = 0" | "d = 1" | "d = 2" | "d = 3" | "d > 3" by linarith
  then show ?thesis
  proof cases
    case 1
    then show ?thesis using assms(2) pc_pic_ok [OF ok pic_write_port_ok [OF parts(3)]]
      by (auto simp: pc_write_def)
  next
    case 2
    then show ?thesis
      using assms(2) pc_timer_ok(1) [OF ok] pit_write_port_ok [OF parts(1)] pit_ports_level_1(2) [OF parts(1)]
      by (fastforce simp: pc_write_def)
  next
    case 3
    then show ?thesis using assms(2) pc_timer_ok(2) [OF ok] speaker_ports_ok(2) [OF parts(1)]
      by (fastforce simp: pc_write_def)
  next
    case 4
    then show ?thesis using assms by (auto simp: pc_write_def pc_ok_def)
  next
    case 5
    then show ?thesis
      using assms(2) r pc_keyboard_ok [OF ok, of "fst (kc_write_port port bytes v (pc_kc s, pc_pic s))" "pc_pic s"]
        kc_ports_level_0(2) [of port bytes v "pc_kc s" "pc_pic s"]
      by (auto simp: pc_write_def kc_write_port_def split: if_splits)
  qed
qed

lemma pc_poll_ok: "pc_ok s \<Longrightarrow> pc_ok (fst (pc_poll d s))"
  using pc_pic_ok [OF _ pic_poll_interrupt_ok [OF pc_okD(3)], of s s]
  by (simp add: pc_poll_def split_beta)

interpretation pc_devices: bus_devices "pc_read vrd" "pc_write vwr" pc_poll pc_ok for vrd vwr
  by unfold_locales (auto intro: pc_read_ok pc_write_ok pc_poll_ok)

lemma unmask_irq_ok:
  assumes "pic_ok c" and "unmask_irq n c = Some (c', woke)"
  shows "pic_ok c' \<and> levels c' = levels c"
proof -
  have "c' = fst (pic_update (\<lambda>c. c\<lparr>imr := imr c AND NOT (irq_bit n)\<rparr>) c)"
    using assms(2) by (auto simp: unmask_irq_def split: if_splits)
  moreover have "pic_ok (fst (pic_update (\<lambda>c. c\<lparr>imr := imr c AND NOT (irq_bit n)\<rparr>) c))"
    by (rule pic_update_ok) (simp_all add: pic_ok_def assms(1) [unfolded pic_ok_def])
  ultimately show ?thesis by simp
qed

lemma pc_new_ok:
  assumes "pc_new now vga = Some s"
  shows "pc_ok s"
proof -
  obtain pic0 pit pic1 kc pic2 pic3 w3 pic4 w4 where
    new: "pic_default = Some pic0" "pit_with_clock now pic0 = Some (pit, pic1)" "kc_new pic1 = Some (kc, pic2)"
      "unmask_irq 0 pic2 = Some (pic3, w3)" "unmask_irq 1 pic3 = Some (pic4, w4)"
      and s: "pc_pic s = pic4" "pc_pit s = pit" "pc_kc s = kc"
    using assms by (auto simp: pc_new_def bind_eq_Some_conv)
  have pit: "pit_ok (pit, pic1)"
    using pit_with_clock_ok [OF _ new(2)] new(1) pic_new_ok by (simp add: pic_default_def)
  then have kc: "kc_ok (kc, pic2)" using kc_new_ok [OF _ new(3)] by (simp add: pit_ok_def)
  have same: "levels pic4 = levels pic2" "pic_ok pic4"
    using unmask_irq_ok [OF kc_ok_pic [OF kc] new(4)] unmask_irq_ok [OF _ new(5)] by simp_all
  have "irq_level 0 pic2 = irq_level 0 pic1"
    using new(3) by (auto simp: kc_new_def connect_irq_def irq_level_def record_level_def refresh_levels_def
        bit_and_iff bit_not_iff bit_exp_iff split_beta split: if_splits)
  then show ?thesis using pit kc same s by (simp add: pc_ok_def pit_ok_def kc_ok_def irq_level_def)
qed

lemma finish_command_level_0: "irq_level 0 (snd (fst (finish_command s))) = irq_level 0 (snd s)"
  by (simp add: finish_command_def update_irq_def drive_line_level split_beta)

lemma command_level_0:
  "irq_level 0 (snd (fst (start_command command s))) = irq_level 0 (snd s)"
  "irq_level 0 (snd (fst (parameter command i s))) = irq_level 0 (snd s)"
  by (auto simp: start_command_def parameter_def finish_command_level_0 Let_def split_beta split: kc_input.split)

lemma kc_send_level_0: "kc_send source byte s = Some s' \<Longrightarrow> irq_level 0 (snd s') = irq_level 0 (snd s)"
  by (cases s) (auto simp: kc_send_def Let_def update_irq_def drive_line_level split: if_splits)

lemma firmware_level_0:
  assumes "firmware_step f = Some f'"
  shows "irq_level 0 (snd (fst f')) = irq_level 0 (snd (fst f))"
proof -
  obtain r pic task queue where f: "f = ((r, pic), task, queue)" by (metis prod.exhaust)
  show ?thesis
  proof (cases task)
    case (Sending byte)
    then obtain s where "kc_send FromController byte (r, pic) = Some s" "fst f' = fst (finish_command s)"
      using assms f by (auto simp: firmware_step_def split_beta)
    then show ?thesis using kc_send_level_0 [of FromController byte "(r, pic)" s] f
      by (simp add: finish_command_level_0)
  qed (use assms f in \<open>auto simp: firmware_step_def split_beta command_level_0
         split: option.splits kc_input.splits if_splits\<close>)
qed

lemma kc_step_level_0: "kc_step f f' \<Longrightarrow> irq_level 0 (snd (fst f')) = irq_level 0 (snd (fst f))"
proof (induction rule: kc_step.induct)
  case (guest_read port bytes s s' v task queue)
  then show ?case using kc_ports_level_0(1) [of port bytes "fst s" "snd s"] by simp
next
  case (guest_write s task queue port bytes v)
  then show ?case using kc_ports_level_0(2) [of port bytes v "fst s" "snd s"] by simp
qed (simp_all add: firmware_level_0 kc_send_level_0)

subsection \<open>Runs of the machine\<close>

inductive pc_step ::
  "(u16 \<Rightarrow> nat \<Rightarrow> 'v \<Rightarrow> ('v \<times> u32) option) \<Rightarrow> (u16 \<Rightarrow> nat \<Rightarrow> u32 \<Rightarrow> 'v \<Rightarrow> 'v option) \<Rightarrow>
   'v pc \<times> firmware \<times> u8 option \<Rightarrow> 'v pc \<times> firmware \<times> u8 option \<Rightarrow> bool" for vrd vwr where
  guest_in: "bus_read_port (pc_read vrd) pc_bus port bytes s = Some (s', v) \<Longrightarrow>
     pc_step vrd vwr (s, task, queue) (s', task, queue)"
| guest_out: "bus_write_port (pc_write vwr) pc_bus port bytes v s = Some s' \<Longrightarrow>
     pc_step vrd vwr (s, task, queue) (s', task, queue)"
| cpu_poll: "bus_poll_interrupt pc_poll pc_bus s = (s', v) \<Longrightarrow>
     pc_step vrd vwr (s, task, queue) (s', task, queue)"
| time_passes: "pc_now s \<le> now \<Longrightarrow> pc_step vrd vwr (s, task, queue) (s\<lparr>pc_now := now\<rparr>, task, queue)"
| timer_wakes: "pit_activity (pc_now s) (pc_pit s, pc_pic s) = Some (p, pic) \<Longrightarrow>
     pc_step vrd vwr (s, task, queue) (s\<lparr>pc_pit := p, pc_pic := pic\<rparr>, task, queue)"
| keyboard_runs: "kc_step ((pc_kc s, pc_pic s), task, queue) ((r, pic), task', queue') \<Longrightarrow>
     pc_step vrd vwr (s, task, queue) (s\<lparr>pc_kc := r, pc_pic := pic\<rparr>, task', queue')"

lemma pit_activity_ok:
  assumes "pit_ok (p, pic)" and "pit_activity now (p, pic) = Some (p', pic')"
  shows "pit_ok (p', pic') \<and> irq_level 1 pic' = irq_level 1 pic"
proof -
  have "pit_ok (p\<lparr>pit_changed := False\<rparr>, pic)" using assms(1) by (simp add: pit_ok_def)
  then show ?thesis using assms(2) sync_to_clock_ok sync_level_1 unfolding pit_activity_def prod.case by blast
qed

lemma pc_step_ok: "pc_step vrd vwr f f' \<Longrightarrow> pc_ok (fst f) \<Longrightarrow> pc_ok (fst f')"
proof (induction rule: pc_step.induct)
  case (cpu_poll s s' v task queue)
  then show ?case using pc_devices.bus_poll_good [of s pc_bus] by simp
next
  case (timer_wakes s p pic task queue)
  then have ok: "pc_ok s" by simp
  show ?case using pit_activity_ok [OF pc_okD(1) [OF ok] timer_wakes(1)] pc_timer_ok(1) [OF ok] by simp
next
  case (keyboard_runs s task queue r pic task' queue')
  then show ?case using kc_step_ok [OF keyboard_runs(1)] kc_step_level_0 [OF keyboard_runs(1)]
      pc_keyboard_ok [of s r pic] pc_okD(2) [of s] by simp
next
  case (time_passes s now task queue)
  then show ?case by (simp add: pc_ok_def)
next
  case (guest_in port bytes s s' v task queue)
  then show ?case using pc_devices.bus_read_port_good [OF _ guest_in(1)] by simp
next
  case (guest_out port bytes v s s' task queue)
  then show ?case using pc_devices.bus_write_port_good [OF _ guest_out(1)] by simp
qed

lemma pc_steps_ok: "(pc_step vrd vwr)\<^sup>*\<^sup>* f f' \<Longrightarrow> pc_ok (fst f) \<Longrightarrow> pc_ok (fst f')"
  by (induction rule: rtranclp_induct) (auto intro: pc_step_ok)

subsection \<open>Properties\<close>

text \<open>C34: the assembled machine keeps its interrupt wiring. From power-on, in every interleaving
  of guest port accesses, CPU polls, time, timer wake-ups and keyboard activity, the timer
  and keyboard inputs of the shared interrupt controller carry exactly the level of timer
  channel 0 and of the enabled keyboard output buffer, and vectors stay aligned.\<close>

theorem pc_interrupt_wiring:
  assumes "pc_new now vga = Some s0" and "(pc_step vrd vwr)\<^sup>*\<^sup>* (s0, Idle, None) (s, task, queue)"
  shows "(irq_level 0 (pc_pic s) \<longleftrightarrow> counter_output (channel0 (pc_pit s))) \<and>
    (irq_level 1 (pc_pic s) \<longleftrightarrow> output_full (pc_kc s) \<and> command_byte (pc_kc s) AND 1 \<noteq> 0) \<and>
    vector_base (pc_pic s) AND 7 = 0"
  using pc_steps_ok [OF assms(2)] pc_new_ok [OF assms(1)]
  by (simp add: pc_ok_def pit_ok_def kc_ok_def pic_ok_def)

definition pc_start :: "unit pc" where
  "pc_start = \<lparr>pc_now = 0, pc_pic = bios_pic\<lparr>imr := 0xFC\<rparr>, pc_pit = bios_pit, pc_speaker = 0, pc_vga = (),
     pc_kc = fst kc_start\<rparr>"

lemma pc_start_new: "pc_new 0 () = Some pc_start"
proof -
  have out: "counter_output bios_channel0"
    by (simp add: bios_channel0_eq counter_output_def mode_def high_clocks_def div_ceil_def)
  have "pic_default = Some (controller_new 8)" "connect_irq 0 True (controller_new 8) = Some (bios_pic, False)"
    "kc_new bios_pic = Some (fst kc_start, bios_pic)"
    "unmask_irq 0 bios_pic = Some (bios_pic\<lparr>imr := 0xFE\<rparr>, False)"
    "unmask_irq 1 (bios_pic\<lparr>imr := 0xFE\<rparr>) = Some (bios_pic\<lparr>imr := 0xFC\<rparr>, False)"
    by code_simp+
  moreover from this(2) out have "pit_with_clock 0 (controller_new 8) = Some (bios_pit, bios_pic)"
    by (simp add: pit_with_clock_def bios_pit_def)
  ultimately show ?thesis
    unfolding pc_new_def by (simp add: pc_start_def speaker_new_def) blast
qed

theorem pc_interrupt_wiring_witness:
  "\<exists>s task queue. (pc_step (\<lambda>_ _ v. Some (v, 0)) (\<lambda>_ _ _ v. Some v))\<^sup>*\<^sup>* (pc_start, Idle, None) (s, task, queue) \<and>
     output_full (pc_kc s) \<and> irq_level 1 (pc_pic s)"
proof -
  let ?step = "pc_step (\<lambda>_ _ v. Some (v, 0)) (\<lambda>_ _ _ v. Some v)"
  have kc: "\<not> output_full (pc_kc pc_start)" "command_byte (pc_kc pc_start) = 0x45"
    by (simp_all add: pc_start_def kc_start_def)
  then obtain r pic where r: "kc_send FromKeyboard 0x1C (pc_kc pc_start, pc_pic pc_start) = Some (r, pic)"
    "output_full r" "command_byte r = 0x45"
    by (auto simp: kc_send_def update_irq_def)
  have "?step (pc_start, Idle, None) (pc_start\<lparr>pc_kc := r, pc_pic := pic\<rparr>, Idle, None)"
    by (rule keyboard_runs) (rule keyboard_sends [OF r(1)])
  then have run: "?step\<^sup>*\<^sup>* (pc_start, Idle, None) (pc_start\<lparr>pc_kc := r, pc_pic := pic\<rparr>, Idle, None)" by blast
  from pc_interrupt_wiring [OF pc_start_new this] r(2,3) have "irq_level 1 pic" by simp
  then show ?thesis using run r(2) by force
qed

lemma pc_bus_poll:
  "bus_poll_interrupt pc_poll pc_bus s =
     (s\<lparr>pc_pic := fst (pic_poll_interrupt (pc_pic s))\<rparr>, snd (pic_poll_interrupt (pc_pic s)))"
  by (simp add: bus_poll_interrupt_def pc_bus_def pc_poll_def upt_rec [of 0] split_beta split: option.split)

text \<open>Interrupt service restores the controller through the bus. A vector the CPU polls from
  the machine's bus is the base plus the arbitrated input; a following \<open>end_of_interrupt\<close>
  reaches the interrupt controller, does not panic and restores the in-service register.\<close>

theorem pc_interrupt_service:
  assumes "pc_ok s" and "bus_poll_interrupt pc_poll pc_bus s = (s1, Some v)" and "\<not> auto_eoi (pc_pic s)"
  shows "v AND NOT 7 = vector_base (pc_pic s) \<and> next_irq (pc_pic s) = Some (v AND 7) \<and>
    (\<exists>s2. end_of_interrupt (pc_write vwr) pc_bus s1 = Some s2 \<and>
       in_service (pc_pic s2) = in_service (pc_pic s) \<and> pc_kc s2 = pc_kc s \<and> pc_pit s2 = pc_pit s)"
proof -
  have ok: "pic_ok (pc_pic s)" by (rule pc_okD(3) [OF assms(1)])
  obtain c where poll: "pic_poll_interrupt (pc_pic s) = (c, Some v)" and s1: "s1 = s\<lparr>pc_pic := c\<rparr>"
    using assms(2) by (cases "pic_poll_interrupt (pc_pic s)") (simp add: pc_bus_poll)
  obtain i where ack: "acknowledge ((pc_pic s)\<lparr>waker := True\<rparr>) = (c, Some i)"
    using poll by (auto simp: pic_poll_interrupt_def split: prod.splits option.splits)
  have "pic_ok ((pc_pic s)\<lparr>waker := True\<rparr>)" using ok by (simp add: pic_ok_def)
  from eoi_restores [OF this ack] assms(3) have eoi: "in_service (pic_command 0x20 c) = in_service (pc_pic s)" by simp
  have "end_of_interrupt (pc_write vwr) pc_bus s1 =
      Some (s1\<lparr>pc_pic := fst (pic_write_port 0x20 1 0x20 c)\<rparr>)"
    using s1 by (simp add: end_of_interrupt_def bus_write_port_def port_device_def pc_bus_def pc_write_def
        port_mask_def mask_numeral upt_rec [of 0])
  moreover have "in_service (fst (pic_write_port 0x20 1 0x20 c)) = in_service (pc_pic s)"
    using eoi by (simp add: pic_write_port_def pic_update_def Let_def)
  ultimately show ?thesis using poll_vector [OF ok poll] s1 by simp
qed

definition pc_pressed :: "unit pc" where
  "pc_pressed = pc_start\<lparr>pc_kc := (fst kc_start)\<lparr>output_full := True, kc_output := 0x1E\<rparr>,
     pc_pic := bios_pic\<lparr>imr := 0xFC, levels := 3, requests := 2\<rparr>\<rparr>"

lemma pc_pressed_ok: "pc_ok pc_pressed"
  using bios_pit_ok
  by (simp add: pc_ok_def pc_pressed_def pc_start_def kc_start_def pit_ok_def kc_ok_def irq_level_def pic_ok_def
      bios_pic_def controller_new_def bit_numeral_rec(1))

theorem pc_interrupt_service_witness:
  "next_irq (pc_pic pc_pressed) = Some (0x09 AND 7) \<and>
   (\<exists>s2. end_of_interrupt (pc_write (\<lambda>_ _ _ v. Some v)) pc_bus (fst (bus_poll_interrupt pc_poll pc_bus pc_pressed)) = Some s2 \<and>
      in_service (pc_pic s2) = in_service (pc_pic pc_pressed))"
proof -
  have "snd (pic_poll_interrupt (bios_pic\<lparr>imr := 0xFC, levels := 3, requests := 2\<rparr>)) = Some 0x09"
    by code_simp
  then have p: "bus_poll_interrupt pc_poll pc_bus pc_pressed =
      (fst (bus_poll_interrupt pc_poll pc_bus pc_pressed), Some 0x09)"
    by (simp add: pc_bus_poll pc_pressed_def)
  have "\<not> auto_eoi (pc_pic pc_pressed)" by (simp add: pc_pressed_def bios_pic_def controller_new_def)
  from pc_interrupt_service [OF pc_pressed_ok p this] show ?thesis by blast
qed

text \<open>Reading a scan code through the bus never panics; it returns the waiting output byte
  exactly when there is one, empties the buffer and lowers the keyboard's interrupt line.\<close>

theorem read_scan_code_spec:
  "read_scan_code (pc_read vrd) pc_bus s =
     Some (if output_full (pc_kc s)
           then (s\<lparr>pc_kc := (pc_kc s)\<lparr>output_full := False\<rparr>, pc_pic := drive_line 1 False (pc_pic s)\<rparr>,
                 Some (kc_output (pc_kc s)))
           else (s, None))"
proof -
  have dev: "port_device pc_bus 0x64 = Some 4" "port_device pc_bus 0x60 = Some 4"
    by (simp_all add: port_device_def pc_bus_def vga_connection_def upt_rec [of 0])
  have mask: "ucast (b :: u8) AND port_mask 1 = (ucast b :: u32)" for b
    by (intro bit_word_eqI) (auto simp: port_mask_def bit_and_iff bit_drop_bit_eq bit_unsigned_iff bit_mask_iff
        dest: bit_imp_le_length)
  have full: "(ucast (kc_status (pc_kc s)) :: u32) AND 1 \<noteq> 0 \<longleftrightarrow> output_full (pc_kc s)"
  proof -
    have "w AND 1 \<noteq> 0 \<longleftrightarrow> bit w 0" for w :: u32
      by (auto simp: and_one_eq mod_2_eq_odd bit_0)
    then have "(ucast (kc_status (pc_kc s)) :: u32) AND 1 \<noteq> 0 \<longleftrightarrow> bit (kc_status (pc_kc s)) 0"
      by (simp only: bit_unsigned_iff) simp
    moreover have "bit (kc_status (pc_kc s)) 0 = output_full (pc_kc s)"
      unfolding kc_status_def bit_or_iff bit_and_iff by (simp add: bit_0)
    ultimately show ?thesis by simp
  qed
  have "ucast (ucast b :: u32) = b" for b :: u8
    by (intro bit_word_eqI) (auto simp: bit_unsigned_iff)
  then show ?thesis
    using mask full
    by (simp add: read_scan_code_def bus_read_port_def dev pc_read_def kc_read_port_def kc_read_data_def)
qed

end
