(* ===== verification/Dos_Memory.thy ===== *)
theory Dos_Memory
  imports Bytes
begin

text \<open>
  The DOS paragraph allocator, \<open>dos/src/memory.rs\<close>, and the error numbers of
  \<open>dos/src/error.rs\<close>. The memory control blocks live in guest memory: every operation
  reads the chain, changes it as a list of blocks and writes it back. Guest memory is the
  conventional RAM of the fixed PC map; an access beyond it, which the code would answer
  by a panic, is \<open>None\<close>. Paragraph numbers are natural numbers: the chain invariant
  bounds every number and sum the code forms by \<open>END_SEGMENT\<close>, so no 16-bit sum wraps.
\<close>

subsection \<open>Errors\<close>

datatype dos_error =
  InvalidFunction | FileNotFound | PathNotFound | TooManyOpenFiles | AccessDenied | InvalidHandle
| MemoryCorrupted | InsufficientMemory nat | InvalidMemoryBlock | InvalidAccess | InvalidData
| InvalidDrive | CurrentDirectory | NotSameDevice | NoMoreFiles | WriteFault | FileExists
| LongFilenameNotSupported

fun code :: "dos_error \<Rightarrow> u16" where
  "code InvalidFunction = 1"
| "code FileNotFound = 2"
| "code PathNotFound = 3"
| "code TooManyOpenFiles = 4"
| "code AccessDenied = 5"
| "code InvalidHandle = 6"
| "code MemoryCorrupted = 7"
| "code (InsufficientMemory _) = 8"
| "code InvalidMemoryBlock = 9"
| "code InvalidAccess = 12"
| "code InvalidData = 13"
| "code InvalidDrive = 15"
| "code CurrentDirectory = 16"
| "code NotSameDevice = 17"
| "code NoMoreFiles = 18"
| "code WriteFault = 29"
| "code FileExists = 80"
| "code LongFilenameNotSupported = 0x7100"

subsection \<open>Conventional memory\<close>

type_synonym mem = "nat \<Rightarrow> u8"

abbreviation CONVENTIONAL_MEMORY_SIZE :: nat where
  "CONVENTIONAL_MEMORY_SIZE \<equiv> 0xA0000"

definition mem_read :: "mem \<Rightarrow> nat \<Rightarrow> nat \<Rightarrow> u8 list option" where
  "mem_read m address n =
     (if address + n \<le> CONVENTIONAL_MEMORY_SIZE then Some (map (\<lambda>i. m (address + i)) [0..<n]) else None)"

definition mem_write :: "mem \<Rightarrow> nat \<Rightarrow> u8 list \<Rightarrow> mem option" where
  "mem_write m address bs =
     (if address + length bs \<le> CONVENTIONAL_MEMORY_SIZE
      then Some (\<lambda>x. if address \<le> x \<and> x < address + length bs then bs ! (x - address) else m x)
      else None)"

subsection \<open>memory.rs\<close>

abbreviation FIRST_SEGMENT :: nat where "FIRST_SEGMENT \<equiv> 0x1000"
abbreviation FIRST_MCB :: nat where "FIRST_MCB \<equiv> 0xFFF"
abbreviation END_SEGMENT :: nat where "END_SEGMENT \<equiv> 0xA000"
abbreviation AVAILABLE_PARAGRAPHS :: nat where "AVAILABLE_PARAGRAPHS \<equiv> 0x9000"

record block =
  mcb :: nat
  owner :: u16
  paragraphs :: nat

fun position :: "('a \<Rightarrow> bool) \<Rightarrow> 'a list \<Rightarrow> nat option" where
  "position P [] = None"
| "position P (x # xs) = (if P x then Some 0 else map_option Suc (position P xs))"

function read_from :: "mem \<Rightarrow> nat \<Rightarrow> (dos_error + block list) option" where
  "read_from m at =
     (case mem_read m (at * 16) 5 of
        None \<Rightarrow> None
      | Some header \<Rightarrow>
          (let size = unat (from_le_bytes [header ! 3, header ! 4] :: u16);
               following = at + 1 + size;
               last = (header ! 0 = 0x5A);
               blk = \<lparr>mcb = at, owner = from_le_bytes [header ! 1, header ! 2], paragraphs = size\<rparr>
           in if (header ! 0 \<noteq> 0x4D \<and> header ! 0 \<noteq> 0x5A) \<or> following > END_SEGMENT
                 \<or> last \<noteq> (following = END_SEGMENT)
              then Some (Inl MemoryCorrupted)
              else if last then Some (Inr [blk])
              else map_option (map_sum (\<lambda>e. e) (Cons blk)) (read_from m following)))"
  by pat_completeness auto
termination
  by (relation "measure (\<lambda>(m, at). END_SEGMENT - at)") auto

definition read_chain :: "mem \<Rightarrow> (dos_error + block list) option" where
  "read_chain m = read_from m FIRST_MCB"

fun write_chain :: "mem \<Rightarrow> block list \<Rightarrow> mem option" where
  "write_chain m [] = Some m"
| "write_chain m (b # bs) =
     Option.bind
       (mem_write m (mcb b * 16)
          ((if bs = [] then 0x5A else 0x4D) # to_le_bytes (owner b) @ to_le_bytes (of_nat (paragraphs b) :: u16)))
       (\<lambda>m. write_chain m bs)"

definition memory_reset :: "mem \<Rightarrow> mem option" where
  "memory_reset m = write_chain m [\<lparr>mcb = FIRST_MCB, owner = 0, paragraphs = AVAILABLE_PARAGRAPHS\<rparr>]"

definition allocated_block :: "block list \<Rightarrow> nat \<Rightarrow> dos_error + nat" where
  "allocated_block blocks segment =
     (case position (\<lambda>b. mcb b + 1 = segment \<and> owner b \<noteq> 0) blocks of
        None \<Rightarrow> Inl InvalidMemoryBlock
      | Some index \<Rightarrow> Inr index)"

definition split_block :: "block list \<Rightarrow> nat \<Rightarrow> nat \<Rightarrow> block list" where
  "split_block blocks index n =
     (let b = blocks ! index in
      if n < paragraphs b then
        take index blocks @ b\<lparr>paragraphs := n\<rparr> #
          \<lparr>mcb = mcb b + 1 + n, owner = 0, paragraphs = paragraphs b - n - 1\<rparr> # drop (index + 1) blocks
      else blocks)"

fun coalesce :: "block list \<Rightarrow> block list" where
  "coalesce (b # c # bs) =
     (if owner b = 0 \<and> owner c = 0
      then coalesce (b\<lparr>paragraphs := paragraphs b + 1 + paragraphs c\<rparr> # bs)
      else b # coalesce (c # bs))"
| "coalesce bs = bs"

text \<open>A result carries the memory after the call, also on an error.\<close>

definition allocate :: "mem \<Rightarrow> nat \<Rightarrow> u16 \<Rightarrow> (mem \<times> (dos_error + nat)) option" where
  "allocate m n own =
     Option.bind (read_chain m) (\<lambda>r.
       case r of
         Inl e \<Rightarrow> Some (m, Inl e)
       | Inr blocks \<Rightarrow>
           (let blocks = coalesce blocks in
            case position (\<lambda>b. owner b = 0 \<and> paragraphs b \<ge> n) blocks of
              None \<Rightarrow>
                Some (m, Inl (InsufficientMemory
                  (foldr max (map paragraphs (filter (\<lambda>b. owner b = 0) blocks)) 0)))
            | Some index \<Rightarrow>
                (let blocks = split_block blocks index n;
                     blocks = blocks[index := (blocks ! index)\<lparr>owner := own\<rparr>];
                     segment = mcb (blocks ! index) + 1
                 in map_option (\<lambda>m. (m, Inr segment)) (write_chain m blocks))))"

definition free :: "mem \<Rightarrow> nat \<Rightarrow> (mem \<times> (dos_error + unit)) option" where
  "free m segment =
     Option.bind (read_chain m) (\<lambda>r.
       case r of
         Inl e \<Rightarrow> Some (m, Inl e)
       | Inr blocks \<Rightarrow>
           (case allocated_block blocks segment of
              Inl e \<Rightarrow> Some (m, Inl e)
            | Inr index \<Rightarrow>
                map_option (\<lambda>m. (m, Inr ()))
                  (write_chain m (coalesce (blocks[index := (blocks ! index)\<lparr>owner := 0\<rparr>])))))"

definition grow :: "block list \<Rightarrow> nat \<Rightarrow> nat \<Rightarrow> block list" where
  "grow blocks index n =
     (if n > paragraphs (blocks ! index) \<and> index + 1 < length blocks \<and> owner (blocks ! (index + 1)) = 0
      then take index blocks @
           (blocks ! index)\<lparr>paragraphs := paragraphs (blocks ! index) + 1 + paragraphs (blocks ! (index + 1))\<rparr> #
           drop (index + 2) blocks
      else blocks)"

definition resize :: "mem \<Rightarrow> nat \<Rightarrow> nat \<Rightarrow> (mem \<times> (dos_error + unit)) option" where
  "resize m segment n =
     Option.bind (read_chain m) (\<lambda>r.
       case r of
         Inl e \<Rightarrow> Some (m, Inl e)
       | Inr blocks \<Rightarrow>
           (let blocks = coalesce blocks in
            case allocated_block blocks segment of
              Inl e \<Rightarrow> Some (m, Inl e)
            | Inr index \<Rightarrow>
                (let blocks = grow blocks index n;
                     available = paragraphs (blocks ! index);
                     (result, blocks) =
                       (if n > available then (Inl (InsufficientMemory available), blocks)
                        else (Inr (), split_block blocks index n))
                 in map_option (\<lambda>m. (m, result)) (write_chain m (coalesce blocks)))))"

declare read_from.simps [simp del]

subsection \<open>Chains\<close>

fun linked :: "nat \<Rightarrow> block list \<Rightarrow> nat \<Rightarrow> bool" where
  "linked a [] e \<longleftrightarrow> a = e"
| "linked a (b # bs) e \<longleftrightarrow> mcb b = a \<and> linked (a + 1 + paragraphs b) bs e"

lemma linked_le: "linked a bs e \<Longrightarrow> a \<le> e"
  by (induction bs arbitrary: a) force+

lemma linked_append: "linked a (xs @ ys) e \<longleftrightarrow> (\<exists>mid. linked a xs mid \<and> linked mid ys e)"
  by (induction xs arbitrary: a) auto

lemma linked_mcb: "linked a bs e \<Longrightarrow> b \<in> set bs \<Longrightarrow> a \<le> mcb b \<and> mcb b + 1 + paragraphs b \<le> e"
proof (induction bs arbitrary: a)
  case (Cons c bs)
  then show ?case using linked_le [of "a + 1 + paragraphs c" bs e] by force
qed simp

lemma le_bytes_u16:
  obtains lo hi where "to_le_bytes (w :: u16) = [lo, hi]" and "from_le_bytes [lo, hi] = w"
proof -
  have "to_le_bytes w = [to_le_bytes w ! 0, to_le_bytes w ! Suc 0]"
    by (rule nth_equalityI) (auto simp: less_Suc_eq numeral_2_eq_2)
  then show ?thesis using that from_le_bytes_to_le_bytes [where 'a = 16, of w] by (simp del: from_le_bytes.simps)
qed

lemma write_chain_total:
  "linked a bs e \<Longrightarrow> e \<le> END_SEGMENT \<Longrightarrow> \<exists>m'. write_chain m bs = Some m'"
proof (induction bs arbitrary: a m)
  case (Cons b bs)
  then show ?case using linked_le [of "a + 1 + paragraphs b" bs e] by (auto simp: mem_write_def)
qed simp

lemma write_chain_frame:
  "linked a bs e \<Longrightarrow> write_chain m bs = Some m' \<Longrightarrow>
     (\<And>b. b \<in> set bs \<Longrightarrow> x < 16 * mcb b \<or> 16 * mcb b + 5 \<le> x) \<Longrightarrow> m' x = m x"
proof (induction bs arbitrary: a m)
  case (Cons b bs)
  from Cons.prems(2) obtain m1 where m1: "write_chain m1 bs = Some m'"
    "mem_write m (mcb b * 16) ((if bs = [] then 0x5A else 0x4D) # to_le_bytes (owner b) @
       to_le_bytes (of_nat (paragraphs b) :: u16)) = Some m1"
    by (auto simp: bind_eq_Some_conv)
  have "m1 x = m x" using m1(2) Cons.prems(3) [of b] by (auto simp: mem_write_def split: if_splits)
  moreover have "m' x = m1 x" using Cons.prems Cons.IH [OF _ m1(1)] by auto
  ultimately show ?case by simp
qed simp

lemma read_write_chain:
  "linked a bs END_SEGMENT \<Longrightarrow> bs \<noteq> [] \<Longrightarrow> write_chain m bs = Some m' \<Longrightarrow> read_from m' a = Some (Inr bs)"
proof (induction bs arbitrary: a m)
  case (Cons b bs)
  let ?h = "(if bs = [] then 0x5A else 0x4D) # to_le_bytes (owner b) @ to_le_bytes (of_nat (paragraphs b) :: u16)"
  from Cons.prems obtain m1 where m1: "write_chain m1 bs = Some m'" "mem_write m (a * 16) ?h = Some m1"
    by (auto simp: bind_eq_Some_conv)
  have rest: "linked (a + 1 + paragraphs b) bs END_SEGMENT" and a: "mcb b = a" using Cons.prems by simp_all
  have le: "a + 1 + paragraphs b \<le> END_SEGMENT" by (rule linked_le [OF rest])
  have "m' (a * 16 + i) = ?h ! i" if "i < 5" for i
  proof -
    have "m' (a * 16 + i) = m1 (a * 16 + i)"
      using that by (intro write_chain_frame [OF rest m1(1)]) (use linked_mcb [OF rest] in fastforce)
    then show ?thesis using m1(2) that by (auto simp: mem_write_def split: if_splits)
  qed
  then have header: "mem_read m' (a * 16) 5 = Some ?h"
    using le by (auto simp: mem_read_def intro!: nth_equalityI)
  have size: "unat (of_nat (paragraphs b) :: u16) = paragraphs b"
    using le by (simp add: unat_of_nat)
  have eq: "b = \<lparr>mcb = a, owner = owner b, paragraphs = paragraphs b\<rparr>"
    using a by (intro block.equality) simp_all
  obtain o0 o1 where o: "to_le_bytes (owner b) = [o0, o1]" "from_le_bytes [o0, o1] = owner b"
    by (rule le_bytes_u16)
  obtain n0 n1 where n: "to_le_bytes (of_nat (paragraphs b) :: u16) = [n0, n1]"
    "from_le_bytes [n0, n1] = (of_nat (paragraphs b) :: u16)" by (rule le_bytes_u16)
  show ?case
  proof (cases "bs = []")
    case True
    then show ?thesis using rest le eq size
      by (subst read_from.simps) (simp add: header Let_def o n del: from_le_bytes.simps)
  next
    case False
    then have "a + 1 + paragraphs b < END_SEGMENT"
      using rest linked_le by (cases bs) force+
    then show ?thesis using False eq size Cons.IH [OF rest False m1(1)]
      by (subst read_from.simps) (simp add: header Let_def o n del: from_le_bytes.simps)
  qed
qed simp

lemma read_from_linked:
  "at < END_SEGMENT \<Longrightarrow>
     (\<exists>bs. read_from m at = Some (Inr bs) \<and> linked at bs END_SEGMENT \<and> bs \<noteq> []) \<or>
     read_from m at = Some (Inl MemoryCorrupted)"
proof (induction m at rule: read_from.induct)
  case (1 m at)
  obtain h where h: "mem_read m (at * 16) 5 = Some h" using 1(2) by (simp add: mem_read_def)
  let ?n = "unat (from_le_bytes [h ! 3, h ! 4] :: u16)"
  let ?b = "\<lparr>mcb = at, owner = from_le_bytes [h ! 1, h ! 2], paragraphs = ?n\<rparr>"
  let ?bad = "(h ! 0 \<noteq> 0x4D \<and> h ! 0 \<noteq> 0x5A) \<or> at + 1 + ?n > END_SEGMENT \<or>
    (h ! 0 = 0x5A) \<noteq> (at + 1 + ?n = END_SEGMENT)"
  consider "?bad" | "\<not> ?bad" "h ! 0 = 0x5A" | "\<not> ?bad" "h ! 0 \<noteq> 0x5A" by blast
  then show ?case
  proof cases
    case 1
    then show ?thesis by (subst (2) read_from.simps) (simp only: h option.case Let_def if_True, blast)
  next
    case 2
    then show ?thesis by (subst (1) read_from.simps) (simp add: h Let_def)
  next
    case 3
    have r: "read_from m at = map_option (map_sum (\<lambda>e. e) (Cons ?b)) (read_from m (at + 1 + ?n))"
      using 3 by (subst read_from.simps) (simp add: h Let_def)
    show ?thesis
      using "1.IH" [OF h refl refl refl refl] 3 unfolding r by force
  qed
qed

subsection \<open>What a chain allocates\<close>

definition entries :: "block list \<Rightarrow> (nat \<times> nat \<times> u16) list" where
  "entries bs = map (\<lambda>b. (mcb b + 1, paragraphs b, owner b)) (filter (\<lambda>b. owner b \<noteq> 0) bs)"

definition allocs :: "block list \<Rightarrow> nat \<rightharpoonup> nat \<times> u16" where
  "allocs bs = map_of (entries bs)"

lemma entries_simps [simp]:
  "entries [] = []"
  "entries (b # bs) = (if owner b \<noteq> 0 then (mcb b + 1, paragraphs b, owner b) # entries bs else entries bs)"
  "entries (xs @ ys) = entries xs @ entries ys"
  by (simp_all add: entries_def)

lemma allocs_keys:
  assumes "linked a bs e" and "allocs bs s = Some (n, own)"
  shows "a < s \<and> s + n \<le> e \<and> own \<noteq> 0 \<and> \<lparr>mcb = s - 1, owner = own, paragraphs = n\<rparr> \<in> set bs"
proof -
  obtain b where b: "b \<in> set bs" "owner b = own" "own \<noteq> 0" "s = mcb b + 1" "paragraphs b = n"
    using map_of_SomeD [OF assms(2) [unfolded allocs_def]] by (auto simp: entries_def)
  then have "b = \<lparr>mcb = s - 1, owner = own, paragraphs = n\<rparr>" by (intro block.equality) simp_all
  then have "\<lparr>mcb = s - 1, owner = own, paragraphs = n\<rparr> \<in> set bs" using b(1) by simp
  then show ?thesis using b linked_mcb [OF assms(1) b(1)] by simp
qed

lemma allocs_outside: "linked a bs e \<Longrightarrow> s \<le> a \<or> e < s \<Longrightarrow> allocs bs s = None"
  using allocs_keys [of a bs e s] by (cases "allocs bs s") auto

lemma allocs_append: "allocs (xs @ ys) = allocs ys ++ allocs xs"
  by (simp add: allocs_def)

lemma allocs_Cons: "allocs (b # bs) = (if owner b \<noteq> 0 then (allocs bs)(mcb b + 1 \<mapsto> (paragraphs b, owner b)) else allocs bs)"
  by (simp add: allocs_def)

lemma allocs_free_Cons: "owner b = 0 \<Longrightarrow> allocs (b # bs) = allocs bs"
  by (simp add: allocs_Cons)

lemma allocs_replace:
  assumes "linked a (pre @ b # post) e" and "mcb b' = mcb b" and "allocs post' = allocs post"
  shows "allocs (pre @ b' # post') =
    (allocs (pre @ b # post))(mcb b + 1 := if owner b' = 0 then None else Some (paragraphs b', owner b'))"
proof -
  obtain mid where l: "linked a pre mid" "mcb b = mid" "linked (mid + 1 + paragraphs b) post e"
    using assms(1) by (auto simp: linked_append)
  have out: "allocs pre (mcb b + 1) = None" "allocs post (mcb b + 1) = None"
    using allocs_outside [OF l(1)] allocs_outside [OF l(3)] l(2) by auto
  show ?thesis using assms(2,3) out
    by (auto simp: allocs_append allocs_Cons map_add_def fun_eq_iff split: option.split)
qed

lemma allocs_lookup:
  assumes "linked a (pre @ b # post) e" and "owner b \<noteq> 0"
  shows "allocs (pre @ b # post) (mcb b + 1) = Some (paragraphs b, owner b)"
  using allocs_replace [OF assms(1) refl refl] assms(2) by (metis fun_upd_same)

lemma position_Some:
  "position P xs = Some i \<Longrightarrow>
     \<exists>pre x post. xs = pre @ x # post \<and> length pre = i \<and> P x \<and> (\<forall>y\<in>set pre. \<not> P y)"
proof (induction xs arbitrary: i)
  case (Cons a xs)
  show ?case
  proof (cases "P a")
    case True
    then show ?thesis using Cons.prems by (intro exI [of _ "[]"]) simp
  next
    case False
    then obtain j where "position P xs = Some j" "i = Suc j" using Cons.prems by auto
    from Cons.IH [OF this(1)] obtain pre x post
      where "xs = pre @ x # post \<and> length pre = j \<and> P x \<and> (\<forall>y\<in>set pre. \<not> P y)" by blast
    then show ?thesis using False \<open>i = Suc j\<close> by (intro exI [of _ "a # pre"]) simp
  qed
qed simp

lemma position_None: "position P xs = None \<longleftrightarrow> (\<forall>x\<in>set xs. \<not> P x)"
  by (induction xs) auto

lemma allocated_block_cases:
  assumes "linked a bs e"
  obtains (absent) "allocated_block bs s = Inl InvalidMemoryBlock" and "allocs bs s = None"
  | (present) pre b post where "allocated_block bs s = Inr (length pre)" and "bs = pre @ b # post"
      and "mcb b + 1 = s" and "owner b \<noteq> 0" and "allocs bs s = Some (paragraphs b, owner b)"
proof (cases "allocated_block bs s")
  case (Inl err)
  then have none: "\<forall>b\<in>set bs. \<not> (mcb b + 1 = s \<and> owner b \<noteq> 0)" and "err = InvalidMemoryBlock"
    by (auto simp: allocated_block_def position_None split: option.splits)
  have "allocs bs s = None"
    using none by (auto simp: allocs_def map_of_eq_None_iff entries_def)
  then show ?thesis using absent Inl \<open>err = InvalidMemoryBlock\<close> by simp
next
  case (Inr i)
  then have "position (\<lambda>b. mcb b + 1 = s \<and> owner b \<noteq> 0) bs = Some i"
    by (auto simp: allocated_block_def split: option.splits)
  from position_Some [OF this] obtain pre b post
    where "bs = pre @ b # post" "length pre = i" "mcb b + 1 = s" "owner b \<noteq> 0" by blast
  then show ?thesis using present [of pre b post] Inr allocs_lookup assms by blast
qed

subsection \<open>Merging, splitting and gaps\<close>

lemma linked_coalesce: "linked a bs e \<Longrightarrow> linked a (coalesce bs) e"
  by (induction bs arbitrary: a rule: coalesce.induct) (auto simp: add.assoc)

lemma allocs_coalesce [simp]: "allocs (coalesce bs) = allocs bs"
  by (induction bs rule: coalesce.induct) (auto simp: allocs_Cons)

lemma coalesce_Cons: "\<exists>c cs. coalesce (b # bs) = c # cs \<and> owner c = owner b"
  by (induction "b # bs" arbitrary: b bs rule: coalesce.induct) auto

lemma coalesce_nonempty [simp]: "coalesce bs = [] \<longleftrightarrow> bs = []"
proof (cases bs)
  case (Cons b cs)
  then show ?thesis using coalesce_Cons [of b cs] by auto
qed simp

fun merged :: "block list \<Rightarrow> bool" where
  "merged (b # c # bs) \<longleftrightarrow> \<not> (owner b = 0 \<and> owner c = 0) \<and> merged (c # bs)"
| "merged _ \<longleftrightarrow> True"

lemma merged_coalesce: "merged (coalesce bs)"
proof (induction bs rule: coalesce.induct)
  case (1 b c bs)
  then show ?case using coalesce_Cons [of c bs] by (cases "owner b = 0 \<and> owner c = 0") force+
qed simp_all

lemma merged_append: "merged (xs @ ys) \<Longrightarrow> merged ys"
proof (induction xs)
  case (Cons x xs)
  then show ?case by (cases "xs @ ys") auto
qed simp

lemma linked_pair:
  "linked a bs e \<Longrightarrow> b \<in> set bs \<Longrightarrow> c \<in> set bs \<Longrightarrow>
     b = c \<or> mcb b + 1 + paragraphs b \<le> mcb c \<or> mcb c + 1 + paragraphs c \<le> mcb b"
proof (induction bs arbitrary: a)
  case (Cons d bs)
  then show ?case using linked_mcb [of "a + 1 + paragraphs d" bs e] by auto
qed simp

lemma gap_in_block:
  "linked a bs e \<Longrightarrow> merged bs \<Longrightarrow> a \<le> x \<Longrightarrow> x < y \<Longrightarrow> y \<le> e \<Longrightarrow>
     (\<And>b. b \<in> set bs \<Longrightarrow> owner b \<noteq> 0 \<Longrightarrow> y \<le> mcb b \<or> mcb b + 1 + paragraphs b \<le> x) \<Longrightarrow>
     \<exists>b\<in>set bs. owner b = 0 \<and> mcb b \<le> x \<and> y \<le> mcb b + 1 + paragraphs b"
proof (induction bs arbitrary: a)
  case (Cons b bs)
  show ?case
  proof (cases "a + 1 + paragraphs b \<le> x")
    case True
    have "merged bs" using Cons.prems(2) merged_append [of "[b]" bs] by simp
    then show ?thesis using Cons.IH [OF _ _ True] Cons.prems by auto
  next
    case False
    then have free: "owner b = 0" using Cons.prems(1,3,4) Cons.prems(6) [of b] by auto
    have "y \<le> a + 1 + paragraphs b"
    proof (rule ccontr)
      assume long: "\<not> y \<le> a + 1 + paragraphs b"
      then obtain c cs where "bs = c # cs" using Cons.prems(1,5) by (cases bs) auto
      then show False using long free Cons.prems(1,2) Cons.prems(6) [of c] False by auto
    qed
    then show ?thesis using free Cons.prems(1,3) by auto
  qed
qed simp

lemma split_block_at:
  "split_block (pre @ b # post) (length pre) n =
     pre @ (if n < paragraphs b
            then b\<lparr>paragraphs := n\<rparr> # \<lparr>mcb = mcb b + 1 + n, owner = 0, paragraphs = paragraphs b - n - 1\<rparr> # post
            else b # post)"
  by (simp add: split_block_def)

lemma split_block_fits:
  assumes "n \<le> paragraphs b" and "linked a (pre @ b # post) e"
  obtains post' where "split_block (pre @ b # post) (length pre) n = pre @ b\<lparr>paragraphs := n\<rparr> # post'"
    and "linked a (pre @ b\<lparr>paragraphs := n, owner := own\<rparr> # post') e"
    and "linked a (pre @ b\<lparr>paragraphs := n\<rparr> # post') e" and "allocs post' = allocs post"
proof (cases "n < paragraphs b")
  case True
  then show ?thesis using assms
    by (intro that [of "\<lparr>mcb = mcb b + 1 + n, owner = 0, paragraphs = paragraphs b - n - 1\<rparr> # post"])
      (auto simp: split_block_at linked_append allocs_Cons)
next
  case False
  then have "b\<lparr>paragraphs := n\<rparr> = b" using assms(1) by (intro block.equality) simp_all
  then show ?thesis using assms False
    by (intro that [of post]) (auto simp: split_block_at linked_append)
qed

lemma le_foldr_max: "x \<in> set xs \<Longrightarrow> x \<le> foldr max xs (0 :: nat)"
  by (induction xs) auto

subsection \<open>The arena a memory holds\<close>

definition arena :: "mem \<Rightarrow> (nat \<rightharpoonup> nat \<times> u16) option" where
  "arena m = (case read_chain m of Some (Inr bs) \<Rightarrow> Some (allocs bs) | _ \<Rightarrow> None)"

text \<open>A segment with its header paragraph that meets no allocated block and its header.\<close>

definition placeable :: "(nat \<rightharpoonup> nat \<times> u16) \<Rightarrow> nat \<Rightarrow> nat \<Rightarrow> bool" where
  "placeable A s n \<longleftrightarrow> FIRST_SEGMENT \<le> s \<and> s + n \<le> END_SEGMENT \<and>
     (\<forall>t k own. A t = Some (k, own) \<longrightarrow> s + n < t \<or> t + k < s)"

lemma arena_cases:
  obtains (corrupt) "read_chain m = Some (Inl MemoryCorrupted)" and "arena m = None"
  | (chain) bs where "read_chain m = Some (Inr bs)" and "linked FIRST_MCB bs END_SEGMENT" and "bs \<noteq> []"
      and "arena m = Some (allocs bs)"
  using read_from_linked [of FIRST_MCB m] by (auto simp: read_chain_def arena_def)

lemma write_arena:
  assumes "linked FIRST_MCB bs END_SEGMENT" and "bs \<noteq> []"
  obtains m' where "write_chain m bs = Some m'" and "arena m' = Some (allocs bs)"
    and "\<And>s n own x. allocs bs s = Some (n, own) \<Longrightarrow> 16 * s \<le> x \<Longrightarrow> x < 16 * (s + n) \<Longrightarrow> m' x = m x"
    and "\<And>x. x < 16 * FIRST_MCB \<Longrightarrow> m' x = m x"
proof -
  obtain m' where w: "write_chain m bs = Some m'" using write_chain_total [OF assms(1)] by blast
  have "arena m' = Some (allocs bs)"
    using read_write_chain [OF assms w] by (simp add: arena_def read_chain_def)
  moreover have "m' x = m x"
    if "allocs bs s = Some (n, own)" "16 * s \<le> x" "x < 16 * (s + n)" for s n own x
  proof (rule write_chain_frame [OF assms(1) w])
    let ?b = "\<lparr>mcb = s - 1, owner = own, paragraphs = n\<rparr>"
    have b: "?b \<in> set bs" "FIRST_MCB < s" using allocs_keys [OF assms(1) that(1)] by auto
    fix c assume "c \<in> set bs"
    then show "x < 16 * mcb c \<or> 16 * mcb c + 5 \<le> x"
      using linked_pair [OF assms(1) b(1)] b(2) that(2,3) by fastforce
  qed
  moreover have "m' x = m x" if "x < 16 * FIRST_MCB" for x
    using that linked_mcb [OF assms(1)] by (intro write_chain_frame [OF assms(1) w]) force
  ultimately show ?thesis using that w by blast
qed

lemma placeable_block:
  assumes "linked FIRST_MCB bs END_SEGMENT" and "merged bs" and "placeable (allocs bs) s n"
  shows "\<exists>b\<in>set bs. owner b = 0 \<and> mcb b < s \<and> n \<le> paragraphs b \<and> s + n \<le> mcb b + 1 + paragraphs b"
proof -
  have "\<exists>b\<in>set bs. owner b = 0 \<and> mcb b \<le> s - 1 \<and> s + n \<le> mcb b + 1 + paragraphs b"
  proof (rule gap_in_block [OF assms(1,2)])
    fix b assume b: "b \<in> set bs" "owner b \<noteq> 0"
    then obtain pre post where "bs = pre @ b # post" by (meson split_list)
    then have "allocs bs (mcb b + 1) = Some (paragraphs b, owner b)" using allocs_lookup assms(1) b by blast
    then show "s + n \<le> mcb b \<or> mcb b + 1 + paragraphs b \<le> s - 1" using assms(3) by (fastforce simp: placeable_def)
  qed (use assms(3) in \<open>auto simp: placeable_def\<close>)
  then show ?thesis using assms(3) by (force simp: placeable_def)
qed

lemma free_block_placeable:
  assumes "linked FIRST_MCB bs END_SEGMENT" and "b \<in> set bs" and "owner b = 0" and "n \<le> paragraphs b"
  shows "placeable (allocs bs) (mcb b + 1) n"
proof -
  have "mcb b + 1 + n < t \<or> t + k < mcb b + 1" if "allocs bs t = Some (k, own)" for t k own
    using allocs_keys [OF assms(1) that] linked_pair [OF assms(1,2)] assms(3,4) by fastforce
  then show ?thesis using linked_mcb [OF assms(1,2)] assms(4) by (auto simp: placeable_def)
qed

subsection \<open>The operations on the arena\<close>

text \<open>The bytes of every block of an arena, and those below it, are the same in both memories.\<close>

definition keeps_data :: "(nat \<rightharpoonup> nat \<times> u16) \<Rightarrow> mem \<Rightarrow> mem \<Rightarrow> bool" where
  "keeps_data A m m' \<longleftrightarrow>
     (\<forall>s n own x. A s = Some (n, own) \<longrightarrow> 16 * s \<le> x \<longrightarrow> x < 16 * (s + n) \<longrightarrow> m' x = m x) \<and>
     (\<forall>x < 16 * FIRST_MCB. m' x = m x)"

lemma write_chain_arena:
  assumes "linked FIRST_MCB bs END_SEGMENT" and "bs \<noteq> []"
  shows "\<exists>m'. write_chain m bs = Some m' \<and> arena m' = Some (allocs bs) \<and> keeps_data (allocs bs) m m'"
  by (rule write_arena [OF assms, of m]) (auto simp: keeps_data_def)

lemma arena_corrupt:
  assumes "arena m = None"
  shows "allocate m n own = Some (m, Inl MemoryCorrupted)" and "free m s = Some (m, Inl MemoryCorrupted)"
    and "resize m s n = Some (m, Inl MemoryCorrupted)"
  by (rule arena_cases [of m]; use assms in \<open>simp add: allocate_def free_def resize_def\<close>)+

lemma allocate_fits:
  assumes "arena m = Some A" and "own \<noteq> 0" and "placeable A t n"
  shows "\<exists>m' s. allocate m n own = Some (m', Inr s) \<and> s \<le> t \<and> placeable A s n \<and>
    arena m' = Some (A(s \<mapsto> (n, own))) \<and> keeps_data (A(s \<mapsto> (n, own))) m m'"
proof (rule arena_cases [of m])
  fix bs assume r: "read_chain m = Some (Inr bs)" and l: "linked FIRST_MCB bs END_SEGMENT"
    and "arena m = Some (allocs bs)"
  then have A: "A = allocs (coalesce bs)" using assms(1) by simp
  let ?P = "\<lambda>b. owner b = 0 \<and> paragraphs b \<ge> n"
  have lc: "linked FIRST_MCB (coalesce bs) END_SEGMENT" by (rule linked_coalesce [OF l])
  obtain d where d: "d \<in> set (coalesce bs)" "?P d" "mcb d < t"
    using placeable_block [OF lc merged_coalesce] assms(3) A by blast
  then obtain i where i: "position ?P (coalesce bs) = Some i"
    using position_None [of ?P] by fastforce
  then obtain pre b post where b: "coalesce bs = pre @ b # post" "length pre = i" "?P b"
    "\<forall>y\<in>set pre. \<not> ?P y" using position_Some by blast
  obtain post' where post': "split_block (coalesce bs) i n = pre @ b\<lparr>paragraphs := n\<rparr> # post'"
    "linked FIRST_MCB (pre @ b\<lparr>paragraphs := n, owner := own\<rparr> # post') END_SEGMENT" "allocs post' = allocs post"
    using split_block_fits [of n b FIRST_MCB pre post END_SEGMENT own] b lc by auto
  let ?new = "pre @ b\<lparr>paragraphs := n, owner := own\<rparr> # post'"
  have new: "allocs ?new = A(mcb b + 1 \<mapsto> (n, own))"
    using allocs_replace [of FIRST_MCB pre b post END_SEGMENT "b\<lparr>paragraphs := n, owner := own\<rparr>" post']
      lc b(1) post'(3) assms(2) A by simp
  obtain m' where "write_chain m ?new = Some m'" "arena m' = Some (allocs ?new)" "keeps_data (allocs ?new) m m'"
    using write_chain_arena [OF post'(2)] by blast
  moreover have "mcb b \<le> mcb d"
    using d b lc linked_mcb [of "mcb b + 1 + paragraphs b" post END_SEGMENT d] by (auto simp: linked_append)
  moreover have "placeable A (mcb b + 1) n" using free_block_placeable [OF lc] b A by simp
  ultimately show ?thesis using r i post'(1) b(2) new d(3)
    by (auto simp: allocate_def Let_def nth_append list_update_append)
qed (use assms in simp)

lemma allocate_full:
  assumes "arena m = Some A" and "\<nexists>t. placeable A t n"
  shows "\<exists>avail. allocate m n own = Some (m, Inl (InsufficientMemory avail)) \<and>
    (\<forall>t k. placeable A t k \<longrightarrow> k \<le> avail)"
proof (rule arena_cases [of m])
  fix bs assume r: "read_chain m = Some (Inr bs)" and l: "linked FIRST_MCB bs END_SEGMENT"
    and "arena m = Some (allocs bs)"
  then have A: "A = allocs (coalesce bs)" using assms(1) by simp
  have lc: "linked FIRST_MCB (coalesce bs) END_SEGMENT" by (rule linked_coalesce [OF l])
  have "position (\<lambda>b. owner b = 0 \<and> paragraphs b \<ge> n) (coalesce bs) = None"
    unfolding position_None using free_block_placeable [OF lc] assms(2) A by blast
  moreover have "k \<le> foldr max (map paragraphs (filter (\<lambda>b. owner b = 0) (coalesce bs))) 0"
    if "placeable A t k" for t k
  proof -
    obtain b where "b \<in> set (coalesce bs)" "owner b = 0" "k \<le> paragraphs b"
      using placeable_block [OF lc merged_coalesce] \<open>placeable A t k\<close> A by blast
    then show ?thesis 
      using le_foldr_max [of "paragraphs b" "map paragraphs (filter (\<lambda>b. owner b = 0) (coalesce bs))"] by simp
  qed
  ultimately show ?thesis using r by (auto simp: allocate_def Let_def)
qed (use assms in simp)

lemma free_allocated:
  assumes "arena m = Some A" and "A s = Some (n, own)"
  shows "\<exists>m'. free m s = Some (m', Inr ()) \<and> arena m' = Some (A(s := None)) \<and> keeps_data (A(s := None)) m m'"
proof (rule arena_cases [of m])
  fix bs assume r: "read_chain m = Some (Inr bs)" and l: "linked FIRST_MCB bs END_SEGMENT"
    and "arena m = Some (allocs bs)"
  then have A: "A = allocs bs" using assms(1) by simp
  from l show ?thesis
  proof (cases rule: allocated_block_cases [where s = s])
    case (present pre b post)
    let ?new = "pre @ b\<lparr>owner := 0\<rparr> # post"
    have new: "allocs (coalesce ?new) = A(s := None)"
      using allocs_replace [of FIRST_MCB pre b post END_SEGMENT "b\<lparr>owner := 0\<rparr>" post] l present A by simp
    have "linked FIRST_MCB (coalesce ?new) END_SEGMENT"
      using l present by (intro linked_coalesce) (auto simp: linked_append)
    from write_chain_arena [OF this] show ?thesis using r present new by (auto simp: free_def)
  qed (use assms A in simp)
qed (use assms in simp)

lemma free_unknown:
  assumes "arena m = Some A" and "A s = None"
  shows "free m s = Some (m, Inl InvalidMemoryBlock)" and "resize m s n = Some (m, Inl InvalidMemoryBlock)"
proof -
  obtain bs where bs: "read_chain m = Some (Inr bs)" "linked FIRST_MCB bs END_SEGMENT" "A = allocs bs"
    by (rule arena_cases [of m]) (use assms(1) in auto)
  have "allocated_block cs s = Inl InvalidMemoryBlock" if "linked FIRST_MCB cs END_SEGMENT" "allocs cs = A" for cs
    using that(1) by (cases rule: allocated_block_cases [where s = s]) (use assms(2) that(2) in auto)
  from this [of bs] this [of "coalesce bs"]
  have "allocated_block bs s = Inl InvalidMemoryBlock" "allocated_block (coalesce bs) s = Inl InvalidMemoryBlock"
    using bs linked_coalesce [OF bs(2)] by simp_all
  then show "free m s = Some (m, Inl InvalidMemoryBlock)" "resize m s n = Some (m, Inl InvalidMemoryBlock)"
    using bs(1) by (simp_all add: free_def resize_def)
qed

lemma grow_at:
  assumes "linked a (pre @ b # post) e" and "merged (pre @ b # post)" and "owner b \<noteq> 0"
  obtains c post' where "grow (pre @ b # post) (length pre) n = pre @ c # post'"
    and "linked a (pre @ c # post') e" and "mcb c = mcb b" and "owner c = owner b" and "allocs post' = allocs post"
    and "paragraphs b \<le> paragraphs c"
    and "paragraphs c < n \<Longrightarrow> mcb c + 1 + paragraphs c = e \<or> mcb c + 1 + paragraphs c + 1 \<in> dom (allocs post)"
proof -
  have boundary: "mcb d + 1 + paragraphs d = e \<or> mcb d + 1 + paragraphs d + 1 \<in> dom (allocs ds)"
    if "linked a (pre @ d # ds) e" "ds = [] \<or> owner (hd ds) \<noteq> 0" for d ds
    using that by (cases ds) (auto simp: linked_append allocs_Cons)
  show ?thesis
  proof (cases "n > paragraphs b \<and> post \<noteq> [] \<and> owner (hd post) = 0")
    case True
    then obtain d ds where post: "post = d # ds" "owner d = 0" by (cases post) auto
    let ?c = "b\<lparr>paragraphs := paragraphs b + 1 + paragraphs d\<rparr>"
    have l: "linked a (pre @ ?c # ds) e" using assms(1) post by (auto simp: linked_append add.assoc)
    have "ds = [] \<or> owner (hd ds) \<noteq> 0"
      using merged_append [of "pre @ [b]" post] assms(2) post by (cases ds) auto
    from boundary [OF l this] show ?thesis using True post l
      by (intro that [of ?c ds]) (auto simp: grow_def nth_append allocs_Cons)
  next
    case False
    then have "grow (pre @ b # post) (length pre) n = pre @ b # post"
      by (cases post) (auto simp: grow_def nth_append)
    then show ?thesis using False assms(1) boundary [OF assms(1)] by (intro that [of b post]) auto
  qed
qed

lemma resize_allocated:
  assumes "arena m = Some A" and "A s = Some (k, own)"
  shows "\<exists>m' r k'. resize m s n = Some (m', r) \<and> arena m' = Some (A(s \<mapsto> (k', own))) \<and>
    keeps_data (A(s \<mapsto> (k', own))) m m' \<and>
    (r = Inr () \<and> k' = n \<or>
     r = Inl (InsufficientMemory k') \<and> k \<le> k' \<and> k' < n \<and> (s + k' = END_SEGMENT \<or> s + k' + 1 \<in> dom A))"
proof (rule arena_cases [of m])
  fix bs assume r: "read_chain m = Some (Inr bs)" and l: "linked FIRST_MCB bs END_SEGMENT"
    and "arena m = Some (allocs bs)"
  then have A: "A = allocs (coalesce bs)" using assms(1) by simp
  note lc = linked_coalesce [OF l]
  from lc show ?thesis
  proof (cases rule: allocated_block_cases [where s = s])
    case (present pre b post)
    then have b: "k = paragraphs b" "own = owner b" using assms(2) A by auto
    from grow_at [of FIRST_MCB pre b post END_SEGMENT n] lc merged_coalesce [of bs] present
    obtain c post' where g: "grow (coalesce bs) (length pre) n = pre @ c # post'"
      "linked FIRST_MCB (pre @ c # post') END_SEGMENT" "mcb c = mcb b" "owner c = owner b" "allocs post' = allocs post"
      "paragraphs b \<le> paragraphs c"
      "paragraphs c < n \<Longrightarrow> mcb c + 1 + paragraphs c = END_SEGMENT \<or> mcb c + 1 + paragraphs c + 1 \<in> dom (allocs post)"
      by metis
    have dom: "dom (allocs post) \<subseteq> dom A" using present A by (auto simp: allocs_append allocs_Cons)
    have arena: "allocs (pre @ d # ds) = A(s \<mapsto> (paragraphs d, own))"
      if "mcb d = mcb b" "owner d = owner b" "allocs ds = allocs post" for d ds
      using allocs_replace [of FIRST_MCB pre b post END_SEGMENT d ds] that lc present A b by simp
    show ?thesis
    proof (cases "n \<le> paragraphs c")
      case True
      obtain ds where ds: "split_block (pre @ c # post') (length pre) n = pre @ c\<lparr>paragraphs := n\<rparr> # ds"
        "linked FIRST_MCB (pre @ c\<lparr>paragraphs := n\<rparr> # ds) END_SEGMENT" "allocs ds = allocs post'"
        using split_block_fits [OF True g(2), of own] by metis
      from write_chain_arena [OF linked_coalesce [OF ds(2)], of m] obtain m'
        where "write_chain m (coalesce (pre @ c\<lparr>paragraphs := n\<rparr> # ds)) = Some m'"
          "arena m' = Some (A(s \<mapsto> (n, own)))" "keeps_data (A(s \<mapsto> (n, own))) m m'"
        using arena [of "c\<lparr>paragraphs := n\<rparr>" ds] ds(3) g by auto
      then show ?thesis using True r present(1) g(1) ds(1)
        by (intro exI [of _ m'] exI [of _ "Inr ()"] exI [of _ n]) (simp add: resize_def Let_def nth_append)
    next
      case False
      from write_chain_arena [OF linked_coalesce [OF g(2)], of m] obtain m'
        where "write_chain m (coalesce (pre @ c # post')) = Some m'"
          "arena m' = Some (A(s \<mapsto> (paragraphs c, own)))" "keeps_data (A(s \<mapsto> (paragraphs c, own))) m m'"
        using arena [of c post'] g by auto
      then show ?thesis using False r present(1,3) g b dom
        by (intro exI [of _ m'] exI [of _ "Inl (InsufficientMemory (paragraphs c))"] exI [of _ "paragraphs c"])
          (auto simp: resize_def Let_def nth_append)
    qed
  qed (use assms A in simp)
qed (use assms in simp)

lemma memory_reset_arena:
  "\<exists>m'. memory_reset m = Some m' \<and> arena m' = Some Map.empty \<and> keeps_data Map.empty m m'"
  using write_chain_arena [of "[\<lparr>mcb = FIRST_MCB, owner = 0, paragraphs = AVAILABLE_PARAGRAPHS\<rparr>]" m]
  by (auto simp: memory_reset_def allocs_def)

subsection \<open>An arena as an interface\<close>

text \<open>
  What a client of the allocator relies on: a view of the allocated blocks that a successful
  call changes at one segment only.
\<close>

locale paragraph_arena =
  fixes alloc :: "'m \<Rightarrow> nat \<Rightarrow> u16 \<Rightarrow> ('m \<times> (dos_error + nat)) option"
    and dealloc :: "'m \<Rightarrow> nat \<Rightarrow> ('m \<times> (dos_error + unit)) option"
    and view :: "'m \<Rightarrow> (nat \<rightharpoonup> nat \<times> u16) option"
    and room :: "(nat \<rightharpoonup> nat \<times> u16) \<Rightarrow> nat \<Rightarrow> nat \<Rightarrow> bool"
  assumes alloc_room: "view m = Some A \<Longrightarrow> own \<noteq> 0 \<Longrightarrow> room A t n \<Longrightarrow>
      \<exists>m' s. alloc m n own = Some (m', Inr s) \<and> room A s n \<and> view m' = Some (A(s \<mapsto> (n, own)))"
    and room_fresh: "room A s n \<Longrightarrow> A s = None"
    and dealloc_block: "view m = Some A \<Longrightarrow> A s = Some b \<Longrightarrow>
      \<exists>m'. dealloc m s = Some (m', Inr ()) \<and> view m' = Some (A(s := None))"
begin

lemma alloc_dealloc:
  assumes "view m = Some A" and "own \<noteq> 0" and "room A t n"
  shows "\<exists>m1 s m2. alloc m n own = Some (m1, Inr s) \<and> dealloc m1 s = Some (m2, Inr ()) \<and> view m2 = Some A"
proof -
  obtain m1 s where a: "alloc m n own = Some (m1, Inr s)" "room A s n" "view m1 = Some (A(s \<mapsto> (n, own)))"
    using alloc_room [OF assms] by blast
  obtain m2 where "dealloc m1 s = Some (m2, Inr ())" "view m2 = Some (A(s \<mapsto> (n, own), s := None))"
    using dealloc_block [OF a(3), of s "(n, own)"] by auto
  moreover have "A(s \<mapsto> (n, own), s := None) = A" using room_fresh [OF a(2)] by auto
  ultimately show ?thesis using a(1) by auto
qed

lemma alloc_twice:
  assumes "view m = Some A" and "own \<noteq> 0" and "room A t n"
    and "\<And>s. room A s n \<Longrightarrow> \<exists>t. room (A(s \<mapsto> (n, own))) t k"
  shows "\<exists>m1 s1 m2 s2. alloc m n own = Some (m1, Inr s1) \<and> alloc m1 k own = Some (m2, Inr s2) \<and> s1 \<noteq> s2 \<and>
    view m2 = Some (A(s1 \<mapsto> (n, own), s2 \<mapsto> (k, own)))"
proof -
  obtain m1 s1 where a: "alloc m n own = Some (m1, Inr s1)" "room A s1 n" "view m1 = Some (A(s1 \<mapsto> (n, own)))"
    using alloc_room [OF assms(1-3)] by blast
  obtain m2 s2 where b: "alloc m1 k own = Some (m2, Inr s2)" "room (A(s1 \<mapsto> (n, own))) s2 k"
    "view m2 = Some (A(s1 \<mapsto> (n, own), s2 \<mapsto> (k, own)))"
    using alloc_room [OF a(3) assms(2)] assms(4) [OF a(2)] by blast
  moreover have "s1 \<noteq> s2" using room_fresh [OF b(2)] by auto
  ultimately show ?thesis using a by blast
qed

end

lemma placeable_fresh: "placeable A s n \<Longrightarrow> A s = None"
  by (cases "A s") (auto simp: placeable_def)

interpretation dos_arena: paragraph_arena allocate free arena placeable
proof
  show "\<exists>m' s. allocate m n own = Some (m', Inr s) \<and> placeable A s n \<and> arena m' = Some (A(s \<mapsto> (n, own)))"
    if "arena m = Some A" "own \<noteq> 0" "placeable A t n" for m A own t n
    using allocate_fits [OF that] by blast
  show "\<exists>m'. free m s = Some (m', Inr ()) \<and> arena m' = Some (A(s := None))"
    if "arena m = Some A" "A s = Some b" for m A s b
    using free_allocated [OF that(1), of s "fst b" "snd b"] that(2) by auto
qed (rule placeable_fresh)

subsection \<open>Properties\<close>

text \<open>C15: \<open>allocate\<close> refines an abstract arena. When the requested paragraphs and their header fit
  anywhere between the allocated blocks, the call succeeds without panicking at the lowest
  such segment, the arena gains exactly that block and the bytes of all blocks are kept;
  otherwise it fails, leaves memory alone and reports a size nothing larger than which fits.\<close>

theorem allocate_refines:
  assumes "arena m = Some A" and "own \<noteq> 0"
  shows "if \<exists>t. placeable A t n
    then \<exists>m' s. allocate m n own = Some (m', Inr s) \<and> placeable A s n \<and> (\<forall>t. placeable A t n \<longrightarrow> s \<le> t) \<and>
      arena m' = Some (A(s \<mapsto> (n, own))) \<and> keeps_data (A(s \<mapsto> (n, own))) m m'
    else \<exists>avail. allocate m n own = Some (m, Inl (InsufficientMemory avail)) \<and>
      (\<forall>t k. placeable A t k \<longrightarrow> k \<le> avail)"
proof (cases "\<exists>t. placeable A t n")
  case True
  then obtain t where "placeable A t n" by blast
  from allocate_fits [OF assms this] obtain m' s where s: "allocate m n own = Some (m', Inr s)" "placeable A s n"
    "arena m' = Some (A(s \<mapsto> (n, own)))" "keeps_data (A(s \<mapsto> (n, own))) m m'" by blast
  have "s \<le> t" if "placeable A t n" for t using allocate_fits [OF assms that] s(1) by auto
  then show ?thesis using True s by auto
next
  case False
  then show ?thesis using allocate_full [OF assms(1)] by auto
qed

theorem allocate_refines_witness:
  "\<exists>m m' s. memory_reset (\<lambda>_. 0) = Some m \<and> allocate m 0x20 7 = Some (m', Inr s) \<and>
     arena m' = Some [s \<mapsto> (0x20, 7)]"
proof -
  obtain m where m: "memory_reset (\<lambda>_. 0) = Some m" "arena m = Some Map.empty"
    using memory_reset_arena by blast
  have "\<exists>t. placeable Map.empty t 0x20" by (rule exI [of _ FIRST_SEGMENT]) (simp add: placeable_def)
  then show ?thesis using allocate_refines [OF m(2), of 7 "0x20"] m(1) by auto
qed

text \<open>C30: \<open>free\<close> and \<open>resize\<close> refine the arena. Freeing an allocated segment removes exactly that
  block; resizing sets its size, or grows it up to the next allocated block and reports
  that size; any other segment is refused without touching memory. The bytes of all
  remaining blocks are kept.\<close>

theorem free_resize_refine:
  assumes "arena m = Some A"
  shows "case A s of
      None \<Rightarrow> free m s = Some (m, Inl InvalidMemoryBlock) \<and> resize m s n = Some (m, Inl InvalidMemoryBlock)
    | Some (k, own) \<Rightarrow>
        (\<exists>m'. free m s = Some (m', Inr ()) \<and> arena m' = Some (A(s := None)) \<and> keeps_data (A(s := None)) m m') \<and>
        (\<exists>m' r k'. resize m s n = Some (m', r) \<and> arena m' = Some (A(s \<mapsto> (k', own))) \<and>
          keeps_data (A(s \<mapsto> (k', own))) m m' \<and>
          (r = Inr () \<and> k' = n \<or>
           r = Inl (InsufficientMemory k') \<and> k \<le> k' \<and> k' < n \<and>
             (s + k' = END_SEGMENT \<or> s + k' + 1 \<in> dom A)))"
  using free_unknown [OF assms] free_allocated [OF assms] resize_allocated [OF assms]
  by (auto split: option.split)

theorem free_resize_refine_witness:
  "\<exists>m m'. arena m = Some [0x2000 \<mapsto> (0x20, 7)] \<and> free m 0x2000 = Some (m', Inr ()) \<and> arena m' = Some Map.empty"
proof -
  let ?bs = "[\<lparr>mcb = FIRST_MCB, owner = 0, paragraphs = 0xFFF\<rparr>, \<lparr>mcb = 0x1FFF, owner = 7, paragraphs = 0x20\<rparr>,
    \<lparr>mcb = 0x2020, owner = 0, paragraphs = 0x7FDF\<rparr>]"
  obtain m where m: "arena m = Some (allocs ?bs)" using write_chain_arena [of ?bs "\<lambda>_. 0"] by auto
  then have m: "arena m = Some [0x2000 \<mapsto> (0x20, 7)]" by (simp add: allocs_def)
  from free_resize_refine [OF m, of "0x2000" 0] show ?thesis using m by auto
qed

text \<open>The chain in guest memory is the list of blocks. Reading it ends for every memory
  content, without a panic; it either reports corruption or yields blocks that tile the
  arena exactly, and writing any such tiling and reading it back returns it.\<close>

theorem chain_round_trip:
  "(read_chain m = Some (Inl MemoryCorrupted) \<or>
    (\<exists>bs. read_chain m = Some (Inr bs) \<and> bs \<noteq> [] \<and> linked FIRST_MCB bs END_SEGMENT)) \<and>
   (\<forall>bs. linked FIRST_MCB bs END_SEGMENT \<and> bs \<noteq> [] \<longrightarrow>
     (\<exists>m'. write_chain m bs = Some m' \<and> read_chain m' = Some (Inr bs)))"
  using read_from_linked [of FIRST_MCB m] write_chain_total [of FIRST_MCB _ END_SEGMENT m] read_write_chain
  by (simp add: read_chain_def) blast

theorem chain_round_trip_witness:
  "\<exists>m'. write_chain (\<lambda>_. 0) [\<lparr>mcb = FIRST_MCB, owner = 8, paragraphs = 0x9000\<rparr>] = Some m' \<and>
     read_chain m' = Some (Inr [\<lparr>mcb = FIRST_MCB, owner = 8, paragraphs = 0x9000\<rparr>])"
  using chain_round_trip [THEN conjunct2, rule_format,
      of "[\<lparr>mcb = FIRST_MCB, owner = 8, paragraphs = 0x9000\<rparr>]" "\<lambda>_. 0"]
  by (simp del: write_chain.simps)

text \<open>Damaged guest memory never takes the allocator down. On a corrupt chain every operation
  reports the corruption and changes nothing.\<close>

theorem corrupt_chain_reported:
  assumes "arena m = None"
  shows "allocate m n own = Some (m, Inl MemoryCorrupted) \<and> free m s = Some (m, Inl MemoryCorrupted) \<and>
    resize m s n = Some (m, Inl MemoryCorrupted)"
  using arena_corrupt [OF assms] by simp

theorem corrupt_chain_reported_witness:
  "allocate (\<lambda>_. 0) 0x20 7 = Some ((\<lambda>_. 0), Inl MemoryCorrupted)"
proof -
  have "arena (\<lambda>_. 0) = None"
    by (simp add: arena_def read_chain_def read_from.simps [of _ FIRST_MCB] mem_read_def Let_def)
  then show ?thesis using corrupt_chain_reported by blast
qed

text \<open>An allocation that is freed leaves the arena as it was.\<close>

theorem allocate_free:
  assumes "arena m = Some A" and "own \<noteq> 0" and "placeable A t n"
  shows "\<exists>m1 s m2. allocate m n own = Some (m1, Inr s) \<and> free m1 s = Some (m2, Inr ()) \<and> arena m2 = Some A"
  using assms by (rule dos_arena.alloc_dealloc)

theorem allocate_free_witness:
  "\<exists>m m1 s m2. memory_reset (\<lambda>_. 0) = Some m \<and> allocate m 0x9000 7 = Some (m1, Inr s) \<and>
     free m1 s = Some (m2, Inr ()) \<and> arena m2 = Some Map.empty"
proof -
  obtain m where m: "memory_reset (\<lambda>_. 0) = Some m" "arena m = Some Map.empty"
    using memory_reset_arena by blast
  have "placeable Map.empty FIRST_SEGMENT 0x9000" by (simp add: placeable_def)
  from allocate_free [OF m(2) _ this, of 7] m(1) show ?thesis by force
qed

end
