(* ===== verification/Segments.thy ===== *)
theory Segments
  imports Bytes
begin

text \<open>
  Segmentation of \<open>relocade-x86\<close>: encoded limits (\<open>segment/limit.rs\<close>), host descriptors and
  the user-mode load rules (\<open>segment/descriptor.rs\<close>), the packed eight-byte format
  (\<open>segment/packed.rs\<close>), host tables (\<open>segment/tables.rs\<close>), loaded caches
  (\<open>state/layout/segments.rs\<close>), compilation profiles (\<open>segment/profile.rs\<close>) and the access
  check the translator emits (\<open>segment/access.rs\<close>), evaluated at run-time values. A failed
  \<open>expect\<close> is \<open>None\<close>.
\<close>

subsection \<open>segment.rs, exception.rs\<close>

datatype segment = Es | Cs | Ss | Ds | Fs | Gs

definition ALL_SEGMENTS :: "segment list" where
  "ALL_SEGMENTS = [Es, Cs, Ss, Ds, Fs, Gs]"

datatype segment_default_size = Bits16 | Bits32

datatype exception =
  DivideError | BoundRangeExceeded | InvalidOpcode | SegmentNotPresent u32 | StackFault u32
| GeneralProtection u32 | PageFault u32 u32 | FloatingPoint | SimdFloatingPoint

fun exception_vector :: "exception \<Rightarrow> u8" where
  "exception_vector DivideError = 0"
| "exception_vector BoundRangeExceeded = 5"
| "exception_vector InvalidOpcode = 6"
| "exception_vector (SegmentNotPresent _) = 11"
| "exception_vector (StackFault _) = 12"
| "exception_vector (GeneralProtection _) = 13"
| "exception_vector (PageFault _ _) = 14"
| "exception_vector FloatingPoint = 16"
| "exception_vector SimdFloatingPoint = 19"

subsection \<open>limit.rs\<close>

record segment_limit =
  encoded :: u32
  page_granular :: bool

definition limit_bytes :: "u32 \<Rightarrow> segment_limit option" where
  "limit_bytes l = (if l > 0xFFFFF then None else Some \<lparr>encoded = l, page_granular = False\<rparr>)"

definition limit_pages :: "u32 \<Rightarrow> segment_limit option" where
  "limit_pages l = (if l > 0xFFFFF then None else Some \<lparr>encoded = l, page_granular = True\<rparr>)"

definition limit_from_effective :: "u32 \<Rightarrow> segment_limit option" where
  "limit_from_effective l =
     (if l \<le> 0xFFFFF then limit_bytes l
      else if l AND 0xFFF = 0xFFF then limit_pages (drop_bit 12 l)
      else None)"

definition limit_effective :: "segment_limit \<Rightarrow> u32" where
  "limit_effective l = (if page_granular l then push_bit 12 (encoded l) OR 0xFFF else encoded l)"

subsection \<open>state/layout/segments.rs\<close>

record segment_register =
  sr_base :: u32
  sr_limit :: u32
  sr_selector :: u16
  sr_usable :: u8
  sr_readable :: u8
  sr_writable :: u8
  sr_executable :: u8
  sr_expand_down :: u8
  sr_big :: u8

definition flat_data32 :: "u16 \<Rightarrow> segment_register" where
  "flat_data32 selector =
     \<lparr>sr_base = 0, sr_limit = - 1, sr_selector = selector, sr_usable = 1, sr_readable = 1, sr_writable = 1,
      sr_executable = 0, sr_expand_down = 0, sr_big = 1\<rparr>"

definition flat_code32 :: "u16 \<Rightarrow> segment_register" where
  "flat_code32 selector = (flat_data32 selector)\<lparr>sr_writable := 0, sr_executable := 1\<rparr>"

definition unusable :: "u16 \<Rightarrow> segment_register" where
  "unusable selector =
     \<lparr>sr_base = 0, sr_limit = 0, sr_selector = selector, sr_usable = 0, sr_readable = 0, sr_writable = 0,
      sr_executable = 0, sr_expand_down = 0, sr_big = 0\<rparr>"

definition real_mode_register :: "segment \<Rightarrow> u16 \<Rightarrow> segment_register" where
  "real_mode_register seg selector =
     (if seg = Cs then flat_code32 selector else flat_data32 selector)
       \<lparr>sr_base := push_bit 4 (ucast selector), sr_limit := 0xFFFF, sr_big := 0\<rparr>"

definition write_segment :: "segment_register \<Rightarrow> u8 list" where
  "write_segment r = to_le_bytes (sr_base r) @ to_le_bytes (sr_limit r) @ to_le_bytes (sr_selector r) @
     [sr_usable r, sr_readable r, sr_writable r, sr_executable r, sr_expand_down r, sr_big r]"

definition read_segment :: "u8 list \<Rightarrow> nat \<Rightarrow> segment_register" where
  "read_segment bs offset =
     \<lparr>sr_base = from_le_bytes (take 4 (drop offset bs)),
      sr_limit = from_le_bytes (take 4 (drop (offset + 4) bs)),
      sr_selector = from_le_bytes (take 2 (drop (offset + 8) bs)),
      sr_usable = bs ! (offset + 10), sr_readable = bs ! (offset + 11), sr_writable = bs ! (offset + 12),
      sr_executable = bs ! (offset + 13), sr_expand_down = bs ! (offset + 14), sr_big = bs ! (offset + 15)\<rparr>"

record segments =
  seg_es :: segment_register
  seg_cs :: segment_register
  seg_ss :: segment_register
  seg_ds :: segment_register
  seg_fs :: segment_register
  seg_gs :: segment_register

fun segments_index :: "segments \<Rightarrow> segment \<Rightarrow> segment_register" where
  "segments_index s Es = seg_es s"
| "segments_index s Cs = seg_cs s"
| "segments_index s Ss = seg_ss s"
| "segments_index s Ds = seg_ds s"
| "segments_index s Fs = seg_fs s"
| "segments_index s Gs = seg_gs s"

definition segments_to_bytes :: "segments \<Rightarrow> u8 list" where
  "segments_to_bytes s =
     write_segment (seg_es s) @ write_segment (seg_cs s) @ write_segment (seg_ss s) @
     write_segment (seg_ds s) @ write_segment (seg_fs s) @ write_segment (seg_gs s)"

definition segments_from_bytes :: "u8 list \<Rightarrow> segments" where
  "segments_from_bytes bs =
     \<lparr>seg_es = read_segment bs 0, seg_cs = read_segment bs 16, seg_ss = read_segment bs 32,
      seg_ds = read_segment bs 48, seg_fs = read_segment bs 64, seg_gs = read_segment bs 80\<rparr>"

definition segments_real_mode :: segments where
  "segments_real_mode =
     (let d = real_mode_register Ds 0 in
      \<lparr>seg_es = d, seg_cs = real_mode_register Cs 0, seg_ss = d, seg_ds = d, seg_fs = d, seg_gs = d\<rparr>)"

definition segments_flat32 :: segments where
  "segments_flat32 =
     (let d = flat_data32 0 in
      \<lparr>seg_es = d, seg_cs = flat_code32 0, seg_ss = d, seg_ds = d, seg_fs = d, seg_gs = d\<rparr>)"

subsection \<open>descriptor.rs, query.rs, packed.rs\<close>

datatype privilege_level = Ring0 | Ring1 | Ring2 | Ring3

datatype descriptor_kind =
  DataKind (data_writable: bool) (data_expand_down: bool)
| CodeKind (code_readable: bool) (code_conforming: bool)

record segment_descriptor =
  sd_base :: u32
  sd_limit :: segment_limit
  sd_kind :: descriptor_kind
  sd_default_size :: segment_default_size
  sd_dpl :: privilege_level
  sd_present :: bool
  sd_available :: bool

definition descriptor_new :: "u32 \<Rightarrow> segment_limit \<Rightarrow> descriptor_kind \<Rightarrow> segment_default_size \<Rightarrow> segment_descriptor" where
  "descriptor_new base limit kind default_size =
     \<lparr>sd_base = base, sd_limit = limit, sd_kind = kind, sd_default_size = default_size, sd_dpl = Ring3,
      sd_present = True, sd_available = False\<rparr>"

record descriptor_info =
  lar_valid :: bool
  lsl_valid :: bool
  info_readable :: bool
  info_writable :: bool
  info_access_rights :: u32
  info_limit :: u32

definition info_default :: descriptor_info where
  "info_default = \<lparr>lar_valid = False, lsl_valid = False, info_readable = False, info_writable = False,
     info_access_rights = 0, info_limit = 0\<rparr>"

record descriptor =
  limit_low :: u16
  base_low :: u16
  base_middle :: u8
  access :: u8
  limit_and_flags :: u8
  base_high :: u8

definition descriptor_default :: descriptor where
  "descriptor_default = \<lparr>limit_low = 0, base_low = 0, base_middle = 0, access = 0, limit_and_flags = 0, base_high = 0\<rparr>"

definition descriptor_from_bytes :: "u8 list \<Rightarrow> descriptor" where
  "descriptor_from_bytes bs =
     \<lparr>limit_low = from_le_bytes [bs ! 0, bs ! 1], base_low = from_le_bytes [bs ! 2, bs ! 3],
      base_middle = bs ! 4, access = bs ! 5, limit_and_flags = bs ! 6, base_high = bs ! 7\<rparr>"

definition descriptor_to_bytes :: "descriptor \<Rightarrow> u8 list" where
  "descriptor_to_bytes d =
     to_le_bytes (limit_low d) @ to_le_bytes (base_low d) @ [base_middle d, access d, limit_and_flags d, base_high d]"

definition packed_base :: "descriptor \<Rightarrow> u32" where
  "packed_base d = ucast (base_low d) OR push_bit 16 (ucast (base_middle d)) OR push_bit 24 (ucast (base_high d))"

definition packed_limit :: "descriptor \<Rightarrow> segment_limit option" where
  "packed_limit d =
     (let limit = ucast (limit_low d) OR push_bit 16 (ucast (limit_and_flags d AND 0x0F)) in
      if limit_and_flags d AND 0x80 \<noteq> 0 then limit_pages limit else limit_bytes limit)"

definition access_rights :: "descriptor \<Rightarrow> u32" where
  "access_rights d = push_bit 8 (ucast (access d)) OR push_bit 16 (ucast (limit_and_flags d AND 0xF0))"

definition needs_accessed_write :: "descriptor \<Rightarrow> bool" where
  "needs_accessed_write d \<longleftrightarrow> access d AND (0x10 OR 0x01) = 0x10"

definition with_accessed :: "descriptor \<Rightarrow> descriptor" where
  "with_accessed d = (if access d AND 0x10 \<noteq> 0 then d\<lparr>access := access d OR 0x01\<rparr> else d)"

definition ldt_descriptor :: "u32 \<Rightarrow> u16 \<Rightarrow> descriptor" where
  "ldt_descriptor base limit =
     \<lparr>limit_low = limit, base_low = ucast base, base_middle = ucast (drop_bit 16 base),
      access = 0x80 OR 0x60 OR 2, limit_and_flags = 0, base_high = ucast (drop_bit 24 base)\<rparr>"

definition query_user :: "descriptor \<Rightarrow> descriptor_info option" where
  "query_user d =
     (let kind = access d AND 0x0F;
          code_data = (access d AND 0x10 \<noteq> 0);
          executable = (kind AND 0x08 \<noteq> 0);
          conforming = (code_data \<and> executable \<and> kind AND 0x04 \<noteq> 0) in
      if access d AND 0x60 \<noteq> 0x60 \<and> \<not> conforming then Some info_default
      else
        (let lar = (code_data \<or> kind \<in> {1, 2, 3, 4, 5, 9, 11, 12});
             lsl = (code_data \<or> kind \<in> {1, 2, 3, 9, 11}) in
         map_option (\<lambda>limit.
           \<lparr>lar_valid = lar, lsl_valid = lsl,
            info_readable = (code_data \<and> (\<not> executable \<or> kind AND 0x02 \<noteq> 0)),
            info_writable = (code_data \<and> \<not> executable \<and> kind AND 0x02 \<noteq> 0),
            info_access_rights = (if lar then access_rights d else 0),
            info_limit = limit\<rparr>)
           (if lsl then map_option limit_effective (packed_limit d) else Some 0)))"

fun dpl_bits :: "privilege_level \<Rightarrow> u8" where
  "dpl_bits Ring0 = 0" | "dpl_bits Ring1 = 1" | "dpl_bits Ring2 = 2" | "dpl_bits Ring3 = 3"

definition pack_descriptor :: "segment_descriptor \<Rightarrow> descriptor" where
  "pack_descriptor sd =
     (let kind = (case sd_kind sd of
                    DataKind writable expand_down \<Rightarrow>
                      0x01 OR push_bit 1 (of_bool writable) OR push_bit 2 (of_bool expand_down)
                  | CodeKind readable conforming \<Rightarrow>
                      0x01 OR 0x08 OR push_bit 1 (of_bool readable) OR push_bit 2 (of_bool conforming));
          granular = page_granular (sd_limit sd);
          limit = (if granular then drop_bit 12 (limit_effective (sd_limit sd)) else limit_effective (sd_limit sd)) in
      \<lparr>limit_low = ucast limit, base_low = ucast (sd_base sd), base_middle = ucast (drop_bit 16 (sd_base sd)),
       access = kind OR 0x10 OR push_bit 5 (dpl_bits (sd_dpl sd)) OR push_bit 7 (of_bool (sd_present sd)),
       limit_and_flags = ucast (drop_bit 16 limit) OR push_bit 4 (of_bool (sd_available sd))
         OR push_bit 6 (of_bool (sd_default_size sd = Bits32)) OR push_bit 7 (of_bool granular),
       base_high = ucast (drop_bit 24 (sd_base sd))\<rparr>)"

text \<open>The outer option is the panic of the limit, the inner one the result.\<close>

definition code_data :: "descriptor \<Rightarrow> segment_descriptor option option" where
  "code_data d =
     (if access d AND 0x10 = 0 then Some None
      else map_option (\<lambda>limit. Some
        \<lparr>sd_base = packed_base d, sd_limit = limit,
         sd_kind = (if access d AND 0x08 \<noteq> 0 then CodeKind (access d AND 0x02 \<noteq> 0) (access d AND 0x04 \<noteq> 0)
                    else DataKind (access d AND 0x02 \<noteq> 0) (access d AND 0x04 \<noteq> 0)),
         sd_default_size = (if limit_and_flags d AND 0x40 \<noteq> 0 then Bits32 else Bits16),
         sd_dpl = (let dpl = drop_bit 5 (access d AND 0x60) in
                   if dpl = 0 then Ring0 else if dpl = 1 then Ring1 else if dpl = 2 then Ring2 else Ring3),
         sd_present = (access d AND 0x80 \<noteq> 0), sd_available = (limit_and_flags d AND 0x10 \<noteq> 0)\<rparr>)
        (packed_limit d))"

definition user_visible :: "segment_descriptor \<Rightarrow> bool" where
  "user_visible sd \<longleftrightarrow>
     sd_dpl sd = Ring3 \<or> (case sd_kind sd of CodeKind _ conforming \<Rightarrow> conforming | _ \<Rightarrow> False)"

definition load_permitted :: "segment_descriptor \<Rightarrow> segment \<Rightarrow> u16 \<Rightarrow> bool option" where
  "load_permitted sd destination selector =
     (if destination = Ss then
        Some (case sd_kind sd of
                DataKind writable _ \<Rightarrow> writable \<and> sd_dpl sd = Ring3 \<and> selector AND 3 = 3
              | CodeKind _ _ \<Rightarrow> False)
      else if destination = Cs then
        Some (case sd_kind sd of CodeKind _ _ \<Rightarrow> user_visible sd | DataKind _ _ \<Rightarrow> False)
      else map_option info_readable (query_user (pack_descriptor sd)))"

definition resolve_user :: "segment_descriptor \<Rightarrow> segment \<Rightarrow> u16 \<Rightarrow> (exception + segment_register) option" where
  "resolve_user sd destination selector =
     map_option (\<lambda>accessible.
       let error_code = ucast (selector AND NOT 3) in
       if \<not> accessible then Inl (GeneralProtection error_code)
       else if \<not> sd_present sd then
         Inl (if destination = Ss then StackFault error_code else SegmentNotPresent error_code)
       else Inr
         (let cache = (unusable 0)\<lparr>sr_base := sd_base sd, sr_limit := limit_effective (sd_limit sd),
                sr_selector := (if destination = Cs then selector OR 3 else selector), sr_usable := 1,
                sr_big := of_bool (sd_default_size sd = Bits32)\<rparr> in
          case sd_kind sd of
            DataKind writable expand_down \<Rightarrow>
              cache\<lparr>sr_readable := 1, sr_writable := of_bool writable, sr_expand_down := of_bool expand_down\<rparr>
          | CodeKind readable _ \<Rightarrow> cache\<lparr>sr_readable := of_bool readable, sr_executable := 1\<rparr>))
       (load_permitted sd destination selector)"

definition resolve_user_segment :: "descriptor \<Rightarrow> segment \<Rightarrow> u16 \<Rightarrow> (exception + segment_register) option" where
  "resolve_user_segment d destination selector =
     (if selector AND NOT 3 = 0 then
        Some (if destination = Ss \<or> destination = Cs then Inl (GeneralProtection 0) else Inr (unusable selector))
      else Option.bind (code_data d) (\<lambda>sd.
        case sd of
          None \<Rightarrow> Some (Inl (GeneralProtection (ucast (selector AND NOT 3))))
        | Some sd \<Rightarrow> resolve_user sd destination selector))"

subsection \<open>tables.rs\<close>

type_synonym descriptor_tables = "bool \<Rightarrow> segment_descriptor option list"

definition slot :: "u16 \<Rightarrow> bool \<times> nat" where
  "slot selector = (selector AND 4 \<noteq> 0, unat (drop_bit 3 selector))"

definition tables_get :: "descriptor_tables \<Rightarrow> u16 \<Rightarrow> segment_descriptor option" where
  "tables_get t selector =
     (case slot selector of (table, index) \<Rightarrow> if index < length (t table) then t table ! index else None)"

definition tables_insert ::
  "descriptor_tables \<Rightarrow> u16 \<Rightarrow> segment_descriptor \<Rightarrow> descriptor_tables \<times> segment_descriptor option" where
  "tables_insert t selector sd =
     (case slot selector of (table, index) \<Rightarrow>
      let entries = (if index \<ge> length (t table)
                     then t table @ replicate (index + 1 - length (t table)) None else t table)
      in (t(table := entries[index := Some sd]), entries ! index))"

definition tables_remove :: "descriptor_tables \<Rightarrow> u16 \<Rightarrow> descriptor_tables \<times> segment_descriptor option" where
  "tables_remove t selector =
     (case slot selector of (table, index) \<Rightarrow>
      if index < length (t table) then (t(table := (t table)[index := None]), t table ! index) else (t, None))"

definition packed_entry :: "segment_descriptor option list \<Rightarrow> nat \<Rightarrow> descriptor" where
  "packed_entry entries index =
     (if index < length entries
      then (case entries ! index of None \<Rightarrow> descriptor_default | Some sd \<Rightarrow> pack_descriptor sd)
      else descriptor_default)"

definition to_packed_tables :: "descriptor_tables \<Rightarrow> bool \<Rightarrow> u8 list" where
  "to_packed_tables t table =
     concat (map (\<lambda>index. descriptor_to_bytes (packed_entry (t table) index)) [0..<max (length (t table)) 1])"

definition query_user_segment_descriptor :: "descriptor_tables \<Rightarrow> u16 \<Rightarrow> descriptor_info option" where
  "query_user_segment_descriptor t selector =
     (if selector AND NOT 3 = 0 then Some info_default
      else case tables_get t selector of
        None \<Rightarrow> Some info_default
      | Some sd \<Rightarrow> query_user (pack_descriptor sd))"

definition tables_resolve :: "descriptor_tables \<Rightarrow> segment \<Rightarrow> u16 \<Rightarrow> (exception + segment_register) option" where
  "tables_resolve t destination selector =
     resolve_user_segment
       (case tables_get t selector of None \<Rightarrow> descriptor_default | Some sd \<Rightarrow> pack_descriptor sd)
       destination selector"

subsection \<open>profile.rs\<close>

datatype segment_profile = Flat32 | Segmented32 | Segmented16

definition code_default_size :: "segment_profile \<Rightarrow> segment_default_size" where
  "code_default_size p = (if p = Segmented16 then Bits16 else Bits32)"

record segment_assumptions =
  as_base :: "u32 option"
  as_limit :: "u32 option"
  as_usable :: "u8 option"
  as_readable :: "u8 option"
  as_writable :: "u8 option"
  as_executable :: "u8 option"
  as_expand_down :: "u8 option"
  as_big :: "u8 option"

definition no_assumptions :: segment_assumptions where
  "no_assumptions = \<lparr>as_base = None, as_limit = None, as_usable = None, as_readable = None, as_writable = None,
     as_executable = None, as_expand_down = None, as_big = None\<rparr>"

definition assumptions :: "segment_profile \<Rightarrow> segment \<Rightarrow> segment_assumptions" where
  "assumptions p seg =
     (let a = (if p = Flat32 \<and> seg \<in> {Cs, Ds, Es, Ss} then
                 no_assumptions\<lparr>as_base := Some 0, as_limit := Some (- 1), as_usable := Some 1,
                   as_readable := Some 1, as_writable := Some (of_bool (seg \<noteq> Cs)),
                   as_executable := Some (of_bool (seg = Cs)), as_expand_down := Some 0,
                   as_big := (if seg = Ss then Some 1 else None)\<rparr>
               else no_assumptions)
      in if seg = Cs then a\<lparr>as_big := Some (of_bool (code_default_size p = Bits32))\<rparr> else a)"

definition is_none_or :: "'a option \<Rightarrow> 'a \<Rightarrow> bool" where
  "is_none_or a v = (case a of None \<Rightarrow> True | Some x \<Rightarrow> v = x)"

definition assumptions_match :: "segment_assumptions \<Rightarrow> segment_register \<Rightarrow> bool" where
  "assumptions_match a r \<longleftrightarrow>
     is_none_or (as_base a) (sr_base r) \<and> is_none_or (as_limit a) (sr_limit r) \<and>
     is_none_or (as_usable a) (sr_usable r) \<and> is_none_or (as_readable a) (sr_readable r) \<and>
     is_none_or (as_writable a) (sr_writable r) \<and> is_none_or (as_executable a) (sr_executable r) \<and>
     is_none_or (as_expand_down a) (sr_expand_down r) \<and> is_none_or (as_big a) (sr_big r)"

definition is_compatible_with :: "segment_profile \<Rightarrow> segments \<Rightarrow> bool" where
  "is_compatible_with p s = list_all (\<lambda>seg. assumptions_match (assumptions p seg) (segments_index s seg)) ALL_SEGMENTS"

subsection \<open>access.rs\<close>

text \<open>
  The check the translator emits for a known segment, at run-time values. A cache field the
  profile fixes is a constant of the emitted code; any other is read from the loaded cache.
\<close>

datatype intent = Fetch | Read | ReadOrExecute | Write

datatype execution_profile = Real16 | Protected segment_profile

definition known :: "'a option \<Rightarrow> 'a \<Rightarrow> 'a" where
  "known a v = (case a of None \<Rightarrow> v | Some x \<Rightarrow> x)"

definition emitted_permitted :: "segment_assumptions \<Rightarrow> segment_register \<Rightarrow> intent \<Rightarrow> bool" where
  "emitted_permitted a r i \<longleftrightarrow>
     known (as_usable a) (sr_usable r) \<noteq> 0 \<and>
     (case i of
        Read \<Rightarrow> known (as_readable a) (sr_readable r) \<noteq> 0
      | ReadOrExecute \<Rightarrow>
          known (as_readable a) (sr_readable r) \<noteq> 0 \<or> known (as_executable a) (sr_executable r) \<noteq> 0
      | Write \<Rightarrow> known (as_writable a) (sr_writable r) \<noteq> 0
      | Fetch \<Rightarrow> known (as_executable a) (sr_executable r) \<noteq> 0)"

definition access_denied :: "segment_assumptions \<Rightarrow> segment_register \<Rightarrow> u32 \<Rightarrow> u32 \<Rightarrow> intent \<Rightarrow> bool" where
  "access_denied a r offset bytes i =
     (let permitted = emitted_permitted a r i in
      if as_expand_down a = Some 0 \<and> as_limit a = Some (- 1) then \<not> permitted
      else
        (let limit = known (as_limit a) (sr_limit r);
             last = offset + (bytes - 1);
             no_wrap = (last \<ge> offset);
             expand_up = (limit = - 1 \<or> no_wrap \<and> limit \<ge> last);
             upper = (if known (as_big a) (sr_big r) \<noteq> 0 then - 1 else 0xFFFF);
             down_range = (limit < offset \<and> no_wrap \<and> upper \<ge> last)
         in \<not> (permitted \<and> (if known (as_expand_down a) (sr_expand_down r) \<noteq> 0 then down_range else expand_up))))"

text \<open>The emitted check: whether the access is denied, and the linear address.\<close>

definition segment_check ::
  "execution_profile \<Rightarrow> segment \<Rightarrow> segment_register \<Rightarrow> u32 \<Rightarrow> u32 \<Rightarrow> intent \<Rightarrow> bool \<times> u32" where
  "segment_check profile seg r offset bytes i =
     (case profile of
        Real16 \<Rightarrow> (bytes \<ge> 0x10001 \<or> offset \<ge> 0x10001 - bytes, sr_base r + offset)
      | Protected p \<Rightarrow>
          (access_denied (assumptions p seg) r offset bytes i, known (as_base (assumptions p seg)) (sr_base r) + offset))"

definition translate_segment ::
  "execution_profile \<Rightarrow> segment \<Rightarrow> segment_register \<Rightarrow> u32 \<Rightarrow> u32 \<Rightarrow> intent \<Rightarrow> exception + u32" where
  "translate_segment profile seg r offset bytes i =
     (case segment_check profile seg r offset bytes i of (denied, linear) \<Rightarrow>
      if denied then Inl (if seg = Ss then StackFault 0 else GeneralProtection 0) else Inr linear)"

subsection \<open>Bits of the packed format\<close>

lemma bit_tests:
  fixes x :: u8
  shows "x AND 0x01 = 0 \<longleftrightarrow> \<not> bit x 0" "x AND 0x02 = 0 \<longleftrightarrow> \<not> bit x 1" "x AND 0x04 = 0 \<longleftrightarrow> \<not> bit x 2"
    "x AND 0x08 = 0 \<longleftrightarrow> \<not> bit x 3" "x AND 0x10 = 0 \<longleftrightarrow> \<not> bit x 4" "x AND 0x40 = 0 \<longleftrightarrow> \<not> bit x 6"
    "x AND 0x80 = 0 \<longleftrightarrow> \<not> bit x 7"
  using and_exp_eq_0_iff_not_bit [of x 0] and_exp_eq_0_iff_not_bit [of x 1] and_exp_eq_0_iff_not_bit [of x 2]
    and_exp_eq_0_iff_not_bit [of x 3] and_exp_eq_0_iff_not_bit [of x 4] and_exp_eq_0_iff_not_bit [of x 6]
    and_exp_eq_0_iff_not_bit [of x 7] by simp_all

lemma le_20_bits: "(l :: u32) \<le> 0xFFFFF \<longleftrightarrow> (\<forall>n\<ge>20. \<not> bit l n)"
proof -
  have "l \<le> 0xFFFFF \<longleftrightarrow> uint l < 2 ^ 20" by (simp add: word_le_def) linarith
  then show ?thesis using uint_less_exp_bits_zero [of l 20] by blast
qed

lemma packed_limit_eq:
  "packed_limit d = Some \<lparr>encoded = ucast (limit_low d) OR push_bit 16 (ucast (limit_and_flags d AND 0x0F)),
     page_granular = bit (limit_and_flags d) 7\<rparr>"
proof -
  let ?l = "ucast (limit_low d) OR push_bit 16 (ucast (limit_and_flags d AND 0x0F)) :: u32"
  have "\<not> bit ?l n" if "20 \<le> n" for n
  proof -
    have "0x0F = (mask 4 :: u8)" by (simp add: mask_numeral)
    then have "\<not> bit (limit_and_flags d AND 0x0F) (n - 16)"
      using that by (simp only: bit_and_iff bit_mask_iff) linarith
    moreover have "\<not> bit (limit_low d) n" using that bit_imp_le_length [of "limit_low d" n] by auto
    ultimately show ?thesis by (simp add: bit_or_iff bit_push_bit_iff bit_unsigned_iff)
  qed
  then have "?l \<le> 0xFFFFF" by (simp only: le_20_bits) simp
  then show ?thesis by (auto simp: packed_limit_def Let_def limit_pages_def limit_bytes_def bit_tests)
qed

lemma descriptor_bytes [simp]: "descriptor_from_bytes (descriptor_to_bytes d) = d"
proof -
  have two: "from_le_bytes [to_le_bytes w ! 0, to_le_bytes w ! Suc 0] = w" for w :: u16
  proof -
    have "to_le_bytes w = [to_le_bytes w ! 0, to_le_bytes w ! Suc 0]"
      by (rule nth_equalityI) (auto simp: less_Suc_eq numeral_2_eq_2)
    then show ?thesis using from_le_bytes_to_le_bytes [where 'a = 16, of w] by (simp del: from_le_bytes.simps)
  qed
  show ?thesis
    by (cases d) (simp add: descriptor_from_bytes_def descriptor_to_bytes_def nth_append two del: from_le_bytes.simps)
qed

lemma base_parts:
  "ucast (ucast b :: u16) OR push_bit 16 (ucast (ucast (drop_bit 16 b) :: u8)) OR
   push_bit 24 (ucast (ucast (drop_bit 24 b) :: u8)) = (b :: u32)"
proof (rule bit_word_eqI)
  fix n assume "n < LENGTH(32)"
  then consider "n < 16" | "16 \<le> n" "n < 24" | "24 \<le> n" "n < 32" by fastforce
  then show "bit (ucast (ucast b :: u16) OR push_bit 16 (ucast (ucast (drop_bit 16 b) :: u8)) OR
      push_bit 24 (ucast (ucast (drop_bit 24 b) :: u8)) :: u32) n = bit b n"
    by cases (auto simp: bit_or_iff bit_push_bit_iff bit_unsigned_iff bit_drop_bit_eq)
qed

lemma limit_parts:
  assumes "(l :: u32) \<le> 0xFFFFF"
  shows "ucast (ucast l :: u16) OR push_bit 16 (ucast ((ucast (drop_bit 16 l) :: u8) AND 0x0F)) = l"
proof (rule bit_word_eqI)
  have m: "0x0F = (mask 4 :: u8)" by (simp add: mask_numeral)
  have high: "\<not> bit l n" if "20 \<le> n" for n using assms that le_20_bits by blast
  fix n assume "n < LENGTH(32)"
  then consider "n < 16" | "16 \<le> n" "n < 20" | "20 \<le> n" "n < 32" by fastforce
  then show "bit (ucast (ucast l :: u16) OR push_bit 16 (ucast ((ucast (drop_bit 16 l) :: u8) AND 0x0F)) :: u32) n = bit l n"
    unfolding m by cases (use high in \<open>auto simp: bit_or_iff bit_push_bit_iff bit_unsigned_iff bit_drop_bit_eq
      bit_and_iff bit_mask_iff dest: bit_imp_le_length\<close>)
qed

lemma encoded_limit:
  assumes "encoded l \<le> 0xFFFFF"
  shows "(if page_granular l then drop_bit 12 (limit_effective l) else limit_effective l) = encoded l"
proof -
  have high: "\<not> bit (encoded l) n" if "20 \<le> n" for n using assms that le_20_bits by blast
  have "drop_bit 12 (push_bit 12 (encoded l) OR 0xFFF) = encoded l"
  proof (rule bit_word_eqI)
    have m: "0xFFF = (mask 12 :: u32)" by (simp add: mask_numeral)
    fix n assume "n < LENGTH(32)"
    then show "bit (drop_bit 12 (push_bit 12 (encoded l) OR 0xFFF)) n = bit (encoded l) n"
      unfolding m using high [of n]
      by (cases "n < 20") (auto simp: bit_drop_bit_eq bit_or_iff bit_push_bit_iff bit_mask_iff)
  qed
  then show ?thesis by (simp add: limit_effective_def)
qed

lemma packed_flags:
  fixes l :: u32 and a b c :: bool
  assumes "l \<le> 0xFFFFF"
  defines "f \<equiv> ucast (drop_bit 16 l) OR push_bit 4 (of_bool a) OR push_bit 6 (of_bool b) OR push_bit 7 (of_bool c) :: u8"
  shows "f AND 0x0F = (ucast (drop_bit 16 l) :: u8) AND 0x0F" and "bit f 4 = a" and "bit f 6 = b" and "bit f 7 = c"
proof -
  have high: "\<not> bit l n" if "20 \<le> n" for n using assms(1) that le_20_bits by blast
  have m: "0x0F = (mask 4 :: u8)" by (simp add: mask_numeral)
  show "f AND 0x0F = (ucast (drop_bit 16 l) :: u8) AND 0x0F"
    unfolding m f_def by (rule bit_word_eqI)
      (auto simp: bit_and_iff bit_or_iff bit_mask_iff bit_push_bit_iff)
  show "bit f 4 = a" "bit f 6 = b" "bit f 7 = c"
    using high [of 20] high [of 22] high [of 23]
    by (simp_all add: f_def bit_or_iff bit_push_bit_iff bit_unsigned_iff bit_drop_bit_eq)
qed

lemma code_data_pack:
  assumes "encoded (sd_limit sd) \<le> 0xFFFFF"
  shows "code_data (pack_descriptor sd) = Some (Some sd)"
proof -
  let ?d = "pack_descriptor sd"
  have base: "packed_base ?d = sd_base sd"
    using base_parts [of "sd_base sd"] by (simp add: packed_base_def pack_descriptor_def Let_def)
  have flags: "limit_low ?d = ucast (encoded (sd_limit sd))"
    "limit_and_flags ?d AND 0x0F = ucast (drop_bit 16 (encoded (sd_limit sd))) AND 0x0F"
    "bit (limit_and_flags ?d) 4 = sd_available sd" "bit (limit_and_flags ?d) 6 = (sd_default_size sd = Bits32)"
    "bit (limit_and_flags ?d) 7 = page_granular (sd_limit sd)"
    using packed_flags [OF assms] unfolding pack_descriptor_def Let_def encoded_limit [OF assms] by simp_all
  have limit: "packed_limit ?d = Some (sd_limit sd)"
    unfolding packed_limit_eq flags limit_parts [OF assms] by (cases "sd_limit sd") simp
  have acc: "access ?d AND 0x10 \<noteq> 0" "(access ?d AND 0x80 \<noteq> 0) = sd_present sd"
    "(if access ?d AND 0x08 \<noteq> 0 then CodeKind (access ?d AND 0x02 \<noteq> 0) (access ?d AND 0x04 \<noteq> 0)
      else DataKind (access ?d AND 0x02 \<noteq> 0) (access ?d AND 0x04 \<noteq> 0)) = sd_kind sd"
    "(let dpl = drop_bit 5 (access ?d AND 0x60) in
      if dpl = 0 then Ring0 else if dpl = 1 then Ring1 else if dpl = 2 then Ring2 else Ring3) = sd_dpl sd"
    by (cases "sd_kind sd"; cases "sd_dpl sd"; cases "sd_present sd"; simp add: pack_descriptor_def Let_def)+
  have size: "(if limit_and_flags ?d AND 0x40 \<noteq> 0 then Bits32 else Bits16) = sd_default_size sd"
    using flags(4) by (cases "sd_default_size sd") (simp_all add: bit_tests)
  show ?thesis
    unfolding code_data_def limit base acc(2,3,4) size using acc(1) flags(3) by (simp add: bit_tests)
qed

subsection \<open>Tables\<close>

lemma take_drop_concat:
  "(\<And>x. x \<in> set xs \<Longrightarrow> length (f x) = k) \<Longrightarrow> i < length xs \<Longrightarrow> take k (drop (k * i) (concat (map f xs))) = f (xs ! i)"
proof (induction xs arbitrary: i)
  case (Cons x xs)
  show ?case
  proof (cases i)
    case 0
    then show ?thesis using Cons.prems by simp
  next
    case (Suc j)
    then show ?thesis using Cons.IH [of j] Cons.prems by simp
  qed
qed simp

lemma packed_table_entry:
  assumes "i < max (length (t table)) 1"
  shows "take 8 (drop (8 * i) (to_packed_tables t table)) = descriptor_to_bytes (packed_entry (t table) i)"
  using take_drop_concat [of "[0..<max (length (t table)) 1]" "\<lambda>i. descriptor_to_bytes (packed_entry (t table) i)" 8 i] assms
  by (simp add: to_packed_tables_def descriptor_to_bytes_def)

subsection \<open>What an access may touch\<close>

text \<open>The offsets a loaded segment covers.\<close>

definition in_segment :: "segment_register \<Rightarrow> nat \<Rightarrow> bool" where
  "in_segment r x \<longleftrightarrow>
     (if sr_expand_down r \<noteq> 0 then unat (sr_limit r) < x \<and> x \<le> (if sr_big r \<noteq> 0 then 0xFFFFFFFF else 0xFFFF)
      else x \<le> unat (sr_limit r))"

definition intent_allowed :: "segment_register \<Rightarrow> intent \<Rightarrow> bool" where
  "intent_allowed r i \<longleftrightarrow> sr_usable r \<noteq> 0 \<and>
     (case i of Read \<Rightarrow> sr_readable r \<noteq> 0 | ReadOrExecute \<Rightarrow> sr_readable r \<noteq> 0 \<or> sr_executable r \<noteq> 0
      | Write \<Rightarrow> sr_writable r \<noteq> 0 | Fetch \<Rightarrow> sr_executable r \<noteq> 0)"

text \<open>A full expand-up segment lets offsets wrap; any other covers every byte of the span.\<close>

definition access_allowed :: "segment_register \<Rightarrow> u32 \<Rightarrow> u32 \<Rightarrow> intent \<Rightarrow> bool" where
  "access_allowed r offset bytes i \<longleftrightarrow> intent_allowed r i \<and>
     (sr_expand_down r = 0 \<and> sr_limit r = - 1 \<or>
      (\<forall>k<unat bytes. in_segment r (unat offset + k)))"

lemma known_match: "is_none_or a v \<Longrightarrow> known a v = v"
  by (auto simp: known_def is_none_or_def split: option.splits)

lemma last_byte:
  fixes offset bytes :: u32
  assumes "bytes \<noteq> 0"
  shows "offset + (bytes - 1) \<ge> offset \<longleftrightarrow> unat offset + (unat bytes - 1) < 2 ^ 32"
    and "unat offset + (unat bytes - 1) < 2 ^ 32 \<Longrightarrow>
      unat (offset + (bytes - 1)) = unat offset + (unat bytes - 1)"
proof -
  have b: "unat (bytes - 1) = unat bytes - 1" using assms by (simp add: unat_minus_one)
  have small: "unat offset < 2 ^ 32" "unat bytes < 2 ^ 32"
    using unsigned_less [of offset] unsigned_less [of bytes] by simp_all
  have "unat (offset + (bytes - 1)) = (unat offset + (unat bytes - 1)) mod 2 ^ 32"
    using b by (simp add: unat_word_ariths)
  then show "offset + (bytes - 1) \<ge> offset \<longleftrightarrow> unat offset + (unat bytes - 1) < 2 ^ 32"
    and "unat offset + (unat bytes - 1) < 2 ^ 32 \<Longrightarrow> unat (offset + (bytes - 1)) = unat offset + (unat bytes - 1)"
    using small by (auto simp: word_le_nat_alt mod_if)
qed

lemma span_le:
  fixes offset bytes :: u32
  assumes "bytes \<noteq> 0" and "y < 2 ^ 32"
  shows "(\<forall>k<unat bytes. unat offset + k \<le> y) \<longleftrightarrow>
    offset + (bytes - 1) \<ge> offset \<and> unat (offset + (bytes - 1)) \<le> y"
proof -
  have "0 < unat bytes" using assms(1) by (simp add: unat_gt_0)
  then have "(\<forall>k<unat bytes. unat offset + k \<le> y) \<longleftrightarrow> unat offset + (unat bytes - 1) \<le> y"
    by (auto dest: spec [of _ "unat bytes - 1"])
  then show ?thesis using last_byte [OF assms(1), of offset] assms(2) by auto
qed

lemma span_above:
  fixes offset bytes :: u32
  assumes "bytes \<noteq> 0"
  shows "(\<forall>k<unat bytes. y < unat offset + k) \<longleftrightarrow> y < unat offset"
proof -
  have "0 < unat bytes" using assms by (simp add: unat_gt_0)
  then show ?thesis by (auto dest: spec [of _ 0])
qed

lemma access_denied_exact:
  assumes m: "assumptions_match a r" and "bytes \<noteq> 0"
  shows "access_denied a r offset bytes i \<longleftrightarrow> \<not> access_allowed r offset bytes i"
proof -
  note fields = m [unfolded assumptions_match_def]
  have p: "emitted_permitted a r i = intent_allowed r i"
    using fields by (auto simp: emitted_permitted_def intent_allowed_def known_match split: intent.split)
  have k: "known (as_limit a) (sr_limit r) = sr_limit r" "known (as_expand_down a) (sr_expand_down r) = sr_expand_down r"
    "known (as_big a) (sr_big r) = sr_big r" using fields by (auto intro: known_match)
  have const: "as_expand_down a = Some 0 \<Longrightarrow> sr_expand_down r = 0" "as_limit a = Some (- 1) \<Longrightarrow> sr_limit r = - 1"
    using fields by (auto simp: is_none_or_def)
  have up: "(\<forall>k<unat bytes. unat offset + k \<le> unat (sr_limit r)) \<longleftrightarrow>
      offset + (bytes - 1) \<ge> offset \<and> sr_limit r \<ge> offset + (bytes - 1)"
    using span_le [OF assms(2), of "unat (sr_limit r)" offset] unsigned_less [of "sr_limit r"]
    by (simp add: word_le_nat_alt)
  have down: "(\<forall>k<unat bytes. unat (sr_limit r) < unat offset + k \<and> unat offset + k \<le> unat u) \<longleftrightarrow>
      sr_limit r < offset \<and> offset + (bytes - 1) \<ge> offset \<and> u \<ge> offset + (bytes - 1)" for u :: u32
    using span_le [OF assms(2), of "unat u" offset] span_above [OF assms(2), of "unat (sr_limit r)" offset]
      unsigned_less [of u] by (auto simp: word_le_nat_alt word_less_nat_alt)
  have upper: "(if sr_big r \<noteq> 0 then 0xFFFFFFFF else 0xFFFF :: nat) = unat (if sr_big r \<noteq> 0 then - 1 else 0xFFFF :: u32)"
    by (simp add: unsigned_minus_1_eq_mask mask_eq_exp_minus_1)
  have span: "(\<forall>k<unat bytes. in_segment r (unat offset + k)) \<longleftrightarrow>
      (if sr_expand_down r \<noteq> 0
       then sr_limit r < offset \<and> offset + (bytes - 1) \<ge> offset \<and> (if sr_big r \<noteq> 0 then - 1 else 0xFFFF) \<ge> offset + (bytes - 1)
       else offset + (bytes - 1) \<ge> offset \<and> sr_limit r \<ge> offset + (bytes - 1))"
    unfolding in_segment_def upper using up down by presburger
  show ?thesis
    unfolding access_denied_def Let_def p k access_allowed_def span using const by auto
qed

subsection \<open>Loading a descriptor\<close>

definition kind_readable :: "descriptor_kind \<Rightarrow> bool" where
  "kind_readable k = (case k of DataKind _ _ \<Rightarrow> True | CodeKind readable _ \<Rightarrow> readable)"

lemma query_pack:
  "map_option info_readable (query_user (pack_descriptor sd)) = Some (user_visible sd \<and> kind_readable (sd_kind sd))"
  unfolding query_user_def Let_def packed_limit_eq
  by (cases "sd_kind sd"; cases "sd_dpl sd"; cases "sd_present sd")
    (simp_all add: pack_descriptor_def Let_def user_visible_def kind_readable_def info_default_def)

lemma load_permitted_eq:
  "load_permitted sd destination selector = Some
     (if destination = Ss then (case sd_kind sd of DataKind writable _ \<Rightarrow> writable | _ \<Rightarrow> False) \<and>
        sd_dpl sd = Ring3 \<and> selector AND 3 = 3
      else if destination = Cs then (case sd_kind sd of CodeKind _ _ \<Rightarrow> True | _ \<Rightarrow> False) \<and> user_visible sd
      else user_visible sd \<and> kind_readable (sd_kind sd))"
  unfolding load_permitted_def query_pack by (simp split: descriptor_kind.split)

text \<open>What a loaded cache may grant, given the descriptor it came from.\<close>

definition grants :: "segment_descriptor \<Rightarrow> segment \<Rightarrow> segment_register \<Rightarrow> bool" where
  "grants sd destination c \<longleftrightarrow>
     sd_present sd \<and> user_visible sd \<and> sr_usable c = 1 \<and> sr_base c = sd_base sd \<and>
     sr_limit c = limit_effective (sd_limit sd) \<and>
     (sr_writable c \<noteq> 0 \<longleftrightarrow> (case sd_kind sd of DataKind writable _ \<Rightarrow> writable | _ \<Rightarrow> False)) \<and>
     (sr_executable c \<noteq> 0 \<longleftrightarrow> (case sd_kind sd of CodeKind _ _ \<Rightarrow> True | _ \<Rightarrow> False)) \<and>
     (sr_readable c \<noteq> 0 \<longleftrightarrow> kind_readable (sd_kind sd)) \<and>
     (destination = Cs \<longrightarrow> sr_executable c \<noteq> 0 \<and> sr_selector c AND 3 = 3) \<and>
     (destination = Ss \<longrightarrow> sr_writable c \<noteq> 0 \<and> sd_dpl sd = Ring3) \<and>
     (destination \<noteq> Cs \<longrightarrow> sr_readable c \<noteq> 0)"

lemma or_3_and_3: "(x OR 3) AND 3 = (3 :: u16)"
  by (simp add: and.commute bit.conj_disj_distrib)

lemma resolve_user_cases:
  "\<exists>r. resolve_user sd destination selector = Some r \<and>
     (case r of
        Inr c \<Rightarrow> grants sd destination c
      | Inl e \<Rightarrow> e = GeneralProtection (ucast (selector AND NOT 3)) \<and> load_permitted sd destination selector = Some False \<or>
          \<not> sd_present sd \<and> load_permitted sd destination selector = Some True \<and>
          e = (if destination = Ss then StackFault (ucast (selector AND NOT 3))
               else SegmentNotPresent (ucast (selector AND NOT 3))))"
proof (cases "load_permitted sd destination selector = Some True")
  case True
  show ?thesis
  proof (cases "sd_present sd")
    case False
    then show ?thesis using True by (simp add: resolve_user_def Let_def)
  next
    case present: True
    show ?thesis unfolding resolve_user_def True using True present
      by (cases "sd_kind sd"; cases destination)
        (auto simp: load_permitted_eq grants_def Let_def unusable_def kind_readable_def user_visible_def or_3_and_3)
  qed
next
  case False
  then have "load_permitted sd destination selector = Some False" by (simp add: load_permitted_eq)
  then show ?thesis by (simp add: resolve_user_def Let_def)
qed

subsection \<open>Properties\<close>

text \<open>The packed format loses nothing. Decoding a packed descriptor, also after a trip through
  its eight table bytes, gives back the host descriptor.\<close>

theorem descriptor_round_trip:
  assumes "encoded (sd_limit sd) \<le> 0xFFFFF"
  shows "code_data (descriptor_from_bytes (descriptor_to_bytes (pack_descriptor sd))) = Some (Some sd)"
  using code_data_pack [OF assms] by simp

theorem descriptor_round_trip_witness:
  "code_data (descriptor_from_bytes [0x67, 0x45, 0x78, 0x56, 0x34, 0xF3, 0x43, 0x12]) =
     Some (Some (descriptor_new 0x12345678 \<lparr>encoded = 0x34567, page_granular = False\<rparr> (DataKind True False) Bits32))"
proof -
  let ?sd = "descriptor_new 0x12345678 \<lparr>encoded = 0x34567, page_granular = False\<rparr> (DataKind True False) Bits32"
  have "descriptor_to_bytes (pack_descriptor ?sd) = [0x67, 0x45, 0x78, 0x56, 0x34, 0xF3, 0x43, 0x12]" by code_simp
  moreover have "encoded (sd_limit ?sd) \<le> 0xFFFFF" by (simp add: descriptor_new_def)
  ultimately show ?thesis using descriptor_round_trip [of ?sd] by simp
qed

text \<open>The serialized tables mean what the host tables mean. Resolving a selector through the
  eight bytes of its slot gives the same cache or fault as resolving it in the host table.\<close>

theorem packed_tables_agree:
  assumes "slot selector = (table, index)" and "index < max (length (t table)) 1"
  shows "resolve_user_segment (descriptor_from_bytes (take 8 (drop (8 * index) (to_packed_tables t table))))
      destination selector = tables_resolve t destination selector"
  using assms
  by (simp add: packed_table_entry packed_entry_def tables_resolve_def tables_get_def split: option.split)

theorem packed_tables_agree_witness:
  "resolve_user_segment (descriptor_from_bytes (take 8 (drop (8 * 1) (to_packed_tables
       ((\<lambda>_. [])(False := [None, Some (descriptor_new 0x4000 \<lparr>encoded = 0xFFFF, page_granular = False\<rparr> (DataKind True False) Bits32)]))
       False)))) Ds 0x0B =
   tables_resolve ((\<lambda>_. [])(False := [None, Some (descriptor_new 0x4000 \<lparr>encoded = 0xFFFF, page_granular = False\<rparr>
       (DataKind True False) Bits32)])) Ds 0x0B"
proof -
  have "slot 0x0B = (False, 1)" by code_simp
  then show ?thesis by (rule packed_tables_agree) simp
qed

text \<open>C28: the emitted segment check is exact. When the loaded caches satisfy the profile the code was
  compiled for, the emitted check, with every cache read and range test the profile lets
  it drop, admits a span exactly when the loaded segment permits every byte of it, and
  yields base plus offset; otherwise it raises the stack or protection fault.\<close>

theorem segment_check_exact:
  assumes "is_compatible_with p s" and "bytes \<noteq> 0"
  shows "translate_segment (Protected p) seg (segments_index s seg) offset bytes i =
    (if access_allowed (segments_index s seg) offset bytes i then Inr (sr_base (segments_index s seg) + offset)
     else Inl (if seg = Ss then StackFault 0 else GeneralProtection 0))"
proof -
  have m: "assumptions_match (assumptions p seg) (segments_index s seg)"
    using assms(1) by (cases seg) (simp_all add: is_compatible_with_def ALL_SEGMENTS_def)
  then have "known (as_base (assumptions p seg)) (sr_base (segments_index s seg)) = sr_base (segments_index s seg)"
    by (intro known_match) (simp add: assumptions_match_def)
  then show ?thesis using access_denied_exact [OF m assms(2)] by (simp add: translate_segment_def segment_check_def)
qed

theorem segment_check_exact_witness:
  "translate_segment (Protected Flat32) Ds (flat_data32 0) 0xFFFFFFFE 4 Write = Inr 0xFFFFFFFE"
proof -
  have "is_compatible_with Flat32 segments_flat32" by code_simp
  moreover have "access_allowed (flat_data32 0) 0xFFFFFFFE 4 Write"
    by (simp add: access_allowed_def intent_allowed_def flat_data32_def)
  ultimately show ?thesis using segment_check_exact [of Flat32 segments_flat32 4 Ds "0xFFFFFFFE" Write]
    by (simp add: segments_flat32_def Let_def flat_data32_def)
qed

text \<open>C33: user code loads only what it may. Loading a non-null selector never panics; it succeeds only
  for a present descriptor visible at privilege level 3 and grants no more than it, stack
  segments being writable and code segments executable; type and privilege faults take
  precedence over the not-present faults, and error codes carry the selector without its
  privilege bits.\<close>

theorem user_load_rules:
  assumes "selector AND NOT 3 \<noteq> 0"
  shows "\<exists>r. resolve_user_segment d destination selector = Some r \<and>
    (case r of
       Inr c \<Rightarrow> \<exists>sd. code_data d = Some (Some sd) \<and> grants sd destination c
     | Inl e \<Rightarrow>
         e = GeneralProtection (ucast (selector AND NOT 3)) \<or>
         (\<exists>sd. code_data d = Some (Some sd) \<and> \<not> sd_present sd \<and> load_permitted sd destination selector = Some True \<and>
            e = (if destination = Ss then StackFault (ucast (selector AND NOT 3))
                 else SegmentNotPresent (ucast (selector AND NOT 3)))))"
proof -
  have "\<exists>sd. code_data d = Some sd" by (simp add: code_data_def packed_limit_eq)
  then consider "code_data d = Some None" | sd where "code_data d = Some (Some sd)"
    by (metis option.exhaust)
  then show ?thesis
  proof cases
    case 1
    then show ?thesis using assms by (simp add: resolve_user_segment_def)
  next
    case (2 sd)
    then show ?thesis using assms resolve_user_cases [of sd destination selector]
      by (fastforce simp: resolve_user_segment_def split: sum.splits)
  qed
qed

theorem user_load_rules_witness:
  "resolve_user_segment (descriptor_from_bytes [0xFF, 0xFF, 0, 0, 0, 0x72, 0x8F, 0]) Ds 0x23 = Some (Inl (SegmentNotPresent 0x20)) \<and>
   (\<exists>r. resolve_user_segment (descriptor_from_bytes [0xFF, 0xFF, 0, 0, 0, 0xF2, 0x8F, 0]) Ss 0x23 = Some r \<and>
     (\<exists>c. r = Inr c \<and> sr_writable c \<noteq> 0))"
proof -
  have a: "resolve_user_segment (descriptor_from_bytes [0xFF, 0xFF, 0, 0, 0, 0x72, 0x8F, 0]) Ds 0x23 =
      Some (Inl (SegmentNotPresent 0x20))" by code_simp
  have "case resolve_user_segment (descriptor_from_bytes [0xFF, 0xFF, 0, 0, 0, 0xF2, 0x8F, 0]) Ss 0x23 of
      Some (Inr c) \<Rightarrow> True | _ \<Rightarrow> False" by code_simp
  then obtain c where c: "resolve_user_segment (descriptor_from_bytes [0xFF, 0xFF, 0, 0, 0, 0xF2, 0x8F, 0]) Ss 0x23 = Some (Inr c)"
    by (auto split: option.splits sum.splits)
  from user_load_rules [of "0x23" "descriptor_from_bytes [0xFF, 0xFF, 0, 0, 0, 0xF2, 0x8F, 0]" Ss]
  have "sr_writable c \<noteq> 0" using c by (auto simp: grants_def)
  then show ?thesis using a c by blast
qed

text \<open>Real-mode spans are checked against the 64-KiB segment without wrapping: the emitted test
  denies exactly the spans whose last byte lies beyond offset FFFFh.\<close>

theorem real16_check_exact:
  assumes "bytes \<noteq> 0"
  shows "fst (segment_check Real16 seg r offset bytes i) \<longleftrightarrow> unat offset + unat bytes > 0x10000"
proof (cases "bytes \<ge> 0x10001")
  case True
  then show ?thesis by (simp add: segment_check_def word_le_nat_alt)
next
  case False
  then have "unat (0x10001 - bytes) = 0x10001 - unat bytes" by (simp add: unat_sub word_le_nat_alt)
  then show ?thesis using False by (auto simp: segment_check_def word_le_nat_alt)
qed

theorem real16_check_exact_witness:
  "\<not> fst (segment_check Real16 Ds (real_mode_register Ds 0xB800) 0xFFFE 2 Read) \<and>
   fst (segment_check Real16 Ds (real_mode_register Ds 0xB800) 0xFFFF 2 Read)"
  using real16_check_exact [of 2 Ds "real_mode_register Ds 0xB800" "0xFFFE" Read]
    real16_check_exact [of 2 Ds "real_mode_register Ds 0xB800" "0xFFFF" Read] by simp

end
