(* ===== verification/Cpu_Config.thy ===== *)
theory Cpu_Config
  imports Segments
begin

text \<open>
  Execution profiles as assumptions on a CPU (\<open>x86/src/profile.rs\<close>), the table registers
  (\<open>x86/src/state/layout/tables.rs\<close>) and the validation every CPU image passes before a machine takes it
  over (\<open>machine/src/config/cpu.rs\<close>, \<open>CpuStateAccess::restore\<close> of \<open>machine/src/cpu.rs\<close>). Of
  \<open>CpuState\<close> the record holds what this validation and the program loaders read or set; the loaders leave
  every other field at its default. Reserved padding bytes are left out of the table registers.
\<close>

subsection \<open>state/layout/tables.rs\<close>

record descriptor_table_register =
  dt_base :: u32
  dt_limit :: u16

definition REAL_MODE_IDTR :: descriptor_table_register where
  "REAL_MODE_IDTR = \<lparr>dt_base = 0, dt_limit = 0x3FF\<rparr>"

record system_segment_register =
  sy_base :: u32
  sy_limit :: u32
  sy_selector :: u16
  sy_usable :: u8
  sy_access_rights :: u32

subsection \<open>state/layout.rs, state/layout/segments.rs\<close>

fun segments_set :: "segments \<Rightarrow> segment \<Rightarrow> segment_register \<Rightarrow> segments" where
  "segments_set s Es r = s\<lparr>seg_es := r\<rparr>"
| "segments_set s Cs r = s\<lparr>seg_cs := r\<rparr>"
| "segments_set s Ss r = s\<lparr>seg_ss := r\<rparr>"
| "segments_set s Ds r = s\<lparr>seg_ds := r\<rparr>"
| "segments_set s Fs r = s\<lparr>seg_fs := r\<rparr>"
| "segments_set s Gs r = s\<lparr>seg_gs := r\<rparr>"

record cpu_state =
  cs_if :: u8
  cs_esp :: u32
  cs_eip :: u32
  cs_segments :: segments
  cs_gdtr :: descriptor_table_register
  cs_idtr :: descriptor_table_register
  cs_ldtr :: system_segment_register
  cs_tr :: system_segment_register

definition cpu_state_default :: cpu_state where
  "cpu_state_default =
     (let zero = \<lparr>sy_base = 0, sy_limit = 0, sy_selector = 0, sy_usable = 0, sy_access_rights = 0\<rparr> in
      \<lparr>cs_if = 0, cs_esp = 0, cs_eip = 0, cs_segments = segments_flat32, cs_gdtr = \<lparr>dt_base = 0, dt_limit = 0\<rparr>,
       cs_idtr = REAL_MODE_IDTR, cs_ldtr = zero, cs_tr = zero\<rparr>)"

subsection \<open>profile.rs\<close>

definition is_segment_compatible :: "execution_profile \<Rightarrow> segment \<Rightarrow> segment_register \<Rightarrow> bool" where
  "is_segment_compatible profile seg cache =
     (case profile of
        Protected p \<Rightarrow> assumptions_match (assumptions p seg) cache
      | Real16 \<Rightarrow> cache = real_mode_register seg (sr_selector cache))"

definition profile_compatible :: "execution_profile \<Rightarrow> segments \<Rightarrow> bool" where
  "profile_compatible profile s = list_all (\<lambda>seg. is_segment_compatible profile seg (segments_index s seg)) ALL_SEGMENTS"

subsection \<open>config.rs, config/cpu.rs\<close>

datatype configuration_error =
  UnsupportedProfile | IncompatibleCpu | InvalidMemorySize | InsufficientBacking | InvalidTableRegister

definition validate_idtr :: "execution_profile \<Rightarrow> descriptor_table_register \<Rightarrow> configuration_error + unit" where
  "validate_idtr profile idtr =
     (if profile = Real16 \<and> (dt_base idtr \<noteq> 0 \<or> dt_limit idtr \<noteq> 0x3FF) then Inl InvalidTableRegister else Inr ())"

definition validate_system_segment :: "system_segment_register \<Rightarrow> bool \<Rightarrow> configuration_error + unit" where
  "validate_system_segment r ldt =
     (if sy_usable r = 0 then Inr ()
      else
        let kind = drop_bit 8 (sy_access_rights r) AND 15;
            valid_type = (if ldt then kind = 2 else kind \<in> {1, 3, 9, 11}) in
        if sy_selector r AND NOT 3 = 0 \<or> sy_selector r AND 4 \<noteq> 0 \<or> sy_access_rights r AND 0x9000 \<noteq> 0x8000 \<or> \<not> valid_type
        then Inl InvalidTableRegister else Inr ())"

definition validate_cpu :: "execution_profile \<Rightarrow> cpu_state \<Rightarrow> configuration_error + unit" where
  "validate_cpu profile cpu =
     (if \<not> profile_compatible profile (cs_segments cpu) then Inl IncompatibleCpu
      else case validate_idtr profile (cs_idtr cpu) of
        Inl e \<Rightarrow> Inl e
      | Inr _ \<Rightarrow> (case validate_system_segment (cs_ldtr cpu) True of
            Inl e \<Rightarrow> Inl e
          | Inr _ \<Rightarrow> validate_system_segment (cs_tr cpu) False))"

text \<open>Restoring replaces the whole image, or fails before it writes.\<close>

definition cpu_restore :: "execution_profile \<Rightarrow> cpu_state \<Rightarrow> configuration_error + cpu_state" where
  "cpu_restore profile snapshot = (case validate_cpu profile snapshot of Inl e \<Rightarrow> Inl e | Inr _ \<Rightarrow> Inr snapshot)"

subsection \<open>Real mode\<close>

lemma segments_index_set: "segments_index (segments_set s seg r) q = (if q = seg then r else segments_index s q)"
  by (cases seg; cases q) simp_all

lemma real_mode_selector [simp]: "sr_selector (real_mode_register seg selector) = selector"
  by (simp add: real_mode_register_def flat_code32_def flat_data32_def)

text \<open>An image whose segments are all real-mode ones and whose table registers are the defaults is accepted.\<close>

lemma real_mode_restore:
  assumes "\<And>seg. \<exists>v. segments_index (cs_segments cpu) seg = real_mode_register seg v"
    and "cs_idtr cpu = REAL_MODE_IDTR" "sy_usable (cs_ldtr cpu) = 0" "sy_usable (cs_tr cpu) = 0"
  shows "cpu_restore Real16 cpu = Inr cpu"
proof -
  have "is_segment_compatible Real16 seg (segments_index (cs_segments cpu) seg)" for seg
    using assms(1) [of seg] by (auto simp: is_segment_compatible_def)
  then show ?thesis using assms(2-4)
    by (simp add: cpu_restore_def validate_cpu_def profile_compatible_def list_all_iff validate_idtr_def REAL_MODE_IDTR_def
        validate_system_segment_def)
qed

end
