(* ===== verification/Dos_Loader.thy ===== *)
theory Dos_Loader
  imports Dos_Memory Cpu_Config
begin

text \<open>
  Program loading of \<open>relocade-dos\<close>: the environment block and command tail of
  \<open>load.rs\<close>, process startup of \<open>process/startup.rs\<close> with the interrupt vectors of
  \<open>process/vectors.rs\<close>, and the COM and MZ loaders of \<open>com.rs\<close> and \<open>mz.rs\<close>. A panic
  (a slice or index out of range, a failed \<open>expect\<close>) is \<open>None\<close>; a load error is \<open>Inl\<close>.
\<close>

datatype load_error =
  EmptyImage | ImageTooLarge | CommandTailTooLong | InvalidEnvironment | EnvironmentTooLarge
| InvalidMzHeader | InvalidRelocation | LoadInsufficientMemory | UnsupportedOverlay

subsection \<open>Slices\<close>

definition blit :: "nat \<Rightarrow> u8 list \<Rightarrow> u8 list \<Rightarrow> u8 list option" where
  "blit offset bs xs =
     (if offset + length bs \<le> length xs then Some (take offset xs @ bs @ drop (offset + length bs) xs) else None)"

definition slice :: "nat \<Rightarrow> nat \<Rightarrow> u8 list \<Rightarrow> u8 list option" where
  "slice first end xs = (if first \<le> end \<and> end \<le> length xs then Some (take (end - first) (drop first xs)) else None)"

definition word :: "u8 list \<Rightarrow> nat \<Rightarrow> u16 option" where
  "word bs offset =
     (if offset + 1 < length bs then Some (from_le_bytes [bs ! offset, bs ! (offset + 1)]) else None)"

subsection \<open>load.rs\<close>

record load_options =
  command_tail :: "u8 list"
  environment :: "u8 list list"
  program_path :: "u8 list"

abbreviation COMMAND_TAIL_OFFSET :: nat where "COMMAND_TAIL_OFFSET \<equiv> 0x80"
abbreviation PSP_BYTES :: nat where "PSP_BYTES \<equiv> 0x100"
abbreviation PSP_PARAGRAPHS :: nat where "PSP_PARAGRAPHS \<equiv> 0x10"

definition validate_command_tail :: "load_options \<Rightarrow> load_error + unit" where
  "validate_command_tail opts =
     (if length (command_tail opts) > PSP_BYTES - COMMAND_TAIL_OFFSET - 2 then Inl CommandTailTooLong else Inr ())"

fun environment_entries :: "u8 list \<Rightarrow> u8 list list \<Rightarrow> load_error + u8 list" where
  "environment_entries bytes [] = Inr bytes"
| "environment_entries bytes (entry # rest) =
     (if 0 \<in> set entry \<or>
         \<not> (case position (\<lambda>byte. byte = 0x3D) entry of None \<Rightarrow> False | Some index \<Rightarrow> index > 0)
      then Inl InvalidEnvironment
      else if length entry \<ge> 0x10000 - length bytes then Inl EnvironmentTooLarge
      else environment_entries (bytes @ entry @ [0]) rest)"

definition environment_block :: "load_options \<Rightarrow> load_error + u8 list" where
  "environment_block opts =
     (if 0 \<in> set (program_path opts) then Inl InvalidEnvironment
      else case environment_entries [] (environment opts) of
        Inl e \<Rightarrow> Inl e
      | Inr bytes \<Rightarrow>
          (let bytes = (if bytes = [] then [0] else bytes) in
           if length bytes + 4 > 0x10000 \<or> length (program_path opts) > 0x10000 - length bytes - 4
           then Inl EnvironmentTooLarge
           else Inr (bytes @ [0, 1, 0] @ program_path opts @ [0])))"

subsection \<open>process/vectors.rs\<close>

definition save_vectors :: "mem \<Rightarrow> u8 list \<Rightarrow> u8 list option" where
  "save_vectors m psp = Option.bind (mem_read m 0x88 12) (\<lambda>vectors. blit 0x0A vectors psp)"

definition restore_vectors :: "mem \<Rightarrow> nat \<Rightarrow> mem option" where
  "restore_vectors m psp_segment =
     Option.bind (mem_read m (psp_segment * 16 + 0x0A) 12) (\<lambda>vectors. mem_write m 0x88 vectors)"

text \<open>The memory side of \<open>Process::terminate\<close>; closing the files is not part of it.\<close>

definition terminate_memory :: "mem \<Rightarrow> nat \<Rightarrow> mem option" where
  "terminate_memory m psp_segment = Option.bind (restore_vectors m psp_segment) memory_reset"

subsection \<open>process/startup.rs\<close>

definition build_psp :: "mem \<Rightarrow> nat \<Rightarrow> nat \<Rightarrow> nat \<Rightarrow> u8 list \<Rightarrow> u8 list option" where
  "build_psp m segment n environment_segment tail =
     Option.bind (blit 0 [0xCD, 0x20] (replicate PSP_BYTES 0)) (\<lambda>psp.
     Option.bind (blit 2 (to_le_bytes (of_nat (segment + n) :: u16)) psp) (\<lambda>psp.
     Option.bind (save_vectors m psp) (\<lambda>psp.
     Option.bind (blit 0x16 (to_le_bytes (of_nat segment :: u16)) psp) (\<lambda>psp.
     Option.bind (blit 0x2C (to_le_bytes (of_nat environment_segment :: u16)) psp) (\<lambda>psp.
     Option.bind (blit COMMAND_TAIL_OFFSET [of_nat (length tail)] psp) (\<lambda>psp.
     Option.bind (blit (COMMAND_TAIL_OFFSET + 1) tail psp) (\<lambda>psp.
       blit (COMMAND_TAIL_OFFSET + 1 + length tail) [0x0D] psp)))))))"

definition expect_ok :: "(mem \<times> ('e + 'a)) option \<Rightarrow> (mem \<times> 'a) option" where
  "expect_ok r = (case r of Some (m, Inr a) \<Rightarrow> Some (m, a) | _ \<Rightarrow> None)"

definition startup_allocate ::
  "mem \<Rightarrow> nat \<Rightarrow> nat \<Rightarrow> load_options \<Rightarrow> (mem \<times> (load_error + nat \<times> nat)) option" where
  "startup_allocate m minimum maximum opts =
     (case validate_command_tail opts of
        Inl e \<Rightarrow> Some (m, Inl e)
      | Inr _ \<Rightarrow>
     (case environment_block opts of
        Inl e \<Rightarrow> Some (m, Inl e)
      | Inr env \<Rightarrow>
     (let environment_paragraphs = div_ceil (length env) 16;
          available = AVAILABLE_PARAGRAPHS - environment_paragraphs - 1 in
      if minimum > available then Some (m, Inl LoadInsufficientMemory)
      else
        (let n = min (max maximum minimum) available in
         Option.bind (memory_reset m) (\<lambda>m.
         Option.bind (expect_ok (allocate m n (of_nat FIRST_SEGMENT))) (\<lambda>(m, segment).
         Option.bind (expect_ok (allocate m environment_paragraphs (of_nat segment))) (\<lambda>(m, environment_segment).
         Option.bind (mem_write m (environment_segment * 16) env) (\<lambda>m.
         Option.bind (build_psp m segment n environment_segment (command_tail opts)) (\<lambda>psp.
         Option.bind (mem_write m (segment * 16) psp) (\<lambda>m.
           Some (m, Inr (segment, n))))))))))))"

definition initial_cpu :: "u16 \<Rightarrow> cpu_state" where
  "initial_cpu psp_segment =
     (let segs = fold (\<lambda>seg s. segments_set s seg (real_mode_register seg psp_segment)) [Cs, Ds, Es, Ss] segments_real_mode in
      cpu_state_default\<lparr>cs_segments := segs, cs_if := 1\<rparr>)"

text \<open>The \<open>expect\<close> on \<open>CpuStateAccess::restore\<close>, whose target is that of the machine.\<close>

definition enter_program :: "execution_profile \<Rightarrow> cpu_state \<Rightarrow> cpu_state option" where
  "enter_program profile cpu = (case cpu_restore profile cpu of Inl _ \<Rightarrow> None | Inr cpu \<Rightarrow> Some cpu)"

subsection \<open>com.rs\<close>

definition com_load ::
  "execution_profile \<Rightarrow> mem \<Rightarrow> u8 list \<Rightarrow> load_options \<Rightarrow> (mem \<times> (load_error + nat \<times> cpu_state)) option" where
  "com_load profile m img opts =
     (if img = [] then Some (m, Inl EmptyImage)
      else if length img > 0xFFFE - PSP_BYTES then Some (m, Inl ImageTooLarge)
      else Option.bind (startup_allocate m (0x10000 div 16) AVAILABLE_PARAGRAPHS opts) (\<lambda>(m, r).
        case r of
          Inl e \<Rightarrow> Some (m, Inl e)
        | Inr (segment, n) \<Rightarrow>
            Option.bind (mem_write m (segment * 16 + PSP_BYTES) img) (\<lambda>m.
            Option.bind (mem_write m (segment * 16 + 0xFFFE) (to_le_bytes (0 :: u16))) (\<lambda>m.
            Option.bind (enter_program profile ((initial_cpu (of_nat segment))\<lparr>cs_esp := 0xFFFE, cs_eip := of_nat PSP_BYTES\<rparr>)) (\<lambda>cpu.
              Some (m, Inr (segment, cpu)))))))"

subsection \<open>mz.rs\<close>

record mz_image =
  mz_module :: "u8 list"
  mz_relocations :: "u8 list"
  min_extra :: nat
  max_extra :: nat
  mz_ss :: u16
  mz_sp :: u16
  mz_cs :: u16
  mz_ip :: u16

definition relocation_offset :: "u8 list \<Rightarrow> nat option" where
  "relocation_offset entry =
     Option.bind (word entry 2) (\<lambda>segment. Option.bind (word entry 0) (\<lambda>offset.
       Some (unat segment * 16 + unat offset)))"

fun chunks4 :: "u8 list \<Rightarrow> u8 list list" where
  "chunks4 (a # b # c # d # rest) = [a, b, c, d] # chunks4 rest"
| "chunks4 _ = []"

fun check_relocations :: "nat \<Rightarrow> u8 list list \<Rightarrow> bool option" where
  "check_relocations n [] = Some True"
| "check_relocations n (entry # rest) =
     Option.bind (relocation_offset entry) (\<lambda>offset.
       if offset + 2 > n then Some False else check_relocations n rest)"

definition parse_relocations :: "u8 list \<Rightarrow> nat \<Rightarrow> nat \<Rightarrow> (load_error + u8 list) option" where
  "parse_relocations file relocation_count header_bytes =
     (if relocation_count = 0 then Some (Inr [])
      else Option.bind (word file 0x18) (\<lambda>start.
        let end = unat start + relocation_count * 4 in
        if unat start < 28 \<or> end > header_bytes then Some (Inl InvalidRelocation)
        else map_option Inr (slice (unat start) end file)))"

text \<open>The second half of \<open>Image::parse\<close>, after the file size and header size are known.\<close>

definition mz_body :: "u8 list \<Rightarrow> nat \<Rightarrow> nat \<Rightarrow> nat \<Rightarrow> (load_error + mz_image) option" where
  "mz_body file relocation_count header_bytes file_bytes =
     Option.bind (word file 0x1A) (\<lambda>overlay.
       if overlay \<noteq> 0 then Some (Inl UnsupportedOverlay)
       else Option.bind (slice header_bytes file_bytes file) (\<lambda>module.
            Option.bind (parse_relocations file relocation_count header_bytes) (\<lambda>r.
              case r of
                Inl e \<Rightarrow> Some (Inl e)
              | Inr relocations \<Rightarrow>
                  Option.bind (check_relocations (length module) (chunks4 relocations)) (\<lambda>ok.
                    if \<not> ok then Some (Inl InvalidRelocation)
                    else
                      Option.bind (word file 0x0A) (\<lambda>min_extra.
                      Option.bind (word file 0x0C) (\<lambda>max_extra.
                      Option.bind (word file 0x0E) (\<lambda>ss.
                      Option.bind (word file 0x10) (\<lambda>sp.
                      Option.bind (word file 0x14) (\<lambda>ip.
                      Option.bind (word file 0x16) (\<lambda>cs.
                        Some (Inr \<lparr>mz_module = module, mz_relocations = relocations,
                          min_extra = unat min_extra, max_extra = unat max_extra,
                          mz_ss = ss, mz_sp = sp, mz_cs = cs, mz_ip = ip\<rparr>)))))))))))"

definition mz_parse :: "u8 list \<Rightarrow> (load_error + mz_image) option" where
  "mz_parse file =
     (if length file < 28 \<or> (take 2 file \<noteq> [0x4D, 0x5A] \<and> take 2 file \<noteq> [0x5A, 0x4D])
      then Some (Inl InvalidMzHeader)
      else
        Option.bind (word file 0x02) (\<lambda>last_page_bytes.
        Option.bind (word file 0x04) (\<lambda>pages.
        Option.bind (word file 0x06) (\<lambda>relocation_count.
        Option.bind (word file 0x08) (\<lambda>header_paragraphs.
        let header_bytes = unat header_paragraphs * 16 in
        if pages = 0 \<or> unat last_page_bytes \<ge> 512 then Some (Inl InvalidMzHeader)
        else
          let file_bytes = (unat pages - 1) * 512 + (if last_page_bytes = 0 then 512 else unat last_page_bytes) in
          if header_bytes < 28 \<or> header_bytes \<ge> file_bytes \<or> file_bytes > length file
          then Some (Inl InvalidMzHeader)
          else mz_body file (unat relocation_count) header_bytes file_bytes)))))"

fun relocate :: "u16 \<Rightarrow> u8 list list \<Rightarrow> u8 list \<Rightarrow> u8 list option" where
  "relocate load_segment [] module = Some module"
| "relocate load_segment (entry # rest) module =
     Option.bind (relocation_offset entry) (\<lambda>offset.
     Option.bind (word module offset) (\<lambda>w.
     Option.bind (blit offset (to_le_bytes (w + load_segment)) module) (\<lambda>module.
       relocate load_segment rest module)))"

definition mz_load ::
  "execution_profile \<Rightarrow> mem \<Rightarrow> u8 list \<Rightarrow> load_options \<Rightarrow> (mem \<times> (load_error + nat \<times> cpu_state)) option" where
  "mz_load profile m file opts =
     Option.bind (mz_parse file) (\<lambda>r.
       case r of
         Inl e \<Rightarrow> Some (m, Inl e)
       | Inr img \<Rightarrow>
           (let module_paragraphs = div_ceil (length (mz_module img)) 16;
                base_paragraphs = PSP_PARAGRAPHS + module_paragraphs;
                load_high = (min_extra img = 0 \<and> max_extra img = 0);
                maximum = (if load_high then AVAILABLE_PARAGRAPHS else base_paragraphs + max_extra img) in
            Option.bind (startup_allocate m (base_paragraphs + min_extra img) maximum opts) (\<lambda>(m, r).
              case r of
                Inl e \<Rightarrow> Some (m, Inl e)
              | Inr (psp_segment, n) \<Rightarrow>
                  (let load_segment = (if load_high then psp_segment + n - module_paragraphs
                                       else psp_segment + PSP_PARAGRAPHS);
                       seg = (of_nat load_segment :: u16) in
                   Option.bind (relocate seg (chunks4 (mz_relocations img)) (mz_module img)) (\<lambda>module.
                   Option.bind (mem_write m (load_segment * 16) module) (\<lambda>m.
                     (let cpu = initial_cpu (of_nat psp_segment);
                          segs = segments_set (cs_segments cpu) Cs (real_mode_register Cs (seg + mz_cs img));
                          segs = segments_set segs Ss (real_mode_register Ss (seg + mz_ss img)) in
                      Option.bind (enter_program profile
                          (cpu\<lparr>cs_segments := segs, cs_eip := ucast (mz_ip img), cs_esp := ucast (mz_sp img)\<rparr>)) (\<lambda>cpu.
                        Some (m, Inr (psp_segment, cpu))))))))))"

subsection \<open>Slices\<close>

lemma blit_Some: "offset + length bs \<le> length xs \<Longrightarrow> \<exists>ys. blit offset bs xs = Some ys \<and> length ys = length xs"
  by (simp add: blit_def)

lemma blit_nth:
  "blit offset bs xs = Some ys \<Longrightarrow> i < length xs \<Longrightarrow>
     ys ! i = (if offset \<le> i \<and> i < offset + length bs then bs ! (i - offset) else xs ! i)"
  by (auto simp: blit_def nth_append min_def split: if_splits)

lemma blit_length: "blit offset bs xs = Some ys \<Longrightarrow> length ys = length xs"
  by (auto simp: blit_def split: if_splits)

subsection \<open>The entry state\<close>

lemma real_mode_data: "seg \<noteq> Cs \<Longrightarrow> seg' \<noteq> Cs \<Longrightarrow> real_mode_register seg v = real_mode_register seg' v"
  by (simp add: real_mode_register_def)

lemma initial_cpu_segments:
  "segments_index (cs_segments (initial_cpu v)) seg = real_mode_register seg (if seg \<in> {Cs, Ds, Es, Ss} then v else 0)"
  by (cases seg) (simp_all add: initial_cpu_def segments_real_mode_def Let_def real_mode_register_def)

lemma cpu_state_swap: "c\<lparr>cs_esp := sp, cs_eip := ip\<rparr> = c\<lparr>cs_segments := cs_segments c, cs_eip := ip, cs_esp := sp\<rparr>"
  by (cases c) simp

lemma initial_cpu_enters:
  assumes "\<And>seg. \<exists>v. segments_index segs seg = real_mode_register seg v"
  shows "enter_program Real16 ((initial_cpu psp)\<lparr>cs_segments := segs, cs_eip := ip, cs_esp := sp\<rparr>) =
    Some ((initial_cpu psp)\<lparr>cs_segments := segs, cs_eip := ip, cs_esp := sp\<rparr>)"
  unfolding enter_program_def
  by (subst real_mode_restore) (simp_all add: assms initial_cpu_def Let_def cpu_state_default_def)

subsection \<open>Data written into a block\<close>

lemma map_sum_Inr: "map_sum f g z = Inr y \<longleftrightarrow> (\<exists>x. z = Inr x \<and> y = g x)"
  by (cases z) auto

lemma read_from_cong:
  "read_from m a = Some (Inr bs) \<Longrightarrow> (\<And>b i. b \<in> set bs \<Longrightarrow> i < 5 \<Longrightarrow> m' (mcb b * 16 + i) = m (mcb b * 16 + i)) \<Longrightarrow>
     read_from m' a = Some (Inr bs)"
proof (induction m a arbitrary: bs rule: read_from.induct)
  case (1 m a)
  obtain h where h: "mem_read m (a * 16) 5 = Some h"
    using 1(2) by (subst (asm) read_from.simps) (auto split: option.splits)
  let ?n = "unat (from_le_bytes [h ! 3, h ! 4] :: u16)"
  let ?b = "\<lparr>mcb = a, owner = from_le_bytes [h ! 1, h ! 2], paragraphs = ?n\<rparr>"
  have hd: "\<exists>cs. bs = ?b # cs"
    using 1(2) by (subst (asm) read_from.simps) (auto simp: h Let_def map_sum_Inr split: if_splits)
  then have "mem_read m' (a * 16) 5 = mem_read m (a * 16) 5"
    using 1(3) [of ?b] by (auto simp: mem_read_def)
  then have h': "mem_read m' (a * 16) 5 = Some h" using h by simp
  show ?case
  proof (cases "h ! 0 = 0x5A")
    case True
    then show ?thesis using 1(2)
      by (subst read_from.simps, subst (asm) read_from.simps) (simp add: h h' Let_def split: if_splits)
  next
    case False
    let ?rec = "\<lambda>m. map_option (map_sum (\<lambda>e. e) (Cons ?b)) (read_from m (a + 1 + ?n))"
    have ok: "h ! 0 = 0x4D" "a + 1 + ?n \<le> END_SEGMENT" "a + 1 + ?n \<noteq> END_SEGMENT"
      using 1(2) False by (subst (asm) read_from.simps; auto simp: h Let_def split: if_splits)+
    have "read_from m a = ?rec m" "read_from m' a = ?rec m'"
      using ok False by (subst read_from.simps, simp add: h h' Let_def)+
    moreover from this(1) 1(2) have "?rec m = Some (Inr bs)" by simp
    then obtain cs where "read_from m (a + 1 + ?n) = Some (Inr cs)" "bs = ?b # cs"
      by (auto simp: map_sum_Inr)
    ultimately show ?thesis using "1.IH" [OF h refl refl refl refl] ok False 1(3) by force
  qed
qed

lemma write_data_arena:
  assumes "arena m = Some A" and "A s = Some (n, own)" and "16 * s \<le> address"
    and "address + length bs \<le> 16 * (s + n)"
  obtains m' where "mem_write m address bs = Some m'" and "arena m' = Some A"
    and "\<And>x. m' x = (if address \<le> x \<and> x < address + length bs then bs ! (x - address) else m x)"
proof (rule arena_cases [of m])
  fix cs assume r: "read_chain m = Some (Inr cs)" and l: "linked FIRST_MCB cs END_SEGMENT"
    and "arena m = Some (allocs cs)"
  then have A: "A = allocs cs" using assms(1) by simp
  let ?b = "\<lparr>mcb = s - 1, owner = own, paragraphs = n\<rparr>"
  let ?m = "\<lambda>x. if address \<le> x \<and> x < address + length bs then bs ! (x - address) else m x"
  have s: "FIRST_MCB < s" "s + n \<le> END_SEGMENT" "?b \<in> set cs"
    using allocs_keys [OF l] assms(2) A by blast+
  have "address + length bs \<le> CONVENTIONAL_MEMORY_SIZE" using assms(4) mult_le_mono2 [OF s(2), of 16] by linarith
  then have w: "mem_write m address bs = Some ?m" by (simp add: mem_write_def)
  have "?m (mcb c * 16 + i) = m (mcb c * 16 + i)" if "c \<in> set cs" "i < 5" for c i
    using linked_pair [OF l s(3) that(1)] s(1) that(2) assms(3,4) by fastforce
  then have "read_chain ?m = Some (Inr cs)"
    using r read_from_cong [of m FIRST_MCB cs ?m] unfolding read_chain_def by blast
  then have "arena ?m = Some A" using A by (simp add: arena_def)
  then show ?thesis using that w by blast
qed (use assms in simp)

subsection \<open>Startup\<close>

lemma environment_entries_length:
  "environment_entries bytes es = Inr env \<Longrightarrow> length bytes \<le> 0x10000 \<Longrightarrow> length env \<le> 0x10000"
proof (induction bytes es rule: environment_entries.induct)
  case (2 bytes entry rest)
  then show ?case by (auto split: if_splits)
qed simp

lemma environment_block_length: "environment_block opts = Inr env \<Longrightarrow> length env \<le> 0x10000"
  using environment_entries_length [of "[]"]
  by (auto simp: environment_block_def Let_def split: if_splits sum.splits)

lemma save_vectors_Some:
  assumes "length psp = PSP_BYTES"
  obtains psp' where "save_vectors m psp = Some psp'" and "length psp' = PSP_BYTES"
    and "\<And>i. i < PSP_BYTES \<Longrightarrow> psp' ! i = (if 0x0A \<le> i \<and> i < 0x16 then m (0x88 + (i - 0x0A)) else psp ! i)"
proof -
  let ?v = "map (\<lambda>i. m (0x88 + i)) [0..<12]"
  have r: "mem_read m 0x88 12 = Some ?v" by (simp add: mem_read_def)
  obtain psp' where p: "blit 0x0A ?v psp = Some psp'" "length psp' = PSP_BYTES"
    using blit_Some [of "0x0A" ?v psp] assms by auto
  have "psp' ! i = (if 0x0A \<le> i \<and> i < 0x16 then m (0x88 + (i - 0x0A)) else psp ! i)" if "i < PSP_BYTES" for i
    using blit_nth [OF p(1), of i] that assms by (auto simp: nth_map nth_upt)
  then show ?thesis using that p r by (simp add: save_vectors_def)
qed

lemma build_psp_Some:
  assumes "length tail \<le> 126"
  obtains psp where "build_psp m segment n e tail = Some psp" and "length psp = PSP_BYTES"
    and "\<And>i. i < 12 \<Longrightarrow> psp ! (0x0A + i) = m (0x88 + i)"
    and "take 2 psp = [0xCD, 0x20]" and "take 2 (drop 2 psp) = to_le_bytes (of_nat (segment + n) :: u16)"
    and "take 2 (drop 0x2C psp) = to_le_bytes (of_nat e :: u16)"
    and "psp ! COMMAND_TAIL_OFFSET = of_nat (length tail)"
    and "take (length tail + 1) (drop (COMMAND_TAIL_OFFSET + 1) psp) = tail @ [0x0D]"
proof -
  obtain p1 where p1: "blit 0 [0xCD, 0x20] (replicate PSP_BYTES 0) = Some p1" "length p1 = PSP_BYTES"
    using blit_Some [of 0 "[0xCD, 0x20]" "replicate PSP_BYTES 0"] by auto
  obtain p2 where p2: "blit 2 (to_le_bytes (of_nat (segment + n) :: u16)) p1 = Some p2" "length p2 = PSP_BYTES"
    using blit_Some [of 2 "to_le_bytes (of_nat (segment + n) :: u16)" p1] p1(2) by auto
  obtain p3 where p3: "save_vectors m p2 = Some p3" "length p3 = PSP_BYTES"
    "\<And>i. i < PSP_BYTES \<Longrightarrow> p3 ! i = (if 0x0A \<le> i \<and> i < 0x16 then m (0x88 + (i - 0x0A)) else p2 ! i)"
    using save_vectors_Some [OF p2(2), of m] by blast
  obtain p4 where p4: "blit 0x16 (to_le_bytes (of_nat segment :: u16)) p3 = Some p4" "length p4 = PSP_BYTES"
    using blit_Some [of "0x16" "to_le_bytes (of_nat segment :: u16)" p3] p3(2) by auto
  obtain p5 where p5: "blit 0x2C (to_le_bytes (of_nat e :: u16)) p4 = Some p5" "length p5 = PSP_BYTES"
    using blit_Some [of "0x2C" "to_le_bytes (of_nat e :: u16)" p4] p4(2) by auto
  obtain p6 where p6: "blit COMMAND_TAIL_OFFSET [of_nat (length tail)] p5 = Some p6" "length p6 = PSP_BYTES"
    using blit_Some [of COMMAND_TAIL_OFFSET "[of_nat (length tail)]" p5] p5(2) by auto
  obtain p7 where p7: "blit (COMMAND_TAIL_OFFSET + 1) tail p6 = Some p7" "length p7 = PSP_BYTES"
    using blit_Some [of "COMMAND_TAIL_OFFSET + 1" tail p6] p6(2) assms by auto
  obtain p8 where p8: "blit (COMMAND_TAIL_OFFSET + 1 + length tail) [0x0D] p7 = Some p8" "length p8 = PSP_BYTES"
    using blit_Some [of "COMMAND_TAIL_OFFSET + 1 + length tail" "[0x0D]" p7] p7(2) assms by auto
  note nths = blit_nth [OF p8(1)] blit_nth [OF p7(1)] blit_nth [OF p6(1)] blit_nth [OF p5(1)] blit_nth [OF p4(1)]
    p3(3) blit_nth [OF p2(1)] blit_nth [OF p1(1)]
  note lens = p1(2) p2(2) p3(2) p4(2) p5(2) p6(2) p7(2) p8(2)
  show ?thesis
  proof (rule that [of p8])
    show "build_psp m segment n e tail = Some p8"
      using p1(1) p2(1) p3(1) p4(1) p5(1) p6(1) p7(1) p8(1) by (simp add: build_psp_def)
    show "p8 ! (0x0A + i) = m (0x88 + i)" if "i < 12" for i
      using that by (simp add: nths lens)
    show "take 2 p8 = [0xCD, 0x20]" by (rule nth_equalityI) (auto simp: nths lens less_Suc_eq numeral_2_eq_2)
    show "take 2 (drop 2 p8) = to_le_bytes (of_nat (segment + n) :: u16)"
      by (rule nth_equalityI) (auto simp: nths lens)
    show "take 2 (drop 0x2C p8) = to_le_bytes (of_nat e :: u16)"
      by (rule nth_equalityI) (auto simp: nths lens)
    show "p8 ! COMMAND_TAIL_OFFSET = of_nat (length tail)" using assms by (simp add: nths lens)
    show "take (length tail + 1) (drop (COMMAND_TAIL_OFFSET + 1) p8) = tail @ [0x0D]"
      using assms by (intro nth_equalityI) (auto simp: nths lens nth_append)
  qed (use lens in simp_all)
qed

text \<open>The memory a started process finds: its block and its environment, and in them the program
  segment prefix and the environment strings.\<close>

definition started :: "mem \<Rightarrow> load_options \<Rightarrow> u8 list \<Rightarrow> nat \<Rightarrow> mem \<Rightarrow> bool" where
  "started m0 opts env n m \<longleftrightarrow>
     (let e = FIRST_SEGMENT + n + 1; psp = map (\<lambda>i. m (FIRST_SEGMENT * 16 + i)) [0..<PSP_BYTES] in
      arena m = Some [FIRST_SEGMENT \<mapsto> (n, 0x1000), e \<mapsto> (div_ceil (length env) 16, 0x1000)] \<and>
      map (\<lambda>i. m (e * 16 + i)) [0..<length env] = env \<and>
      take 2 psp = [0xCD, 0x20] \<and> take 2 (drop 2 psp) = to_le_bytes (of_nat (FIRST_SEGMENT + n) :: u16) \<and>
      take 12 (drop 0x0A psp) = map (\<lambda>i. m0 (0x88 + i)) [0..<12] \<and>
      take 2 (drop 0x2C psp) = to_le_bytes (of_nat e :: u16) \<and>
      psp ! COMMAND_TAIL_OFFSET = of_nat (length (command_tail opts)) \<and>
      take (length (command_tail opts) + 1) (drop (COMMAND_TAIL_OFFSET + 1) psp) = command_tail opts @ [0x0D])"

lemma div_ceil_16: "16 * div_ceil k 16 \<ge> k" "k \<le> 0x10000 \<Longrightarrow> div_ceil k 16 \<le> 0x1000"
  by (auto simp: div_ceil_def)

lemma startup_arenas:
  assumes "p + e + 1 \<le> AVAILABLE_PARAGRAPHS"
  obtains m1 m2 m3 where "memory_reset m = Some m1"
    and "allocate m1 p 0x1000 = Some (m2, Inr FIRST_SEGMENT)"
    and "allocate m2 e 0x1000 = Some (m3, Inr (FIRST_SEGMENT + p + 1))"
    and "arena m3 = Some [FIRST_SEGMENT \<mapsto> (p, 0x1000), FIRST_SEGMENT + p + 1 \<mapsto> (e, 0x1000)]"
    and "\<And>x. x < 16 * FIRST_MCB \<Longrightarrow> m3 x = m x"
proof -
  obtain m1 where m1: "memory_reset m = Some m1" "arena m1 = Some Map.empty" "keeps_data Map.empty m m1"
    using memory_reset_arena by blast
  have "placeable Map.empty FIRST_SEGMENT p" using assms by (simp add: placeable_def)
  from allocate_fits [OF m1(2) _ this, of "0x1000"] obtain m2
    where m2: "allocate m1 p 0x1000 = Some (m2, Inr FIRST_SEGMENT)" "arena m2 = Some [FIRST_SEGMENT \<mapsto> (p, 0x1000)]"
      "keeps_data [FIRST_SEGMENT \<mapsto> (p, 0x1000)] m1 m2"
    by (auto simp: placeable_def)
  have "placeable [FIRST_SEGMENT \<mapsto> (p, 0x1000)] (FIRST_SEGMENT + p + 1) e"
    using assms by (simp add: placeable_def)
  from allocate_fits [OF m2(2) _ this, of "0x1000"] obtain m3 s
    where m3: "allocate m2 e 0x1000 = Some (m3, Inr s)" "s \<le> FIRST_SEGMENT + p + 1"
      "placeable [FIRST_SEGMENT \<mapsto> (p, 0x1000)] s e"
      "arena m3 = Some [FIRST_SEGMENT \<mapsto> (p, 0x1000), s \<mapsto> (e, 0x1000)]"
      "keeps_data [FIRST_SEGMENT \<mapsto> (p, 0x1000), s \<mapsto> (e, 0x1000)] m2 m3"
    by auto
  have "s = FIRST_SEGMENT + p + 1" using m3(2,3) by (auto simp: placeable_def)
  then show ?thesis using that m1 m2 m3 by (auto simp: keeps_data_def)
qed

lemma startup_ok:
  assumes "environment_block opts = Inr env" and "length (command_tail opts) \<le> 126"
    and "minimum \<le> AVAILABLE_PARAGRAPHS - div_ceil (length env) 16 - 1" and "PSP_PARAGRAPHS \<le> minimum"
  obtains m' n where "startup_allocate m minimum maximum opts = Some (m', Inr (FIRST_SEGMENT, n))"
    and "n = min (max maximum minimum) (AVAILABLE_PARAGRAPHS - div_ceil (length env) 16 - 1)"
    and "minimum \<le> n" and "n \<le> AVAILABLE_PARAGRAPHS" and "started m opts env n m'"
proof -
  let ?e = "div_ceil (length env) 16"
  define n where "n = min (max maximum minimum) (AVAILABLE_PARAGRAPHS - ?e - 1)"
  let ?env = "FIRST_SEGMENT + n + 1"
  let ?A = "[FIRST_SEGMENT \<mapsto> (n, 0x1000), ?env \<mapsto> (?e, 0x1000)] :: nat \<rightharpoonup> nat \<times> u16"
  have e: "?e \<le> 0x1000" "length env \<le> 16 * ?e"
    using div_ceil_16 environment_block_length [OF assms(1)] by auto
  have n: "n + ?e + 1 \<le> AVAILABLE_PARAGRAPHS" "minimum \<le> n" "16 \<le> n"
    using assms(3,4) e by (auto simp: n_def)
  obtain m1 m2 m3 where m: "memory_reset m = Some m1" "allocate m1 n 0x1000 = Some (m2, Inr FIRST_SEGMENT)"
    "allocate m2 ?e 0x1000 = Some (m3, Inr ?env)" "arena m3 = Some ?A" "\<And>x. x < 16 * FIRST_MCB \<Longrightarrow> m3 x = m x"
    using startup_arenas [OF n(1), of m] by blast
  obtain m4 where m4: "mem_write m3 (?env * 16) env = Some m4" "arena m4 = Some ?A"
    "\<And>x. m4 x = (if ?env * 16 \<le> x \<and> x < ?env * 16 + length env then env ! (x - ?env * 16) else m3 x)"
    by (rule write_data_arena [OF m(4), of ?env ?e "0x1000" "?env * 16" env]) (use e in auto)
  obtain psp where psp: "build_psp m4 FIRST_SEGMENT n ?env (command_tail opts) = Some psp" "length psp = PSP_BYTES"
    "\<And>i. i < 12 \<Longrightarrow> psp ! (0x0A + i) = m4 (0x88 + i)" "take 2 psp = [0xCD, 0x20]"
    "take 2 (drop 2 psp) = to_le_bytes (of_nat (FIRST_SEGMENT + n) :: u16)"
    "take 2 (drop 0x2C psp) = to_le_bytes (of_nat ?env :: u16)"
    "psp ! COMMAND_TAIL_OFFSET = of_nat (length (command_tail opts))"
    "take (length (command_tail opts) + 1) (drop (COMMAND_TAIL_OFFSET + 1) psp) = command_tail opts @ [0x0D]"
    using build_psp_Some [OF assms(2), of m4 FIRST_SEGMENT n ?env] by blast
  obtain m5 where m5: "mem_write m4 (FIRST_SEGMENT * 16) psp = Some m5" "arena m5 = Some ?A"
    "\<And>x. m5 x = (if FIRST_SEGMENT * 16 \<le> x \<and> x < FIRST_SEGMENT * 16 + length psp then psp ! (x - FIRST_SEGMENT * 16) else m4 x)"
    by (rule write_data_arena [OF m4(2), of FIRST_SEGMENT n "0x1000" "FIRST_SEGMENT * 16" psp]) (use n psp(2) in auto)
  have inpsp: "map (\<lambda>i. m5 (FIRST_SEGMENT * 16 + i)) [0..<PSP_BYTES] = psp"
    using psp(2) by (intro nth_equalityI) (auto simp: m5(3))
  have inenv: "map (\<lambda>i. m5 (?env * 16 + i)) [0..<length env] = env"
    using n(3) psp(2) by (intro nth_equalityI) (auto simp: m5(3) m4(3))
  have vectors: "take 12 (drop 0x0A psp) = map (\<lambda>i. m (0x88 + i)) [0..<12]"
    using psp(2) by (intro nth_equalityI) (auto simp: psp(3) m4(3) m(5))
  have "started m opts env n m5"
    unfolding started_def Let_def inpsp inenv using m5(2) psp(4-8) vectors by blast
  moreover have "startup_allocate m minimum maximum opts = Some (m5, Inr (FIRST_SEGMENT, n))"
  proof -
    have "expect_ok (allocate m1 n (of_nat FIRST_SEGMENT)) = Some (m2, FIRST_SEGMENT)"
      "expect_ok (allocate m2 ?e (of_nat FIRST_SEGMENT)) = Some (m3, ?env)"
      using m(2,3) by (simp_all add: expect_ok_def)
    moreover have "validate_command_tail opts = Inr ()" using assms(2) by (simp add: validate_command_tail_def)
    moreover have "\<not> minimum > AVAILABLE_PARAGRAPHS - ?e - 1" using assms(3) by simp
    ultimately show ?thesis
      unfolding startup_allocate_def Let_def
      by (simp only: assms(1) m(1) m4(1) psp(1) m5(1) sum.case if_False bind.bind_lunit prod.case flip: n_def)
  qed
  ultimately show ?thesis using that n n_def by auto
qed

lemma startup_cases:
  assumes "PSP_PARAGRAPHS \<le> minimum"
  obtains (refused) e where "startup_allocate m minimum maximum opts = Some (m, Inl e)"
  | (ok) m' n env where "startup_allocate m minimum maximum opts = Some (m', Inr (FIRST_SEGMENT, n))"
    and "environment_block opts = Inr env" and "minimum \<le> n" and "n \<le> AVAILABLE_PARAGRAPHS"
    and "maximum \<le> n \<or> n = AVAILABLE_PARAGRAPHS - div_ceil (length env) 16 - 1 \<or> n = minimum"
    and "started m opts env n m'"
proof (cases "environment_block opts")
  case (Inl e)
  then have "\<exists>e. startup_allocate m minimum maximum opts = Some (m, Inl e)"
    by (simp add: startup_allocate_def validate_command_tail_def)
  then show ?thesis using refused by blast
next
  case (Inr env)
  show ?thesis
  proof (cases "length (command_tail opts) \<le> 126 \<and> minimum \<le> AVAILABLE_PARAGRAPHS - div_ceil (length env) 16 - 1")
    case True
    show ?thesis
      by (rule startup_ok [OF Inr _ _ assms, of m maximum]) (use True Inr ok in \<open>auto simp: min_def max_def split: if_splits\<close>)
  next
    case False
    then have "\<exists>e. startup_allocate m minimum maximum opts = Some (m, Inl e)"
      using Inr by (auto simp: startup_allocate_def validate_command_tail_def Let_def)
    then show ?thesis using refused by blast
  qed
qed

subsection \<open>Parsing and relocating an MZ file\<close>

lemma word_eq: "offset + 1 < length bs \<Longrightarrow> word bs offset = Some (from_le_bytes [bs ! offset, bs ! (offset + 1)])"
  by (simp add: word_def)

lemma chunks4_length: "c \<in> set (chunks4 bs) \<Longrightarrow> length c = 4"
  by (induction bs rule: chunks4.induct) auto

lemma relocation_offset_Some: "length c = 4 \<Longrightarrow> \<exists>offset. relocation_offset c = Some offset"
  by (simp add: relocation_offset_def word_eq)

lemma check_relocations_eq:
  "(\<And>c. c \<in> set cs \<Longrightarrow> length c = 4) \<Longrightarrow>
     check_relocations n cs = Some (\<forall>c\<in>set cs. \<forall>offset. relocation_offset c = Some offset \<longrightarrow> offset + 2 \<le> n)"
proof (induction cs)
  case (Cons c cs)
  obtain offset where "relocation_offset c = Some offset" using relocation_offset_Some Cons.prems by (meson list.set_intros(1))
  then show ?case using Cons by auto
qed simp

definition relocations_fit :: "mz_image \<Rightarrow> bool" where
  "relocations_fit img \<longleftrightarrow> (\<forall>c\<in>set (chunks4 (mz_relocations img)). \<forall>offset.
     relocation_offset c = Some offset \<longrightarrow> offset + 2 \<le> length (mz_module img))"

lemma parse_relocations_total:
  assumes "28 \<le> length file" and "header_bytes \<le> length file"
  shows "parse_relocations file count header_bytes \<noteq> None"
  using assms by (auto simp: parse_relocations_def word_eq slice_def Let_def)

lemma mz_body_cases:
  assumes "28 \<le> length file" and "header < extent" and "extent \<le> length file"
  shows "(\<exists>e. mz_body file count header extent = Some (Inl e)) \<or>
    (\<exists>img. mz_body file count header extent = Some (Inr img) \<and> relocations_fit img \<and>
       0 < length (mz_module img) \<and> length (mz_module img) \<le> length file)"
proof -
  have w: "\<exists>v. word file i = Some v" if "i \<le> 0x1A" for i using that assms(1) by (simp add: word_eq)
  obtain overlay w1 w2 w3 w4 w5 w6 where ws: "word file 0x1A = Some overlay" "word file 0x0A = Some w1"
    "word file 0x0C = Some w2" "word file 0x0E = Some w3" "word file 0x10 = Some w4" "word file 0x14 = Some w5"
    "word file 0x16 = Some w6"
    using w [of "0x1A"] w [of "0x0A"] w [of "0x0C"] w [of "0x0E"] w [of "0x10"] w [of "0x14"] w [of "0x16"] by auto
  define module where "module = take (extent - header) (drop header file)"
  have m: "slice header extent file = Some module" "0 < length module" "length module \<le> length file"
    using assms by (simp_all add: slice_def module_def)
  obtain r where r: "parse_relocations file count header = Some r"
    using parse_relocations_total [OF assms(1), of header count] assms by fastforce
  show ?thesis
  proof (cases "overlay = 0 \<and> (\<exists>rel. r = Inr rel)")
    case True
    then obtain rel where rel: "r = Inr rel" "overlay = 0" by blast
    have c: "check_relocations (length module) (chunks4 rel) =
        Some (\<forall>c\<in>set (chunks4 rel). \<forall>offset. relocation_offset c = Some offset \<longrightarrow> offset + 2 \<le> length module)"
      by (rule check_relocations_eq) (rule chunks4_length)
    show ?thesis unfolding mz_body_def ws m(1) r rel bind.bind_lunit sum.case c using m(2,3)
      by (simp add: relocations_fit_def)
  next
    case False
    then show ?thesis by (cases r) (auto simp: mz_body_def ws m(1) r)
  qed
qed

lemma mz_parse_cases:
  obtains (refused) e where "mz_parse file = Some (Inl e)"
  | (ok) img where "mz_parse file = Some (Inr img)" and "relocations_fit img"
      and "0 < length (mz_module img)" and "length (mz_module img) \<le> length file"
proof (cases "28 \<le> length file")
  case True
  have w: "\<exists>v. word file i = Some v" if "i \<le> 0x1A" for i using that True by (simp add: word_eq)
  obtain w1 w2 w3 w4 where ws: "word file 0x02 = Some w1" "word file 0x04 = Some w2"
    "word file 0x06 = Some w3" "word file 0x08 = Some w4"
    using w [of "0x02"] w [of "0x04"] w [of "0x06"] w [of "0x08"] by auto
  let ?header = "unat w4 * 16"
  let ?size = "(unat w2 - 1) * 512 + (if w1 = 0 then 512 else unat w1)"
  have "mz_parse file = Some (Inl InvalidMzHeader) \<or>
      ?header < ?size \<and> ?size \<le> length file \<and> mz_parse file = mz_body file (unat w3) ?header ?size"
    using True by (simp add: mz_parse_def ws Let_def)
  then show ?thesis using mz_body_cases [OF True, of ?header ?size "unat w3"] refused ok by metis
next
  case False
  then have "mz_parse file = Some (Inl InvalidMzHeader)" by (simp add: mz_parse_def)
  then show ?thesis by (rule refused)
qed

lemma relocate_total:
  "(\<And>c offset. c \<in> set cs \<Longrightarrow> relocation_offset c = Some offset \<Longrightarrow> offset + 2 \<le> length module) \<Longrightarrow>
     (\<And>c. c \<in> set cs \<Longrightarrow> length c = 4) \<Longrightarrow>
     \<exists>module'. relocate seg cs module = Some module' \<and> length module' = length module"
proof (induction cs arbitrary: module)
  case (Cons c cs)
  obtain offset where o: "relocation_offset c = Some offset" "offset + 2 \<le> length module"
    using relocation_offset_Some Cons.prems by (meson list.set_intros(1))
  obtain w where w: "word module offset = Some w" using o(2) by (simp add: word_eq)
  obtain nxt where n: "blit offset (to_le_bytes (w + seg)) module = Some nxt" "length nxt = length module"
    using blit_Some [of offset "to_le_bytes (w + seg)" module] o(2) by auto
  show ?case using Cons.IH [of nxt] Cons.prems n o w by auto
qed simp

lemma relocate_frame:
  "relocate seg cs module = Some module' \<Longrightarrow> i < length module \<Longrightarrow>
     (\<And>c offset. c \<in> set cs \<Longrightarrow> relocation_offset c = Some offset \<Longrightarrow> i < offset \<or> offset + 2 \<le> i) \<Longrightarrow>
     module' ! i = module ! i"
proof (induction cs arbitrary: module)
  case (Cons c cs)
  then obtain offset w nxt where c: "relocation_offset c = Some offset"
    "blit offset (to_le_bytes (w + seg)) module = Some nxt" "relocate seg cs nxt = Some module'"
    by (auto simp: bind_eq_Some_conv)
  have "module' ! i = nxt ! i" using Cons.IH [OF c(3)] Cons.prems(2,3) blit_length [OF c(2)] by auto
  moreover have "nxt ! i = module ! i" using blit_nth [OF c(2) Cons.prems(2)] Cons.prems(3) [OF _ c(1)] by auto
  ultimately show ?case by simp
qed simp

lemma relocate_word:
  assumes "relocate seg (pre @ c # post) module = Some module'" and "relocation_offset c = Some offset"
    and "offset + 2 \<le> length module"
    and "\<And>d k. d \<in> set (pre @ post) \<Longrightarrow> relocation_offset d = Some k \<Longrightarrow> k + 2 \<le> offset \<or> offset + 2 \<le> k"
  shows "word module' offset = map_option (\<lambda>w. w + seg) (word module offset)"
  using assms
proof (induction pre arbitrary: module)
  case Nil
  then obtain w nxt where w: "word module offset = Some w" "blit offset (to_le_bytes (w + seg)) module = Some nxt"
    "relocate seg post nxt = Some module'" by (auto simp: bind_eq_Some_conv)
  have same: "module' ! i = nxt ! i" if "offset \<le> i" "i < offset + 2" for i
    using relocate_frame [OF w(3), of i] Nil.prems(3,4) that blit_length [OF w(2)] by fastforce
  have len: "length module' = length module"
    using w(3) blit_length [OF w(2)] by (induction post arbitrary: nxt) (fastforce simp: bind_eq_Some_conv dest: blit_length)+
  have "nxt ! offset = to_le_bytes (w + seg) ! 0" "nxt ! (offset + 1) = to_le_bytes (w + seg) ! 1"
    using blit_nth [OF w(2), of offset] blit_nth [OF w(2), of "offset + 1"] Nil.prems(3) by simp_all
  moreover obtain lo hi where "to_le_bytes (w + seg) = [lo, hi]" "from_le_bytes [lo, hi] = w + seg"
    by (rule le_bytes_u16)
  ultimately have "from_le_bytes [module' ! offset, module' ! (offset + 1)] = w + seg"
    using same [of offset] same [of "offset + 1"] by simp
  then show ?case using w(1) len Nil.prems(3) by (simp add: word_eq del: from_le_bytes.simps)
next
  case (Cons d pre)
  then obtain k w nxt where d: "relocation_offset d = Some k"
    "blit k (to_le_bytes (w + seg)) module = Some nxt" "relocate seg (pre @ c # post) nxt = Some module'"
    by (auto simp: bind_eq_Some_conv)
  have "k + 2 \<le> offset \<or> offset + 2 \<le> k" using Cons.prems(4) [OF _ d(1)] by simp
  then have "word nxt offset = word module offset"
    using blit_nth [OF d(2), of offset] blit_nth [OF d(2), of "offset + 1"] blit_length [OF d(2)] Cons.prems(3)
    by (auto simp: word_eq)
  then show ?case using Cons.IH [OF d(3) Cons.prems(2)] Cons.prems(3,4) blit_length [OF d(2)] by auto
qed

subsection \<open>The environment as a program reads it\<close>

text \<open>NUL-terminated strings up to an empty one, and what follows it.\<close>

function env_strings :: "u8 list \<Rightarrow> u8 list list \<times> u8 list" where
  "env_strings bs =
     (let s = takeWhile (\<lambda>b. b \<noteq> 0) bs; rest = drop (length s + 1) bs in
      if s = [] then ([], rest) else case env_strings rest of (ss, r) \<Rightarrow> (s # ss, r))"
  by pat_completeness auto
termination
proof (relation "measure length")
  fix bs s rest :: "u8 list"
  assume "s = takeWhile (\<lambda>b. b \<noteq> 0) bs" "rest = drop (length s + 1) bs" "s \<noteq> []"
  then show "(rest, bs) \<in> measure length" by (cases bs) auto
qed simp

declare env_strings.simps [simp del]

text \<open>A block whose first two bytes are zero holds no string.\<close>

fun read_environment :: "u8 list \<Rightarrow> u8 list list \<times> u8 list" where
  "read_environment (a # b # rest) = (if a = 0 \<and> b = 0 then ([], rest) else env_strings (a # b # rest))"
| "read_environment bs = env_strings bs"

lemma read_environment_head: "a \<noteq> 0 \<Longrightarrow> read_environment (a # bs) = env_strings (a # bs)"
  by (cases bs) simp_all

lemma env_strings_concat:
  "(\<And>e. e \<in> set es \<Longrightarrow> 0 \<notin> set e \<and> e \<noteq> []) \<Longrightarrow>
     env_strings (concat (map (\<lambda>e. e @ [0]) es) @ 0 # r) = (es, r)"
proof (induction es)
  case Nil
  then show ?case by (simp add: env_strings.simps [of "0 # r"])
next
  case (Cons e es)
  have "takeWhile (\<lambda>b. b \<noteq> 0) (e @ 0 # rest) = e" for rest
  proof -
    have "\<And>b. b \<in> set e \<Longrightarrow> b \<noteq> 0" using Cons.prems [of e] by auto
    then show ?thesis using takeWhile_append2 [of e "\<lambda>b. b \<noteq> 0" "0 # rest"] by simp
  qed
  then show ?case using Cons by (subst env_strings.simps) simp
qed

lemma environment_entries_eq:
  "environment_entries bytes es = Inr bs \<Longrightarrow>
     bs = bytes @ concat (map (\<lambda>e. e @ [0]) es) \<and> (\<forall>e\<in>set es. 0 \<notin> set e \<and> e \<noteq> [])"
proof (induction bytes es rule: environment_entries.induct)
  case (2 bytes entry rest)
  let ?bad = "0 \<in> set entry \<or>
    \<not> (case position (\<lambda>byte. byte = 0x3D) entry of None \<Rightarrow> False | Some index \<Rightarrow> index > 0)"
  have good: "\<not> ?bad" "\<not> length entry \<ge> 0x10000 - length bytes"
    and rest: "environment_entries (bytes @ entry @ [0]) rest = Inr bs"
    using "2.prems" by (simp_all only: environment_entries.simps split: if_splits) simp_all
  have "entry \<noteq> []" using good(1) by (cases entry) simp_all
  then show ?case using "2.IH" [OF good rest] good(1) by simp
qed simp

subsection \<open>Properties\<close>

text \<open>C17: on a real-mode machine, loading an MZ file never panics, whatever its bytes; in particular the
  final restore accepts the CPU image. A refused file leaves memory untouched; otherwise the relocated
  module lies inside the process block behind the program segment prefix, entry and stack are relative to
  it, the other segments are the prefix's with interrupts enabled, and the arena holds exactly the process
  and its environment.\<close>

theorem mz_load_safe:
  "case mz_load Real16 m file opts of
     None \<Rightarrow> False
   | Some (m', Inl e) \<Rightarrow> m' = m
   | Some (m', Inr (psp, entry)) \<Rightarrow>
       (\<exists>img module n env load. mz_parse file = Some (Inr img) \<and> environment_block opts = Inr env \<and>
          psp = FIRST_SEGMENT \<and> psp + PSP_PARAGRAPHS \<le> load \<and> load * 16 + length module \<le> (psp + n) * 16 \<and>
          relocate (of_nat load) (chunks4 (mz_relocations img)) (mz_module img) = Some module \<and>
          map (\<lambda>i. m' (load * 16 + i)) [0..<length module] = module \<and>
          arena m' = Some [psp \<mapsto> (n, 0x1000), psp + n + 1 \<mapsto> (div_ceil (length env) 16, 0x1000)] \<and>
          cs_segments entry = \<lparr>seg_es = real_mode_register Es 0x1000, seg_cs = real_mode_register Cs (of_nat load + mz_cs img),
            seg_ss = real_mode_register Ss (of_nat load + mz_ss img), seg_ds = real_mode_register Ds 0x1000,
            seg_fs = real_mode_register Fs 0, seg_gs = real_mode_register Gs 0\<rparr> \<and>
          cs_eip entry = ucast (mz_ip img) \<and> cs_esp entry = ucast (mz_sp img) \<and> cs_if entry = 1)"
proof (cases rule: mz_parse_cases [of "file"])
  case (refused e)
  then show ?thesis by (simp add: mz_load_def)
next
  case (ok img)
  let ?mp = "div_ceil (length (mz_module img)) 16"
  let ?high = "min_extra img = 0 \<and> max_extra img = 0"
  define minimum where "minimum = PSP_PARAGRAPHS + ?mp + min_extra img"
  define maximum where "maximum = (if ?high then AVAILABLE_PARAGRAPHS else PSP_PARAGRAPHS + ?mp + max_extra img)"
  have "PSP_PARAGRAPHS \<le> minimum" by (simp add: minimum_def)
  then show ?thesis
  proof (cases rule: startup_cases [where m = m and maximum = maximum and opts = opts])
    case (refused e)
    then show ?thesis using ok(1) by (simp add: mz_load_def Let_def minimum_def maximum_def)
  next
    case (ok m1 n env)
    define load where "load = (if ?high then FIRST_SEGMENT + n - ?mp else FIRST_SEGMENT + PSP_PARAGRAPHS)"
    obtain module where module: "relocate (of_nat load) (chunks4 (mz_relocations img)) (mz_module img) = Some module"
      "length module = length (mz_module img)"
      using relocate_total [of "chunks4 (mz_relocations img)" "mz_module img" "of_nat load"]
        \<open>relocations_fit img\<close> chunks4_length unfolding relocations_fit_def by blast
    have load: "FIRST_SEGMENT + PSP_PARAGRAPHS \<le> load" "load + ?mp \<le> FIRST_SEGMENT + n"
      using ok(3) by (auto simp: load_def minimum_def)
    then have fits: "load * 16 + length module \<le> (FIRST_SEGMENT + n) * 16"
      using div_ceil_16(1) [of "length (mz_module img)"] module(2) mult_le_mono1 [OF load(2), of 16] by simp
    let ?A = "[FIRST_SEGMENT \<mapsto> (n, 0x1000), FIRST_SEGMENT + n + 1 \<mapsto> (div_ceil (length env) 16, 0x1000)] :: nat \<rightharpoonup> nat \<times> u16"
    have "arena m1 = Some ?A" using ok(6) by (simp add: started_def Let_def)
    from write_data_arena [OF this, of FIRST_SEGMENT n "0x1000" "load * 16" module] obtain m2
      where m2: "mem_write m1 (load * 16) module = Some m2" "arena m2 = Some ?A"
        "\<And>x. m2 x = (if load * 16 \<le> x \<and> x < load * 16 + length module then module ! (x - load * 16) else m1 x)"
      using load fits by auto
    define cpu where "cpu = (initial_cpu 0x1000)\<lparr>cs_segments := segments_set (segments_set (cs_segments (initial_cpu 0x1000)) Cs
        (real_mode_register Cs (of_nat load + mz_cs img))) Ss (real_mode_register Ss (of_nat load + mz_ss img)),
        cs_eip := ucast (mz_ip img), cs_esp := ucast (mz_sp img)\<rparr>"
    have "enter_program Real16 cpu = Some cpu"
      unfolding cpu_def by (rule initial_cpu_enters) (auto simp only: segments_index_set initial_cpu_segments split: if_split)
    then have loaded: "mz_load Real16 m file opts = Some (m2, Inr (FIRST_SEGMENT, cpu))"
      unfolding mz_load_def Let_def \<open>mz_parse file = Some (Inr img)\<close> bind.bind_lunit sum.case
        ok(1) [unfolded minimum_def maximum_def] prod.case load_def [symmetric] module(1) m2(1) by (simp add: cpu_def)
    have "map (\<lambda>i. m2 (load * 16 + i)) [0..<length module] = module"
      by (intro nth_equalityI) (auto simp: m2(3))
    then show ?thesis unfolding loaded option.case prod.case sum.case
      using ok(2) \<open>mz_parse file = Some (Inr img)\<close> load(1) fits module(1) m2(2)
      by (intro exI [of _ img] exI [of _ module] exI [of _ n] exI [of _ env] exI [of _ load])
        (simp add: cpu_def initial_cpu_def segments_real_mode_def Let_def cpu_state_default_def real_mode_data)
  qed
qed

text \<open>A relocation entry adds the load segment to its word and nothing else. When no other entry
  touches the word it points at, the loaded word is the file's word plus the load
  segment, and a byte no entry covers is the file's byte.\<close>

theorem relocate_correct:
  assumes "relocate seg (pre @ c # post) module = Some module'" and "relocation_offset c = Some offset"
    and "offset + 2 \<le> length module"
    and "\<forall>d\<in>set (pre @ post). \<forall>k. relocation_offset d = Some k \<longrightarrow> k + 2 \<le> offset \<or> offset + 2 \<le> k"
  shows "word module' offset = map_option (\<lambda>w. w + seg) (word module offset) \<and>
    (\<forall>i<length module. (\<forall>d\<in>set (pre @ c # post). \<forall>k. relocation_offset d = Some k \<longrightarrow> i < k \<or> k + 2 \<le> i) \<longrightarrow>
       module' ! i = module ! i)"
  using relocate_word [OF assms(1-3)] relocate_frame [OF assms(1)] assms(4) by blast

theorem relocate_correct_witness:
  "relocate 0x1010 [[2, 0, 0, 0]] [1, 2, 3, 4, 5] = Some [1, 2, 0x13, 0x14, 5] \<and>
   word [1, 2, 0x13, 0x14, 5] 2 = Some (0x0403 + 0x1010)"
proof -
  have r: "relocate 0x1010 ([] @ [2, 0, 0, 0] # []) [1, 2, 3, 4, 5] = Some [1, 2, 0x13, 0x14, 5]" by code_simp
  have "relocation_offset [2, 0, 0, 0] = Some 2" "word [1, 2, 3, 4, 5] 2 = Some 0x0403" by code_simp+
  then show ?thesis using relocate_correct [OF r, of 2] r by simp
qed

text \<open>Loading a COM image never panics. A refused image leaves memory untouched; otherwise the
  image lies at offset 100h of the process segment with a zero word at its top, all
  segment registers name the segment and the arena holds the process, of at least
  64 KiB, and its environment.\<close>

theorem com_load_safe:
  "case com_load Real16 m img opts of
     None \<Rightarrow> False
   | Some (m', Inl e) \<Rightarrow> m' = m
   | Some (m', Inr (psp, entry)) \<Rightarrow>
       psp = FIRST_SEGMENT \<and> img \<noteq> [] \<and>
       entry = (initial_cpu 0x1000)\<lparr>cs_esp := 0xFFFE, cs_eip := 0x100\<rparr> \<and>
       map (\<lambda>i. m' (psp * 16 + 0x100 + i)) [0..<length img] = img \<and>
       m' (psp * 16 + 0xFFFE) = 0 \<and> m' (psp * 16 + 0xFFFF) = 0 \<and>
       (\<exists>n env. environment_block opts = Inr env \<and> 0x1000 \<le> n \<and>
          arena m' = Some [psp \<mapsto> (n, 0x1000), psp + n + 1 \<mapsto> (div_ceil (length env) 16, 0x1000)])"
proof (cases "img = [] \<or> length img > 0xFFFE - PSP_BYTES")
  case True
  then show ?thesis by (auto simp: com_load_def)
next
  case False
  have "PSP_PARAGRAPHS \<le> 0x10000 div 16" by simp
  then show ?thesis
  proof (cases rule: startup_cases [where m = m and maximum = AVAILABLE_PARAGRAPHS and opts = opts])
    case (refused e)
    then show ?thesis using False by (simp add: com_load_def)
  next
    case (ok m1 n env)
    let ?A = "[FIRST_SEGMENT \<mapsto> (n, 0x1000), FIRST_SEGMENT + n + 1 \<mapsto> (div_ceil (length env) 16, 0x1000)] :: nat \<rightharpoonup> nat \<times> u16"
    have "arena m1 = Some ?A" using ok(6) by (simp add: started_def Let_def)
    from write_data_arena [OF this, of FIRST_SEGMENT n "0x1000" "FIRST_SEGMENT * 16 + PSP_BYTES" img] obtain m2
      where m2: "mem_write m1 (FIRST_SEGMENT * 16 + PSP_BYTES) img = Some m2" "arena m2 = Some ?A"
        "\<And>x. m2 x = (if FIRST_SEGMENT * 16 + PSP_BYTES \<le> x \<and> x < FIRST_SEGMENT * 16 + PSP_BYTES + length img
           then img ! (x - (FIRST_SEGMENT * 16 + PSP_BYTES)) else m1 x)"
      using False ok(3) by auto
    from write_data_arena [OF m2(2), of FIRST_SEGMENT n "0x1000" "FIRST_SEGMENT * 16 + 0xFFFE" "to_le_bytes (0 :: u16)"]
    obtain m3 where m3: "mem_write m2 (FIRST_SEGMENT * 16 + 0xFFFE) (to_le_bytes (0 :: u16)) = Some m3" "arena m3 = Some ?A"
      "\<And>x. m3 x = (if FIRST_SEGMENT * 16 + 0xFFFE \<le> x \<and> x < FIRST_SEGMENT * 16 + 0xFFFE + length (to_le_bytes (0 :: u16))
         then to_le_bytes (0 :: u16) ! (x - (FIRST_SEGMENT * 16 + 0xFFFE)) else m2 x)"
      using ok(3) by auto
    have "enter_program Real16 ((initial_cpu 0x1000)\<lparr>cs_esp := 0xFFFE, cs_eip := 0x100\<rparr>) = Some ((initial_cpu 0x1000)\<lparr>cs_esp := 0xFFFE, cs_eip := 0x100\<rparr>)"
      using initial_cpu_enters [where segs = "cs_segments (initial_cpu 0x1000)" and psp = "0x1000" and ip = "0x100" and sp = "0xFFFE"]
        initial_cpu_segments [of "0x1000"] by (auto simp: cpu_state_swap)
    then have loaded: "com_load Real16 m img opts = Some (m3, Inr (FIRST_SEGMENT, (initial_cpu 0x1000)\<lparr>cs_esp := 0xFFFE, cs_eip := 0x100\<rparr>))"
      using False ok(1) m2(1) m3(1) by (simp add: com_load_def)
    have "map (\<lambda>i. m3 (FIRST_SEGMENT * 16 + 0x100 + i)) [0..<length img] = img"
      using False by (intro nth_equalityI) (auto simp: m3(3) m2(3))
    moreover have "m3 (FIRST_SEGMENT * 16 + 0xFFFE) = 0" "m3 (FIRST_SEGMENT * 16 + 0xFFFF) = 0"
      by (simp_all add: m3(3) nth_to_le_bytes)
    ultimately show ?thesis unfolding loaded option.case prod.case sum.case
      using False ok(2,3) m3(2) by auto
  qed
qed

text \<open>C35: the environment survives the loader, the empty one included. A program that reads the block as
  DOS defines it, strings up to an empty one and two zero bytes for none at all, finds exactly the given
  strings, then the count word and the program path, and the block fits one segment.\<close>

theorem environment_round_trip:
  assumes "environment_block opts = Inr env"
  shows "read_environment env = (environment opts, [1, 0] @ program_path opts @ [0]) \<and> length env \<le> 0x10000"
proof (cases "environment opts = []")
  case True
  then have "env = 0 # 0 # [1, 0] @ program_path opts @ [0]"
    using assms by (auto simp: environment_block_def Let_def split: if_splits)
  then show ?thesis using True environment_block_length [OF assms] by simp
next
  case False
  obtain bytes where b: "environment_entries [] (environment opts) = Inr bytes"
    using assms by (auto simp: environment_block_def split: if_splits sum.splits)
  have e: "bytes = concat (map (\<lambda>e. e @ [0]) (environment opts))"
    "\<And>e. e \<in> set (environment opts) \<Longrightarrow> 0 \<notin> set e \<and> e \<noteq> []"
    using environment_entries_eq [OF b] by auto
  then have ne: "bytes \<noteq> []" "hd bytes \<noteq> 0" using False by (cases "environment opts"; cases "hd (environment opts)"; fastforce)+
  then have env: "env = bytes @ 0 # [1, 0] @ program_path opts @ [0]"
    using assms b by (auto simp: environment_block_def Let_def split: if_splits)
  then have "read_environment env = env_strings env" using ne by (cases bytes) (auto simp: read_environment_head)
  then show ?thesis using env env_strings_concat [OF e(2)] e(1) environment_block_length [OF assms] by simp
qed

theorem environment_round_trip_witness:
  "read_environment [0x41, 0x3D, 0x42, 0, 0, 1, 0, 0x43, 0] = ([[0x41, 0x3D, 0x42]], [1, 0] @ [0x43] @ [0]) \<and>
   read_environment [0, 0, 1, 0, 0x43, 0] = ([], [1, 0] @ [0x43] @ [0])"
proof -
  let ?opts = "\<lparr>command_tail = [], environment = [[0x41, 0x3D, 0x42]], program_path = [0x43]\<rparr>"
  let ?empty = "\<lparr>command_tail = [], environment = [], program_path = [0x43]\<rparr>"
  have "environment_block ?opts = Inr [0x41, 0x3D, 0x42, 0, 0, 1, 0, 0x43, 0]" "environment_block ?empty = Inr [0, 0, 1, 0, 0x43, 0]"
    by (simp_all add: environment_block_def Let_def)
  from this [THEN environment_round_trip] show ?thesis by simp
qed

text \<open>A process leaves the interrupt vectors as it found them. Whatever the guest does to memory
  outside the saved words of its prefix, termination puts back the three vectors that were
  current at startup and empties the arena.\<close>

theorem termination_restores_vectors:
  assumes "PSP_PARAGRAPHS \<le> minimum"
    and "startup_allocate m minimum maximum opts = Some (m1, Inr (psp, n))"
    and "\<forall>i<12. m2 (psp * 16 + 0x0A + i) = m1 (psp * 16 + 0x0A + i)"
  shows "\<exists>m3. terminate_memory m2 psp = Some m3 \<and> arena m3 = Some Map.empty \<and>
    (\<forall>i<12. m3 (0x88 + i) = m (0x88 + i))"
  using assms(1)
proof (cases rule: startup_cases [where m = m and maximum = maximum and opts = opts])
  case (ok m' k env)
  then have psp: "psp = FIRST_SEGMENT" "m1 = m'" using assms(2) by auto
  let ?v = "map (\<lambda>i. m2 (psp * 16 + 0x0A + i)) [0..<12]"
  let ?psp = "map (\<lambda>i. m' (FIRST_SEGMENT * 16 + i)) [0..<PSP_BYTES]"
  have "take 12 (drop 0x0A ?psp) = map (\<lambda>i. m (0x88 + i)) [0..<12]"
    using ok(6) by (simp add: started_def Let_def)
  then have "(take 12 (drop 0x0A ?psp)) ! i = m (0x88 + i)" if "i < 12" for i using that by simp
  then have saved: "m' (FIRST_SEGMENT * 16 + 0x0A + i) = m (0x88 + i)" if "i < 12" for i using that by fastforce
  obtain m4 where m4: "restore_vectors m2 psp = Some m4" "\<And>i. i < 12 \<Longrightarrow> m4 (0x88 + i) = m (0x88 + i)"
  proof -
    have "restore_vectors m2 psp = mem_write m2 0x88 ?v" using psp by (simp add: restore_vectors_def mem_read_def)
    then show ?thesis using that assms(3) saved psp by (simp add: mem_write_def)
  qed
  obtain m3 where "memory_reset m4 = Some m3" "arena m3 = Some Map.empty" "keeps_data Map.empty m4 m3"
    using memory_reset_arena by blast
  then show ?thesis using m4 by (auto simp: terminate_memory_def keeps_data_def)
qed (use assms(2) in simp)

theorem termination_restores_vectors_witness:
  "\<exists>m1 n m3. startup_allocate (\<lambda>x. of_nat x) 0x100 0x100 \<lparr>command_tail = [], environment = [], program_path = []\<rparr>
       = Some (m1, Inr (FIRST_SEGMENT, n)) \<and>
     terminate_memory (m1(0x88 := 0)) FIRST_SEGMENT = Some m3 \<and> m3 0x88 = 0x88"
proof -
  let ?opts = "\<lparr>command_tail = [], environment = [], program_path = []\<rparr>"
  have env: "environment_block ?opts = Inr [0, 0, 1, 0, 0]" by (simp add: environment_block_def Let_def)
  obtain m1 n where s: "startup_allocate (\<lambda>x. of_nat x) 0x100 0x100 ?opts = Some (m1, Inr (FIRST_SEGMENT, n))"
    by (rule startup_ok [OF env, of "0x100" "\<lambda>x. of_nat x" "0x100"]) (auto simp: div_ceil_def)
  have "\<forall>i<12. (m1(0x88 := 0)) (FIRST_SEGMENT * 16 + 0x0A + i) = m1 (FIRST_SEGMENT * 16 + 0x0A + i)" by simp
  from termination_restores_vectors [OF _ s this] obtain m3
    where "terminate_memory (m1(0x88 := 0)) FIRST_SEGMENT = Some m3" "\<forall>i<12. m3 (0x88 + i) = of_nat (0x88 + i)"
    by (auto simp del: fun_upd_apply)
  moreover from this(2) have "m3 (0x88 + 0) = of_nat (0x88 + 0)" by (metis zero_less_numeral)
  ultimately show ?thesis using s by auto
qed

end
