(* ===== verification/Guest_Memory.thy ===== *)
theory Guest_Memory
  imports Io_Bus
begin

text \<open>
  Guest physical memory: the routing table of \<open>x86/src/memory/physical_map.rs\<close> with its
  serialized form and the lookup the translator emits on it
  (\<open>x86/src/memory/physical/table.rs\<close>), and the host's view of
  \<open>machine/src/memory/view.rs\<close>, \<open>view/resolve.rs\<close>, \<open>view/read.rs\<close>, \<open>view/write.rs\<close> on top of
  it and of the device bus. Addresses are natural numbers below \<open>2\<^sup>3\<^sup>2\<close>; a panic is \<open>None\<close>.
\<close>

subsection \<open>physical_map.rs\<close>

datatype physical_mapping = Unmapped | Ram nat | Rom nat | Mmio

fun backing_offset :: "physical_mapping \<Rightarrow> nat option" where
  "backing_offset Unmapped = None"
| "backing_offset Mmio = None"
| "backing_offset (Ram offset) = Some offset"
| "backing_offset (Rom offset) = Some offset"

fun advance_mapping :: "nat \<Rightarrow> physical_mapping \<Rightarrow> physical_mapping" where
  "advance_mapping n Unmapped = Unmapped"
| "advance_mapping n Mmio = Mmio"
| "advance_mapping n (Ram offset) = Ram (offset + n)"
| "advance_mapping n (Rom offset) = Rom (offset + n)"

datatype map_error = EmptyRange | UnalignedRange | RangeOutOfBounds | UnalignedBacking | BackingOverflow

record physical_map =
  pages :: "physical_mapping list"
  a20_enabled :: bool

abbreviation PAGE_COUNT :: nat where "PAGE_COUNT \<equiv> 272"
abbreviation PAGE_BYTES :: nat where "PAGE_BYTES \<equiv> 0x1000"

definition check_region :: "nat \<Rightarrow> nat \<Rightarrow> physical_mapping \<Rightarrow> map_error option" where
  "check_region first end mp =
     (if end < first then Some EmptyRange
      else if first mod PAGE_BYTES \<noteq> 0 \<or> end mod PAGE_BYTES \<noteq> PAGE_BYTES - 1 then Some UnalignedRange
      else if end div PAGE_BYTES + 1 > PAGE_COUNT then Some RangeOutOfBounds
      else case backing_offset mp of
        None \<Rightarrow> None
      | Some backing \<Rightarrow>
          (if backing mod PAGE_BYTES \<noteq> 0 then Some UnalignedBacking
           else if backing + (end - first + 1) > 2 ^ 32 then Some BackingOverflow
           else None))"

definition install_region :: "nat \<Rightarrow> nat \<Rightarrow> physical_mapping \<Rightarrow> physical_mapping list \<Rightarrow> physical_mapping list" where
  "install_region first end mp ps =
     map (\<lambda>i. if first div PAGE_BYTES \<le> i \<and> i < end div PAGE_BYTES + 1
              then advance_mapping ((i - first div PAGE_BYTES) * PAGE_BYTES) mp else ps ! i) [0..<length ps]"

fun install_regions ::
  "((nat \<times> nat) \<times> physical_mapping) list \<Rightarrow> physical_mapping list \<Rightarrow> map_error + physical_mapping list" where
  "install_regions [] ps = Inr ps"
| "install_regions (((first, end), mp) # regions) ps =
     (case check_region first end mp of
        Some e \<Rightarrow> Inl e
      | None \<Rightarrow> install_regions regions (install_region first end mp ps))"

definition map_new :: "((nat \<times> nat) \<times> physical_mapping) list \<Rightarrow> map_error + physical_map" where
  "map_new regions =
     map_sum (\<lambda>e. e) (\<lambda>ps. \<lparr>pages = ps, a20_enabled = False\<rparr>)
       (install_regions regions (replicate PAGE_COUNT Unmapped))"

definition fits_backing :: "nat \<Rightarrow> physical_map \<Rightarrow> bool" where
  "fits_backing memory_size m =
     list_all (\<lambda>p. case backing_offset p of None \<Rightarrow> True | Some offset \<Rightarrow> offset + PAGE_BYTES \<le> memory_size) (pages m)"

definition set_a20_enabled :: "bool \<Rightarrow> physical_map \<Rightarrow> physical_map" where
  "set_a20_enabled enabled m = m\<lparr>a20_enabled := enabled\<rparr>"

definition address_mask :: "physical_map \<Rightarrow> u32" where
  "address_mask m = (if a20_enabled m then - 1 else NOT (push_bit 20 1))"

definition bus_address :: "physical_map \<Rightarrow> nat \<Rightarrow> nat" where
  "bus_address m address = unat (of_nat address AND address_mask m)"

definition map_get :: "physical_map \<Rightarrow> nat \<Rightarrow> physical_mapping" where
  "map_get m address =
     (if address \<ge> PAGE_COUNT * PAGE_BYTES then Unmapped
      else let address = bus_address m address; page = address div PAGE_BYTES in
        advance_mapping (address mod PAGE_BYTES) (if page < length (pages m) then pages m ! page else Unmapped))"

fun mapping_entry :: "physical_mapping \<Rightarrow> u32 \<times> u32" where
  "mapping_entry Unmapped = (0, 0)"
| "mapping_entry (Ram backing) = (1, of_nat backing)"
| "mapping_entry (Rom backing) = (2, of_nat backing)"
| "mapping_entry Mmio = (3, 0)"

definition map_to_bytes :: "physical_map \<Rightarrow> u8 list" where
  "map_to_bytes m =
     concat (map (\<lambda>p. case mapping_entry p of (kind, backing) \<Rightarrow> to_le_bytes kind @ to_le_bytes backing) (pages m))
       @ to_le_bytes (address_mask m)"

subsection \<open>physical/table.rs\<close>

text \<open>The emitted lookup on the installed table, at a run-time address: kind, bus address, backing.\<close>

definition load32 :: "u8 list \<Rightarrow> nat \<Rightarrow> u32" where
  "load32 bs offset = from_le_bytes (take 4 (drop offset bs))"

definition table_lookup :: "u8 list \<Rightarrow> u32 \<Rightarrow> u32 \<times> u32 \<times> u32" where
  "table_lookup table address =
     (let mask = load32 table (PAGE_COUNT * 8);
          address = address AND mask;
          offset = push_bit 3 (drop_bit 12 address)
      in (load32 table (unat offset), address, load32 table (unat offset + 4)))"

definition backing_address :: "u32 \<times> u32 \<times> u32 \<Rightarrow> u32" where
  "backing_address e = (case e of (kind, address, backing) \<Rightarrow> backing + (address AND 0xFFF))"

subsection \<open>view/resolve.rs\<close>

datatype memory_error = AddressRange | BackingRange | SegmentRange

definition range_fits :: "nat \<Rightarrow> nat \<Rightarrow> nat \<Rightarrow> bool" where
  "range_fits address len limit \<longleftrightarrow> address + len < 2 ^ 64 \<and> address + len \<le> limit"

function mmio_extend :: "physical_map \<Rightarrow> nat \<Rightarrow> nat \<Rightarrow> nat \<Rightarrow> nat \<Rightarrow> nat" where
  "mmio_extend m address bus_addr len remaining =
     (if len < remaining then
        (let following = address + len in
         if map_get m following \<noteq> Mmio \<or> bus_address m following \<noteq> bus_addr + len then len
         else mmio_extend m address bus_addr (len + min (remaining - len) (PAGE_BYTES - following mod PAGE_BYTES)) remaining)
      else len)"
  by pat_completeness auto
termination
  by (relation "measure (\<lambda>(m, address, bus_addr, len, remaining). remaining - len)") auto

declare mmio_extend.simps [simp del]

definition span_len :: "physical_map \<Rightarrow> nat \<Rightarrow> nat \<Rightarrow> nat" where
  "span_len m address remaining =
     (let len = min remaining (PAGE_BYTES - address mod PAGE_BYTES) in
      if map_get m address = Mmio then mmio_extend m address (bus_address m address) len remaining else len)"

lemma mmio_extend_step:
  "len < remaining \<Longrightarrow> map_get m (a + len) = Mmio \<Longrightarrow> bus_address m (a + len) = b + len \<Longrightarrow>
   mmio_extend m a b len remaining =
     mmio_extend m a b (len + min (remaining - len) (PAGE_BYTES - (a + len) mod PAGE_BYTES)) remaining"
  by (subst mmio_extend.simps) (simp add: Let_def)

lemma mmio_extend_stop:
  "\<not> (len < remaining \<and> map_get m (a + len) = Mmio \<and> bus_address m (a + len) = b + len) \<Longrightarrow>
   mmio_extend m a b len remaining = len"
  by (subst mmio_extend.simps) (auto simp: Let_def)

text \<open>Induction over the pages the loop adds: a property of the length it starts with, kept by each
  page added, holds of the length it ends with.\<close>

lemma mmio_extend_invariant:
  assumes "P len"
    and "\<And>l. P l \<Longrightarrow> l < remaining \<Longrightarrow> map_get m (a + l) = Mmio \<Longrightarrow> bus_address m (a + l) = b + l \<Longrightarrow>
           P (l + min (remaining - l) (PAGE_BYTES - (a + l) mod PAGE_BYTES))"
  shows "P (mmio_extend m a b len remaining)"
  using assms(1)
proof (induction "remaining - len" arbitrary: len rule: less_induct)
  case less
  let ?more = "len + min (remaining - len) (PAGE_BYTES - (a + len) mod PAGE_BYTES)"
  show ?case
  proof (cases "len < remaining \<and> map_get m (a + len) = Mmio \<and> bus_address m (a + len) = b + len")
    case True
    then have "0 < min (remaining - len) (PAGE_BYTES - (a + len) mod PAGE_BYTES)" by simp
    then have "remaining - ?more < remaining - len" using True by linarith
    then show ?thesis using less.hyps [of ?more] assms(2) [OF less.prems] True by (simp add: mmio_extend_step)
  next
    case False
    then show ?thesis using less.prems mmio_extend_stop [OF False] by simp
  qed
qed

lemma span_len_bounds: "0 < n \<Longrightarrow> 0 < span_len m a n \<and> span_len m a n \<le> n"
  by (simp add: span_len_def Let_def) (auto intro!: mmio_extend_invariant [where P = "\<lambda>l. 0 < l \<and> l \<le> n"])

function spans :: "physical_map \<Rightarrow> nat \<Rightarrow> nat \<Rightarrow> (physical_mapping \<times> nat \<times> nat) list" where
  "spans m address remaining =
     (if remaining = 0 then []
      else let len = span_len m address remaining in
        (map_get m address, bus_address m address, len) # spans m (address + len) (remaining - len))"
  by pat_completeness auto
termination
proof (relation "measure (\<lambda>(m, address, remaining). remaining)")
  show "((m, a + len, n - len), m, a, n) \<in> measure (\<lambda>(m, address, remaining). remaining)"
    if "n \<noteq> 0" "len = span_len m a n" for m a n len
    using that span_len_bounds [of n m a] by simp
qed simp

declare spans.simps [simp del]

definition view_resolve :: "physical_map \<Rightarrow> nat \<Rightarrow> nat \<Rightarrow> memory_error + (physical_mapping \<times> nat \<times> nat) list" where
  "view_resolve m address len = (if \<not> range_fits address len (2 ^ 32) then Inl AddressRange else Inr (spans m address len))"

subsection \<open>view/read.rs, view/write.rs\<close>

text \<open>The backing storage as bytes by offset, and the state of the devices behind the bus.\<close>

record 's guest =
  storage :: "nat \<Rightarrow> u8"
  devices :: 's

fun read_chunks ::
  "(nat \<Rightarrow> nat \<Rightarrow> nat \<Rightarrow> 's \<Rightarrow> 's \<times> u64) \<Rightarrow> io_bus \<Rightarrow> nat \<Rightarrow> nat \<Rightarrow> 's \<Rightarrow> ('s \<times> u8 list) option" where
  "read_chunks rd bus address 0 s = Some (s, [])"
| "read_chunks rd bus address (Suc n) s =
     (let k = min (Suc n) 8 in
      Option.bind (bus_read_mmio rd bus address k s) (\<lambda>(s, v).
        map_option (\<lambda>(s, bs). (s, take k (to_le_bytes v) @ bs)) (read_chunks rd bus (address + k) (Suc n - k) s)))"

definition read_span ::
  "(nat \<Rightarrow> nat \<Rightarrow> nat \<Rightarrow> 's \<Rightarrow> 's \<times> u64) \<Rightarrow> io_bus option \<Rightarrow> physical_mapping \<times> nat \<times> nat \<Rightarrow> 's guest \<Rightarrow>
   ('s guest \<times> u8 list) option" where
  "read_span rd io span g =
     (case span of (mp, address, len) \<Rightarrow>
      (case mp of
         Ram offset \<Rightarrow> Some (g, map (storage g) [offset..<offset + len])
       | Rom offset \<Rightarrow> Some (g, map (storage g) [offset..<offset + len])
       | Mmio \<Rightarrow>
           (case io of
              None \<Rightarrow> None
            | Some bus \<Rightarrow> map_option (\<lambda>(s, bs). (g\<lparr>devices := s\<rparr>, bs)) (read_chunks rd bus address len (devices g)))
       | Unmapped \<Rightarrow> Some (g, replicate len 0xFF)))"

fun read_spans ::
  "(nat \<Rightarrow> nat \<Rightarrow> nat \<Rightarrow> 's \<Rightarrow> 's \<times> u64) \<Rightarrow> io_bus option \<Rightarrow> (physical_mapping \<times> nat \<times> nat) list \<Rightarrow> 's guest \<Rightarrow>
   ('s guest \<times> u8 list) option" where
  "read_spans rd io [] g = Some (g, [])"
| "read_spans rd io (span # rest) g =
     Option.bind (read_span rd io span g) (\<lambda>(g, bs).
       map_option (\<lambda>(g, more). (g, bs @ more)) (read_spans rd io rest g))"

definition view_read ::
  "(nat \<Rightarrow> nat \<Rightarrow> nat \<Rightarrow> 's \<Rightarrow> 's \<times> u64) \<Rightarrow> io_bus option \<Rightarrow> physical_map \<Rightarrow> nat \<Rightarrow> nat \<Rightarrow> 's guest \<Rightarrow>
   ('s guest \<times> (memory_error + u8 list)) option" where
  "view_read rd io m address len g =
     (case view_resolve m address len of
        Inl e \<Rightarrow> Some (g, Inl e)
      | Inr sps \<Rightarrow> map_option (\<lambda>(g, bs). (g, Inr bs)) (read_spans rd io sps g))"

fun write_chunks ::
  "(nat \<Rightarrow> nat \<Rightarrow> nat \<Rightarrow> u64 \<Rightarrow> 's \<Rightarrow> 's) \<Rightarrow> io_bus \<Rightarrow> nat \<Rightarrow> u8 list \<Rightarrow> 's \<Rightarrow> 's option" where
  "write_chunks wr bus address [] s = Some s"
| "write_chunks wr bus address (b # bs) s =
     (let chunk = take 8 (b # bs) in
      Option.bind
        (bus_write_mmio wr bus address (length chunk) (from_le_bytes (chunk @ replicate (8 - length chunk) 0)) s)
        (\<lambda>s. write_chunks wr bus (address + 8) (drop 8 (b # bs)) s))"

definition write_span ::
  "(nat \<Rightarrow> nat \<Rightarrow> nat \<Rightarrow> u64 \<Rightarrow> 's \<Rightarrow> 's) \<Rightarrow> io_bus option \<Rightarrow> physical_mapping \<times> nat \<times> nat \<Rightarrow> u8 list \<Rightarrow> 's guest \<Rightarrow>
   's guest option" where
  "write_span wr io span part g =
     (case span of (mp, address, len) \<Rightarrow>
      (case mp of
         Ram offset \<Rightarrow> Some (g\<lparr>storage := (\<lambda>x. if offset \<le> x \<and> x < offset + length part
                              then part ! (x - offset) else storage g x)\<rparr>)
       | Mmio \<Rightarrow>
           (case io of
              None \<Rightarrow> None
            | Some bus \<Rightarrow> map_option (\<lambda>s. g\<lparr>devices := s\<rparr>) (write_chunks wr bus address part (devices g)))
       | _ \<Rightarrow> Some g))"

fun write_spans ::
  "(nat \<Rightarrow> nat \<Rightarrow> nat \<Rightarrow> u64 \<Rightarrow> 's \<Rightarrow> 's) \<Rightarrow> io_bus option \<Rightarrow> (physical_mapping \<times> nat \<times> nat) list \<Rightarrow> u8 list \<Rightarrow>
   's guest \<Rightarrow> 's guest option" where
  "write_spans wr io [] bs g = Some g"
| "write_spans wr io ((mp, address, len) # rest) bs g =
     Option.bind (write_span wr io (mp, address, len) (take len bs) g) (write_spans wr io rest (drop len bs))"

definition view_write ::
  "(nat \<Rightarrow> nat \<Rightarrow> nat \<Rightarrow> u64 \<Rightarrow> 's \<Rightarrow> 's) \<Rightarrow> io_bus option \<Rightarrow> physical_map \<Rightarrow> nat \<Rightarrow> u8 list \<Rightarrow> 's guest \<Rightarrow>
   ('s guest \<times> (memory_error + unit)) option" where
  "view_write wr io m address bs g =
     (case view_resolve m address (length bs) of
        Inl e \<Rightarrow> Some (g, Inl e)
      | Inr sps \<Rightarrow> map_option (\<lambda>g. (g, Inr ())) (write_spans wr io sps bs g))"

text \<open>Accesses through a segment cache, given by its base and limit.\<close>

definition segment_address :: "nat \<Rightarrow> nat \<Rightarrow> nat \<Rightarrow> nat \<Rightarrow> memory_error + nat" where
  "segment_address base limit offset len =
     (if \<not> range_fits offset len (limit + 1) then Inl SegmentRange
      else if base + offset < 2 ^ 32 then Inr (base + offset) else Inl AddressRange)"

definition read_segment_bytes ::
  "(nat \<Rightarrow> nat \<Rightarrow> nat \<Rightarrow> 's \<Rightarrow> 's \<times> u64) \<Rightarrow> io_bus option \<Rightarrow> physical_map \<Rightarrow> nat \<Rightarrow> nat \<Rightarrow> nat \<Rightarrow> nat \<Rightarrow> 's guest \<Rightarrow>
   ('s guest \<times> (memory_error + u8 list)) option" where
  "read_segment_bytes rd io m base limit offset len g =
     (case segment_address base limit offset len of
        Inl e \<Rightarrow> Some (g, Inl e)
      | Inr address \<Rightarrow> view_read rd io m address len g)"

definition write_segment_bytes ::
  "(nat \<Rightarrow> nat \<Rightarrow> nat \<Rightarrow> u64 \<Rightarrow> 's \<Rightarrow> 's) \<Rightarrow> io_bus option \<Rightarrow> physical_map \<Rightarrow> nat \<Rightarrow> nat \<Rightarrow> nat \<Rightarrow> u8 list \<Rightarrow> 's guest \<Rightarrow>
   ('s guest \<times> (memory_error + unit)) option" where
  "write_segment_bytes wr io m base limit offset bs g =
     (case segment_address base limit offset (length bs) of
        Inl e \<Rightarrow> Some (g, Inl e)
      | Inr address \<Rightarrow> view_write wr io m address bs g)"

lemma wrap_progress: "0 < n \<Longrightarrow> n - min n (0x10000 - unat (offset :: u16)) < n"
  using unsigned_less [of offset, where 'a = nat] by auto

text \<open>Real-mode buffers, whose 16-bit offset wraps within the segment at \<open>base\<close>.\<close>

function read_wrapping_from ::
  "(nat \<Rightarrow> nat \<Rightarrow> nat \<Rightarrow> 's \<Rightarrow> 's \<times> u64) \<Rightarrow> io_bus option \<Rightarrow> physical_map \<Rightarrow> nat \<Rightarrow> u16 \<Rightarrow> nat \<Rightarrow> 's guest \<Rightarrow>
   ('s guest \<times> (memory_error + u8 list)) option" where
  "read_wrapping_from rd io m base offset n g =
     (if n = 0 then Some (g, Inr [])
      else let cnt = min n (0x10000 - unat offset) in
        Option.bind (read_segment_bytes rd io m base 0xFFFF (unat offset) cnt g) (\<lambda>(g, r).
          case r of
            Inl e \<Rightarrow> Some (g, Inl e)
          | Inr bs \<Rightarrow> map_option (\<lambda>(g, r). (g, map_sum (\<lambda>e. e) ((@) bs) r))
              (read_wrapping_from rd io m base 0 (n - cnt) g)))"
  by pat_completeness auto
termination
  by (relation "measure (\<lambda>(rd, io, m, base, offset, n, g). n)") (use wrap_progress in auto)

definition read_wrapping ::
  "(nat \<Rightarrow> nat \<Rightarrow> nat \<Rightarrow> 's \<Rightarrow> 's \<times> u64) \<Rightarrow> io_bus option \<Rightarrow> physical_map \<Rightarrow> u16 \<Rightarrow> u16 \<Rightarrow> nat \<Rightarrow> 's guest \<Rightarrow>
   ('s guest \<times> (memory_error + u8 list)) option" where
  "read_wrapping rd io m segment offset n g = read_wrapping_from rd io m (unat segment * 16) offset n g"

function write_wrapping_from ::
  "(nat \<Rightarrow> nat \<Rightarrow> nat \<Rightarrow> u64 \<Rightarrow> 's \<Rightarrow> 's) \<Rightarrow> io_bus option \<Rightarrow> physical_map \<Rightarrow> nat \<Rightarrow> u16 \<Rightarrow> u8 list \<Rightarrow> 's guest \<Rightarrow>
   ('s guest \<times> (memory_error + unit)) option" where
  "write_wrapping_from wr io m base offset bs g =
     (if bs = [] then Some (g, Inr ())
      else let cnt = min (length bs) (0x10000 - unat offset) in
        Option.bind (write_segment_bytes wr io m base 0xFFFF (unat offset) (take cnt bs) g) (\<lambda>(g, r).
          case r of
            Inl e \<Rightarrow> Some (g, Inl e)
          | Inr _ \<Rightarrow> write_wrapping_from wr io m base 0 (drop cnt bs) g))"
  by pat_completeness auto
termination
  by (relation "measure (\<lambda>(wr, io, m, base, offset, bs, g). length bs)")
    (use wrap_progress in auto)

definition write_wrapping ::
  "(nat \<Rightarrow> nat \<Rightarrow> nat \<Rightarrow> u64 \<Rightarrow> 's \<Rightarrow> 's) \<Rightarrow> io_bus option \<Rightarrow> physical_map \<Rightarrow> u16 \<Rightarrow> u16 \<Rightarrow> u8 list \<Rightarrow> 's guest \<Rightarrow>
   ('s guest \<times> (memory_error + unit)) option" where
  "write_wrapping wr io m segment offset bs g = write_wrapping_from wr io m (unat segment * 16) offset bs g"

declare read_wrapping_from.simps [simp del] write_wrapping_from.simps [simp del]

definition read_backing :: "nat \<Rightarrow> nat \<Rightarrow> nat \<Rightarrow> 's guest \<Rightarrow> memory_error + u8 list" where
  "read_backing memory_size offset len g =
     (if range_fits offset len memory_size then Inr (map (storage g) [offset..<offset + len]) else Inl BackingRange)"

definition write_backing :: "nat \<Rightarrow> nat \<Rightarrow> u8 list \<Rightarrow> 's guest \<Rightarrow> memory_error + 's guest" where
  "write_backing memory_size offset bs g =
     (if range_fits offset (length bs) memory_size
      then Inr (g\<lparr>storage := (\<lambda>x. if offset \<le> x \<and> x < offset + length bs then bs ! (x - offset) else storage g x)\<rparr>)
      else Inl BackingRange)"

subsection \<open>Pages\<close>

lemma address_mask_low: "bit (address_mask m) n \<longleftrightarrow> n < 32 \<and> (a20_enabled m \<or> n \<noteq> 20)"
  by (cases "a20_enabled m")
    (auto simp only: address_mask_def if_True if_False bit_not_iff bit_push_bit_iff bit_1_iff bit_minus_1_iff
      possible_bit_word, simp_all)

lemma unat_take_bit_mod: "unat (take_bit n (w :: u32)) = unat w mod 2 ^ n"
  unfolding unsigned_take_bit_eq by (rule take_bit_eq_mod)

lemma unat_drop_bit_div: "unat (drop_bit n (w :: u32)) = unat w div 2 ^ n"
  unfolding unsigned_drop_bit_eq using unsigned_less [of w, where 'a = nat]
  by (simp add: drop_bit_eq_div take_bit_nat_eq_self)

lemma page_offset_add:
  fixes a k n :: nat
  assumes "a mod n + k < n"
  shows "(a + k) div n = a div n" and "(a + k) mod n = a mod n + k"
proof -
  have "a + k = (a mod n + k) + n * (a div n)" by simp
  then have "(a + k) div n = ((a mod n + k) + n * (a div n)) div n" "(a + k) mod n = ((a mod n + k) + n * (a div n)) mod n"
    by (rule arg_cong)+
  then show "(a + k) div n = a div n" "(a + k) mod n = a mod n + k"
    using assms div_mult_self2 [of n "a mod n + k" "a div n"] mod_mult_self2 [of "a mod n + k" n "a div n"]
    by (auto simp del: div_mult_self2 mod_mult_self2)
qed

lemma bus_address_mod: "a < 2 ^ 32 \<Longrightarrow> bus_address m a mod 0x1000 = a mod 0x1000"
proof -
  assume a: "a < 2 ^ 32"
  have "take_bit 12 (of_nat a AND address_mask m) = take_bit 12 (of_nat a :: u32)"
    by (rule bit_word_eqI) (auto simp only: bit_take_bit_iff bit_and_iff address_mask_low)
  then have "unat (of_nat a AND address_mask m) mod 2 ^ 12 = unat (of_nat a :: u32) mod 2 ^ 12"
    by (simp only: unat_take_bit_mod [symmetric])
  then show ?thesis using a by (simp add: bus_address_def unsigned_of_nat take_bit_nat_eq_self)
qed

lemma bus_address_div:
  "bus_address m a div 0x1000 = unat (drop_bit 12 (of_nat a :: u32) AND drop_bit 12 (address_mask m))"
  using unat_drop_bit_div [of 12 "of_nat a AND address_mask m"] by (simp add: bus_address_def drop_bit_and)

text \<open>Within one 4-KiB page the bus address advances with the address.\<close>

lemma bus_address_page:
  assumes "a mod 0x1000 + k < 0x1000" and "a + k < 2 ^ 32"
  shows "bus_address m (a + k) = bus_address m a + k"
proof -
  have page: "(a + k) div 0x1000 = a div 0x1000" "(a + k) mod 0x1000 = a mod 0x1000 + k" using page_offset_add [OF assms(1)] .
  have "unat (drop_bit 12 (of_nat (a + k) :: u32)) = unat (drop_bit 12 (of_nat a :: u32))"
    using assms page(1) unfolding unat_drop_bit_div by (simp add: unsigned_of_nat take_bit_nat_eq_self del: of_nat_add)
  then have "drop_bit 12 (of_nat (a + k) :: u32) = drop_bit 12 (of_nat a :: u32)" by (simp only: word_unat_eq_iff)
  then have "bus_address m (a + k) div 0x1000 = bus_address m a div 0x1000"
    by (simp only: bus_address_div)
  moreover have "bus_address m (a + k) mod 0x1000 = bus_address m a mod 0x1000 + k"
    using assms page(2) by (simp add: bus_address_mod)
  ultimately show ?thesis by (metis add.assoc div_mult_mod_eq)
qed

lemma advance_advance [simp]: "advance_mapping k (advance_mapping n mp) = advance_mapping (n + k) mp"
  by (cases mp) simp_all

lemma advance_Mmio [simp]: "advance_mapping k mp = Mmio \<longleftrightarrow> mp = Mmio"
  by (cases mp) simp_all

lemma map_get_page:
  assumes "a mod 0x1000 + k < 0x1000" and "a + k < 2 ^ 32"
  shows "map_get m (a + k) = advance_mapping k (map_get m a)"
proof (cases "a < 0x110000")
  case True
  have bus: "bus_address m (a + k) = bus_address m a + k" using bus_address_page [OF assms] .
  have "bus_address m a mod 0x1000 + k < 0x1000" using assms by (simp add: bus_address_mod)
  then have "(bus_address m a + k) div 0x1000 = bus_address m a div 0x1000"
    "(bus_address m a + k) mod 0x1000 = bus_address m a mod 0x1000 + k" using page_offset_add by blast+
  moreover have "a + k < 0x110000"
    using page_offset_add(1) [OF assms(1)] True div_less_iff_less_mult [of "0x1000" a "0x110"]
      div_less_iff_less_mult [of "0x1000" "a + k" "0x110"] by simp
  ultimately show ?thesis using True bus by (simp add: map_get_def Let_def)
next
  case False
  then show ?thesis by (simp add: map_get_def)
qed

lemma map_get_Mmio: "map_get m a = Mmio \<Longrightarrow> a < 0x110000"
  by (auto simp: map_get_def split: if_splits)

lemma bus_address_le: "a < 2 ^ 32 \<Longrightarrow> bus_address m a \<le> a"
  using word_and_le2 [of "of_nat a :: u32" "address_mask m"]
  by (simp add: bus_address_def word_le_nat_alt unsigned_of_nat take_bit_nat_eq_self)

subsection \<open>Spans\<close>

text \<open>What a span of the walk promises of each of its addresses.\<close>

definition span_good :: "physical_map \<Rightarrow> nat \<Rightarrow> nat \<Rightarrow> bool" where
  "span_good m a len \<longleftrightarrow> (\<forall>k<len. map_get m (a + k) = advance_mapping k (map_get m a) \<and>
     (map_get m a = Mmio \<longrightarrow> bus_address m (a + k) = bus_address m a + k))"

lemma span_good_page:
  assumes "a mod 0x1000 + len \<le> 0x1000" and "a + len \<le> 2 ^ 32"
  shows "span_good m a len"
  using map_get_page [of a _ m] bus_address_page [of a _ m] assms by (auto simp: span_good_def)

lemma span_good_extend:
  assumes "span_good m a l" and "map_get m a = Mmio" and "map_get m (a + l) = Mmio"
    and "bus_address m (a + l) = bus_address m a + l" and "span_good m (a + l) k"
  shows "span_good m a (l + k)"
  unfolding span_good_def
proof (intro allI impI)
  fix i assume i: "i < l + k"
  show "map_get m (a + i) = advance_mapping i (map_get m a) \<and>
      (map_get m a = Mmio \<longrightarrow> bus_address m (a + i) = bus_address m a + i)"
  proof (cases "i < l")
    case True
    then show ?thesis using assms(1) by (simp add: span_good_def)
  next
    case False
    then obtain j where "i = l + j" "j < k" using i by (metis add_less_cancel_left le_Suc_ex not_less)
    then show ?thesis using assms by (simp add: span_good_def add.assoc [symmetric])
  qed
qed

lemma span_len_good:
  assumes "a + n \<le> 2 ^ 32" and "0 < n"
  shows "span_good m a (span_len m a n)"
proof -
  let ?first = "min n (PAGE_BYTES - a mod PAGE_BYTES)"
  have first: "span_good m a ?first" using assms by (intro span_good_page) (auto simp: min_def)
  show ?thesis
  proof (cases "map_get m a = Mmio")
    case True
    have "span_good m a (mmio_extend m a (bus_address m a) ?first n) \<and> mmio_extend m a (bus_address m a) ?first n \<le> n"
    proof (rule mmio_extend_invariant [where P = "\<lambda>l. span_good m a l \<and> l \<le> n"], goal_cases)
      case (2 l)
      have "span_good m (a + l) (min (n - l) (PAGE_BYTES - (a + l) mod PAGE_BYTES))"
        using assms 2(2) by (intro span_good_page) (auto simp: min_def)
      then show ?case using 2 True by (auto intro!: span_good_extend)
    qed (use first in simp)
    then show ?thesis using True by (simp add: span_len_def Let_def)
  next
    case False
    then show ?thesis using first by (simp add: span_len_def)
  qed
qed

subsection \<open>The view, run by run\<close>

text \<open>The reference: one byte at a time, except that device addresses which follow each other on the bus
  are one run, as long as the range has them.\<close>

definition on_run :: "physical_map \<Rightarrow> nat \<Rightarrow> nat \<Rightarrow> bool" where
  "on_run m a i \<longleftrightarrow> map_get m (a + i) = Mmio \<and> bus_address m (a + i) = bus_address m a + i"

definition device_run :: "physical_map \<Rightarrow> nat \<Rightarrow> nat \<Rightarrow> nat" where
  "device_run m a n = length (takeWhile (on_run m a) [0..<n])"

lemma device_run_bounds: "device_run m a n \<le> n" "map_get m a = Mmio \<Longrightarrow> 0 < n \<Longrightarrow> 0 < device_run m a n"
proof -
  show "device_run m a n \<le> n" using length_takeWhile_le [of "on_run m a" "[0..<n]"] by (simp add: device_run_def)
  show "0 < device_run m a n" if "map_get m a = Mmio" "0 < n"
    using that by (simp add: device_run_def on_run_def upt_conv_Cons)
qed

lemma device_run_eq:
  assumes "l \<le> n" "\<And>i. i < l \<Longrightarrow> on_run m a i" "l = n \<or> \<not> on_run m a l"
  shows "device_run m a n = l"
proof -
  have "takeWhile (on_run m a) [0..<n] = take l [0..<n]"
    by (rule takeWhile_eq_take_P_nth) (use assms in auto)
  then show ?thesis using assms(1) by (simp add: device_run_def)
qed

definition plain_byte :: "physical_map \<Rightarrow> (nat \<Rightarrow> u8) \<Rightarrow> nat \<Rightarrow> u8" where
  "plain_byte m st x = (case map_get m x of Ram offset \<Rightarrow> st offset | Rom offset \<Rightarrow> st offset | _ \<Rightarrow> 0xFF)"

definition store_plain :: "physical_map \<Rightarrow> nat \<Rightarrow> u8 \<Rightarrow> (nat \<Rightarrow> u8) \<Rightarrow> nat \<Rightarrow> u8" where
  "store_plain m x b st = (case map_get m x of Ram offset \<Rightarrow> st(offset := b) | _ \<Rightarrow> st)"

function read_runs ::
  "(nat \<Rightarrow> nat \<Rightarrow> nat \<Rightarrow> 's \<Rightarrow> 's \<times> u64) \<Rightarrow> io_bus \<Rightarrow> physical_map \<Rightarrow> nat \<Rightarrow> nat \<Rightarrow> 's guest \<Rightarrow> ('s guest \<times> u8 list) option" where
  "read_runs rd bus m a n g =
     (if n = 0 then Some (g, [])
      else if map_get m a = Mmio then
        Option.bind (read_chunks rd bus (bus_address m a) (device_run m a n) (devices g)) (\<lambda>(s, bs).
          map_option (\<lambda>(g, more). (g, bs @ more))
            (read_runs rd bus m (a + device_run m a n) (n - device_run m a n) (g\<lparr>devices := s\<rparr>)))
      else map_option (\<lambda>(g', more). (g', plain_byte m (storage g) a # more)) (read_runs rd bus m (a + 1) (n - 1) g))"
  by pat_completeness auto
termination
  by (relation "measure (\<lambda>(rd, bus, m, a, n, g). n)") (auto simp: device_run_bounds)

function write_runs ::
  "(nat \<Rightarrow> nat \<Rightarrow> nat \<Rightarrow> u64 \<Rightarrow> 's \<Rightarrow> 's) \<Rightarrow> io_bus \<Rightarrow> physical_map \<Rightarrow> nat \<Rightarrow> u8 list \<Rightarrow> 's guest \<Rightarrow> 's guest option" where
  "write_runs wr bus m a bs g =
     (if bs = [] then Some g
      else if map_get m a = Mmio then
        Option.bind (write_chunks wr bus (bus_address m a) (take (device_run m a (length bs)) bs) (devices g)) (\<lambda>s.
          write_runs wr bus m (a + device_run m a (length bs)) (drop (device_run m a (length bs)) bs) (g\<lparr>devices := s\<rparr>))
      else write_runs wr bus m (a + 1) (drop 1 bs) (g\<lparr>storage := store_plain m a (bs ! 0) (storage g)\<rparr>))"
  by pat_completeness auto
termination
  by (relation "measure (\<lambda>(wr, bus, m, a, bs, g). length bs)") (auto simp: device_run_bounds)

declare read_runs.simps [simp del] write_runs.simps [simp del]

text \<open>A span of the walk is a run of devices, or none of its addresses is a device's.\<close>

lemma mmio_extend_maximal:
  "\<not> (mmio_extend m a b len n < n \<and> map_get m (a + mmio_extend m a b len n) = Mmio \<and>
     bus_address m (a + mmio_extend m a b len n) = b + mmio_extend m a b len n)"
proof (induction "n - len" arbitrary: len rule: less_induct)
  case less
  show ?case
  proof (cases "len < n \<and> map_get m (a + len) = Mmio \<and> bus_address m (a + len) = b + len")
    case True
    let ?more = "len + min (n - len) (PAGE_BYTES - (a + len) mod PAGE_BYTES)"
    have "0 < min (n - len) (PAGE_BYTES - (a + len) mod PAGE_BYTES)" using True by simp
    then have "n - ?more < n - len" using True by linarith
    from less.hyps [OF this] show ?thesis using True by (simp add: mmio_extend_step)
  next
    case False
    then show ?thesis using mmio_extend_stop [OF False] by simp
  qed
qed

lemma span_len_run:
  assumes "a + n \<le> 2 ^ 32" and "0 < n" and "map_get m a = Mmio"
  shows "span_len m a n = device_run m a n"
proof -
  have l: "span_len m a n = mmio_extend m a (bus_address m a) (min n (PAGE_BYTES - a mod PAGE_BYTES)) n"
    using assms(3) by (simp add: span_len_def Let_def)
  have "span_len m a n \<le> n" using span_len_bounds [OF assms(2)] by simp
  moreover have "on_run m a i" if "i < span_len m a n" for i
    using span_len_good [OF assms(1,2), of m] that assms(3) by (simp add: span_good_def on_run_def)
  moreover have "span_len m a n = n \<or> \<not> on_run m a (span_len m a n)"
    using mmio_extend_maximal [of m a "bus_address m a" _ n] calculation(1) unfolding l on_run_def by (meson le_neq_implies_less)
  ultimately show ?thesis by (intro device_run_eq [symmetric])
qed

lemma span_len_plain:
  assumes "a + n \<le> 2 ^ 32" and "0 < n" and "map_get m a \<noteq> Mmio" and "i < span_len m a n"
  shows "map_get m (a + i) = advance_mapping i (map_get m a)" "map_get m (a + i) \<noteq> Mmio"
  using span_len_good [OF assms(1,2), of m] assms(3,4) by (auto simp: span_good_def)

lemma read_runs_plain:
  "(\<And>i. i < l \<Longrightarrow> map_get m (a + i) \<noteq> Mmio) \<Longrightarrow> l \<le> n \<Longrightarrow>
   read_runs rd bus m a n g =
     map_option (\<lambda>(g', more). (g', map (plain_byte m (storage g)) [a..<a + l] @ more)) (read_runs rd bus m (a + l) (n - l) g)"
proof (induction l arbitrary: a n)
  case 0
  show ?case by (cases "read_runs rd bus m a n g") auto
next
  case (Suc l)
  have "read_runs rd bus m (a + 1) (n - 1) g =
      map_option (\<lambda>(g', more). (g', map (plain_byte m (storage g)) [a + 1..<a + 1 + l] @ more)) (read_runs rd bus m (a + 1 + l) (n - 1 - l) g)"
    by (rule Suc.IH) (use Suc.prems(1) [of "Suc _"] Suc.prems(2) in auto)
  moreover have "[a..<a + Suc l] = a # [a + 1..<a + 1 + l]" by (simp add: upt_conv_Cons del: upt_Suc)
  moreover have "read_runs rd bus m a n g = map_option (\<lambda>(g', more). (g', plain_byte m (storage g) a # more)) (read_runs rd bus m (a + 1) (n - 1) g)"
    using Suc.prems(1) [of 0] Suc.prems(2) by (subst read_runs.simps) simp
  ultimately show ?case by (cases "read_runs rd bus m (a + 1 + l) (n - 1 - l) g") (auto simp del: upt_Suc)
qed

lemma read_spans_runs:
  assumes "a + n \<le> 2 ^ 32"
  shows "read_spans rd (Some bus) (spans m a n) g = read_runs rd bus m a n g"
  using assms
proof (induction n arbitrary: a g rule: less_induct)
  case (less n)
  show ?case
  proof (cases "n = 0")
    case False
    let ?l = "span_len m a n"
    have l: "0 < ?l" "?l \<le> n" using span_len_bounds [of n m a] False by auto
    have spans: "spans m a n = (map_get m a, bus_address m a, ?l) # spans m (a + ?l) (n - ?l)"
      using False by (subst spans.simps) (simp add: Let_def)
    have rest: "read_spans rd (Some bus) (spans m (a + ?l) (n - ?l)) g' = read_runs rd bus m (a + ?l) (n - ?l) g'" for g'
      using less.IH [of "n - ?l" "a + ?l"] less.prems l False by simp
    show ?thesis
    proof (cases "map_get m a = Mmio")
      case True
      then show ?thesis unfolding spans using span_len_run [OF less.prems _ True] False rest
        by (subst read_runs.simps, cases "read_chunks rd bus (bus_address m a) ?l (devices g)") (auto simp: read_span_def)
    next
      case plain: False
      note at = span_len_plain [OF less.prems _ plain]
      have "read_span rd (Some bus) (map_get m a, bus_address m a, ?l) g = Some (g, map (plain_byte m (storage g)) [a..<a + ?l])"
        using plain at(1) False
        by (cases "map_get m a") (auto simp: read_span_def plain_byte_def intro!: nth_equalityI)
      then show ?thesis unfolding spans using read_runs_plain [of ?l m a n rd bus g] at(2) l False rest by simp
    qed
  qed (simp add: spans.simps read_runs.simps)
qed

lemma write_runs_plain:
  "(\<And>i. i < length xs \<Longrightarrow> map_get m (a + i) \<noteq> Mmio) \<Longrightarrow>
   write_runs wr bus m a (xs @ ys) g =
     write_runs wr bus m (a + length xs) ys (g\<lparr>storage := fold (\<lambda>(x, b). store_plain m x b) (enumerate a xs) (storage g)\<rparr>)"
proof (induction xs arbitrary: a g)
  case (Cons x xs)
  have "write_runs wr bus m (a + 1) (xs @ ys) g' =
      write_runs wr bus m (a + 1 + length xs) ys (g'\<lparr>storage := fold (\<lambda>(x, b). store_plain m x b) (enumerate (a + 1) xs) (storage g')\<rparr>)" for g'
    by (rule Cons.IH) (use Cons.prems [of "Suc _"] in auto)
  then show ?case using Cons.prems [of 0] by (subst write_runs.simps) simp
qed simp

lemma store_plain_row:
  assumes "\<And>i. i < length bs \<Longrightarrow> map_get m (a + i) = advance_mapping i (map_get m a)" and "map_get m a \<noteq> Mmio"
  shows "fold (\<lambda>(x, b). store_plain m x b) (enumerate a bs) st =
    (case map_get m a of Ram offset \<Rightarrow> \<lambda>x. if offset \<le> x \<and> x < offset + length bs then bs ! (x - offset) else st x | _ \<Rightarrow> st)"
proof -
  have "fold (\<lambda>(x, b). store_plain m x b) (enumerate a (take k bs)) st =
      (case map_get m a of Ram offset \<Rightarrow> \<lambda>x. if offset \<le> x \<and> x < offset + k then bs ! (x - offset) else st x | _ \<Rightarrow> st)"
    if "k \<le> length bs" for k
    using that
  proof (induction k)
    case (Suc k)
    have "enumerate a (take (Suc k) bs) = enumerate a (take k bs) @ [(a + k, bs ! k)]"
      using Suc.prems by (simp add: take_Suc_conv_app_nth enumerate_append_eq)
    then show ?case using Suc assms(1) [of k] assms(2)
      by (cases "map_get m a") (auto simp: store_plain_def fun_eq_iff less_Suc_eq)
  qed (auto simp: fun_eq_iff split: physical_mapping.split)
  from this [of "length bs"] show ?thesis by simp
qed

lemma write_spans_runs:
  assumes "a + length bs \<le> 2 ^ 32"
  shows "write_spans wr (Some bus) (spans m a (length bs)) bs g = write_runs wr bus m a bs g"
  using assms
proof (induction bs arbitrary: a g rule: measure_induct_rule [of length])
  case (less bs)
  show ?case
  proof (cases "bs = []")
    case False
    let ?n = "length bs" and ?l = "span_len m a (length bs)"
    have l: "0 < ?l" "?l \<le> ?n" using span_len_bounds [of ?n m a] False by auto
    have spans: "spans m a ?n = (map_get m a, bus_address m a, ?l) # spans m (a + ?l) (?n - ?l)"
      using False by (subst spans.simps) (simp add: Let_def)
    have rest: "write_spans wr (Some bus) (spans m (a + ?l) (?n - ?l)) (drop ?l bs) g' = write_runs wr bus m (a + ?l) (drop ?l bs) g'" for g'
      using less.IH [of "drop ?l bs" "a + ?l"] less.prems l False by simp
    show ?thesis
    proof (cases "map_get m a = Mmio")
      case True
      then show ?thesis unfolding spans using span_len_run [OF less.prems _ True] False rest
        by (subst write_runs.simps, cases "write_chunks wr bus (bus_address m a) (take ?l bs) (devices g)") (auto simp: write_span_def)
    next
      case plain: False
      note at = span_len_plain [OF less.prems _ plain]
      let ?bs = "take ?l bs"
      have len: "length ?bs = ?l" using l by simp
      have one: "write_span wr (Some bus) (map_get m a, bus_address m a, ?l) ?bs g =
          Some (g\<lparr>storage := fold (\<lambda>(x, b). store_plain m x b) (enumerate a ?bs) (storage g)\<rparr>)"
        using store_plain_row [of ?bs m a "storage g"] at(1) False plain len
        by (cases "map_get m a") (auto simp: write_span_def)
      have "write_runs wr bus m a (?bs @ drop ?l bs) g =
          write_runs wr bus m (a + length ?bs) (drop ?l bs) (g\<lparr>storage := fold (\<lambda>(x, b). store_plain m x b) (enumerate a ?bs) (storage g)\<rparr>)"
        by (rule write_runs_plain) (use at(2) len False in auto)
      then show ?thesis unfolding spans using one rest len by simp
    qed
  qed (simp add: spans.simps write_runs.simps)
qed

text \<open>Device accesses within the bus succeed, so a transfer within the address space does.\<close>

lemma read_chunks_total: "a + n \<le> 2 ^ 32 \<Longrightarrow> \<exists>s' bs. read_chunks rd bus a n s = Some (s', bs) \<and> length bs = n"
proof (induction n arbitrary: a s rule: less_induct)
  case (less n)
  show ?case
  proof (cases n)
    case (Suc n')
    let ?k = "min n 8"
    have k: "0 < ?k" "?k \<le> 8" "a + ?k \<le> 2 ^ 32" using less.prems Suc by auto
    obtain s1 v where v: "bus_read_mmio rd bus a ?k s = Some (s1, v)"
      using k by (auto simp: bus_read_mmio_def check_mmio_range_def split_beta)
    obtain s' bs where "read_chunks rd bus (a + ?k) (n - ?k) s1 = Some (s', bs)" "length bs = n - ?k"
    proof -
      have "n - ?k < n" "a + ?k + (n - ?k) \<le> 2 ^ 32" using k less.prems Suc by auto
      from less.IH [OF this, of s1] show thesis using that by blast
    qed
    then show ?thesis using v Suc by (auto simp: Let_def)
  qed simp
qed

lemma write_chunks_total: "a + length bs \<le> 2 ^ 32 \<Longrightarrow> \<exists>s'. write_chunks wr bus a bs s = Some s'"
proof (induction bs arbitrary: a s rule: measure_induct_rule [of length])
  case (less bs)
  show ?case
  proof (cases bs)
    case (Cons b bs')
    let ?c = "take 8 bs"
    have "0 < length ?c" "length ?c \<le> 8" "a + length ?c \<le> 2 ^ 32" using less.prems Cons by auto
    then obtain s1 where "bus_write_mmio wr bus a (length ?c) (from_le_bytes (?c @ replicate (8 - length ?c) 0)) s = Some s1"
      by (simp add: bus_write_mmio_def check_mmio_range_def Suc_le_eq)
    moreover obtain s' where "write_chunks wr bus (a + 8) (drop 8 bs) s1 = Some s'"
    proof (cases "drop 8 bs = []")
      case False
      then have "length (drop 8 bs) < length bs" "a + 8 + length (drop 8 bs) \<le> 2 ^ 32" using less.prems by auto
      from less.IH [OF this, of s1] show thesis using that by blast
    qed (use that in simp)
    ultimately show ?thesis using Cons by (auto simp: Let_def)
  qed simp
qed

lemma run_end: "a + n \<le> 2 ^ 32 \<Longrightarrow> map_get m a = Mmio \<Longrightarrow> bus_address m a + device_run m a n \<le> 2 ^ 32"
  using bus_address_le [of a m] map_get_Mmio [of m a] device_run_bounds(1) [of m a n] by simp

lemma read_runs_total: "a + n \<le> 2 ^ 32 \<Longrightarrow> \<exists>g' bs. read_runs rd bus m a n g = Some (g', bs) \<and> length bs = n"
proof (induction n arbitrary: a g rule: less_induct)
  case (less n)
  show ?case
  proof (cases "n = 0")
    case False
    show ?thesis
    proof (cases "map_get m a = Mmio")
      case True
      let ?k = "device_run m a n"
      have k: "0 < ?k" "?k \<le> n" using device_run_bounds [of m a n] True False by auto
      obtain s xs where xs: "read_chunks rd bus (bus_address m a) ?k (devices g) = Some (s, xs)" "length xs = ?k"
        using read_chunks_total [OF run_end [OF less.prems True], of rd bus "devices g"] by blast
      obtain g' ys where "read_runs rd bus m (a + ?k) (n - ?k) (g\<lparr>devices := s\<rparr>) = Some (g', ys)" "length ys = n - ?k"
        using less.IH [of "n - ?k" "a + ?k" "g\<lparr>devices := s\<rparr>"] less.prems k by auto
      then show ?thesis using True False xs k by (subst read_runs.simps) simp
    next
      case plain: False
      obtain g' ys where "read_runs rd bus m (a + 1) (n - 1) g = Some (g', ys)" "length ys = n - 1"
        using less.IH [of "n - 1" "a + 1" g] less.prems False by auto
      then show ?thesis using plain False by (subst read_runs.simps) simp
    qed
  qed (simp add: read_runs.simps)
qed

lemma write_runs_total: "a + length bs \<le> 2 ^ 32 \<Longrightarrow> \<exists>g'. write_runs wr bus m a bs g = Some g'"
proof (induction bs arbitrary: a g rule: measure_induct_rule [of length])
  case (less bs)
  show ?case
  proof (cases "bs = []")
    case False
    show ?thesis
    proof (cases "map_get m a = Mmio")
      case True
      let ?k = "device_run m a (length bs)"
      have k: "0 < ?k" "?k \<le> length bs" using device_run_bounds [of m a "length bs"] True False by auto
      have "bus_address m a + length (take ?k bs) \<le> 2 ^ 32" using run_end [OF less.prems True] k by simp
      from write_chunks_total [OF this, of wr bus "devices g"]
      obtain s where "write_chunks wr bus (bus_address m a) (take ?k bs) (devices g) = Some s" by blast
      moreover obtain g' where "write_runs wr bus m (a + ?k) (drop ?k bs) (g\<lparr>devices := s\<rparr>) = Some g'"
        using less.IH [of "drop ?k bs" "a + ?k" "g\<lparr>devices := s\<rparr>"] less.prems k False by auto
      ultimately show ?thesis using True False by (subst write_runs.simps) simp
    next
      case plain: False
      then show ?thesis using less.IH [of "drop 1 bs" "a + 1"] less.prems False by (subst write_runs.simps) (cases bs, auto)
    qed
  qed (simp add: write_runs.simps)
qed

lemma view_read_eq: "a + n \<le> 2 ^ 32 \<Longrightarrow> view_read rd (Some bus) m a n g = map_option (\<lambda>(g, bs). (g, Inr bs)) (read_runs rd bus m a n g)"
  by (simp add: view_read_def view_resolve_def range_fits_def read_spans_runs)

lemma view_write_eq: "a + length bs \<le> 2 ^ 32 \<Longrightarrow> view_write wr (Some bus) m a bs g = map_option (\<lambda>g. (g, Inr ())) (write_runs wr bus m a bs g)"
  by (simp add: view_write_def view_resolve_def range_fits_def write_spans_runs)

subsection \<open>The serialized table\<close>

text \<open>What \<open>map_new\<close> promises of the pages it installs.\<close>

definition page_ok :: "physical_mapping \<Rightarrow> bool" where
  "page_ok p \<longleftrightarrow> (case backing_offset p of None \<Rightarrow> True | Some b \<Rightarrow> b mod 0x1000 = 0 \<and> b + 0x1000 \<le> 2 ^ 32)"

definition map_wf :: "physical_map \<Rightarrow> bool" where
  "map_wf m \<longleftrightarrow> length (pages m) = PAGE_COUNT \<and> list_all page_ok (pages m)"

lemma install_region_ok:
  assumes "check_region first final mp = None" and "list_all page_ok ps"
  shows "list_all page_ok (install_region first final mp ps)"
  unfolding list_all_length
proof (intro allI impI)
  fix i assume "i < length (install_region first final mp ps)"
  then have i: "i < length ps" by (simp add: install_region_def)
  let ?k = "i - first div PAGE_BYTES"
  have "page_ok (advance_mapping (?k * PAGE_BYTES) mp)"
    if "first div PAGE_BYTES \<le> i" "i < final div PAGE_BYTES + 1"
  proof -
    have r: "first mod PAGE_BYTES = 0" "final mod PAGE_BYTES = PAGE_BYTES - 1" "first \<le> final"
      using assms(1) by (auto simp: check_region_def split: if_splits)
    have "first = PAGE_BYTES * (first div PAGE_BYTES)" "final = PAGE_BYTES * (final div PAGE_BYTES) + (PAGE_BYTES - 1)"
      using r(1,2) mult_div_mod_eq [of PAGE_BYTES first] mult_div_mod_eq [of PAGE_BYTES final] by linarith+
    then have k: "?k * PAGE_BYTES + PAGE_BYTES \<le> final - first + 1" using that by linarith
    show ?thesis
    proof (cases "backing_offset mp")
      case (Some b)
      then have "b mod PAGE_BYTES = 0" "b + (final - first + 1) \<le> 2 ^ 32"
        using assms(1) by (auto simp: check_region_def split: if_splits)
      moreover have "backing_offset (advance_mapping (?k * PAGE_BYTES) mp) = Some (b + ?k * PAGE_BYTES)"
        using Some by (cases mp) auto
      ultimately show ?thesis using k by (auto simp: page_ok_def)
    next
      case None
      then show ?thesis by (cases mp) (auto simp: page_ok_def)
    qed
  qed
  then show "page_ok (install_region first final mp ps ! i)"
    using assms(2) i by (auto simp: install_region_def list_all_length)
qed

lemma install_regions_ok:
  "install_regions rs ps = Inr qs \<Longrightarrow> list_all page_ok ps \<Longrightarrow> list_all page_ok qs \<and> length qs = length ps"
proof (induction rs ps rule: install_regions.induct)
  case (2 first final mp rs ps)
  then show ?case using install_region_ok [of first final mp ps]
    by (auto simp: install_region_def split: option.splits)
qed simp

lemma map_new_wf: "map_new rs = Inr m \<Longrightarrow> map_wf m \<and> \<not> a20_enabled m"
proof -
  assume "map_new rs = Inr m"
  then obtain ps where "install_regions rs (replicate PAGE_COUNT Unmapped) = Inr ps" "m = \<lparr>pages = ps, a20_enabled = False\<rparr>"
    by (cases "install_regions rs (replicate PAGE_COUNT Unmapped)") (auto simp: map_new_def)
  moreover have "list_all page_ok (replicate PAGE_COUNT Unmapped)" by (simp add: list_all_iff page_ok_def)
  ultimately show ?thesis using install_regions_ok [of rs "replicate PAGE_COUNT Unmapped" ps]
    by (simp add: map_wf_def)
qed

lemma set_a20_wf: "map_wf m \<Longrightarrow> map_wf (set_a20_enabled e m)"
  by (simp add: map_wf_def set_a20_enabled_def)

lemma take_concat_rows:
  assumes "\<forall>r\<in>set rows. length r = n" and "i < length rows"
  shows "take n (drop (n * i) (concat rows @ rest)) = rows ! i"
  using assms
proof (induction rows arbitrary: i)
  case (Cons r rows)
  then show ?case by (cases i) (auto simp: algebra_simps)
qed simp

definition page_row :: "physical_mapping \<Rightarrow> u8 list" where
  "page_row p = to_le_bytes (fst (mapping_entry p)) @ to_le_bytes (snd (mapping_entry p))"

lemma map_to_bytes_rows: "map_to_bytes m = concat (map page_row (pages m)) @ to_le_bytes (address_mask m)"
  by (simp add: map_to_bytes_def page_row_def [abs_def] split_beta)

lemma length_page_row [simp]: "length (page_row p) = 8"
  by (simp add: page_row_def)

lemma load32_entry:
  assumes "i < length (pages m)"
  shows "load32 (map_to_bytes m) (8 * i) = fst (mapping_entry (pages m ! i))"
    and "load32 (map_to_bytes m) (8 * i + 4) = snd (mapping_entry (pages m ! i))"
proof -
  let ?t = "map_to_bytes m"
  have row: "take 8 (drop (8 * i) ?t) = page_row (pages m ! i)"
    using take_concat_rows [of "map page_row (pages m)" 8 i] assms by (simp add: map_to_bytes_rows)
  have "take 4 (drop (8 * i) ?t) = take 4 (take 8 (drop (8 * i) ?t))"
    "take 4 (drop (8 * i + 4) ?t) = take 4 (drop 4 (take 8 (drop (8 * i) ?t)))"
    by (simp_all add: drop_take add.commute)
  then show "load32 ?t (8 * i) = fst (mapping_entry (pages m ! i))" "load32 ?t (8 * i + 4) = snd (mapping_entry (pages m ! i))"
    unfolding load32_def row by (simp_all add: page_row_def from_le_bytes_to_le_bytes)
qed

lemma load32_mask: "map_wf m \<Longrightarrow> load32 (map_to_bytes m) (PAGE_COUNT * 8) = address_mask m"
proof -
  assume "map_wf m"
  then have "length (concat (map page_row (pages m))) = PAGE_COUNT * 8"
    by (simp add: map_wf_def length_concat comp_def sum_list_triv)
  then show ?thesis by (simp add: load32_def map_to_bytes_rows from_le_bytes_to_le_bytes)
qed

lemma unat_entry_offset: "unat (push_bit 3 (drop_bit 12 (w :: u32))) = 8 * (unat w div 0x1000)"
proof -
  have "unat (drop_bit 12 w) = unat w div 0x1000" using unat_drop_bit_div [of 12 w] by simp
  moreover have "unat w div 0x1000 * 8 < 2 ^ 32" using unsigned_less [of w, where 'a = nat] by (simp add: less_mult_imp_div_less)
  ultimately have "unat (drop_bit 12 w) * 2 ^ 3 < 2 ^ LENGTH(32)" by simp
  then have "unat (push_bit 3 (drop_bit 12 w)) = unat (drop_bit 12 w) * 2 ^ 3"
    unfolding unsigned_push_bit_eq by (simp only: push_bit_eq_mult take_bit_nat_eq_self)
  then show ?thesis using unat_drop_bit_div [of 12 w] by simp
qed

lemma table_lookup_entry:
  assumes "map_wf m" and "unat w < 0x110000"
  shows "table_lookup (map_to_bytes m) w =
    (let b = bus_address m (unat w); e = mapping_entry (pages m ! (b div 0x1000)) in (fst e, of_nat b, snd e))"
proof -
  have w32: "unat w < 2 ^ 32" using assms(2) by simp
  have bus: "unat (w AND address_mask m) = bus_address m (unat w)" by (simp add: bus_address_def)
  have "bus_address m (unat w) < 0x110000" using bus_address_le [OF w32, of m] assms(2) by linarith
  then have "bus_address m (unat w) div 0x1000 < length (pages m)" using assms(1) by (simp add: map_wf_def less_mult_imp_div_less)
  note load32_entry [OF this]
  moreover have "w AND address_mask m = of_nat (bus_address m (unat w))" unfolding bus [symmetric] by simp
  ultimately show ?thesis
    unfolding table_lookup_def Let_def load32_mask [OF assms(1)] unat_entry_offset bus by simp
qed

text \<open>Reading a looked-up entry back as a mapping.\<close>

definition entry_mapping :: "u32 \<times> u32 \<times> u32 \<Rightarrow> physical_mapping" where
  "entry_mapping e =
     (if fst e = 1 then Ram (unat (backing_address e)) else if fst e = 2 then Rom (unat (backing_address e))
      else if fst e = 3 then Mmio else Unmapped)"

lemma backing_address_unat:
  assumes "b mod 0x1000 = 0" and "b + 0x1000 \<le> 2 ^ 32" and "x < 2 ^ 32"
  shows "unat (backing_address (kind, of_nat x, of_nat b)) = b + x mod 0x1000"
proof -
  have "of_nat x AND (0xFFF :: u32) = take_bit 12 (of_nat x)"
    by (simp add: take_bit_eq_mask mask_numeral)
  then have low: "unat (of_nat x AND (0xFFF :: u32)) = x mod 0x1000"
    using assms(3) unat_take_bit_mod [of 12 "of_nat x"] by (simp add: unsigned_of_nat take_bit_nat_eq_self)
  have "unat (of_nat b :: u32) = b" using assms(2) by (simp add: unsigned_of_nat take_bit_nat_eq_self)
  moreover have "x mod 0x1000 < 0x1000" by simp
  ultimately show ?thesis using low assms(2) by (subst backing_address_def) (simp add: unat_word_ariths)
qed

lemma entry_mapping_map_get:
  assumes "map_wf m" and "unat w < 0x110000"
  shows "entry_mapping (table_lookup (map_to_bytes m) w) = map_get m (unat w)"
proof -
  let ?b = "bus_address m (unat w)"
  have w32: "unat w < 2 ^ 32" using assms(2) by simp
  have b: "?b < 0x110000" using bus_address_le [OF w32, of m] assms(2) by linarith
  then have page: "?b div 0x1000 < length (pages m)" using assms(1) by (simp add: map_wf_def less_mult_imp_div_less)
  then have ok: "page_ok (pages m ! (?b div 0x1000))" using assms(1) by (simp add: map_wf_def list_all_length)
  have get: "map_get m (unat w) = advance_mapping (?b mod 0x1000) (pages m ! (?b div 0x1000))"
    using assms(2) page by (simp add: map_get_def Let_def)
  show ?thesis
  proof (cases "pages m ! (?b div 0x1000)")
    case (Ram c)
    then show ?thesis using get ok backing_address_unat [of c ?b 1] b
      by (simp add: table_lookup_entry [OF assms] entry_mapping_def page_ok_def)
  next
    case (Rom c)
    then show ?thesis using get ok backing_address_unat [of c ?b 2] b
      by (simp add: table_lookup_entry [OF assms] entry_mapping_def page_ok_def)
  qed (use get in \<open>simp_all add: table_lookup_entry [OF assms] entry_mapping_def\<close>)
qed

subsection \<open>Properties\<close>


text \<open>Two pages of memory, the second one a device window, and an alias of the first through A20.\<close>

definition sample_map :: physical_map where
  "sample_map = \<lparr>pages = Ram 0x1000 # Mmio # replicate 270 Unmapped, a20_enabled = False\<rparr>"

lemma sample_map_new:
  "map_new [((0, 0xFFF), Ram 0x1000), ((0x1000, 0x1FFF), Mmio)] = Inr sample_map"
proof -
  have "install_region 0x1000 0x1FFF Mmio (install_region 0 0xFFF (Ram 0x1000) (replicate PAGE_COUNT Unmapped))
      = Ram 0x1000 # Mmio # replicate 270 Unmapped"
    by (rule nth_equalityI) (auto simp: install_region_def nth_Cons')
  then show ?thesis by (simp add: map_new_def check_region_def sample_map_def)
qed

lemma sample_map_get:
  "map_get sample_map 0xFFF = Ram 0x1FFF" "map_get sample_map 0x1000 = Mmio" "map_get sample_map 0x100000 = Ram 0x1000"
  "map_get sample_map 0x2000 = Unmapped" "bus_address sample_map 0x1000 = 0x1000"
  by (simp_all add: map_get_def bus_address_def address_mask_def sample_map_def)

definition sample_guest :: "u64 guest" where
  "sample_guest = \<lparr>storage = of_nat, devices = 5\<rparr>"

lemma sample_memory_bus: "bus_new [\<lparr>con_mmio = [(0x1000, 0x1003)], con_ports = []\<rparr>] =
    Some [\<lparr>con_mmio = [(0x1000, 0x1003)], con_ports = []\<rparr>]"
  by (simp add: bus_new_def validate_ranges_def)

text \<open>A device that counts its reads and answers with the count.\<close>

definition sample_read :: "nat \<Rightarrow> nat \<Rightarrow> nat \<Rightarrow> u64 \<Rightarrow> u64 \<times> u64" where
  "sample_read d a k s = (s + 1, s)"

lemma from_le_bytes_zeros [simp]: "from_le_bytes (replicate n 0) = 0"
  by (induction n) simp_all

lemma sample_device_read:
  "bus_read_mmio sample_read [\<lparr>con_mmio = [(0x1000, 0x1003)], con_ports = []\<rparr>] 0x1000 1 5 = Some (6, 5)"
  by (simp add: bus_read_mmio_def check_mmio_range_def read_loop.simps mmio_span_def sample_read_def to_le_bytes_def upt_rec)

lemma sample_runs:
  "read_runs sample_read [\<lparr>con_mmio = [(0x1000, 0x1003)], con_ports = []\<rparr>] sample_map 0xFFF 2 sample_guest =
     Some (sample_guest\<lparr>devices := 6\<rparr>, [0xFF, 5])"
proof -
  let ?bus = "[\<lparr>con_mmio = [(0x1000, 0x1003)], con_ports = []\<rparr>]"
  have "device_run sample_map 0x1000 1 = 1" by (simp add: device_run_def on_run_def sample_map_get)
  moreover have "read_chunks sample_read ?bus 0x1000 1 5 = Some (6, [5])"
    using sample_device_read by (simp add: to_le_bytes_def upt_rec)
  ultimately have "read_runs sample_read ?bus sample_map 0x1000 1 sample_guest = Some (sample_guest\<lparr>devices := 6\<rparr>, [5])"
    by (subst read_runs.simps) (simp add: sample_map_get sample_guest_def read_runs.simps [of _ _ _ _ 0])
  then show ?thesis by (subst read_runs.simps) (simp add: sample_map_get plain_byte_def sample_guest_def)
qed

lemma sample_view_read:
  "view_read sample_read (Some [\<lparr>con_mmio = [(0x1000, 0x1003)], con_ports = []\<rparr>]) sample_map 0xFFF 2 sample_guest =
     Some (sample_guest\<lparr>devices := 6\<rparr>, Inr [0xFF, 5])"
  by (simp add: view_read_eq sample_runs)


text \<open>The same for the host's write: bytes to RAM one after the other, nowhere for ROM and holes, and each
  longest run of device addresses as one transfer.\<close>

theorem view_write_runs:
  assumes "a + length bs \<le> 2 ^ 32"
  shows "\<exists>g'. write_runs wr bus m a bs g = Some g' \<and> view_write wr (Some bus) m a bs g = Some (g', Inr ())"
  using view_write_eq [OF assms, of wr bus m g] write_runs_total [OF assms, of wr bus m g] by fastforce

text \<open>C32: the table installed for translated code and the host's map agree. For every address of
  real mode, whatever the state of the A20 gate, the lookup in the serialized bytes yields the
  mapping of that address, with the backing offset of the very byte.\<close>

theorem table_lookup_agrees:
  assumes "map_new regions = Inr m" and "unat w < 0x110000"
  shows "entry_mapping (table_lookup (map_to_bytes (set_a20_enabled en m)) w) = map_get (set_a20_enabled en m) (unat w)"
  using entry_mapping_map_get [OF set_a20_wf assms(2)] map_new_wf [OF assms(1)] by blast

theorem table_lookup_agrees_witness:
  "entry_mapping (table_lookup (map_to_bytes (set_a20_enabled False sample_map)) 0x100000) = Ram 0x1000"
  using table_lookup_agrees [OF sample_map_new, of "0x100000" False]
  by (simp add: set_a20_enabled_def map_get_def bus_address_def address_mask_def sample_map_def)

end
