(* ===== verification/Guest_Transfer.thy ===== *)
theory Guest_Transfer
  imports Guest_Memory Segments
begin

text \<open>
  The guest's own transfers to physical memory, \<open>x86/src/memory/physical.rs\<close> with
  \<open>physical/table.rs\<close> and \<open>physical/transfer.rs\<close>: the value each emitted fragment computes at run
  time, on the serialized routing table. A transfer that fits one page of RAM or ROM goes
  straight to backing storage; every other one runs the shared byte loop, which calls the device
  bus for device pages. The loops are partial functions, \<open>None\<close> standing for a panic of the bus
  or a loop that never ends. Device callbacks do not change the routing table here.
\<close>

subsection \<open>table.rs\<close>

definition entry_readable :: "u32 \<times> u32 \<times> u32 \<Rightarrow> bool" where
  "entry_readable e \<longleftrightarrow> fst e = 1 \<or> fst e = 2"

definition direct_range :: "u8 list \<Rightarrow> u32 \<Rightarrow> u32 \<Rightarrow> intent \<Rightarrow> bool \<times> u32" where
  "direct_range table address bytes intent =
     (let e = table_lookup table address;
          allowed = (case intent of Write \<Rightarrow> fst e = 1 | _ \<Rightarrow> entry_readable e)
      in (\<not> allowed \<or> bytes = 0 \<or> bytes \<ge> 0x1001 \<or> address AND 0xFFF \<ge> 0x1001 - bytes, backing_address e))"

definition transfer_bytes :: "u8 list \<Rightarrow> u32 \<times> u32 \<times> u32 \<Rightarrow> u32 \<Rightarrow> u32" where
  "transfer_bytes table e remaining =
     (case e of (kind, address, _) \<Rightarrow>
       let in_page = 0x1000 - (address AND 0xFFF);
           cnt =
             (if in_page < remaining then
                (let next_address = address + in_page in
                 if kind = 3 then
                   (case table_lookup table next_address of (next_kind, next_bus, _) \<Rightarrow>
                      if next_kind = 3 \<and> next_bus = next_address then remaining else in_page)
                 else in_page)
              else remaining)
       in if kind = 3 then cnt else 1)"

subsection \<open>transfer.rs\<close>

definition byte_mask :: "u32 \<Rightarrow> u64" where
  "byte_mask bytes = drop_bit (unat (push_bit 3 (8 - bytes)) mod 64) (- 1)"

definition read_part ::
  "(nat \<Rightarrow> nat \<Rightarrow> nat \<Rightarrow> 's \<Rightarrow> 's \<times> u64) \<Rightarrow> io_bus \<Rightarrow> u32 \<times> u32 \<times> u32 \<Rightarrow> u32 \<Rightarrow> 's guest \<Rightarrow> ('s guest \<times> u64) option" where
  "read_part rd bus e bytes g =
     (if fst e = 3 then
        map_option (\<lambda>(s, v). (g\<lparr>devices := s\<rparr>, v)) (bus_read_mmio rd bus (unat (fst (snd e))) (unat bytes) (devices g))
      else if entry_readable e then Some (g, ucast (storage g (unat (backing_address e))))
      else Some (g, - 1))"

partial_function (option) slow_read ::
  "(nat \<Rightarrow> nat \<Rightarrow> nat \<Rightarrow> 's \<Rightarrow> 's \<times> u64) \<Rightarrow> io_bus \<Rightarrow> u8 list \<Rightarrow> u32 \<Rightarrow> u32 \<Rightarrow> u32 \<Rightarrow> u64 \<Rightarrow> 's guest \<Rightarrow> ('s guest \<times> u64) option" where
  "slow_read rd bus table address bytes don acc g =
     (let current = address + don;
          e = table_lookup table current;
          cnt = transfer_bytes table e (bytes - don)
      in Option.bind (read_part rd bus e cnt g) (\<lambda>(g, v).
           let acc = acc OR push_bit (unat (push_bit 3 don) mod 64) (v AND byte_mask cnt);
               don = don + cnt
           in if don = bytes then Some (g, acc) else slow_read rd bus table address bytes don acc g))"

definition write_part ::
  "(nat \<Rightarrow> nat \<Rightarrow> nat \<Rightarrow> u64 \<Rightarrow> 's \<Rightarrow> 's) \<Rightarrow> io_bus \<Rightarrow> u32 \<times> u32 \<times> u32 \<Rightarrow> u32 \<Rightarrow> u64 \<Rightarrow> 's guest \<Rightarrow> 's guest option" where
  "write_part wr bus e bytes v g =
     (if fst e = 3 then
        map_option (\<lambda>s. g\<lparr>devices := s\<rparr>)
          (bus_write_mmio wr bus (unat (fst (snd e))) (unat bytes) (v AND byte_mask bytes) (devices g))
      else if fst e = 1 then Some (g\<lparr>storage := (storage g)(unat (backing_address e) := ucast v)\<rparr>)
      else Some g)"

partial_function (option) slow_write ::
  "(nat \<Rightarrow> nat \<Rightarrow> nat \<Rightarrow> u64 \<Rightarrow> 's \<Rightarrow> 's) \<Rightarrow> io_bus \<Rightarrow> u8 list \<Rightarrow> u32 \<Rightarrow> u32 \<Rightarrow> u64 \<Rightarrow> u32 \<Rightarrow> 's guest \<Rightarrow> 's guest option" where
  "slow_write wr bus table address bytes v don g =
     (let current = address + don;
          e = table_lookup table current;
          cnt = transfer_bytes table e (bytes - don);
          shifted = drop_bit (unat (push_bit 3 don) mod 64) v
      in Option.bind (write_part wr bus e cnt shifted g) (\<lambda>g.
           let don = don + cnt
           in if don = bytes then Some g else slow_write wr bus table address bytes v don g))"

subsection \<open>physical.rs\<close>

text \<open>Scalar transfers of one, two, four or eight bytes, and 128-bit ones in two parts.\<close>

definition load_backing :: "'s guest \<Rightarrow> u32 \<Rightarrow> nat \<Rightarrow> 'a::len word" where
  "load_backing g address n = from_le_bytes (map (storage g) [unat address..<unat address + n])"

definition store_backing :: "u32 \<Rightarrow> u8 list \<Rightarrow> 's guest \<Rightarrow> 's guest" where
  "store_backing address bs g =
     g\<lparr>storage := (\<lambda>x. if unat address \<le> x \<and> x < unat address + length bs then bs ! (x - unat address) else storage g x)\<rparr>"

definition physical_read ::
  "(nat \<Rightarrow> nat \<Rightarrow> nat \<Rightarrow> 's \<Rightarrow> 's \<times> u64) \<Rightarrow> io_bus \<Rightarrow> u8 list \<Rightarrow> u32 \<Rightarrow> nat \<Rightarrow> 's guest \<Rightarrow> ('s guest \<times> u64) option" where
  "physical_read rd bus table address n g =
     (case direct_range table address (of_nat n) Read of (unavailable, physical) \<Rightarrow>
        if unavailable then map_option (\<lambda>(g, v). (g, take_bit (8 * n) v)) (slow_read rd bus table address (of_nat n) 0 0 g)
        else Some (g, load_backing g physical n))"

definition physical_read128 ::
  "(nat \<Rightarrow> nat \<Rightarrow> nat \<Rightarrow> 's \<Rightarrow> 's \<times> u64) \<Rightarrow> io_bus \<Rightarrow> u8 list \<Rightarrow> u32 \<Rightarrow> 's guest \<Rightarrow> ('s guest \<times> u128) option" where
  "physical_read128 rd bus table address g =
     (case direct_range table address 16 Read of (unavailable, physical) \<Rightarrow>
        if unavailable then
          Option.bind (slow_read rd bus table address 8 0 0 g) (\<lambda>(g, low).
            map_option (\<lambda>(g, high). (g, ucast low OR push_bit 64 (ucast high)))
              (slow_read rd bus table (address + 8) 8 0 0 g))
        else Some (g, load_backing g physical 16))"

definition physical_write ::
  "(nat \<Rightarrow> nat \<Rightarrow> nat \<Rightarrow> u64 \<Rightarrow> 's \<Rightarrow> 's) \<Rightarrow> io_bus \<Rightarrow> u8 list \<Rightarrow> u32 \<Rightarrow> nat \<Rightarrow> u64 \<Rightarrow> 's guest \<Rightarrow> 's guest option" where
  "physical_write wr bus table address n v g =
     (case direct_range table address (of_nat n) Write of (unavailable, physical) \<Rightarrow>
        if unavailable then slow_write wr bus table address (of_nat n) (take_bit (8 * n) v) 0 g
        else Some (store_backing physical (take n (to_le_bytes v)) g))"

definition physical_update ::
  "(nat \<Rightarrow> nat \<Rightarrow> nat \<Rightarrow> 's \<Rightarrow> 's \<times> u64) \<Rightarrow> (nat \<Rightarrow> nat \<Rightarrow> nat \<Rightarrow> u64 \<Rightarrow> 's \<Rightarrow> 's) \<Rightarrow> io_bus \<Rightarrow> u8 list \<Rightarrow> u32 \<Rightarrow> nat \<Rightarrow>
   (u64 \<Rightarrow> u64) \<Rightarrow> 's guest \<Rightarrow> ('s guest \<times> u64) option" where
  "physical_update rd wr bus table address n upd g =
     Option.bind (physical_read rd bus table address n g) (\<lambda>(g, previous).
       map_option (\<lambda>g. (g, previous)) (physical_write wr bus table address n (upd previous) g))"

subsection \<open>Rows of bytes\<close>

lemma from_le_bytes_append:
  "(from_le_bytes (xs @ ys) :: 'a::len word) = from_le_bytes xs OR push_bit (8 * length xs) (from_le_bytes ys)"
proof (induction xs)
  case (Cons x xs)
  then show ?case by (simp add: or.assoc push_bit_or add.commute)
qed simp

lemma of_nat_u32_eq: "x < 0x100000000 \<Longrightarrow> y < 0x100000000 \<Longrightarrow> (of_nat x :: u32) = of_nat y \<longleftrightarrow> x = y"
  by (simp add: word_unat_eq_iff unsigned_of_nat take_bit_nat_eq_self)

lemma unat_shl3: "don \<le> 8 \<Longrightarrow> unat (push_bit 3 (of_nat don :: u32)) = 8 * don"
proof -
  assume d: "don \<le> 8"
  then have "push_bit 3 (of_nat don) = (of_nat (8 * don) :: u32)" by (simp add: push_bit_eq_mult mult.commute)
  then show ?thesis using d by (simp only: unsigned_of_nat) (simp add: take_bit_nat_eq_self)
qed

lemma byte_mask_bits:
  assumes "0 < k" and "k \<le> 8"
  shows "bit (byte_mask (of_nat k)) n \<longleftrightarrow> n < 8 * k"
proof -
  have "8 - (of_nat k :: u32) = of_nat (8 - k)" using assms by (simp add: of_nat_diff)
  then have "unat (push_bit 3 (8 - of_nat k :: u32)) = 8 * (8 - k)" by (simp add: unat_shl3)
  moreover have "8 * (8 - k) mod 64 = 64 - 8 * k" using assms by simp
  ultimately show ?thesis using assms by (auto simp: byte_mask_def bit_drop_bit_eq bit_minus_1_iff bit_mask_iff)
qed

lemma and_byte_mask:
  assumes "0 < k" and "k \<le> 8"
  shows "v AND byte_mask (of_nat k) = from_le_bytes (take k (to_le_bytes v))"
proof (rule bit_word_eqI)
  fix n assume "n < LENGTH(64)"
  moreover have "n div 8 < k \<longleftrightarrow> n < 8 * k" by (simp add: div_less_iff_less_mult mult.commute)
  ultimately show "bit (v AND byte_mask (of_nat k)) n = bit (from_le_bytes (take k (to_le_bytes v)) :: u64) n"
    using assms by (auto simp: bit_and_iff byte_mask_bits bit_from_le_bytes nth_to_le_bytes bit_ucast_iff bit_drop_bit_eq)
qed

subsection \<open>Spans of the byte loop\<close>

text \<open>In the address range of real mode the A20 gate subtracts its bit or does nothing.\<close>

lemma bus_address_real:
  assumes "a < 0x110000"
  shows "bus_address m a = (if a20_enabled m \<or> a < 0x100000 then a else a - 0x100000)"
proof (cases "a20_enabled m")
  case True
  then show ?thesis using assms by (simp add: bus_address_def address_mask_def unsigned_of_nat take_bit_nat_eq_self)
next
  case False
  have u: "unat (of_nat a :: u32) = a" using assms by (simp add: unsigned_of_nat take_bit_nat_eq_self)
  have "of_nat a AND address_mask m = (of_nat a :: u32) - of_bool (bit (of_nat a :: u32) 20) * 2 ^ 20"
    using False unset_bit_eq [of 20 "of_nat a :: u32"] unset_bit_eq_and_not [of 20 "of_nat a :: u32"]
    by (simp add: address_mask_def)
  moreover have "bit (of_nat a :: u32) 20 \<longleftrightarrow> \<not> a < 0x100000"
  proof -
    have "bit (of_nat a :: u32) 20 = bit (unat (of_nat a :: u32)) 20" by (simp add: bit_unsigned_iff)
    also have "\<dots> = odd (a div 0x100000)" unfolding u by (simp add: bit_iff_odd)
    also have "\<dots> \<longleftrightarrow> \<not> a < 0x100000"
    proof (cases "a < 0x100000")
      case False
      then have "a div 0x100000 = 1" using assms by (intro div_nat_eqI) simp_all
      then show ?thesis using False by simp
    qed simp
    finally show ?thesis .
  qed
  moreover have "unat (of_nat a - 0x100000 :: u32) = a - 0x100000" if "\<not> a < 0x100000"
  proof -
    have "of_nat a - 0x100000 = (of_nat (a - 0x100000) :: u32)" using that by (simp add: of_nat_diff)
    then show ?thesis using assms by (simp only: unsigned_of_nat) (simp add: take_bit_nat_eq_self)
  qed
  ultimately show ?thesis using False u by (simp add: bus_address_def)
qed

text \<open>Two real-mode addresses with the same bus address have the same mapping.\<close>

lemma map_get_bus:
  "a < 0x110000 \<Longrightarrow> b < 0x110000 \<Longrightarrow> bus_address m a = bus_address m b \<Longrightarrow> map_get m a = map_get m b"
  by (simp add: map_get_def)

lemma entry_kind:
  assumes "map_wf m" and "a < 0x110000"
  shows "fst (table_lookup (map_to_bytes m) (of_nat a)) = fst (mapping_entry (map_get m a))"
    and "fst (snd (table_lookup (map_to_bytes m) (of_nat a))) = of_nat (bus_address m a)"
    and "entry_mapping (table_lookup (map_to_bytes m) (of_nat a)) = map_get m a"
proof -
  have u: "unat (of_nat a :: u32) = a" using assms by (simp add: unsigned_of_nat take_bit_nat_eq_self)
  show e: "entry_mapping (table_lookup (map_to_bytes m) (of_nat a)) = map_get m a"
    using entry_mapping_map_get [OF assms(1), of "of_nat a"] assms(2) u by simp
  let ?p = "pages m ! (bus_address m a div 0x1000)"
  have t: "table_lookup (map_to_bytes m) (of_nat a) = (fst (mapping_entry ?p), of_nat (bus_address m a), snd (mapping_entry ?p))"
    using table_lookup_entry [OF assms(1), of "of_nat a"] assms(2) u by (simp add: Let_def)
  then show "fst (snd (table_lookup (map_to_bytes m) (of_nat a))) = of_nat (bus_address m a)" by simp
  have "fst (mapping_entry (entry_mapping (table_lookup (map_to_bytes m) (of_nat a)))) = fst (mapping_entry ?p)"
    unfolding t by (cases ?p) (simp_all add: entry_mapping_def)
  then show "fst (table_lookup (map_to_bytes m) (of_nat a)) = fst (mapping_entry (map_get m a))" using e t by simp
qed

lemma mapping_kind [simp]: "fst (mapping_entry p) = 3 \<longleftrightarrow> p = Mmio"
  by (cases p) simp_all

lemma bus_address_next:
  assumes "a + p < 0x110000" and "bus_address m (bus_address m a + p) = bus_address m a + p"
  shows "bus_address m (a + p) = bus_address m a + p"
proof (cases "a20_enabled m \<or> a < 0x100000")
  case True
  then have "bus_address m a = a" using bus_address_real [of a m] assms(1) by (simp only: if_True)
  then show ?thesis using assms(2) by simp
next
  case False
  then have "bus_address m a = a - 0x100000" "bus_address m (a + p) = a + p - 0x100000"
    using bus_address_real [of a m] bus_address_real [of "a + p" m] assms(1) by auto
  then show ?thesis using False by auto
qed

lemma bus_address_idem: "bus_address m (bus_address m a) = bus_address m a"
  by (simp add: bus_address_def and.assoc)

text \<open>The number of bytes one round of the loop moves: a whole run of devices, or one byte.\<close>

lemma transfer_bytes_span:
  assumes wf: "map_wf m" and r: "0 < r" "r \<le> 8" and range: "a + r \<le> 0x110000"
  obtains k where "transfer_bytes (map_to_bytes m) (table_lookup (map_to_bytes m) (of_nat a)) (of_nat r) = of_nat k"
    "0 < k" "k \<le> r" "map_get m a = Mmio \<and> k = device_run m a r \<or> map_get m a \<noteq> Mmio \<and> k = 1"
proof -
  let ?t = "map_to_bytes m" and ?b = "bus_address m a"
  have a: "a < 0x110000" "a < 2 ^ 32" using r range by auto
  have b: "?b \<le> a" "?b mod 0x1000 = a mod 0x1000" using bus_address_le [OF a(2)] bus_address_mod [OF a(2)] by auto
  show thesis
  proof (cases "map_get m a = Mmio")
    case False
    then show thesis using that [of 1] entry_kind(1) [OF wf a(1)] False r
      by (simp add: transfer_bytes_def Let_def split_beta)
  next
    case True
    define q where "q = 0x1000 - a mod 0x1000"
    have p: "q \<le> 0x1000" "0 < q" "a mod 0x1000 + q = 0x1000" by (auto simp: q_def)
    have "(of_nat ?b :: u32) AND 0xFFF = take_bit 12 (of_nat ?b)" by (simp add: take_bit_eq_mask mask_numeral)
    moreover have "take_bit 12 ?b = a mod 0x1000" using b(2) by (simp add: take_bit_eq_mod)
    ultimately have low: "(of_nat ?b :: u32) AND 0xFFF = of_nat (a mod 0x1000)" by (simp only: take_bit_of_nat)
    then have in_page: "0x1000 - ((of_nat ?b :: u32) AND 0xFFF) = of_nat q" by (simp add: q_def of_nat_diff)
    have less: "(of_nat q :: u32) < of_nat r \<longleftrightarrow> q < r"
    proof -
      have "unat (of_nat x :: u32) = x" if "x \<le> 0x1000" for x using that by (simp add: unsigned_of_nat take_bit_nat_eq_self)
      from this [OF p(1)] this [of r] show ?thesis using r unfolding word_less_nat_alt by linarith
    qed
    show thesis
    proof (cases "q < r")
      case False
      then have "span_good m a r" using range p by (intro span_good_page) auto
      moreover have "transfer_bytes ?t (table_lookup ?t (of_nat a)) (of_nat r) = of_nat r"
        using entry_kind [OF wf a(1)] True in_page less False
        by (simp add: transfer_bytes_def Let_def split_beta)
      moreover have "device_run m a r = r"
        using calculation(1) True by (intro device_run_eq) (auto simp: span_good_def on_run_def)
      ultimately show thesis using that [of r] r True by simp
    next
      case cross: True
      let ?y = "?b + q"
      have ap: "a + q < 0x110000" "?y < 0x110000" using cross range b(1) by linarith+
      have first: "span_good m a q" using ap p by (intro span_good_page) auto
      have same: "bus_address m (a + q) = ?y" if "bus_address m ?y = ?y"
        using bus_address_next [OF ap(1) that] .
      have eq: "(of_nat (bus_address m ?y) :: u32) = of_nat ?y \<longleftrightarrow> bus_address m ?y = ?y"
        using ap(2) bus_address_le [of ?y m] by (intro of_nat_u32_eq) simp_all
      have t: "transfer_bytes ?t (table_lookup ?t (of_nat a)) (of_nat r) =
          of_nat (if map_get m ?y = Mmio \<and> bus_address m ?y = ?y then r else q)"
        using entry_kind [OF wf a(1)] entry_kind [OF wf ap(2)] True in_page less cross eq
        by (simp add: transfer_bytes_def Let_def split_beta of_nat_add [symmetric] del: of_nat_add)
      show thesis
      proof (cases "map_get m ?y = Mmio \<and> bus_address m ?y = ?y")
        case both: True
        then have "map_get m (a + q) = Mmio" using same map_get_bus [OF ap] by simp
        moreover have "span_good m (a + q) (r - q)"
        proof (rule span_good_page)
          have "a + q = 0x1000 * (a div 0x1000 + 1)" using mult_div_mod_eq [of "0x1000" a] p(3) unfolding distrib_left by linarith
          then show "(a + q) mod 0x1000 + (r - q) \<le> 0x1000" using r by simp
        qed (use range cross in simp)
        ultimately have "span_good m a (q + (r - q))" using span_good_extend [OF first True] same both by blast
        then have "device_run m a r = r"
          using True cross by (intro device_run_eq) (auto simp: span_good_def on_run_def)
        then show thesis using that [of r] t both r cross True by simp
      next
        case False
        then have k: "transfer_bytes ?t (table_lookup ?t (of_nat a)) (of_nat r) = of_nat q" unfolding t by (simp only: if_False)
        have "\<not> on_run m a q"
        proof
          assume on: "on_run m a q"
          then have "bus_address m ?y = ?y" using bus_address_idem [of m "a + q"] by (simp add: on_run_def)
          moreover from this have "map_get m ?y = map_get m (a + q)" using map_get_bus [OF ap, of m] on by (simp add: on_run_def)
          ultimately show False using False on by (simp add: on_run_def)
        qed
        then have "device_run m a r = q"
          using first True cross by (intro device_run_eq) (auto simp: span_good_def on_run_def)
        then show thesis using that [OF k] p cross True by simp
      qed
    qed
  qed
qed

subsection \<open>Reads\<close>

lemma take_1_to_le_bytes: "take (Suc 0) (to_le_bytes (v :: u64)) = [ucast v]"
  by (rule nth_equalityI) (simp_all add: nth_to_le_bytes)

lemma ucast_u64_ones [simp]: "ucast (- 1 :: u64) = (0xFF :: u8)"
  by (simp add: unsigned_minus_1_eq_mask mask_numeral)

lemma ucast_u8_u64 [simp]: "ucast (ucast (b :: u8) :: u64) = b"
  by (rule bit_word_eqI) (simp add: bit_ucast_iff)

text \<open>A run of at most eight bytes is one request.\<close>

lemma read_chunks_short:
  "0 < k \<Longrightarrow> k \<le> 8 \<Longrightarrow> read_chunks rd bus b k s = map_option (\<lambda>(s, v). (s, take k (to_le_bytes v))) (bus_read_mmio rd bus b k s)"
  by (cases k; cases "bus_read_mmio rd bus b k s") (auto simp: Let_def)

lemma read_part_run:
  assumes wf: "map_wf m" and k: "0 < k" "k \<le> 8" and a: "a < 0x110000"
  shows "map_get m a = Mmio \<Longrightarrow> map_option (\<lambda>(g, v). (g, take k (to_le_bytes v)))
      (read_part rd bus (table_lookup (map_to_bytes m) (of_nat a)) (of_nat k) g) =
      map_option (\<lambda>(s, bs). (g\<lparr>devices := s\<rparr>, bs)) (read_chunks rd bus (bus_address m a) k (devices g))"
    and "map_get m a \<noteq> Mmio \<Longrightarrow> \<exists>v. read_part rd bus (table_lookup (map_to_bytes m) (of_nat a)) 1 g = Some (g, v) \<and>
      ucast v = plain_byte m (storage g) a"
proof -
  let ?e = "table_lookup (map_to_bytes m) (of_nat a)"
  note e = entry_kind [OF wf a]
  have "bus_address m a < 2 ^ 32" using bus_address_le [of a m] a by simp
  then have u: "unat (of_nat (bus_address m a) :: u32) = bus_address m a" "unat (of_nat k :: u32) = k"
    using k by (simp_all add: unsigned_of_nat take_bit_nat_eq_self)
  show "map_option (\<lambda>(g, v). (g, take k (to_le_bytes v))) (read_part rd bus ?e (of_nat k) g) =
      map_option (\<lambda>(s, bs). (g\<lparr>devices := s\<rparr>, bs)) (read_chunks rd bus (bus_address m a) k (devices g))" if "map_get m a = Mmio"
    using e that unfolding read_chunks_short [OF k] by (simp add: read_part_def u option.map_comp comp_def split_beta)
  show "\<exists>v. read_part rd bus ?e 1 g = Some (g, v) \<and> ucast v = plain_byte m (storage g) a" if "map_get m a \<noteq> Mmio"
  proof -
    have "entry_readable ?e \<longleftrightarrow> (\<exists>b. map_get m a = Ram b \<or> map_get m a = Rom b)"
      using e(1) by (cases "map_get m a") (auto simp: entry_readable_def)
    moreover have "unat (backing_address ?e) = b" if "map_get m a = Ram b \<or> map_get m a = Rom b" for b
      using e(3) that by (auto simp: entry_mapping_def split: if_splits)
    ultimately show ?thesis using e(1) that by (cases "map_get m a") (auto simp: read_part_def plain_byte_def)
  qed
qed

text \<open>One round of the loop against one round of the reference.\<close>

lemma read_runs_round:
  assumes wf: "map_wf m" and n: "0 < n" "n \<le> 8" "a + n \<le> 0x110000"
  obtains k g1 v where "transfer_bytes (map_to_bytes m) (table_lookup (map_to_bytes m) (of_nat a)) (of_nat n) = of_nat k" "0 < k" "k \<le> n"
    "read_part rd bus (table_lookup (map_to_bytes m) (of_nat a)) (of_nat k) g = Some (g1, v)"
    "read_runs rd bus m a n g = map_option (\<lambda>(g', bs). (g', take k (to_le_bytes v) @ bs)) (read_runs rd bus m (a + k) (n - k) g1)"
proof -
  have a: "a < 0x110000" using n by simp
  obtain k where k: "transfer_bytes (map_to_bytes m) (table_lookup (map_to_bytes m) (of_nat a)) (of_nat n) = of_nat k"
    "0 < k" "k \<le> n" and kind: "map_get m a = Mmio \<and> k = device_run m a n \<or> map_get m a \<noteq> Mmio \<and> k = 1"
    using transfer_bytes_span [OF wf n] by blast
  show thesis
  proof (cases "map_get m a = Mmio")
    case True
    have "a + n \<le> 2 ^ 32" using n by simp
    from read_chunks_total [OF run_end [OF this True], of rd bus "devices g"] True kind
    obtain s bs where "read_chunks rd bus (bus_address m a) k (devices g) = Some (s, bs)" by auto
    moreover from this read_part_run(1) [OF wf k(2) _ a True, of rd bus g] k(3) n(2)
    obtain g1 v where "read_part rd bus (table_lookup (map_to_bytes m) (of_nat a)) (of_nat k) g = Some (g1, v)"
      "g1 = g\<lparr>devices := s\<rparr>" "take k (to_le_bytes v) = bs" by auto
    moreover have "read_runs rd bus m a n g = Option.bind (read_chunks rd bus (bus_address m a) k (devices g)) (\<lambda>(s, bs).
        map_option (\<lambda>(g', more). (g', bs @ more)) (read_runs rd bus m (a + k) (n - k) (g\<lparr>devices := s\<rparr>)))"
      using True kind n(1) by (subst read_runs.simps) simp
    ultimately show thesis using that [OF k, of g1 v] by simp
  next
    case False
    then have k1: "k = 1" using kind by simp
    from read_part_run(2) [OF wf k(2) _ a False, of rd bus g] k(3) n(2)
    obtain v where "read_part rd bus (table_lookup (map_to_bytes m) (of_nat a)) 1 g = Some (g, v)" "ucast v = plain_byte m (storage g) a" by auto
    moreover from this(2) have "take 1 (to_le_bytes v) = [plain_byte m (storage g) a]" by (simp add: take_1_to_le_bytes)
    moreover have "read_runs rd bus m a n g = map_option (\<lambda>(g', more). (g', plain_byte m (storage g) a # more)) (read_runs rd bus m (a + 1) (n - 1) g)"
      using False n(1) by (subst read_runs.simps) simp
    ultimately show thesis using that [OF k, of g v] unfolding k1 by simp
  qed
qed

lemma slow_read_runs:
  assumes wf: "map_wf m" and "don < n" and n: "n \<le> 8" "a + n \<le> 0x110000"
  shows "length row = don \<Longrightarrow> slow_read rd bus (map_to_bytes m) (of_nat a) (of_nat n) (of_nat don) (from_le_bytes row) g =
    map_option (\<lambda>(g', bs). (g', from_le_bytes (row @ bs))) (read_runs rd bus m (a + don) (n - don) g)"
  using assms(2)
proof (induction "n - don" arbitrary: don row g rule: less_induct)
  case less
  let ?t = "map_to_bytes m"
  let ?e = "table_lookup ?t (of_nat (a + don))"
  obtain k g1 v where k: "transfer_bytes ?t ?e (of_nat (n - don)) = of_nat k" "0 < k" "k \<le> n - don"
    and v: "read_part rd bus ?e (of_nat k) g = Some (g1, v)"
    and runs: "read_runs rd bus m (a + don) (n - don) g =
      map_option (\<lambda>(g', bs). (g', take k (to_le_bytes v) @ bs)) (read_runs rd bus m (a + don + k) (n - don - k) g1)"
    by (rule read_runs_round [OF wf, of "n - don" "a + don"]) (use less.prems n in auto)
  have sub: "(of_nat n :: u32) - of_nat don = of_nat (n - don)" using less.prems by (simp add: of_nat_diff)
  let ?row = "row @ take k (to_le_bytes v)"
  have k8: "k \<le> 8" using k(3) n by linarith
  have acc: "(from_le_bytes row :: u64) OR push_bit (8 * don) (v AND byte_mask (of_nat k)) = from_le_bytes ?row"
    using and_byte_mask [OF k(2) k8, of v] less.prems(1) by (simp add: from_le_bytes_append)
  have shift: "unat (push_bit 3 (of_nat don :: u32)) mod 64 = 8 * don" using unat_shl3 [of don] less.prems n by simp
  have fin: "(of_nat (don + k) :: u32) = of_nat n \<longleftrightarrow> don + k = n"
    using k n less.prems by (intro of_nat_u32_eq) linarith+
  have step: "slow_read rd bus ?t (of_nat a) (of_nat n) (of_nat don) (from_le_bytes row) g =
    (if don + k = n then Some (g1, from_le_bytes ?row)
     else slow_read rd bus ?t (of_nat a) (of_nat n) (of_nat (don + k)) (from_le_bytes ?row) g1)"
    by (subst slow_read.simps) (simp only: Let_def of_nat_add [symmetric] sub k(1) v bind.bind_lunit split_beta fst_conv snd_conv shift acc fin)
  show ?case
  proof (cases "don + k = n")
    case True
    then show ?thesis unfolding step runs by (simp add: read_runs.simps)
  next
    case False
    have "length ?row = don + k" using less.prems(1) k8 by simp
    then have "slow_read rd bus ?t (of_nat a) (of_nat n) (of_nat (don + k)) (from_le_bytes ?row) g1 =
        map_option (\<lambda>(g', bs). (g', from_le_bytes (?row @ bs))) (read_runs rd bus m (a + (don + k)) (n - (don + k)) g1)"
      using less.hyps [of "don + k" ?row g1] False k less.prems by simp
    then show ?thesis unfolding step runs using False
      by (cases "read_runs rd bus m (a + (don + k)) (n - (don + k)) g1") (auto simp: add.assoc diff_diff_left)
  qed
qed

subsection \<open>Writes\<close>

lemma write_chunks_short:
  "0 < length bs \<Longrightarrow> length bs \<le> 8 \<Longrightarrow> write_chunks wr bus b bs s = bus_write_mmio wr bus b (length bs) (from_le_bytes bs) s"
  by (cases bs; cases "bus_write_mmio wr bus b (length bs) (from_le_bytes bs) s") (auto simp: Let_def from_le_bytes_append)

lemma write_part_run:
  assumes wf: "map_wf m" and k: "0 < k" "k \<le> 8" and a: "a < 0x110000"
  shows "map_get m a = Mmio \<Longrightarrow> write_part wr bus (table_lookup (map_to_bytes m) (of_nat a)) (of_nat k) v g =
      map_option (\<lambda>s. g\<lparr>devices := s\<rparr>) (write_chunks wr bus (bus_address m a) (take k (to_le_bytes v)) (devices g))"
    and "map_get m a \<noteq> Mmio \<Longrightarrow> write_part wr bus (table_lookup (map_to_bytes m) (of_nat a)) 1 v g =
      Some (g\<lparr>storage := store_plain m a (ucast v) (storage g)\<rparr>)"
proof -
  let ?e = "table_lookup (map_to_bytes m) (of_nat a)"
  note e = entry_kind [OF wf a]
  have "bus_address m a < 2 ^ 32" using bus_address_le [of a m] a by simp
  then have u: "unat (of_nat (bus_address m a) :: u32) = bus_address m a" "unat (of_nat k :: u32) = k"
    using k by (simp_all add: unsigned_of_nat take_bit_nat_eq_self)
  show "write_part wr bus ?e (of_nat k) v g =
      map_option (\<lambda>s. g\<lparr>devices := s\<rparr>) (write_chunks wr bus (bus_address m a) (take k (to_le_bytes v)) (devices g))" if "map_get m a = Mmio"
    using e that k write_chunks_short [of "take k (to_le_bytes v)" wr bus "bus_address m a" "devices g"] by (simp add: write_part_def u and_byte_mask)
  show "write_part wr bus ?e 1 v g = Some (g\<lparr>storage := store_plain m a (ucast v) (storage g)\<rparr>)" if "map_get m a \<noteq> Mmio"
  proof -
    have "fst ?e = 1 \<longleftrightarrow> (\<exists>b. map_get m a = Ram b)" using e(1) by (cases "map_get m a") auto
    moreover have "unat (backing_address ?e) = b" if "map_get m a = Ram b" for b
      using e(3) that by (auto simp: entry_mapping_def split: if_splits)
    ultimately show ?thesis using e(1) that by (cases "map_get m a") (auto simp: write_part_def store_plain_def)
  qed
qed

lemma to_le_bytes_drop: "don < 8 \<Longrightarrow> to_le_bytes (drop_bit (8 * don) (v :: u64)) ! i = to_le_bytes v ! (don + i)" if "don + i < 8"
  using that by (simp add: nth_to_le_bytes drop_bit_drop_bit add.commute add_mult_distrib2)

lemma slow_write_runs:
  assumes wf: "map_wf m" and "don < n" and n: "n \<le> 8" "a + n \<le> 0x110000"
  shows "slow_write wr bus (map_to_bytes m) (of_nat a) (of_nat n) v (of_nat don) g =
    write_runs wr bus m (a + don) (take (n - don) (drop don (to_le_bytes v))) g"
  using assms(2)
proof (induction "n - don" arbitrary: don g rule: less_induct)
  case less
  let ?t = "map_to_bytes m" and ?bs = "take (n - don) (drop don (to_le_bytes v))" and ?v = "drop_bit (8 * don) v"
  let ?e = "table_lookup ?t (of_nat (a + don))"
  have len: "length ?bs = n - don" using n less.prems by simp
  have a: "a + don < 0x110000" using n less.prems by simp
  obtain k where k: "transfer_bytes ?t ?e (of_nat (n - don)) = of_nat k" "0 < k" "k \<le> n - don"
    and kind: "map_get m (a + don) = Mmio \<and> k = device_run m (a + don) (n - don) \<or> map_get m (a + don) \<noteq> Mmio \<and> k = 1"
    by (rule transfer_bytes_span [OF wf, of "n - don" "a + don"]) (use less.prems n in auto)
  have kn: "k \<le> 8" "don + k \<le> n" "don < 8" using k(3) n less.prems by linarith+
  have row: "take k (to_le_bytes ?v) = take k ?bs"
    using kn n by (intro nth_equalityI) (auto simp: to_le_bytes_drop)
  have sub: "(of_nat n :: u32) - of_nat don = of_nat (n - don)" using less.prems by (simp add: of_nat_diff)
  have shift: "unat (push_bit 3 (of_nat don :: u32)) mod 64 = 8 * don" using unat_shl3 [of don] less.prems n by simp
  have fin: "(of_nat (don + k) :: u32) = of_nat n \<longleftrightarrow> don + k = n"
    using k n less.prems by (intro of_nat_u32_eq) linarith+
  have step: "slow_write wr bus ?t (of_nat a) (of_nat n) v (of_nat don) g =
      Option.bind (write_part wr bus ?e (of_nat k) ?v g) (\<lambda>g. if don + k = n then Some g else
        slow_write wr bus ?t (of_nat a) (of_nat n) v (of_nat (don + k)) g)"
    by (subst slow_write.simps) (simp only: Let_def of_nat_add [symmetric] sub k(1) shift fin)
  have rest: "(if don + k = n then Some g' else slow_write wr bus ?t (of_nat a) (of_nat n) v (of_nat (don + k)) g') =
      write_runs wr bus m (a + don + k) (drop k ?bs) g'" for g'
  proof (cases "don + k = n")
    case True
    then have "drop k ?bs = []" by simp
    then show ?thesis using True by (simp add: write_runs.simps)
  next
    case False
    have "drop k ?bs = take (n - (don + k)) (drop (don + k) (to_le_bytes v))" by (simp add: drop_take add.commute)
    then show ?thesis using less.hyps [of "don + k" g'] k kn False by (simp add: add.assoc)
  qed
  have ne: "?bs \<noteq> []" using len less.prems by force
  show ?case
  proof (cases "map_get m (a + don) = Mmio")
    case True
    have "write_runs wr bus m (a + don) ?bs g = Option.bind (write_chunks wr bus (bus_address m (a + don)) (take k ?bs) (devices g))
        (\<lambda>s. write_runs wr bus m (a + don + k) (drop k ?bs) (g\<lparr>devices := s\<rparr>))"
      using True kind ne len by (subst write_runs.simps) simp
    then show ?thesis unfolding step rest write_part_run(1) [OF wf k(2) kn(1) a True] row
      by (cases "write_chunks wr bus (bus_address m (a + don)) (take k ?bs) (devices g)") simp_all
  next
    case False
    then have k1: "k = 1" using kind by simp
    have b: "?bs ! 0 = ucast ?v" using len less.prems kn by (simp add: nth_to_le_bytes)
    have "write_runs wr bus m (a + don) ?bs g =
        write_runs wr bus m (a + don + 1) (drop 1 ?bs) (g\<lparr>storage := store_plain m (a + don) (?bs ! 0) (storage g)\<rparr>)"
      using False ne by (subst write_runs.simps) simp
    then show ?thesis unfolding step rest using write_part_run(2) [OF wf k(2) kn(1) a False, of wr bus ?v g] by (simp add: k1 b)
  qed
qed

subsection \<open>Direct windows\<close>

lemma direct_range_window:
  assumes wf: "map_wf m" and n: "0 < n" "n \<le> 16" and a: "a < 0x110000"
    and d: "direct_range (map_to_bytes m) (of_nat a) (of_nat n) i = (False, p)"
  shows "a mod 0x1000 + n \<le> 0x1000" and "map_get m a = Ram (unat p) \<or> map_get m a = Rom (unat p) \<and> i \<noteq> Write"
proof -
  let ?e = "table_lookup (map_to_bytes m) (of_nat a)"
  have p: "p = backing_address ?e" and allowed: "case i of Write \<Rightarrow> fst ?e = 1 | _ \<Rightarrow> entry_readable ?e"
    and w: "\<not> (of_nat a AND 0xFFF :: u32) \<ge> 0x1001 - of_nat n"
    using d by (auto simp: direct_range_def Let_def)
  show "map_get m a = Ram (unat p) \<or> map_get m a = Rom (unat p) \<and> i \<noteq> Write"
    using entry_kind(3) [OF wf a] allowed p by (auto simp: entry_mapping_def entry_readable_def split: intent.splits)
  have "(of_nat a :: u32) AND 0xFFF = take_bit 12 (of_nat a)" by (simp add: take_bit_eq_mask mask_numeral)
  also have "\<dots> = of_nat (a mod 0x1000)" by (simp only: take_bit_of_nat) (simp add: take_bit_eq_mod)
  finally have low: "unat ((of_nat a :: u32) AND 0xFFF) = a mod 0x1000"
    by (simp add: unsigned_of_nat take_bit_nat_eq_self)
  have "0x1001 - of_nat n = (of_nat (0x1001 - n) :: u32)" using n by (simp add: of_nat_diff)
  then have "unat (0x1001 - of_nat n :: u32) = 0x1001 - n" by (simp only: unsigned_of_nat) (simp add: take_bit_nat_eq_self)
  then have "a mod 0x1000 < 0x1001 - n" using w low by (simp only: word_le_nat_alt not_le)
  then show "a mod 0x1000 + n \<le> 0x1000" by simp
qed

lemma take_bit_from_le_bytes: "8 * length bs = k \<Longrightarrow> take_bit k (from_le_bytes bs :: 'a::len word) = from_le_bytes bs"
  by (rule bit_word_eqI) (auto simp: bit_take_bit_iff bit_from_le_bytes)

lemma direct_window_plain:
  assumes "map_wf m" and "0 < n" and "n \<le> 16" and "a + n \<le> 0x110000"
    and "direct_range (map_to_bytes m) (of_nat a) (of_nat n) i = (False, p)"
  shows "map_get m a \<noteq> Mmio" "k < n \<Longrightarrow> map_get m (a + k) = advance_mapping k (map_get m a)"
    "read_runs rd bus m a n g = Some (g, map (storage g) [unat p..<unat p + n])"
proof -
  have a: "a < 0x110000" using assms(2,4) by simp
  note w = direct_range_window [OF assms(1-3) a assms(5)]
  show plain: "map_get m a \<noteq> Mmio" using w(2) by auto
  have "span_good m a n" using w(1) assms(4) by (intro span_good_page) auto
  then show adv: "k < n \<Longrightarrow> map_get m (a + k) = advance_mapping k (map_get m a)" for k by (simp add: span_good_def)
  have "map (plain_byte m (storage g)) [a..<a + n] = map (storage g) [unat p..<unat p + n]"
    using adv w(2) by (intro nth_equalityI) (auto simp: plain_byte_def)
  moreover have "read_runs rd bus m a n g = map_option (\<lambda>(g', more). (g', map (plain_byte m (storage g)) [a..<a + n] @ more)) (read_runs rd bus m (a + n) (n - n) g)"
    by (rule read_runs_plain) (use adv plain in simp_all)
  ultimately show "read_runs rd bus m a n g = Some (g, map (storage g) [unat p..<unat p + n])" by (simp add: read_runs.simps)
qed

lemma physical_read_runs:
  assumes "map_wf m" and n: "0 < n" "n \<le> 8" "a + n \<le> 0x110000"
  shows "physical_read rd bus (map_to_bytes m) (of_nat a) n g = map_option (\<lambda>(g', bs). (g', from_le_bytes bs)) (read_runs rd bus m a n g)"
proof (cases "direct_range (map_to_bytes m) (of_nat a) (of_nat n) Read")
  case (Pair unavailable p)
  show ?thesis
  proof (cases unavailable)
    case True
    have "a + n \<le> 2 ^ 32" using n by simp
    from read_runs_total [OF this, of rd bus m g] obtain g' bs where "read_runs rd bus m a n g = Some (g', bs)" "length bs = n" by blast
    moreover have "slow_read rd bus (map_to_bytes m) (of_nat a) (of_nat n) 0 0 g =
        map_option (\<lambda>(g', bs). (g', from_le_bytes bs)) (read_runs rd bus m a n g)"
      using slow_read_runs [OF assms(1) n, of "[]" rd bus g] by simp
    ultimately show ?thesis using Pair True by (simp add: physical_read_def take_bit_from_le_bytes)
  next
    case False
    then show ?thesis using Pair direct_window_plain(3) [OF assms(1) n(1) _ n(3), of Read p rd bus g] n
      by (simp add: physical_read_def load_backing_def)
  qed
qed

lemma physical_write_runs:
  assumes wf: "map_wf m" and n: "0 < n" "n \<le> 8" "a + n \<le> 0x110000"
  shows "physical_write wr bus (map_to_bytes m) (of_nat a) n v g = write_runs wr bus m a (take n (to_le_bytes v)) g"
proof (cases "direct_range (map_to_bytes m) (of_nat a) (of_nat n) Write")
  case (Pair unavailable p)
  show ?thesis
  proof (cases unavailable)
    case True
    have "take n (to_le_bytes (take_bit (8 * n) v)) = take n (to_le_bytes v)"
    proof (rule nth_equalityI)
      fix i assume "i < length (take n (to_le_bytes (take_bit (8 * n) v)))"
      then have i: "i < n" "i < 8" using n by auto
      have "ucast (drop_bit (8 * i) (take_bit (8 * n) v)) = (ucast (drop_bit (8 * i) v) :: u8)"
        using i by (intro bit_word_eqI) (auto simp: bit_ucast_iff bit_drop_bit_eq bit_take_bit_iff)
      then show "take n (to_le_bytes (take_bit (8 * n) v)) ! i = take n (to_le_bytes v) ! i" using i by (simp add: nth_to_le_bytes)
    qed simp
    then show ?thesis using Pair True slow_write_runs [OF wf n, of wr bus "take_bit (8 * n) v" g]
      by (simp add: physical_write_def)
  next
    case False
    let ?bs = "take n (to_le_bytes v)"
    have d: "direct_range (map_to_bytes m) (of_nat a) (of_nat n) Write = (False, p)" using Pair False by simp
    have n16: "n \<le> 16" and a: "a < 0x110000" using n by auto
    note plain = direct_window_plain [OF wf n(1) n16 n(3) d]
    have len: "length ?bs = n" using n by simp
    have "map_get m a = Ram (unat p)" using direct_range_window(2) [OF wf n(1) n16 a d] by auto
    then have "fold (\<lambda>(x, b). store_plain m x b) (enumerate a ?bs) (storage g) =
        (\<lambda>x. if unat p \<le> x \<and> x < unat p + length ?bs then ?bs ! (x - unat p) else storage g x)"
      using store_plain_row [of ?bs m a "storage g"] plain(1,2) len by simp
    moreover have "write_runs wr bus m a (?bs @ []) g =
        write_runs wr bus m (a + length ?bs) [] (g\<lparr>storage := fold (\<lambda>(x, b). store_plain m x b) (enumerate a ?bs) (storage g)\<rparr>)"
      by (rule write_runs_plain) (use plain(1,2) len in simp)
    ultimately show ?thesis using Pair False by (simp add: physical_write_def store_backing_def write_runs.simps)
  qed
qed

subsection \<open>Properties\<close>

text \<open>C9: for any devices, a guest's read of one to eight bytes below 1 MiB + 64 KiB does what the host
  view's read of the same bytes does: whichever path the emitted code takes at run time and wherever pages,
  devices and the A20 gate cut the transfer, both issue the same device requests with the same widths in the
  same order, leave the same guest, and the value is the little-endian one of the bytes; the byte loop ends.\<close>

theorem guest_read_agrees:
  assumes "map_new regions = Inr m0" and "m = set_a20_enabled en m0" and "0 < n" and "n \<le> 8" and "a + n \<le> 0x110000"
  shows "\<exists>g' bs. view_read rd (Some bus) m a n g = Some (g', Inr bs) \<and>
    physical_read rd bus (map_to_bytes m) (of_nat a) n g = Some (g', from_le_bytes bs)"
proof -
  have wf: "map_wf m" using map_new_wf [OF assms(1)] set_a20_wf assms(2) by blast
  have n: "a + n \<le> 2 ^ 32" using assms(5) by simp
  show ?thesis using view_read_eq [OF n, of rd bus m g] read_runs_total [OF n, of rd bus m g] physical_read_runs [OF wf assms(3-5), of rd bus g] by auto
qed

theorem guest_read_agrees_witness:
  "\<exists>g' bs. view_read sample_read (Some [\<lparr>con_mmio = [(0x1000, 0x1003)], con_ports = []\<rparr>]) sample_map 0xFFF 2 sample_guest = Some (g', Inr bs) \<and>
     physical_read sample_read [\<lparr>con_mmio = [(0x1000, 0x1003)], con_ports = []\<rparr>] (map_to_bytes sample_map) 0xFFF 2 sample_guest
       = Some (g', from_le_bytes bs) \<and> g' = sample_guest\<lparr>devices := 6\<rparr> \<and> bs = [0xFF, 5]"
proof -
  have "sample_map = set_a20_enabled False sample_map" by (simp add: set_a20_enabled_def sample_map_def)
  from guest_read_agrees [OF sample_map_new this, of 2 "0xFFF" sample_read "[\<lparr>con_mmio = [(0x1000, 0x1003)], con_ports = []\<rparr>]" sample_guest]
  show ?thesis using sample_view_read by simp
qed

text \<open>C27: for any devices, a guest's write of one to eight bytes below 1 MiB + 64 KiB leaves the guest as
  the host view's write of the value's low bytes leaves it, by the same device requests with the same
  values in the same order; ROM and holes are ignored and the byte loop ends.\<close>

theorem guest_write_agrees:
  assumes "map_new regions = Inr m0" and "m = set_a20_enabled en m0" and "0 < n" and "n \<le> 8" and "a + n \<le> 0x110000"
  shows "\<exists>g'. physical_write wr bus (map_to_bytes m) (of_nat a) n v g = Some g' \<and>
    view_write wr (Some bus) m a (take n (to_le_bytes v)) g = Some (g', Inr ())"
proof -
  have wf: "map_wf m" using map_new_wf [OF assms(1)] set_a20_wf assms(2) by blast
  have n: "a + length (take n (to_le_bytes v)) \<le> 2 ^ 32" using assms(5) by simp
  show ?thesis using view_write_eq [OF n, of wr bus m g] write_runs_total [OF n, of wr bus m g] physical_write_runs [OF wf assms(3-5), of wr bus v g] by auto
qed

text \<open>A device that keeps the last request.\<close>

definition sample_write :: "nat \<Rightarrow> nat \<Rightarrow> nat \<Rightarrow> u64 \<Rightarrow> u64 \<Rightarrow> u64" where
  "sample_write d a k v s = v"

theorem guest_write_agrees_witness:
  "\<exists>g'. physical_write sample_write [\<lparr>con_mmio = [(0x1000, 0x1003)], con_ports = []\<rparr>] (map_to_bytes sample_map) 0xFFF 2 0x807 sample_guest = Some g' \<and>
     view_write sample_write (Some [\<lparr>con_mmio = [(0x1000, 0x1003)], con_ports = []\<rparr>]) sample_map 0xFFF (take 2 (to_le_bytes (0x807 :: u64))) sample_guest
       = Some (g', Inr ())"
proof -
  have "sample_map = set_a20_enabled False sample_map" by (simp add: set_a20_enabled_def sample_map_def)
  from guest_write_agrees [OF sample_map_new this, of 2 "0xFFF" sample_write "[\<lparr>con_mmio = [(0x1000, 0x1003)], con_ports = []\<rparr>]" "0x807" sample_guest]
  show ?thesis by simp
qed

text \<open>A 128-bit guest read that is not direct is the two eight-byte reads.\<close>

lemma physical_read128_runs:
  assumes "map_wf m" and "a + 16 \<le> 0x110000" and "fst (direct_range (map_to_bytes m) (of_nat a) 16 Read)"
  shows "physical_read128 rd bus (map_to_bytes m) (of_nat a) g =
    Option.bind (read_runs rd bus m a 8 g) (\<lambda>(g, low). map_option (\<lambda>(g, high).
      (g, ucast (from_le_bytes low :: u64) OR push_bit 64 (ucast (from_le_bytes high :: u64)))) (read_runs rd bus m (a + 8) 8 g))"
proof -
  have "slow_read rd bus (map_to_bytes m) (of_nat b) 8 0 0 g = map_option (\<lambda>(g', bs). (g', from_le_bytes bs)) (read_runs rd bus m b 8 g)"
    if "b + 8 \<le> 0x110000" for b g
    using slow_read_runs [OF assms(1) _ _ that, of 0 "[]" rd bus g] by simp
  from this [of a] this [of "a + 8"] show ?thesis
    using assms(2,3) by (cases "read_runs rd bus m a 8 g"; cases "read_runs rd bus m (a + 8) 8 (fst (the (read_runs rd bus m a 8 g)))")
      (auto simp: physical_read128_def split_beta)
qed

end
