(* ===== verification/Pc_Memory.thy ===== *)
theory Pc_Memory
  imports Guest_Memory Dos_Memory Cpu_Config
begin

text \<open>
  The memory of the PC: \<open>machine/src/config/machine.rs\<close> and the fixed map of
  \<open>pc/src/configuration.rs\<close>. Conventional memory is RAM whose backing offset is its address, so
  that the DOS theories may treat it as a plain function from addresses to bytes: the properties
  here justify \<open>mem_read\<close> and \<open>mem_write\<close> of \<open>Dos_Memory\<close> against the host's memory view.
\<close>

record machine_config =
  memory_size :: nat
  memory_map :: physical_map

definition machine_config_new :: "nat \<Rightarrow> physical_map \<Rightarrow> configuration_error + machine_config" where
  "machine_config_new capacity m =
     (if capacity > 2 ^ 32 then Inl InvalidMemorySize
      else if \<not> fits_backing capacity m then Inl InsufficientBacking
      else Inr \<lparr>memory_size = capacity, memory_map = m\<rparr>)"

text \<open>\<open>None\<close> is the panic of a rejected map or configuration.\<close>

definition pc_regions :: "((nat \<times> nat) \<times> physical_mapping) list" where
  "pc_regions =
     [((0, CONVENTIONAL_MEMORY_SIZE - 1), Ram 0), ((0xA0000, 0xBFFFF), Mmio), ((0xF0000, 0xFFFFF), Rom 0xF0000)]"

definition pc_memory :: "machine_config option" where
  "pc_memory =
     (case map_new pc_regions of
        Inl _ \<Rightarrow> None
      | Inr m \<Rightarrow> (case machine_config_new 0x100000 m of Inl _ \<Rightarrow> None | Inr c \<Rightarrow> Some c))"

subsection \<open>The fixed map\<close>

definition pc_page :: "nat \<Rightarrow> physical_mapping" where
  "pc_page i =
     (if i < 0xA0 then Ram (i * 0x1000) else if i < 0xC0 then Mmio
      else if 0xF0 \<le> i \<and> i < 0x100 then Rom (i * 0x1000) else Unmapped)"

definition pc_map :: physical_map where
  "pc_map = \<lparr>pages = map pc_page [0..<PAGE_COUNT], a20_enabled = False\<rparr>"

lemma pc_map_new: "map_new pc_regions = Inr pc_map"
proof -
  have "install_region 0xF0000 0xFFFFF (Rom 0xF0000) (install_region 0xA0000 0xBFFFF Mmio
      (install_region 0 0x9FFFF (Ram 0) (replicate PAGE_COUNT Unmapped))) = map pc_page [0..<PAGE_COUNT]"
    by (rule nth_equalityI) (auto simp: install_region_def pc_page_def)
  then show ?thesis by (simp add: map_new_def pc_regions_def check_region_def pc_map_def)
qed

lemma pc_fits: "fits_backing 0x100000 pc_map"
  by (auto simp: fits_backing_def pc_map_def pc_page_def list_all_iff)

lemma pc_memory_eq: "pc_memory = Some \<lparr>memory_size = 0x100000, memory_map = pc_map\<rparr>"
  by (simp add: pc_memory_def pc_map_new machine_config_new_def pc_fits)

lemma pc_map_get:
  assumes "a < 0x110000"
  shows "map_get (set_a20_enabled en pc_map) a =
    (let b = bus_address (set_a20_enabled en pc_map) a in
     if b < 0xA0000 then Ram b else if b < 0xC0000 then Mmio else if 0xF0000 \<le> b \<and> b < 0x100000 then Rom b else Unmapped)"
proof -
  let ?m = "set_a20_enabled en pc_map"
  define b where "b = bus_address ?m a"
  have b: "b < 0x110000" using bus_address_le [of a ?m] assms by (simp add: b_def)
  then have page: "b div 0x1000 < PAGE_COUNT" by (simp add: less_mult_imp_div_less)
  have bounds: "b div 0x1000 < 0xA0 \<longleftrightarrow> b < 0xA0000" "b div 0x1000 < 0xC0 \<longleftrightarrow> b < 0xC0000"
    "b div 0x1000 < 0x100 \<longleftrightarrow> b < 0x100000" "0xF0 \<le> b div 0x1000 \<longleftrightarrow> 0xF0000 \<le> b"
    by (simp_all add: div_less_iff_less_mult less_eq_div_iff_mult_less_eq)
  have "map_get ?m a = advance_mapping (b mod 0x1000) (pc_page (b div 0x1000))"
    using assms page by (simp add: map_get_def Let_def b_def [symmetric]) (simp add: set_a20_enabled_def pc_map_def)
  moreover have "b div 0x1000 * 0x1000 + b mod 0x1000 = b" by simp
  ultimately show ?thesis by (simp add: pc_page_def bounds b_def [symmetric] Let_def)
qed

lemma conventional_get:
  assumes "a < 0xA0000"
  shows "map_get (set_a20_enabled en pc_map) a = Ram a"
proof -
  have "bus_address (set_a20_enabled en pc_map) a = a"
  proof -
    have "a < 2 ^ 20" using assms by simp
    then have high: "\<not> bit (of_nat a :: u32) 20"
      using uint_less_exp_bits_zero [of "of_nat a :: u32" 20] by (simp add: uint_nat unsigned_of_nat take_bit_nat_eq_self)
    have "of_nat a AND address_mask (set_a20_enabled en pc_map) = (of_nat a :: u32)"
      using high by (intro bit_word_eqI) (auto simp: bit_and_iff address_mask_low)
    then show ?thesis using assms by (simp add: bus_address_def unsigned_of_nat take_bit_nat_eq_self)
  qed
  then show ?thesis using pc_map_get [of a en] assms by (simp add: Let_def)
qed

subsection \<open>Conventional memory through the view\<close>

lemma spans_mapping:
  "(mp, ad, l) \<in> set (spans m a n) \<Longrightarrow> \<exists>k<n. mp = map_get m (a + k)"
proof (induction n arbitrary: a rule: less_induct)
  case (less n)
  show ?case
  proof (cases "n = 0")
    case False
    let ?l = "span_len m a n"
    have l: "0 < ?l" "?l \<le> n" using span_len_bounds [of n m a] False by auto
    from less.prems False consider "mp = map_get m a" | "(mp, ad, l) \<in> set (spans m (a + ?l) (n - ?l))"
      by (subst (asm) spans.simps) (auto simp: Let_def)
    then show ?thesis
    proof cases
      case 1
      then show ?thesis using False by (intro exI [of _ 0]) simp
    next
      case 2
      then obtain k where "k < n - ?l" "mp = map_get m (a + ?l + k)" using less.IH [of "n - ?l" "a + ?l"] l False by auto
      then show ?thesis by (intro exI [of _ "?l + k"]) (simp add: add.assoc)
    qed
  qed (use less.prems in \<open>simp add: spans.simps\<close>)
qed

lemma read_spans_ram:
  "(\<And>sp. sp \<in> set sps \<Longrightarrow> fst sp \<noteq> Mmio) \<Longrightarrow> read_spans rd io sps g = read_spans rd' io' sps g"
proof (induction sps arbitrary: g)
  case (Cons sp sps)
  have "read_span rd io sp g = read_span rd' io' sp g" using Cons.prems [of sp]
    by (cases sp) (auto simp: read_span_def split: physical_mapping.splits)
  then show ?case using Cons by (auto intro!: Option.bind_cong arg_cong [where f = "map_option _"])
qed simp

lemma conventional_spans:
  assumes "a + n \<le> 0xA0000" and "sp \<in> set (spans (set_a20_enabled en pc_map) a n)"
  shows "fst sp \<noteq> Mmio"
proof -
  obtain mp ad l where sp: "sp = (mp, ad, l)" by (cases sp)
  then obtain k where "k < n" "mp = map_get (set_a20_enabled en pc_map) (a + k)" using spans_mapping assms(2) by blast
  then show ?thesis using conventional_get [of "a + k" en] assms(1) sp by simp
qed

lemma conventional_read:
  assumes "a + n \<le> 0xA0000"
  shows "view_read rd io (set_a20_enabled en pc_map) a n g = Some (g, Inr (map (storage g) [a..<a + n]))"
proof -
  let ?m = "set_a20_enabled en pc_map"
  let ?rd = "\<lambda>_ _ _ s. (s, 0) :: 'a \<times> u64"
  have "map (plain_byte ?m (storage g)) [a..<a + n] = map (storage g) [a..<a + n]"
    using conventional_get assms by (intro map_cong) (auto simp: plain_byte_def)
  moreover have "read_runs ?rd [] ?m a n g = map_option (\<lambda>(g', more). (g', map (plain_byte ?m (storage g)) [a..<a + n] @ more))
      (read_runs ?rd [] ?m (a + n) (n - n) g)"
    by (rule read_runs_plain) (use conventional_get assms in auto)
  ultimately have "read_spans ?rd (Some []) (spans ?m a n) g = Some (g, map (storage g) [a..<a + n])"
    using read_spans_runs [of a n ?rd "[]" ?m g] assms by (simp add: read_runs.simps)
  then show ?thesis
    using read_spans_ram [of "spans ?m a n" rd io g ?rd "Some []"] conventional_spans [OF assms] assms
    by (simp add: view_read_def view_resolve_def range_fits_def)
qed

lemma conventional_write_spans:
  assumes "a + length bs \<le> 0xA0000"
  shows "write_spans wr io (spans (set_a20_enabled en pc_map) a (length bs)) bs g =
    Some (g\<lparr>storage := (\<lambda>x. if a \<le> x \<and> x < a + length bs then bs ! (x - a) else storage g x)\<rparr>)"
  using assms
proof (induction bs arbitrary: a g rule: measure_induct_rule [of length])
  case (less bs)
  let ?m = "set_a20_enabled en pc_map"
  show ?case
  proof (cases "bs = []")
    case False
    let ?l = "span_len ?m a (length bs)"
    have l: "0 < ?l" "?l \<le> length bs" using span_len_bounds [of "length bs" ?m a] False by auto
    let ?g = "g\<lparr>storage := (\<lambda>x. if a \<le> x \<and> x < a + ?l then bs ! (x - a) else storage g x)\<rparr>"
    have "map_get ?m a = Ram a" using conventional_get [of a en] less.prems False by (cases bs) auto
    then have one: "write_span wr io (map_get ?m a, bus_address ?m a, ?l) (take ?l bs) g = Some ?g"
      using l by (auto simp: write_span_def fun_eq_iff intro!: arg_cong [where f = "\<lambda>st. g\<lparr>storage := st\<rparr>"])
    have "length (drop ?l bs) < length bs" "a + ?l + length (drop ?l bs) \<le> 0xA0000" using l less.prems by auto
    from less.IH [OF this, of ?g] have rest:
      "write_spans wr io (spans ?m (a + ?l) (length bs - ?l)) (drop ?l bs) ?g =
        Some (?g\<lparr>storage := (\<lambda>x. if a + ?l \<le> x \<and> x < a + ?l + length (drop ?l bs) then drop ?l bs ! (x - (a + ?l)) else storage ?g x)\<rparr>)"
      by simp
    have "(\<lambda>x. if a + ?l \<le> x \<and> x < a + ?l + length (drop ?l bs) then drop ?l bs ! (x - (a + ?l)) else storage ?g x) =
        (\<lambda>x. if a \<le> x \<and> x < a + length bs then bs ! (x - a) else storage g x)"
      using l by (auto simp: fun_eq_iff)
    then show ?thesis using one rest False by (subst spans.simps) (simp add: Let_def)
  qed (auto simp: spans.simps fun_eq_iff intro!: guest.equality)
qed

lemma conventional_write:
  assumes "a + length bs \<le> 0xA0000"
  shows "view_write wr io (set_a20_enabled en pc_map) a bs g =
    Some (g\<lparr>storage := (\<lambda>x. if a \<le> x \<and> x < a + length bs then bs ! (x - a) else storage g x)\<rparr>, Inr ())"
  using conventional_write_spans [OF assms, of wr io en g] assms
  by (simp add: view_write_def view_resolve_def range_fits_def)

subsection \<open>Properties\<close>

text \<open>The PC's fixed memory map is accepted, its backing fits, and it routes every real-mode
  address the way the hardware does: RAM below 640 KiB, the video window, the BIOS ROM in the last
  64 KiB, holes elsewhere, all after the A20 gate, which folds the high memory area onto low RAM
  unless it is open.\<close>

theorem pc_memory_layout:
  "\<exists>c. pc_memory = Some c \<and> memory_size c = 0x100000 \<and>
     (\<forall>en a. map_get (set_a20_enabled en (memory_map c)) a =
        (let b = bus_address (set_a20_enabled en (memory_map c)) a in
         if a \<ge> 0x110000 then Unmapped
         else if b < 0xA0000 then Ram b else if b < 0xC0000 then Mmio
         else if 0xF0000 \<le> b \<and> b < 0x100000 then Rom b else Unmapped))"
proof -
  have "map_get (set_a20_enabled en pc_map) a =
      (let b = bus_address (set_a20_enabled en pc_map) a in
       if a \<ge> 0x110000 then Unmapped
       else if b < 0xA0000 then Ram b else if b < 0xC0000 then Mmio
       else if 0xF0000 \<le> b \<and> b < 0x100000 then Rom b else Unmapped)" for en a
  proof (cases "a < 0x110000")
    case True
    then show ?thesis unfolding pc_map_get [OF True] by (simp add: Let_def)
  qed (simp add: map_get_def)
  then show ?thesis unfolding pc_memory_eq by (intro exI conjI allI) (auto simp: Let_def)
qed

text \<open>C39: DOS sees conventional memory as plain bytes. Whenever an access lies below 640 KiB, the
  memory view of the PC, with its page walk, map and A20 gate, behaves as \<open>mem_read\<close> and \<open>mem_write\<close> on
  the storage; no device is involved and no error is returned.\<close>

theorem conventional_memory_plain:
  assumes "pc_memory = Some c"
  shows "(case mem_read (storage g) a n of
      Some bs \<Rightarrow> view_read rd io (set_a20_enabled en (memory_map c)) a n g = Some (g, Inr bs)
    | None \<Rightarrow> 0xA0000 < a + n) \<and>
    (case mem_write (storage g) a bs of
      Some st \<Rightarrow> view_write wr io (set_a20_enabled en (memory_map c)) a bs g = Some (g\<lparr>storage := st\<rparr>, Inr ())
    | None \<Rightarrow> 0xA0000 < a + length bs)"
proof (rule conjI)
  have c: "memory_map c = pc_map" using assms by (auto simp: pc_memory_eq)
  have "map (\<lambda>i. storage g (a + i)) [0..<n] = map (storage g) [a..<a + n]" by (intro nth_equalityI) auto
  with conventional_read [of a n rd io en g] show "case mem_read (storage g) a n of
      Some bs \<Rightarrow> view_read rd io (set_a20_enabled en (memory_map c)) a n g = Some (g, Inr bs)
    | None \<Rightarrow> 0xA0000 < a + n"
    by (auto simp: mem_read_def c)
  show "case mem_write (storage g) a bs of
      Some st \<Rightarrow> view_write wr io (set_a20_enabled en (memory_map c)) a bs g = Some (g\<lparr>storage := st\<rparr>, Inr ())
    | None \<Rightarrow> 0xA0000 < a + length bs"
    using conventional_write [of a bs wr io en g] by (auto simp: mem_write_def c)
qed

theorem conventional_memory_plain_witness:
  "view_write (\<lambda>_ _ _ _ s. s) None (set_a20_enabled False pc_map) 0x9FFFE [1, 2] \<lparr>storage = (\<lambda>_. 0), devices = ()\<rparr>
    = Some (\<lparr>storage = (\<lambda>x. if 0x9FFFE \<le> x \<and> x < 0x9FFFE + 2 then [1, 2] ! (x - 0x9FFFE) else 0), devices = ()\<rparr>, Inr ())"
  using conventional_memory_plain [OF pc_memory_eq, where g = "\<lparr>storage = (\<lambda>_. 0), devices = ()\<rparr>" and a = "0x9FFFE"
      and bs = "[1, 2]" and en = False and io = None and wr = "\<lambda>_ _ _ _ s. s"]
  by (simp add: mem_write_def)

end
