(* ===== verification/State_Fields.thy ===== *)
theory State_Fields
  imports Bytes "HOL-Library.Option_ord"
begin

text \<open>
  State fields of translated code. \<open>x86/src/ssa/tracked_value.rs\<close> and \<open>ssa/state_fields.rs\<close> keep the
  current values of typed fields of one backing memory and write them back only when an
  overlapping access or the end of the path needs them; \<open>x86/src/register.rs\<close> and
  \<open>state/access.rs\<close> map register views (AL, AH, AX, EAX, or a register selected at run time) to
  such fields. Definitions give the value every emitted fragment has at run time; whether two
  values are the same expression, which the translator decides, is an argument of a definition.
\<close>

subsection \<open>ssa/tracked\_value.rs\<close>

record 'v tracked_value =
  tv_value :: 'v
  tv_dirty :: bool

definition tracked_new :: "'v \<Rightarrow> 'v tracked_value" where
  "tracked_new v = \<lparr>tv_value = v, tv_dirty = False\<rparr>"

definition tracked_defined :: "'v \<Rightarrow> 'v tracked_value" where
  "tracked_defined v = (tracked_new v)\<lparr>tv_dirty := True\<rparr>"

definition dirty_value :: "'v tracked_value \<Rightarrow> 'v option" where
  "dirty_value t = (if tv_dirty t then Some (tv_value t) else None)"

text \<open>The first argument is the translator's answer that the new value is the current expression.\<close>

definition tracked_define :: "bool \<Rightarrow> 'v \<Rightarrow> 'v tracked_value \<Rightarrow> 'v tracked_value \<times> bool" where
  "tracked_define same v t = (if same then (t, False) else (t\<lparr>tv_value := v, tv_dirty := True\<rparr>, True))"

definition tracked_clean :: "'v tracked_value \<Rightarrow> 'v tracked_value" where
  "tracked_clean t = t\<lparr>tv_dirty := False\<rparr>"

subsection \<open>ssa/state\_fields.rs\<close>

text \<open>A span of bytes, kept as 64-bit integers in the code, so that sums of 32-bit numbers are exact.\<close>

record span =
  span_start :: nat
  span_end :: nat

definition span_new :: "nat \<Rightarrow> nat \<Rightarrow> span" where
  "span_new offset bytes = \<lparr>span_start = offset, span_end = offset + bytes\<rparr>"

definition overlaps :: "span \<Rightarrow> span \<Rightarrow> bool" where
  "overlaps a b \<longleftrightarrow> span_start a < span_end b \<and> span_start b < span_end a"

definition covers :: "span \<Rightarrow> span \<Rightarrow> bool" where
  "covers a b \<longleftrightarrow> span_start a \<le> span_start b \<and> span_end b \<le> span_end a"

datatype field_address = Fixed nat | Indexed span u32

record location_key =
  lk_offset :: nat
  lk_bytes :: nat

definition key_span :: "location_key \<Rightarrow> span" where
  "key_span k = span_new (lk_offset k) (lk_bytes k)"

datatype definition_value =
  Byte "u8 tracked_value" | Word "u16 tracked_value" | Dword "u32 tracked_value" |
  Qword "u64 tracked_value" | Vector "u128 tracked_value"

fun is_dirty :: "definition_value \<Rightarrow> bool" where
  "is_dirty (Byte t) = (dirty_value t \<noteq> None)"
| "is_dirty (Word t) = (dirty_value t \<noteq> None)"
| "is_dirty (Dword t) = (dirty_value t \<noteq> None)"
| "is_dirty (Qword t) = (dirty_value t \<noteq> None)"
| "is_dirty (Vector t) = (dirty_value t \<noteq> None)"

fun mark_clean :: "definition_value \<Rightarrow> definition_value" where
  "mark_clean (Byte t) = Byte (tracked_clean t)"
| "mark_clean (Word t) = Word (tracked_clean t)"
| "mark_clean (Dword t) = Dword (tracked_clean t)"
| "mark_clean (Qword t) = Qword (tracked_clean t)"
| "mark_clean (Vector t) = Vector (tracked_clean t)"

text \<open>Backing memory: little-endian loads and stores at a 32-bit base plus a constant offset.\<close>

type_synonym backing = "nat \<Rightarrow> u8"

definition store_bytes :: "nat \<Rightarrow> u8 list \<Rightarrow> backing \<Rightarrow> backing" where
  "store_bytes a bs m = (\<lambda>x. if a \<le> x \<and> x < a + length bs then bs ! (x - a) else m x)"

definition load_word :: "nat \<Rightarrow> backing \<Rightarrow> 'a::len word" where
  "load_word a m = from_le_bytes (map m [a..<a + LENGTH('a) div 8])"

fun value_bytes :: "definition_value \<Rightarrow> u8 list" where
  "value_bytes (Byte t) = to_le_bytes (tv_value t)"
| "value_bytes (Word t) = to_le_bytes (tv_value t)"
| "value_bytes (Dword t) = to_le_bytes (tv_value t)"
| "value_bytes (Qword t) = to_le_bytes (tv_value t)"
| "value_bytes (Vector t) = to_le_bytes (tv_value t)"

definition value_store :: "definition_value \<Rightarrow> u32 \<Rightarrow> nat \<Rightarrow> backing \<Rightarrow> backing" where
  "value_store v base offset = store_bytes (unat base + offset) (value_bytes v)"

text \<open>The variant of a definition follows the width of its type; another variant is unreachable.\<close>

definition map_tracked :: "('v \<Rightarrow> 'w) \<Rightarrow> 'v tracked_value \<Rightarrow> 'w tracked_value" where
  "map_tracked f t = \<lparr>tv_value = f (tv_value t), tv_dirty = tv_dirty t\<rparr>"

definition retain :: "'a::len word tracked_value \<Rightarrow> definition_value" where
  "retain t =
     (if LENGTH('a) = 8 then Byte (map_tracked ucast t)
      else if LENGTH('a) = 16 then Word (map_tracked ucast t)
      else if LENGTH('a) = 32 then Dword (map_tracked ucast t)
      else if LENGTH('a) = 64 then Qword (map_tracked ucast t)
      else Vector (map_tracked ucast t))"

fun retained :: "definition_value \<Rightarrow> 'a::len word tracked_value option" where
  "retained (Byte t) = (if LENGTH('a) = 8 then Some (map_tracked ucast t) else None)"
| "retained (Word t) = (if LENGTH('a) = 16 then Some (map_tracked ucast t) else None)"
| "retained (Dword t) = (if LENGTH('a) = 32 then Some (map_tracked ucast t) else None)"
| "retained (Qword t) = (if LENGTH('a) = 64 then Some (map_tracked ucast t) else None)"
| "retained (Vector t) = (if LENGTH('a) = 128 then Some (map_tracked ucast t) else None)"

record field_definition =
  fd_location :: location_key
  fd_value :: definition_value
  fd_first_write :: "nat option"

record state_fields =
  sf_base :: u32
  sf_definitions :: "field_definition list"
  sf_writes :: nat

definition fields_with_base :: "u32 \<Rightarrow> state_fields" where
  "fields_with_base base = \<lparr>sf_base = base, sf_definitions = [], sf_writes = 0\<rparr>"

definition dirty_indices :: "field_definition list \<Rightarrow> nat list" where
  "dirty_indices ds =
     sort_key (\<lambda>i. fd_first_write (ds ! i)) (filter (\<lambda>i. is_dirty (fd_value (ds ! i))) [0..<length ds])"

definition flush_one ::
  "u32 \<Rightarrow> span \<Rightarrow> bool \<Rightarrow> nat \<Rightarrow> field_definition list \<times> backing \<Rightarrow> field_definition list \<times> backing" where
  "flush_one base s replacing i dm =
     (case dm of (ds, m) \<Rightarrow>
        let d = ds ! i; other = key_span (fd_location d) in
        if overlaps s other \<and> \<not> (replacing \<and> covers s other) then
          (ds[i := d\<lparr>fd_value := mark_clean (fd_value d)\<rparr>], value_store (fd_value d) base (lk_offset (fd_location d)) m)
        else (ds, m))"

definition flush :: "span \<Rightarrow> bool \<Rightarrow> state_fields \<times> backing \<Rightarrow> state_fields \<times> backing" where
  "flush s replacing fm =
     (case fm of (f, m) \<Rightarrow>
      case fold (flush_one (sf_base f) s replacing) (dirty_indices (sf_definitions f)) (sf_definitions f, m) of
        (ds, m) \<Rightarrow> (f\<lparr>sf_definitions := ds\<rparr>, m))"

definition drop_overlapping :: "span \<Rightarrow> state_fields \<Rightarrow> state_fields" where
  "drop_overlapping s f =
     f\<lparr>sf_definitions := filter (\<lambda>d. \<not> overlaps s (key_span (fd_location d))) (sf_definitions f)\<rparr>"

definition field_read ::
  "field_address \<Rightarrow> state_fields \<times> backing \<Rightarrow> ('a::len word \<times> state_fields \<times> backing) option" where
  "field_read location fm =
     (case location of
        Indexed s displacement \<Rightarrow>
          let address = unat (sf_base (fst fm) + displacement); fm = flush s False fm
          in Some (load_word (address + span_start s) (snd fm), fm)
      | Fixed offset \<Rightarrow>
          let key = \<lparr>lk_offset = offset, lk_bytes = LENGTH('a) div 8\<rparr> in
          case find (\<lambda>d. fd_location d = key) (sf_definitions (fst fm)) of
            Some d \<Rightarrow> map_option (\<lambda>t. (tv_value t, fm)) (retained (fd_value d))
          | None \<Rightarrow>
              (case flush (key_span key) False fm of (f, m) \<Rightarrow>
                 let f = drop_overlapping (key_span key) f; v = load_word (unat (sf_base f) + offset) m
                 in Some (v, f\<lparr>sf_definitions := sf_definitions f @
                      [\<lparr>fd_location = key, fd_value = retain (tracked_new v), fd_first_write = None\<rparr>]\<rparr>, m)))"

fun redefine :: "bool \<Rightarrow> location_key \<Rightarrow> 'a::len word \<Rightarrow> nat \<Rightarrow> field_definition list \<Rightarrow> (field_definition list \<times> nat) option" where
  "redefine same key v writes [] = Some ([], writes)"
| "redefine same key v writes (d # ds) =
     (if fd_location d = key then
        map_option (\<lambda>t. case tracked_define same v t of (t, changed) \<Rightarrow>
            if changed \<and> fd_first_write d = None
            then (d\<lparr>fd_value := retain t, fd_first_write := Some writes\<rparr> # ds, writes + 1)
            else (d\<lparr>fd_value := retain t\<rparr> # ds, writes))
          (retained (fd_value d))
      else map_option (\<lambda>(ds, writes). (d # ds, writes)) (redefine same key v writes ds))"

definition field_define ::
  "bool \<Rightarrow> field_address \<Rightarrow> 'a::len word \<Rightarrow> state_fields \<times> backing \<Rightarrow> (state_fields \<times> backing) option" where
  "field_define same location v fm =
     (case location of
        Indexed s displacement \<Rightarrow>
          let address = unat (sf_base (fst fm) + displacement) in
          case flush s False fm of (f, m) \<Rightarrow>
            Some (drop_overlapping s f, store_bytes (address + span_start s) (to_le_bytes v) m)
      | Fixed offset \<Rightarrow>
          let key = \<lparr>lk_offset = offset, lk_bytes = LENGTH('a) div 8\<rparr> in
          case find (\<lambda>d. fd_location d = key) (sf_definitions (fst fm)) of
            Some _ \<Rightarrow> map_option (\<lambda>(ds, writes). ((fst fm)\<lparr>sf_definitions := ds, sf_writes := writes\<rparr>, snd fm))
              (redefine same key v (sf_writes (fst fm)) (sf_definitions (fst fm)))
          | None \<Rightarrow>
              (case flush (key_span key) True fm of (f, m) \<Rightarrow>
                 let f = drop_overlapping (key_span key) f
                 in Some (f\<lparr>sf_definitions := sf_definitions f @
                      [\<lparr>fd_location = key, fd_value = retain (tracked_defined v), fd_first_write = Some (sf_writes f)\<rparr>],
                      sf_writes := sf_writes f + 1\<rparr>, m)))"

definition fields_publish :: "state_fields \<Rightarrow> backing \<Rightarrow> backing" where
  "fields_publish f m =
     fold (\<lambda>i. let d = sf_definitions f ! i in value_store (fd_value d) (sf_base f) (lk_offset (fd_location d)))
       (dirty_indices (sf_definitions f)) m"

subsection \<open>The flat memory the fields stand for\<close>

text \<open>The widths a field can have.\<close>

definition field_width :: "'a::len itself \<Rightarrow> bool" where
  "field_width _ \<longleftrightarrow> LENGTH('a) \<in> {8, 16, 32, 64, 128}"

text \<open>A definition whose variant has the width of its location.\<close>

definition definition_ok :: "field_definition \<Rightarrow> bool" where
  "definition_ok d \<longleftrightarrow> length (value_bytes (fd_value d)) = lk_bytes (fd_location d)"

definition in_field :: "u32 \<Rightarrow> field_definition \<Rightarrow> nat \<Rightarrow> bool" where
  "in_field base d x \<longleftrightarrow>
     unat base + lk_offset (fd_location d) \<le> x \<and> x < unat base + lk_offset (fd_location d) + lk_bytes (fd_location d)"

definition field_byte :: "u32 \<Rightarrow> field_definition \<Rightarrow> nat \<Rightarrow> u8" where
  "field_byte base d x = value_bytes (fd_value d) ! (x - (unat base + lk_offset (fd_location d)))"

text \<open>
  The fields and their backing stand for one flat memory: every retained value is what the flat
  memory holds, clean ones are also in the backing, and outside dirty definitions backing and
  flat memory agree. Live definitions never overlap.
\<close>

definition represents :: "state_fields \<times> backing \<Rightarrow> backing \<Rightarrow> bool" where
  "represents fm flat \<longleftrightarrow> (let (f, m) = fm; ds = sf_definitions f in
     (\<forall>d\<in>set ds. definition_ok d) \<and>
     sorted_wrt (\<lambda>a b. \<not> overlaps (key_span a) (key_span b)) (map fd_location ds) \<and>
     (\<forall>d\<in>set ds. \<forall>x. in_field (sf_base f) d x \<longrightarrow>
        flat x = field_byte (sf_base f) d x \<and> (\<not> is_dirty (fd_value d) \<longrightarrow> m x = flat x)) \<and>
     (\<forall>x. (\<forall>d\<in>set ds. is_dirty (fd_value d) \<longrightarrow> \<not> in_field (sf_base f) d x) \<longrightarrow> m x = flat x))"

lemma representsI:
  assumes "\<And>d. d \<in> set (sf_definitions f) \<Longrightarrow> definition_ok d"
    and "sorted_wrt (\<lambda>a b. \<not> overlaps (key_span a) (key_span b)) (map fd_location (sf_definitions f))"
    and "\<And>d x. d \<in> set (sf_definitions f) \<Longrightarrow> in_field (sf_base f) d x \<Longrightarrow> flat x = field_byte (sf_base f) d x"
    and "\<And>d x. d \<in> set (sf_definitions f) \<Longrightarrow> in_field (sf_base f) d x \<Longrightarrow> \<not> is_dirty (fd_value d) \<Longrightarrow> m x = flat x"
    and "\<And>x. (\<And>d. d \<in> set (sf_definitions f) \<Longrightarrow> is_dirty (fd_value d) \<Longrightarrow> \<not> in_field (sf_base f) d x) \<Longrightarrow> m x = flat x"
  shows "represents (f, m) flat"
  using assms unfolding represents_def by auto

lemma representsD:
  assumes "represents (f, m) flat"
  shows "d \<in> set (sf_definitions f) \<Longrightarrow> definition_ok d"
    and "sorted_wrt (\<lambda>a b. \<not> overlaps (key_span a) (key_span b)) (map fd_location (sf_definitions f))"
    and "d \<in> set (sf_definitions f) \<Longrightarrow> in_field (sf_base f) d x \<Longrightarrow> flat x = field_byte (sf_base f) d x"
    and "d \<in> set (sf_definitions f) \<Longrightarrow> in_field (sf_base f) d x \<Longrightarrow> \<not> is_dirty (fd_value d) \<Longrightarrow> m x = flat x"
    and "(\<And>d. d \<in> set (sf_definitions f) \<Longrightarrow> is_dirty (fd_value d) \<Longrightarrow> \<not> in_field (sf_base f) d x) \<Longrightarrow> m x = flat x"
  using assms unfolding represents_def by (auto simp: Let_def)

subsection \<open>Values and spans\<close>

lemma is_dirty_mark_clean [simp]: "\<not> is_dirty (mark_clean v)" "value_bytes (mark_clean v) = value_bytes v"
  by (cases v; simp add: tracked_clean_def dirty_value_def)+

lemma ucast_same_length: "LENGTH('a::len) = LENGTH('b::len) \<Longrightarrow> ucast (ucast (x :: 'a word) :: 'b word) = x"
  by (rule bit_word_eqI) (simp add: bit_ucast_iff)

lemma to_le_bytes_ucast:
  "LENGTH('a::len) = LENGTH('b::len) \<Longrightarrow> to_le_bytes (ucast (x :: 'a word) :: 'b word) = to_le_bytes x"
  by (auto simp: to_le_bytes_def intro!: bit_word_eqI simp: bit_simps)

lemma retained_retain:
  assumes "field_width TYPE('a::len)"
  shows "retained (retain (t :: 'a word tracked_value)) = Some t"
    and "value_bytes (retain t) = to_le_bytes (tv_value t)"
    and "is_dirty (retain t) = tv_dirty t"
  using assms by (auto simp: retain_def field_width_def map_tracked_def ucast_same_length to_le_bytes_ucast dirty_value_def)

lemma retained_bytes:
  assumes "retained v = Some (t :: 'a::len word tracked_value)"
  shows "to_le_bytes (tv_value t) = value_bytes v" "tv_dirty t = is_dirty v"
  using assms by (cases v; auto simp: map_tracked_def to_le_bytes_ucast dirty_value_def split: if_splits)+

lemma retained_exists:
  assumes "field_width TYPE('a::len)" and "length (value_bytes v) = LENGTH('a) div 8"
  shows "\<exists>t :: 'a word tracked_value. retained v = Some t"
  using assms by (cases v; auto simp: field_width_def)

lemma width_bytes: "field_width TYPE('a::len) \<Longrightarrow> LENGTH('a) mod 8 = 0 \<and> 0 < LENGTH('a) div 8"
  by (auto simp: field_width_def)

lemma load_word_bytes:
  fixes v :: "'a::len word"
  assumes "field_width TYPE('a)" and "\<And>k. k < LENGTH('a) div 8 \<Longrightarrow> m (a + k) = to_le_bytes v ! k"
  shows "load_word a m = v"
proof -
  have "map m [a..<a + LENGTH('a) div 8] = to_le_bytes v" using assms(2) by (auto intro: nth_equalityI)
  then show ?thesis using width_bytes [OF assms(1)] by (simp add: load_word_def from_le_bytes_to_le_bytes)
qed

lemma load_word_cong:
  "(\<And>k. k < LENGTH('a::len) div 8 \<Longrightarrow> m (a + k) = m' (a + k)) \<Longrightarrow> (load_word a m :: 'a word) = load_word a m'"
proof -
  assume *: "\<And>k. k < LENGTH('a::len) div 8 \<Longrightarrow> m (a + k) = m' (a + k)"
  have "map m [a..<a + LENGTH('a) div 8] = map m' [a..<a + LENGTH('a) div 8]"
    using * by (auto simp: le_iff_add)
  then show ?thesis unfolding load_word_def by (rule arg_cong)
qed

lemma to_le_bytes_load_word:
  assumes "field_width TYPE('a::len)"
  shows "to_le_bytes (load_word a m :: 'a word) = map m [a..<a + LENGTH('a) div 8]"
  unfolding load_word_def by (rule to_le_bytes_from_le_bytes) (use width_bytes [OF assms] in auto)

lemma load_store_word:
  fixes v :: "'a::len word"
  assumes "field_width TYPE('a)"
  shows "load_word a (store_bytes a (to_le_bytes v) m) = v"
  using assms by (rule load_word_bytes) (simp add: store_bytes_def)

lemma overlaps_sym: "overlaps a b \<longleftrightarrow> overlaps b a"
  by (auto simp: overlaps_def)

lemma overlaps_key:
  "overlaps (key_span a) (key_span b) \<longleftrightarrow>
     lk_offset a < lk_offset b + lk_bytes b \<and> lk_offset b < lk_offset a + lk_bytes a"
  by (auto simp: overlaps_def key_span_def span_new_def)

lemma in_both_fields:
  "in_field base d x \<Longrightarrow> in_field base e x \<Longrightarrow> overlaps (key_span (fd_location d)) (key_span (fd_location e))"
  by (auto simp: in_field_def overlaps_key)

subsection \<open>Flushing\<close>

lemma sorted_wrt_nth_disjoint:
  assumes "sorted_wrt (\<lambda>a b. \<not> overlaps (key_span a) (key_span b)) (map fd_location ds)"
    and "i < length ds" and "j < length ds" and "i \<noteq> j"
  shows "\<not> overlaps (key_span (fd_location (ds ! i))) (key_span (fd_location (ds ! j)))"
proof (cases "i < j")
  case True
  with assms show ?thesis by (simp add: sorted_wrt_iff_nth_less)
next
  case False
  with assms have "\<not> overlaps (key_span (fd_location (ds ! j))) (key_span (fd_location (ds ! i)))"
    by (simp add: sorted_wrt_iff_nth_less)
  then show ?thesis by (simp add: overlaps_sym)
qed

lemma store_field:
  assumes "definition_ok d"
  shows "value_store (fd_value d) base (lk_offset (fd_location d)) m x =
    (if in_field base d x then field_byte base d x else m x)"
  using assms by (auto simp: value_store_def store_bytes_def in_field_def field_byte_def definition_ok_def)

text \<open>Writing one retained value back and marking it clean leaves the flat memory as it is.\<close>

lemma represents_clean_one:
  assumes r: "represents (f, m) flat" and i: "i < length (sf_definitions f)" and d: "d = sf_definitions f ! i"
  shows "represents (f\<lparr>sf_definitions := (sf_definitions f)[i := d\<lparr>fd_value := mark_clean (fd_value d)\<rparr>]\<rparr>,
    value_store (fd_value d) (sf_base f) (lk_offset (fd_location d)) m) flat"
    (is "represents (?f, ?m) flat")
proof (rule representsI)
  let ?ds = "sf_definitions f" and ?c = "d\<lparr>fd_value := mark_clean (fd_value d)\<rparr>"
  have din: "d \<in> set ?ds" using i d by simp
  have ok: "definition_ok d" by (rule representsD(1) [OF r din])
  have sub: "e = ?c \<or> (\<exists>j. j < length ?ds \<and> j \<noteq> i \<and> e = ?ds ! j)" if "e \<in> set (sf_definitions ?f)" for e
  proof -
    from that obtain j where "j < length ?ds" "e = ?ds[i := ?c] ! j" by (auto simp: in_set_conv_nth)
    then show ?thesis by (cases "j = i") auto
  qed
  have field_c: "in_field (sf_base f) ?c x = in_field (sf_base f) d x" "field_byte (sf_base f) ?c x = field_byte (sf_base f) d x" for x
    by (simp_all add: in_field_def field_byte_def)
  show "definition_ok e" if "e \<in> set (sf_definitions ?f)" for e
    using sub [OF that] ok representsD(1) [OF r] by (auto simp: definition_ok_def)
  have "map fd_location (sf_definitions ?f) = map fd_location ?ds"
    using i d by (simp add: map_update list_update_same_conv)
  then show "sorted_wrt (\<lambda>a b. \<not> overlaps (key_span a) (key_span b)) (map fd_location (sf_definitions ?f))"
    using representsD(2) [OF r] by simp
  show "flat x = field_byte (sf_base ?f) e x" if "e \<in> set (sf_definitions ?f)" "in_field (sf_base ?f) e x" for e x
    using sub [OF that(1)] that(2) representsD(3) [OF r] din field_c by auto
  have m: "?m x = flat x" if "in_field (sf_base f) d x \<or> m x = flat x" for x
    using that representsD(3) [OF r din] by (auto simp: store_field [OF ok])
  show "?m x = flat x" if "e \<in> set (sf_definitions ?f)" "in_field (sf_base ?f) e x" "\<not> is_dirty (fd_value e)" for e x
    using sub [OF that(1)] that(2,3) representsD(4) [OF r nth_mem] field_c m by auto
  show "?m x = flat x" if *: "\<And>e. e \<in> set (sf_definitions ?f) \<Longrightarrow> is_dirty (fd_value e) \<Longrightarrow> \<not> in_field (sf_base ?f) e x" for x
  proof (rule m, rule disjCI)
    assume out: "m x \<noteq> flat x"
    then obtain e where e: "e \<in> set ?ds" "is_dirty (fd_value e)" "in_field (sf_base f) e x" using representsD(5) [OF r] by blast
    then obtain j where j: "j < length ?ds" "e = ?ds ! j" by (auto simp: in_set_conv_nth)
    show "in_field (sf_base f) d x"
    proof (cases "j = i")
      case False
      then have "e \<in> set (sf_definitions ?f)" using j i by (auto simp: in_set_conv_nth nth_list_update intro!: exI [of _ j])
      with * e show ?thesis by simp
    qed (use e j d in simp)
  qed
qed

text \<open>What a flush promises: the flat memory stays, and a dirty definition that overlaps the span is gone,
  except one the span is about to replace entirely.\<close>

lemma flush_fold:
  assumes "represents (f, m) flat" and "set is \<subseteq> {..<length (sf_definitions f)}"
    and "fold (flush_one (sf_base f) s replacing) is (sf_definitions f, m) = (ds, m')"
  shows "represents (f\<lparr>sf_definitions := ds\<rparr>, m') flat \<and> map fd_location ds = map fd_location (sf_definitions f) \<and>
    (\<forall>i<length ds. is_dirty (fd_value (ds ! i)) \<longrightarrow> is_dirty (fd_value (sf_definitions f ! i))) \<and>
    (\<forall>i\<in>set is. is_dirty (fd_value (ds ! i)) \<longrightarrow> overlaps s (key_span (fd_location (ds ! i))) \<longrightarrow>
       replacing \<and> covers s (key_span (fd_location (ds ! i))))"
  using assms
proof (induction "is" arbitrary: f m)
  case (Cons i "is")
  let ?d = "sf_definitions f ! i" and ?ds = "sf_definitions f"
  let ?skip = "\<not> (overlaps s (key_span (fd_location ?d)) \<and> \<not> (replacing \<and> covers s (key_span (fd_location ?d))))"
  define g where "g = (if ?skip then f else f\<lparr>sf_definitions := ?ds[i := ?d\<lparr>fd_value := mark_clean (fd_value ?d)\<rparr>]\<rparr>)"
  define n where "n = (if ?skip then m else value_store (fd_value ?d) (sf_base f) (lk_offset (fd_location ?d)) m)"
  have i: "i < length ?ds" using Cons.prems(2) by simp
  have rg: "represents (g, n) flat"
    using Cons.prems(1) represents_clean_one [OF Cons.prems(1) i refl] by (simp add: g_def n_def)
  have base: "sf_base g = sf_base f" "length (sf_definitions g) = length ?ds" "f\<lparr>sf_definitions := ds\<rparr> = g\<lparr>sf_definitions := ds\<rparr>"
    by (simp_all add: g_def)
  have keys: "map fd_location (sf_definitions g) = map fd_location ?ds"
    using i by (simp add: g_def map_update list_update_same_conv)
  have step: "flush_one (sf_base f) s replacing i (?ds, m) = (sf_definitions g, n)"
    by (auto simp: flush_one_def Let_def g_def n_def)
  have "fold (flush_one (sf_base g) s replacing) is (sf_definitions g, n) = (ds, m')"
    using Cons.prems(3) step base by simp
  from Cons.IH [OF rg _ this] Cons.prems(2) base(2)
  have IH: "represents (g\<lparr>sf_definitions := ds\<rparr>, m') flat" "map fd_location ds = map fd_location (sf_definitions g)"
    "\<And>j. j < length ds \<Longrightarrow> is_dirty (fd_value (ds ! j)) \<Longrightarrow> is_dirty (fd_value (sf_definitions g ! j))"
    "\<And>j. j \<in> set is \<Longrightarrow> is_dirty (fd_value (ds ! j)) \<Longrightarrow> overlaps s (key_span (fd_location (ds ! j))) \<Longrightarrow>
       replacing \<and> covers s (key_span (fd_location (ds ! j)))" by auto
  have len: "length ds = length ?ds" using IH(2) keys map_eq_imp_length_eq by metis
  have loc: "fd_location (ds ! i) = fd_location ?d" using IH(2) keys i len by (metis nth_map)
  have dirty: "is_dirty (fd_value (sf_definitions g ! j)) \<Longrightarrow> is_dirty (fd_value (?ds ! j)) \<and> (j = i \<longrightarrow> ?skip)" if "j < length ?ds" for j
    using that i by (auto simp: g_def nth_list_update split: if_splits)
  have goal4: "replacing \<and> covers s (key_span (fd_location (ds ! j)))"
    if "j \<in> set (i # is)" "is_dirty (fd_value (ds ! j))" "overlaps s (key_span (fd_location (ds ! j)))" for j
  proof (cases "j \<in> set is")
    case False
    with that have "j = i" by simp
    with that IH(3) [of i] i len dirty [of i] loc show ?thesis by simp
  qed (use IH(4) that in blast)
  have goal3: "is_dirty (fd_value (?ds ! j))" if "j < length ds" "is_dirty (fd_value (ds ! j))" for j
    using IH(3) [OF that] dirty [of j] that(1) len by simp
  show ?case using IH(1,2) keys base(3) goal3 goal4 by (intro conjI) auto
next
  case Nil
  then show ?case by (cases f) auto
qed

lemma set_dirty_indices: "set (dirty_indices ds) = {i. i < length ds \<and> is_dirty (fd_value (ds ! i))}"
  by (auto simp: dirty_indices_def)

lemma flush_represents:
  assumes "represents (f, m) flat" and "flush s replacing (f, m) = (g, m')"
  shows "represents (g, m') flat" and "sf_base g = sf_base f" and "sf_writes g = sf_writes f"
    and "d \<in> set (sf_definitions g) \<Longrightarrow> is_dirty (fd_value d) \<Longrightarrow> overlaps s (key_span (fd_location d)) \<Longrightarrow>
      replacing \<and> covers s (key_span (fd_location d))"
proof -
  obtain ds where fold: "fold (flush_one (sf_base f) s replacing) (dirty_indices (sf_definitions f)) (sf_definitions f, m) = (ds, m')"
    and g: "g = f\<lparr>sf_definitions := ds\<rparr>"
    using assms(2) by (auto simp: flush_def split: prod.splits)
  note fl = flush_fold [OF assms(1) _ fold]
  have sub: "set (dirty_indices (sf_definitions f)) \<subseteq> {..<length (sf_definitions f)}" by (auto simp: set_dirty_indices)
  show "represents (g, m') flat" "sf_base g = sf_base f" "sf_writes g = sf_writes f" using fl [OF sub] g by auto
  assume "d \<in> set (sf_definitions g)" and dirty: "is_dirty (fd_value d)" "overlaps s (key_span (fd_location d))"
  then obtain i where i: "i < length ds" "d = ds ! i" using g by (auto simp: in_set_conv_nth)
  have "length ds = length (sf_definitions f)" using fl [OF sub] map_eq_imp_length_eq by blast
  then have "i \<in> set (dirty_indices (sf_definitions f))" using i dirty fl [OF sub] by (auto simp: set_dirty_indices)
  then show "replacing \<and> covers s (key_span (fd_location d))" using fl [OF sub] i dirty by blast
qed

lemma covered_in_field:
  "covers (key_span k) (key_span (fd_location d)) \<Longrightarrow> in_field base d x \<Longrightarrow>
    unat base + lk_offset k \<le> x \<and> x < unat base + lk_offset k + lk_bytes k"
  by (auto simp: covers_def key_span_def span_new_def in_field_def)

lemma in_field_overlaps:
  assumes "in_field base d x" and "unat base + span_start s \<le> x" and "x < unat base + span_end s"
  shows "overlaps s (key_span (fd_location d))"
  using assms by (auto simp: in_field_def overlaps_def key_span_def span_new_def)

text \<open>After a flush that keeps everything, the backing holds the whole span.\<close>

lemma flush_backing:
  assumes "represents (f, m) flat" and "flush s False (f, m) = (g, m')"
    and "unat (sf_base f) + span_start s \<le> x" and "x < unat (sf_base f) + span_end s"
  shows "m' x = flat x"
proof -
  note fl = flush_represents [OF assms(1,2)]
  show ?thesis
  proof (rule representsD(5) [OF fl(1)])
    fix d assume "d \<in> set (sf_definitions g)" "is_dirty (fd_value d)"
    then have "\<not> overlaps s (key_span (fd_location d))" using fl(4) by blast
    then show "\<not> in_field (sf_base g) d x" using in_field_overlaps assms(3,4) fl(2) by metis
  qed
qed

text \<open>Dropping the definitions of a span is safe where the backing already holds them or the
  span is about to be written.\<close>

lemma represents_drop:
  assumes r: "represents (f, m) flat"
    and new: "\<And>x. \<not> (unat (sf_base f) + span_start s \<le> x \<and> x < unat (sf_base f) + span_end s) \<Longrightarrow> new x = flat x \<and> m' x = m x"
    and inside: "\<And>x. unat (sf_base f) + span_start s \<le> x \<Longrightarrow> x < unat (sf_base f) + span_end s \<Longrightarrow> m' x = new x"
    and gone: "\<And>d. d \<in> set (sf_definitions f) \<Longrightarrow> is_dirty (fd_value d) \<Longrightarrow> overlaps s (key_span (fd_location d)) \<Longrightarrow>
      covers s (key_span (fd_location d))"
  shows "represents (drop_overlapping s f, m') new"
proof (rule representsI)
  let ?g = "drop_overlapping s f"
  have g: "sf_base ?g = sf_base f" "\<And>d. d \<in> set (sf_definitions ?g) \<longleftrightarrow> d \<in> set (sf_definitions f) \<and> \<not> overlaps s (key_span (fd_location d))"
    by (auto simp: drop_overlapping_def)
  have out: "\<not> (unat (sf_base f) + span_start s \<le> x \<and> x < unat (sf_base f) + span_end s)"
    if "d \<in> set (sf_definitions ?g)" "in_field (sf_base ?g) d x" for d x
    using that g in_field_overlaps by metis
  show "definition_ok d" if "d \<in> set (sf_definitions ?g)" for d using that g representsD(1) [OF r] by blast
  show "sorted_wrt (\<lambda>a b. \<not> overlaps (key_span a) (key_span b)) (map fd_location (sf_definitions ?g))"
    using representsD(2) [OF r] by (simp add: drop_overlapping_def sorted_wrt_map sorted_wrt_filter)
  show "new x = field_byte (sf_base ?g) d x" if "d \<in> set (sf_definitions ?g)" "in_field (sf_base ?g) d x" for d x
    using out [OF that] new that g representsD(3) [OF r] by simp
  show "m' x = new x" if "d \<in> set (sf_definitions ?g)" "in_field (sf_base ?g) d x" "\<not> is_dirty (fd_value d)" for d x
    using new [OF out [OF that(1,2)]] representsD(4) [OF r, of d x] that g by simp
  show "m' x = new x" if *: "\<And>d. d \<in> set (sf_definitions ?g) \<Longrightarrow> is_dirty (fd_value d) \<Longrightarrow> \<not> in_field (sf_base ?g) d x" for x
  proof (cases "unat (sf_base f) + span_start s \<le> x \<and> x < unat (sf_base f) + span_end s")
    case False
    have "m x = flat x"
    proof (rule representsD(5) [OF r])
      fix d assume d: "d \<in> set (sf_definitions f)" "is_dirty (fd_value d)"
      show "\<not> in_field (sf_base f) d x"
      proof (cases "overlaps s (key_span (fd_location d))")
        case True
        from gone [OF d True] False show ?thesis by (auto simp: covers_def key_span_def span_new_def in_field_def)
      qed (use * d g in auto)
    qed
    with new False show ?thesis by simp
  qed (use inside in blast)
qed

lemma represents_push:
  assumes r: "represents (f, m) flat" and ok: "definition_ok d"
    and dis: "\<And>e. e \<in> set (sf_definitions f) \<Longrightarrow> \<not> overlaps (key_span (fd_location d)) (key_span (fd_location e))"
    and d: "\<And>x. in_field (sf_base f) d x \<Longrightarrow> new x = field_byte (sf_base f) d x \<and> (is_dirty (fd_value d) \<or> m x = new x)"
    and out: "\<And>x. \<not> in_field (sf_base f) d x \<Longrightarrow> new x = flat x"
  shows "represents (f\<lparr>sf_definitions := sf_definitions f @ [d], sf_writes := w\<rparr>, m) new"
proof (rule representsI)
  let ?g = "f\<lparr>sf_definitions := sf_definitions f @ [d], sf_writes := w\<rparr>"
  have apart: "\<not> in_field (sf_base f) d x" if "e \<in> set (sf_definitions f)" "in_field (sf_base f) e x" for e x
    using dis [OF that(1)] in_both_fields that(2) by blast
  show "definition_ok e" if "e \<in> set (sf_definitions ?g)" for e using that ok representsD(1) [OF r] by auto
  show "sorted_wrt (\<lambda>a b. \<not> overlaps (key_span a) (key_span b)) (map fd_location (sf_definitions ?g))"
    using representsD(2) [OF r] dis by (auto simp: sorted_wrt_append overlaps_sym)
  show "new x = field_byte (sf_base ?g) e x" if "e \<in> set (sf_definitions ?g)" "in_field (sf_base ?g) e x" for e x
    using that d [of x] out [of x] apart representsD(3) [OF r] by auto
  show "m x = new x" if "e \<in> set (sf_definitions ?g)" "in_field (sf_base ?g) e x" "\<not> is_dirty (fd_value e)" for e x
    using that d [of x] out [of x] apart representsD(4) [OF r] by auto
  show "m x = new x" if *: "\<And>e. e \<in> set (sf_definitions ?g) \<Longrightarrow> is_dirty (fd_value e) \<Longrightarrow> \<not> in_field (sf_base ?g) e x" for x
  proof (cases "in_field (sf_base f) d x")
    case True
    with * [of d] d [OF True] show ?thesis by auto
  next
    case False
    have "m x = flat x" by (rule representsD(5) [OF r]) (use * in auto)
    with out [OF False] show ?thesis by simp
  qed
qed

subsection \<open>The operations implement the flat memory\<close>

text \<open>The address of a field, and that its bytes are inside the span it declares.\<close>

definition flat_address :: "u32 \<Rightarrow> field_address \<Rightarrow> nat" where
  "flat_address base location = (case location of
     Fixed offset \<Rightarrow> unat base + offset
   | Indexed s displacement \<Rightarrow> unat base + span_start s + unat displacement)"

definition address_ok :: "u32 \<Rightarrow> nat \<Rightarrow> field_address \<Rightarrow> bool" where
  "address_ok base bytes location \<longleftrightarrow> (case location of
     Fixed offset \<Rightarrow> True
   | Indexed s displacement \<Rightarrow> unat base + unat displacement < 2 ^ 32 \<and> span_start s + unat displacement + bytes \<le> span_end s)"

lemma unat_add_no_wrap: "unat a + unat b < 2 ^ 32 \<Longrightarrow> unat (a + b :: u32) = unat a + unat b"
  using unat_add_lem [of a b] by simp

lemma field_read_represents:
  fixes location :: field_address
  assumes r: "represents (f, m) flat" and w: "field_width TYPE('a::len)" and a: "address_ok (sf_base f) (LENGTH('a) div 8) location"
  shows "\<exists>g m'. field_read location (f, m) = Some (load_word (flat_address (sf_base f) location) flat :: 'a word, g, m') \<and>
    represents (g, m') flat \<and> sf_base g = sf_base f"
proof (cases location)
  case (Indexed s displacement)
  obtain g m' where fl: "flush s False (f, m) = (g, m')" by fastforce
  let ?a = "flat_address (sf_base f) location"
  have a': "unat (sf_base f + displacement) + span_start s = ?a"
    using a Indexed unat_add_no_wrap by (simp add: address_ok_def flat_address_def)
  have "(load_word ?a m' :: 'a word) = load_word ?a flat"
    by (rule load_word_cong, rule flush_backing [OF r fl]) (use a Indexed in \<open>auto simp: address_ok_def flat_address_def\<close>)
  then show ?thesis using flush_represents(1,2) [OF r fl] fl a' by (simp add: field_read_def Indexed Let_def)
next
  case (Fixed offset)
  let ?key = "\<lparr>lk_offset = offset, lk_bytes = LENGTH('a) div 8\<rparr>" and ?a = "unat (sf_base f) + offset"
  have span: "span_start (key_span ?key) = offset" "span_end (key_span ?key) = offset + LENGTH('a) div 8"
    by (simp_all add: key_span_def span_new_def)
  show ?thesis
  proof (cases "find (\<lambda>d. fd_location d = ?key) (sf_definitions f)")
    case (Some d)
    then have d: "d \<in> set (sf_definitions f)" "fd_location d = ?key" by (auto simp: find_Some_iff in_set_conv_nth)
    have "length (value_bytes (fd_value d)) = LENGTH('a) div 8" using representsD(1) [OF r d(1)] d(2) by (simp add: definition_ok_def)
    from retained_exists [OF w this] obtain t :: "'a word tracked_value" where t: "retained (fd_value d) = Some t" ..
    have "load_word ?a flat = tv_value t"
    proof (rule load_word_bytes [OF w])
      fix k assume "k < LENGTH('a) div 8"
      then show "flat (?a + k) = to_le_bytes (tv_value t) ! k"
        using representsD(3) [OF r d(1), of "?a + k"] d(2) retained_bytes(1) [OF t] by (simp add: in_field_def field_byte_def)
    qed
    then show ?thesis using Some t r by (simp add: field_read_def Fixed flat_address_def)
  next
    case None
    obtain g m' where fl: "flush (key_span ?key) False (f, m) = (g, m')" by fastforce
    note fr = flush_represents [OF r fl]
    have same: "m' x = flat x" if "?a \<le> x" "x < ?a + LENGTH('a) div 8" for x
      by (rule flush_backing [OF r fl]) (use that in \<open>auto simp: span\<close>)
    have v: "(load_word ?a m' :: 'a word) = load_word ?a flat" by (rule load_word_cong) (simp add: same)
    let ?v = "load_word ?a flat :: 'a word"
    let ?d = "\<lparr>fd_location = ?key, fd_value = retain (tracked_new ?v), fd_first_write = None\<rparr>"
    let ?h = "drop_overlapping (key_span ?key) g"
    have base: "sf_base ?h = sf_base f" using fr(2) by (simp add: drop_overlapping_def)
    have dropped: "represents (?h, m') flat"
      by (rule represents_drop [OF fr(1)]) (use same span fr(2,4) in auto)
    have bytes: "value_bytes (retain (tracked_new ?v)) = map flat [?a..<?a + LENGTH('a) div 8]"
      using w by (simp add: retained_retain tracked_new_def to_le_bytes_load_word)
    have push: "represents (?h\<lparr>sf_definitions := sf_definitions ?h @ [?d], sf_writes := sf_writes ?h\<rparr>, m') flat"
    proof (rule represents_push [OF dropped])
      show "definition_ok ?d" by (simp add: definition_ok_def bytes)
      show "\<not> overlaps (key_span (fd_location ?d)) (key_span (fd_location e))" if "e \<in> set (sf_definitions ?h)" for e
        using that by (simp add: drop_overlapping_def)
      show "flat x = field_byte (sf_base ?h) ?d x \<and> (is_dirty (fd_value ?d) \<or> m' x = flat x)" if "in_field (sf_base ?h) ?d x" for x
        using that same by (auto simp: in_field_def field_byte_def bytes base)
    qed simp
    then show ?thesis using None fl v base by (simp add: field_read_def Fixed flat_address_def Let_def)
  qed
qed

lemma redefine_represents:
  fixes v :: "'a::len word"
  assumes w: "field_width TYPE('a)" and ok: "\<And>e. e \<in> set ds \<Longrightarrow> definition_ok e"
    and find: "find (\<lambda>d. fd_location d = \<lparr>lk_offset = offset, lk_bytes = LENGTH('a) div 8\<rparr>) ds = Some d"
    and same: "same \<longrightarrow> value_bytes (fd_value d) = to_le_bytes v"
  shows "\<exists>es ws d'. redefine same \<lparr>lk_offset = offset, lk_bytes = LENGTH('a) div 8\<rparr> v n ds = Some (es, ws) \<and>
    (\<exists>i<length ds. ds ! i = d \<and> es = ds[i := d']) \<and> fd_location d' = fd_location d \<and>
    value_bytes (fd_value d') = to_le_bytes v \<and> (is_dirty (fd_value d') \<or> same \<and> is_dirty (fd_value d') = is_dirty (fd_value d))"
  using ok find
proof (induction ds)
  case (Cons e ds)
  let ?key = "\<lparr>lk_offset = offset, lk_bytes = LENGTH('a) div 8\<rparr>"
  show ?case
  proof (cases "fd_location e = ?key")
    case True
    then have d: "e = d" using Cons.prems(2) by simp
    have "length (value_bytes (fd_value d)) = LENGTH('a) div 8" using Cons.prems(1) [of d] True d by (simp add: definition_ok_def)
    from retained_exists [OF w this] obtain t :: "'a word tracked_value" where t: "retained (fd_value d) = Some t" ..
    obtain t' changed where td: "tracked_define same v t = (t', changed)" by fastforce
    have t': "tv_value t' = (if same then tv_value t else v)" "tv_dirty t' = (tv_dirty t \<or> \<not> same)" "changed = (\<not> same)"
      using td by (auto simp: tracked_define_def split: if_splits)
    have b: "value_bytes (retain t') = to_le_bytes v" "is_dirty (retain t') = (is_dirty (fd_value d) \<or> \<not> same)"
      using t' same retained_bytes [OF t] by (auto simp: retained_retain [OF w])
    show ?thesis
      by (cases "changed \<and> fd_first_write d = None") (use True d t td b in \<open>auto intro!: exI [of _ 0]\<close>)
  next
    case False
    with Cons.prems have "find (\<lambda>d. fd_location d = ?key) ds = Some d" by simp
    from Cons.IH [OF _ this] Cons.prems(1) obtain es ws d' i where *: "redefine same ?key v n ds = Some (es, ws)"
      "i < length ds" "ds ! i = d" "es = ds[i := d']" "fd_location d' = fd_location d"
      "value_bytes (fd_value d') = to_le_bytes v" "is_dirty (fd_value d') \<or> same \<and> is_dirty (fd_value d') = is_dirty (fd_value d)" by auto
    then have "redefine same ?key v n (e # ds) = Some (e # es, ws)" "Suc i < length (e # ds)" "(e # ds) ! Suc i = d"
      "e # es = (e # ds)[Suc i := d']" using False by simp_all
    with *(5-7) show ?thesis by blast
  qed
qed simp

lemma represents_replace:
  assumes r: "represents (f, m) flat" and i: "i < length (sf_definitions f)" and d: "sf_definitions f ! i = d"
    and d': "fd_location d' = fd_location d" "definition_ok d'" "is_dirty (fd_value d') \<or> is_dirty (fd_value d') = is_dirty (fd_value d) \<and> value_bytes (fd_value d') = value_bytes (fd_value d)"
    and new: "new = store_bytes (unat (sf_base f) + lk_offset (fd_location d)) (value_bytes (fd_value d')) flat"
  shows "represents (f\<lparr>sf_definitions := (sf_definitions f)[i := d'], sf_writes := ws\<rparr>, m) new"
proof (rule representsI)
  let ?g = "f\<lparr>sf_definitions := (sf_definitions f)[i := d'], sf_writes := ws\<rparr>" and ?ds = "sf_definitions f"
  have din: "d \<in> set ?ds" using i d by auto
  have field: "in_field (sf_base f) d' x = in_field (sf_base f) d x" for x using d'(1) by (simp add: in_field_def)
  have new_x: "new x = (if in_field (sf_base f) d x then field_byte (sf_base f) d' x else flat x)" for x
    using store_field [OF d'(2), of "sf_base f" flat x] d'(1) field by (simp add: new value_store_def)
  have sub: "e = d' \<or> (e \<in> set ?ds \<and> (\<forall>x. in_field (sf_base f) e x \<longrightarrow> \<not> in_field (sf_base f) d x))" if "e \<in> set (sf_definitions ?g)" for e
  proof -
    from that obtain j where j: "j < length ?ds" "e = ?ds[i := d'] ! j" by (auto simp: in_set_conv_nth)
    show ?thesis
    proof (cases "j = i")
      case False
      then have "\<not> overlaps (key_span (fd_location e)) (key_span (fd_location d))"
        using sorted_wrt_nth_disjoint [OF representsD(2) [OF r] j(1) i] j d by simp
      then show ?thesis using False j in_both_fields by auto
    qed (use j in simp)
  qed
  show "definition_ok e" if "e \<in> set (sf_definitions ?g)" for e using sub [OF that] d'(2) representsD(1) [OF r] by auto
  have "map fd_location (sf_definitions ?g) = map fd_location ?ds" using i d d'(1) by (simp add: map_update list_update_same_conv)
  then show "sorted_wrt (\<lambda>a b. \<not> overlaps (key_span a) (key_span b)) (map fd_location (sf_definitions ?g))"
    using representsD(2) [OF r] by simp
  show "new x = field_byte (sf_base ?g) e x" if "e \<in> set (sf_definitions ?g)" "in_field (sf_base ?g) e x" for e x
    using sub [OF that(1)] that(2) representsD(3) [OF r] field by (auto simp: new_x)
  have old: "new x = flat x" if "\<not> is_dirty (fd_value d')" for x
    using that d' representsD(3) [OF r din, of x] by (auto simp: new_x field_byte_def)
  show "m x = new x" if "e \<in> set (sf_definitions ?g)" "in_field (sf_base ?g) e x" "\<not> is_dirty (fd_value e)" for e x
  proof -
    have "m x = flat x"
      using sub [OF that(1)] that(2,3) representsD(4) [OF r] field d'(3) din by auto
    moreover have "new x = flat x"
      using sub [OF that(1)] that(2,3) old [of x] new_x [of x] by auto
    ultimately show ?thesis by simp
  qed
  show "m x = new x" if *: "\<And>e. e \<in> set (sf_definitions ?g) \<Longrightarrow> is_dirty (fd_value e) \<Longrightarrow> \<not> in_field (sf_base ?g) e x" for x
  proof -
    have "d' \<in> set (sf_definitions ?g)" using i by (simp add: set_update_memI)
    then have dd: "\<not> is_dirty (fd_value d') \<or> \<not> in_field (sf_base f) d x" using * field by auto
    have "m x = flat x"
    proof (rule representsD(5) [OF r])
      fix e assume e: "e \<in> set ?ds" "is_dirty (fd_value e)"
      then obtain j where j: "j < length ?ds" "e = ?ds ! j" by (auto simp: in_set_conv_nth)
      show "\<not> in_field (sf_base f) e x"
      proof (cases "j = i")
        case False
        then have "e \<in> set (sf_definitions ?g)" using j by (auto simp: in_set_conv_nth nth_list_update intro!: exI [of _ j])
        with * e show ?thesis by simp
      qed (use dd e j d d'(3) in auto)
    qed
    moreover have "new x = flat x" using dd old [of x] new_x [of x] by auto
    ultimately show ?thesis by simp
  qed
qed

lemma store_bytes_in: "length bs = n \<Longrightarrow> \<not> (a \<le> x \<and> x < a + n) \<Longrightarrow> store_bytes a bs m x = m x"
  by (auto simp: store_bytes_def)

lemma field_define_represents:
  fixes v :: "'a::len word"
  assumes r: "represents (f, m) flat" and w: "field_width TYPE('a)" and a: "address_ok (sf_base f) (LENGTH('a) div 8) location"
    and same: "same \<longrightarrow> load_word (flat_address (sf_base f) location) flat = v"
  shows "\<exists>g m'. field_define same location v (f, m) = Some (g, m') \<and> sf_base g = sf_base f \<and>
    represents (g, m') (store_bytes (flat_address (sf_base f) location) (to_le_bytes v) flat)"
proof (cases location)
  case (Indexed s displacement)
  obtain g m' where fl: "flush s False (f, m) = (g, m')" by fastforce
  note fr = flush_represents [OF r fl]
  let ?a = "flat_address (sf_base f) location"
  have a': "unat (sf_base f + displacement) + span_start s = ?a"
    using a Indexed unat_add_no_wrap by (simp add: address_ok_def flat_address_def)
  have inside: "unat (sf_base f) + span_start s \<le> ?a" "?a + LENGTH('a) div 8 \<le> unat (sf_base f) + span_end s"
    using a Indexed by (auto simp: address_ok_def flat_address_def)
  have "represents (drop_overlapping s g, store_bytes ?a (to_le_bytes v) m') (store_bytes ?a (to_le_bytes v) flat)"
  proof (rule represents_drop [OF fr(1)])
    show "store_bytes ?a (to_le_bytes v) flat x = flat x \<and> store_bytes ?a (to_le_bytes v) m' x = m' x"
      if "\<not> (unat (sf_base g) + span_start s \<le> x \<and> x < unat (sf_base g) + span_end s)" for x
      using that inside fr(2) by (auto simp: store_bytes_def)
    show "store_bytes ?a (to_le_bytes v) m' x = store_bytes ?a (to_le_bytes v) flat x"
      if "unat (sf_base g) + span_start s \<le> x" "x < unat (sf_base g) + span_end s" for x
      using flush_backing [OF r fl, of x] that fr(2) by (simp add: store_bytes_def)
    show "covers s (key_span (fd_location d))" if "d \<in> set (sf_definitions g)" "is_dirty (fd_value d)" "overlaps s (key_span (fd_location d))" for d
      using fr(4) [OF that] by simp
  qed
  then show ?thesis using fl a' fr(2) by (simp add: field_define_def Indexed Let_def drop_overlapping_def)
next
  case (Fixed offset)
  let ?key = "\<lparr>lk_offset = offset, lk_bytes = LENGTH('a) div 8\<rparr>" and ?a = "unat (sf_base f) + offset"
  let ?new = "store_bytes ?a (to_le_bytes v) flat"
  have span: "span_start (key_span ?key) = offset" "span_end (key_span ?key) = offset + LENGTH('a) div 8"
    by (simp_all add: key_span_def span_new_def)
  show ?thesis
  proof (cases "find (\<lambda>d. fd_location d = ?key) (sf_definitions f)")
    case (Some d)
    then have d: "d \<in> set (sf_definitions f)" "fd_location d = ?key" by (auto simp: find_Some_iff in_set_conv_nth)
    have len: "length (value_bytes (fd_value d)) = LENGTH('a) div 8" using representsD(1) [OF r d(1)] d(2) by (simp add: definition_ok_def)
    have s: "same \<longrightarrow> value_bytes (fd_value d) = to_le_bytes v"
    proof
      assume same
      then have "to_le_bytes v = map flat [?a..<?a + LENGTH('a) div 8]"
        using same Fixed to_le_bytes_load_word [OF w, of ?a flat] by (simp add: flat_address_def)
      also have "\<dots> = value_bytes (fd_value d)"
        using representsD(3) [OF r d(1)] d(2) len by (auto intro!: nth_equalityI simp: in_field_def field_byte_def)
      finally show "value_bytes (fd_value d) = to_le_bytes v" by simp
    qed
    from redefine_represents [OF w representsD(1) [OF r] Some s, of "sf_writes f"]
    obtain ws d' i where rd: "redefine same ?key v (sf_writes f) (sf_definitions f) = Some ((sf_definitions f)[i := d'], ws)"
      "i < length (sf_definitions f)" "sf_definitions f ! i = d" "fd_location d' = fd_location d"
      "value_bytes (fd_value d') = to_le_bytes v" "is_dirty (fd_value d') \<or> same \<and> is_dirty (fd_value d') = is_dirty (fd_value d)"
      by blast
    have "represents (f\<lparr>sf_definitions := (sf_definitions f)[i := d'], sf_writes := ws\<rparr>, m) ?new"
      by (rule represents_replace [OF r rd(2,3,4)]) (use rd s d(2) in \<open>auto simp: definition_ok_def\<close>)
    then show ?thesis using Some rd(1) by (simp add: field_define_def Fixed flat_address_def)
  next
    case None
    obtain g m' where fl: "flush (key_span ?key) True (f, m) = (g, m')" by fastforce
    note fr = flush_represents [OF r fl]
    let ?d = "\<lparr>fd_location = ?key, fd_value = retain (tracked_defined v), fd_first_write = Some (sf_writes g)\<rparr>"
    let ?h = "drop_overlapping (key_span ?key) g"
    define old where "old = (\<lambda>x. if ?a \<le> x \<and> x < ?a + LENGTH('a) div 8 then m' x else flat x)"
    have base: "sf_base ?h = sf_base f" "sf_writes ?h = sf_writes g" using fr(2) by (simp_all add: drop_overlapping_def)
    have dropped: "represents (?h, m') old"
      by (rule represents_drop [OF fr(1)]) (use span fr(2,4) in \<open>auto simp: old_def\<close>)
    have bytes: "value_bytes (retain (tracked_defined v)) = to_le_bytes v" "is_dirty (retain (tracked_defined v))"
      using w by (simp_all add: retained_retain tracked_new_def tracked_defined_def)
    have "represents (?h\<lparr>sf_definitions := sf_definitions ?h @ [?d], sf_writes := sf_writes ?h + 1\<rparr>, m') ?new"
    proof (rule represents_push [OF dropped])
      show "definition_ok ?d" by (simp add: definition_ok_def bytes)
      show "\<not> overlaps (key_span (fd_location ?d)) (key_span (fd_location e))" if "e \<in> set (sf_definitions ?h)" for e
        using that by (simp add: drop_overlapping_def)
      show "?new x = field_byte (sf_base ?h) ?d x \<and> (is_dirty (fd_value ?d) \<or> m' x = ?new x)" if "in_field (sf_base ?h) ?d x" for x
        using that base by (auto simp: in_field_def field_byte_def bytes store_bytes_def)
      show "?new x = old x" if "\<not> in_field (sf_base ?h) ?d x" for x
        using that base by (auto simp: in_field_def old_def store_bytes_def)
    qed
    then show ?thesis using None fl base by (simp add: field_define_def Fixed flat_address_def Let_def)
  qed
qed

text \<open>Publishing writes every dirty value back, which completes the flat memory.\<close>

lemma publish_fold:
  assumes "set is \<subseteq> {..<length ds}" and "\<And>d. d \<in> set ds \<Longrightarrow> definition_ok d"
    and "sorted_wrt (\<lambda>a b. \<not> overlaps (key_span a) (key_span b)) (map fd_location ds)"
  shows "fold (\<lambda>i. let d = ds ! i in value_store (fd_value d) base (lk_offset (fd_location d))) is m x =
    (case find (\<lambda>i. in_field base (ds ! i) x) is of Some i \<Rightarrow> field_byte base (ds ! i) x | None \<Rightarrow> m x)"
  using assms(1)
proof (induction "is" arbitrary: m)
  case (Cons i "is")
  have i: "i < length ds" and sub: "set is \<subseteq> {..<length ds}" using Cons.prems by auto
  have only: "j = i" if "j \<in> set is" "in_field base (ds ! j) x" "in_field base (ds ! i) x" for j
  proof (rule ccontr)
    assume "j \<noteq> i"
    with sorted_wrt_nth_disjoint [OF assms(3) _ i, of j] sub that in_both_fields [of base "ds ! j" x "ds ! i"] show False by auto
  qed
  have found: "case find (\<lambda>i. in_field base (ds ! i) x) is of Some j \<Rightarrow> field_byte base (ds ! j) x = field_byte base (ds ! i) x | None \<Rightarrow> True"
    if "in_field base (ds ! i) x"
    using only that by (auto split: option.split simp: find_Some_iff dest: nth_mem)
  have "fold (\<lambda>i. let d = ds ! i in value_store (fd_value d) base (lk_offset (fd_location d))) (i # is) m x =
    (case find (\<lambda>i. in_field base (ds ! i) x) is of Some j \<Rightarrow> field_byte base (ds ! j) x
     | None \<Rightarrow> value_store (fd_value (ds ! i)) base (lk_offset (fd_location (ds ! i))) m x)"
    using Cons.IH [OF sub, of "value_store (fd_value (ds ! i)) base (lk_offset (fd_location (ds ! i))) m"] by (simp add: Let_def)
  then show ?case using found by (auto simp: store_field assms(2) i split: option.splits)
qed simp

lemma publish_represents:
  assumes "represents (f, m) flat"
  shows "fields_publish f m = flat"
proof
  fix x
  let ?ds = "sf_definitions f" and ?P = "\<lambda>i. in_field (sf_base f) (sf_definitions f ! i) x"
  have *: "fields_publish f m x =
    (case find ?P (dirty_indices ?ds) of Some i \<Rightarrow> field_byte (sf_base f) (?ds ! i) x | None \<Rightarrow> m x)"
    unfolding fields_publish_def
    by (rule publish_fold) (use representsD(1,2) [OF assms] in \<open>auto simp: set_dirty_indices\<close>)
  show "fields_publish f m x = flat x"
  proof (cases "find ?P (dirty_indices ?ds)")
    case None
    then have "\<not> in_field (sf_base f) d x" if "d \<in> set ?ds" "is_dirty (fd_value d)" for d
      using that by (auto simp: find_None_iff set_dirty_indices in_set_conv_nth)
    with None * representsD(5) [OF assms] show ?thesis by simp
  next
    case (Some i)
    then have "i \<in> set (dirty_indices ?ds)" "?P i" by (auto simp: find_Some_iff in_set_conv_nth)
    with Some * representsD(3) [OF assms, of "?ds ! i" x] show ?thesis by (auto simp: set_dirty_indices)
  qed
qed

lemma represents_new: "represents (fields_with_base base, m) m"
  by (rule representsI) (simp_all add: fields_with_base_def)

end
