(* ===== verification/X86_Flags.thy ===== *)
theory X86_Flags
  imports Prelude
begin

text \<open>
  Status flags of the x86 crate: \<open>flags.rs\<close>, \<open>flags/mask.rs\<close>, \<open>flags/condition.rs\<close>, \<open>flags/changes.rs\<close>,
  with the flag equations of \<open>alu.rs\<close>, \<open>alu/arithmetic.rs\<close>, \<open>alu/logic.rs\<close> and \<open>alu/status.rs\<close>. A compiler
  value of a guest operand is the word it has at run time, a one-bit value is a bool; a change's
  predicate also records whether the compiler knows it to be constant. A panic is \<open>None\<close>.
\<close>

subsection \<open>flags.rs, mask.rs\<close>

datatype status_flag = CF | PF | AF | ZF | SF | OF

definition STATUS_FLAGS :: "status_flag list" where
  "STATUS_FLAGS = [CF, PF, AF, ZF, SF, OF]"

primrec status_index :: "status_flag \<Rightarrow> nat" where
  "status_index CF = 0"
| "status_index PF = 1"
| "status_index AF = 2"
| "status_index ZF = 3"
| "status_index SF = 4"
| "status_index OF = 5"

datatype flag = Status status_flag | TF | DF | NT | AC | ID | IF

primrec flag_index :: "flag \<Rightarrow> nat" where
  "flag_index (Status f) = status_index f"
| "flag_index TF = 6"
| "flag_index DF = 7"
| "flag_index NT = 8"
| "flag_index AC = 9"
| "flag_index ID = 10"
| "flag_index IF = 11"

definition ALL_FLAGS :: "flag list" where
  "ALL_FLAGS = map Status STATUS_FLAGS @ [TF, DF, NT, AC, ID, IF]"

type_synonym flag_mask = u16

definition mask_of :: "flag \<Rightarrow> flag_mask" where
  "mask_of f = push_bit (flag_index f) 1"

abbreviation MASK_EMPTY :: flag_mask where "MASK_EMPTY \<equiv> 0"
abbreviation MASK_STATUS :: flag_mask where "MASK_STATUS \<equiv> 0x3F"
abbreviation MASK_ALL :: flag_mask where "MASK_ALL \<equiv> 0xFFF"

definition mask_intersects :: "flag_mask \<Rightarrow> flag_mask \<Rightarrow> bool" where
  "mask_intersects m n \<longleftrightarrow> m AND n \<noteq> 0"

definition mask_contains :: "flag_mask \<Rightarrow> flag \<Rightarrow> bool" where
  "mask_contains m f = mask_intersects m (mask_of f)"

definition mask_covers :: "flag_mask \<Rightarrow> flag_mask \<Rightarrow> bool" where
  "mask_covers m n \<longleftrightarrow> m AND n = n"

definition mask_without :: "flag_mask \<Rightarrow> flag \<Rightarrow> flag_mask" where
  "mask_without m f = m AND NOT (mask_of f)"

definition mask_flags :: "flag_mask \<Rightarrow> flag list" where
  "mask_flags m = filter (mask_contains m) ALL_FLAGS"

definition mask_status_flags :: "flag_mask \<Rightarrow> status_flag list" where
  "mask_status_flags m = filter (\<lambda>f. mask_contains m (Status f)) STATUS_FLAGS"

subsection \<open>condition.rs\<close>

datatype condition = CcO | CcNO | CcB | CcAE | CcE | CcNE | CcBE | CcA | CcS | CcNS | CcP | CcNP | CcL | CcGE | CcLE | CcG

primrec condition_number :: "condition \<Rightarrow> nat" where
  "condition_number CcO = 0" | "condition_number CcNO = 1" | "condition_number CcB = 2" | "condition_number CcAE = 3"
| "condition_number CcE = 4" | "condition_number CcNE = 5" | "condition_number CcBE = 6" | "condition_number CcA = 7"
| "condition_number CcS = 8" | "condition_number CcNS = 9" | "condition_number CcP = 10" | "condition_number CcNP = 11"
| "condition_number CcL = 12" | "condition_number CcGE = 13" | "condition_number CcLE = 14" | "condition_number CcG = 15"

definition CANONICAL :: "condition list" where
  "CANONICAL = [CcO, CcB, CcE, CcBE, CcS, CcP, CcL, CcLE]"

definition canonical :: "condition \<Rightarrow> condition" where
  "canonical c = CANONICAL ! (condition_number c div 2)"

definition is_inverted :: "condition \<Rightarrow> bool" where
  "is_inverted c = odd (condition_number c)"

definition from_code :: "u8 \<Rightarrow> condition" where
  "from_code code =
     [CcO, CcNO, CcB, CcAE, CcE, CcNE, CcBE, CcA, CcS, CcNS, CcP, CcNP, CcL, CcGE, CcLE, CcG] ! unat (code AND 15)"

definition condition_flags :: "condition \<Rightarrow> flag_mask" where
  "condition_flags c =
     (case canonical c of
        CcO \<Rightarrow> mask_of (Status OF)
      | CcB \<Rightarrow> mask_of (Status CF)
      | CcE \<Rightarrow> mask_of (Status ZF)
      | CcBE \<Rightarrow> mask_of (Status CF) OR mask_of (Status ZF)
      | CcS \<Rightarrow> mask_of (Status SF)
      | CcP \<Rightarrow> mask_of (Status PF)
      | CcL \<Rightarrow> mask_of (Status SF) OR mask_of (Status OF)
      | _ \<Rightarrow> mask_of (Status ZF) OR mask_of (Status SF) OR mask_of (Status OF))"

primrec status_condition :: "status_flag \<Rightarrow> condition option" where
  "status_condition CF = Some CcB"
| "status_condition PF = Some CcP"
| "status_condition AF = None"
| "status_condition ZF = Some CcE"
| "status_condition SF = Some CcS"
| "status_condition OF = Some CcO"

fun operand_comparison :: "condition \<Rightarrow> ('a::len word \<Rightarrow> 'a word \<Rightarrow> bool) option" where
  "operand_comparison CcB = Some (\<lambda>l r. l < r)"
| "operand_comparison CcAE = Some (\<lambda>l r. l \<ge> r)"
| "operand_comparison CcE = Some (\<lambda>l r. l = r)"
| "operand_comparison CcNE = Some (\<lambda>l r. l \<noteq> r)"
| "operand_comparison CcBE = Some (\<lambda>l r. r \<ge> l)"
| "operand_comparison CcA = Some (\<lambda>l r. r < l)"
| "operand_comparison CcL = Some (\<lambda>l r. sint l < sint r)"
| "operand_comparison CcGE = Some (\<lambda>l r. sint l \<ge> sint r)"
| "operand_comparison CcLE = Some (\<lambda>l r. sint r \<ge> sint l)"
| "operand_comparison CcG = Some (\<lambda>l r. sint r < sint l)"
| "operand_comparison _ = None"

fun logic_result_comparison :: "condition \<Rightarrow> ('a::len word \<Rightarrow> bool) option" where
  "logic_result_comparison CcE = Some (\<lambda>v. v = 0)"
| "logic_result_comparison CcNE = Some (\<lambda>v. v \<noteq> 0)"
| "logic_result_comparison _ = None"

primrec evaluate :: "condition \<Rightarrow> (status_flag \<Rightarrow> bool) \<Rightarrow> bool" where
  "evaluate CcO read = read OF"
| "evaluate CcNO read = (\<not> read OF)"
| "evaluate CcB read = read CF"
| "evaluate CcAE read = (\<not> read CF)"
| "evaluate CcE read = read ZF"
| "evaluate CcNE read = (\<not> read ZF)"
| "evaluate CcBE read = (read CF \<or> read ZF)"
| "evaluate CcA read = (\<not> (read CF \<or> read ZF))"
| "evaluate CcS read = read SF"
| "evaluate CcNS read = (\<not> read SF)"
| "evaluate CcP read = read PF"
| "evaluate CcNP read = (\<not> read PF)"
| "evaluate CcL read = (read SF \<noteq> read OF)"
| "evaluate CcGE read = (\<not> (read SF \<noteq> read OF))"
| "evaluate CcLE read = (read ZF \<or> (read SF \<noteq> read OF))"
| "evaluate CcG read = (\<not> (read ZF \<or> (read SF \<noteq> read OF)))"

subsection \<open>alu.rs, arithmetic.rs, logic.rs: flag equations\<close>

definition val_bit :: "'a::len word \<Rightarrow> nat \<Rightarrow> bool" where
  "val_bit v index = odd (drop_bit index v)"

fun result_flag :: "'a::len word \<Rightarrow> status_flag \<Rightarrow> bool" where
  "result_flag result PF = even (count_ones (result AND 0xFF))"
| "result_flag result ZF = (result = 0)"
| "result_flag result SF = val_bit result (LENGTH('a) - 1)"
| "result_flag result _ = False"

datatype arithmetic_op = Add | Subtract

fun arithmetic_result :: "arithmetic_op \<Rightarrow> 'a::len word \<Rightarrow> 'a word \<Rightarrow> 'a word" where
  "arithmetic_result Add left right = left + right"
| "arithmetic_result Subtract left right = left - right"

definition result_with_carry :: "arithmetic_op \<Rightarrow> 'a::len word \<Rightarrow> 'a word \<Rightarrow> bool \<Rightarrow> 'a word" where
  "result_with_carry op left right carry = arithmetic_result op (arithmetic_result op left right) (of_bool carry)"

fun arithmetic_flag ::
  "arithmetic_op \<Rightarrow> 'a::len word \<Rightarrow> 'a word \<Rightarrow> 'a word \<Rightarrow> bool \<Rightarrow> status_flag \<Rightarrow> bool" where
  "arithmetic_flag op left right result carry_in CF =
     (let (l, r) = (case op of Add \<Rightarrow> (result, left) | Subtract \<Rightarrow> (left, right)) in
      if carry_in then r \<ge> l else l < r)"
| "arithmetic_flag op left right result carry_in AF = val_bit (left XOR right XOR result) 4"
| "arithmetic_flag op left right result carry_in OF =
     (let overflow_pair = (case op of Add \<Rightarrow> right XOR result | Subtract \<Rightarrow> left XOR right) in
      val_bit ((left XOR result) AND overflow_pair) (LENGTH('a) - 1))"
| "arithmetic_flag op left right result carry_in f = result_flag result f"

fun logic_flag :: "'a::len word \<Rightarrow> status_flag \<Rightarrow> bool" where
  "logic_flag result CF = False"
| "logic_flag result OF = False"
| "logic_flag result AF = False"
| "logic_flag result f = result_flag result f"

subsection \<open>status.rs\<close>

text \<open>The array of explicit flags is a list in \<open>STATUS_FLAGS\<close> order.\<close>

datatype 'v status_source =
  Arithmetic arithmetic_op 'v 'v 'v
| Logic 'v
| Explicit "bool list"

fun source_flag :: "'a::len word status_source \<Rightarrow> status_flag \<Rightarrow> bool" where
  "source_flag (Arithmetic op left right result) f = arithmetic_flag op left right result False f"
| "source_flag (Logic result) f = logic_flag result f"
| "source_flag (Explicit flags) f = flags ! status_index f"

fun source_shortcut :: "'a::len word status_source \<Rightarrow> condition \<Rightarrow> bool option" where
  "source_shortcut (Arithmetic Subtract left right _) c = map_option (\<lambda>compare. compare left right) (operand_comparison c)"
| "source_shortcut (Logic result) c = map_option (\<lambda>compare. compare result) (logic_result_comparison c)"
| "source_shortcut _ c = None"

definition source_condition :: "'a::len word status_source \<Rightarrow> condition \<Rightarrow> bool" where
  "source_condition source c =
     (case source_shortcut source c of
        Some v \<Rightarrow> v
      | None \<Rightarrow> evaluate c (source_flag source))"

datatype any_source = Byte "u8 status_source" | Word "u16 status_source" | Dword "u32 status_source"

primrec any_flag :: "any_source \<Rightarrow> status_flag \<Rightarrow> bool" where
  "any_flag (Byte source) f = source_flag source f"
| "any_flag (Word source) f = source_flag source f"
| "any_flag (Dword source) f = source_flag source f"

primrec any_condition :: "any_source \<Rightarrow> condition \<Rightarrow> bool" where
  "any_condition (Byte source) c = source_condition source c"
| "any_condition (Word source) c = source_condition source c"
| "any_condition (Dword source) c = source_condition source c"

subsection \<open>changes.rs\<close>

text \<open>A predicate: known to the compiler as a constant, or computed at run time.\<close>

datatype predicate = Constant bool | Dynamic bool

primrec truth :: "predicate \<Rightarrow> bool" where
  "truth (Constant b) = b"
| "truth (Dynamic b) = b"

fun predicate_and :: "predicate \<Rightarrow> predicate \<Rightarrow> predicate" where
  "predicate_and (Constant a) (Constant b) = Constant (a \<and> b)"
| "predicate_and a b = Dynamic (truth a \<and> truth b)"

datatype flag_values = StatusValues any_source | ExplicitValues "bool option list"

record flag_change =
  fc_condition :: "predicate option"
  fc_values :: flag_values
  fc_writes :: flag_mask

definition change_partial :: "(flag \<times> bool) list \<Rightarrow> flag_change" where
  "change_partial flags =
     (let (values, writes) =
        fold (\<lambda>(f, v) (values, writes). (values[flag_index f := Some v], writes OR mask_of f)) flags
          (replicate 12 None, MASK_EMPTY)
      in \<lparr>fc_condition = None, fc_values = ExplicitValues values, fc_writes = writes\<rparr>)"

definition change_when :: "predicate \<Rightarrow> flag_change \<Rightarrow> flag_change" where
  "change_when p ch =
     ch\<lparr>fc_condition := Some (case fc_condition ch of None \<Rightarrow> p | Some previous \<Rightarrow> predicate_and previous p)\<rparr>"

definition change_flag :: "flag_change \<Rightarrow> flag \<Rightarrow> bool option" where
  "change_flag ch f =
     (if \<not> mask_contains (fc_writes ch) f then None
      else case fc_values ch of
        StatusValues source \<Rightarrow> (case f of Status s \<Rightarrow> Some (any_flag source s) | _ \<Rightarrow> None)
      | ExplicitValues flags \<Rightarrow> flags ! flag_index f)"

definition change_retaining :: "flag_mask \<Rightarrow> flag_change \<Rightarrow> flag_change" where
  "change_retaining m ch =
     (let writes = fc_writes ch AND m in
      ch\<lparr>fc_writes := writes,
         fc_values := (case fc_values ch of
             StatusValues source \<Rightarrow> StatusValues source
           | ExplicitValues flags \<Rightarrow>
               ExplicitValues (fold (\<lambda>f values. if mask_contains writes f then values else values[flag_index f := None])
                 (mask_flags MASK_ALL) flags))\<rparr>)"

definition change_preserving :: "flag \<Rightarrow> flag_change \<Rightarrow> flag_change" where
  "change_preserving f = change_retaining (mask_without MASK_ALL f)"

definition change_status_source :: "flag_change \<Rightarrow> flag_mask \<Rightarrow> any_source option" where
  "change_status_source ch needed =
     (case fc_values ch of
        StatusValues source \<Rightarrow> if mask_covers (fc_writes ch) needed then Some source else None
      | ExplicitValues _ \<Rightarrow> None)"

definition change_from :: "any_source \<Rightarrow> flag_change" where
  "change_from source = \<lparr>fc_condition = None, fc_values = StatusValues source, fc_writes = MASK_STATUS\<rparr>"

subsection \<open>Masks\<close>

lemma status_index_less [simp]: "status_index s < 6"
  by (cases s) simp_all

lemma status_index_inject [simp]: "status_index s = status_index t \<longleftrightarrow> s = t"
  by (cases s; cases t) simp_all

lemma flag_index_less [simp]: "flag_index f < 12"
proof (cases f)
  case (Status s)
  then show ?thesis by (cases s) simp_all
qed simp_all

lemma status_index_high: "6 \<le> n \<Longrightarrow> status_index s \<noteq> n \<and> n \<noteq> status_index s"
  by (cases s) auto

lemma flag_index_inject [simp]: "flag_index f = flag_index g \<longleftrightarrow> f = g"
  by (cases f; cases g) (simp_all add: status_index_high)

lemma mask_contains_bit: "mask_contains m f = bit m (flag_index f)"
  using and_exp_eq_0_iff_not_bit [of m "flag_index f"]
  by (simp add: mask_contains_def mask_intersects_def mask_of_def push_bit_eq_mult)

lemma bit_mask_of: "bit (mask_of f) n \<longleftrightarrow> n = flag_index f"
proof -
  have "flag_index f < 16" using flag_index_less [of f] by linarith
  then show ?thesis unfolding mask_of_def bit_push_bit_iff bit_1_iff by auto
qed

lemma mask_contains_of [simp]: "mask_contains (mask_of f) g \<longleftrightarrow> f = g"
  by (auto simp: mask_contains_bit bit_mask_of)

lemma mask_contains_or [simp]: "mask_contains (m OR n) f \<longleftrightarrow> mask_contains m f \<or> mask_contains n f"
  by (simp add: mask_contains_bit bit_or_iff)

lemma mask_contains_and [simp]: "mask_contains (m AND n) f \<longleftrightarrow> mask_contains m f \<and> mask_contains n f"
  by (simp add: mask_contains_bit bit_and_iff)

lemma mask_contains_zero [simp]: "\<not> mask_contains 0 f"
  by (simp add: mask_contains_bit)

lemma mask_contains_status [simp]: "mask_contains MASK_STATUS f \<longleftrightarrow> (\<exists>s. f = Status s)"
proof (cases f)
  case (Status s)
  then show ?thesis by (cases s) (simp_all add: mask_contains_bit)
qed (simp_all add: mask_contains_bit)

lemma mask_covers_contains: "mask_covers m n \<Longrightarrow> mask_contains n f \<Longrightarrow> mask_contains m f"
  by (metis mask_covers_def mask_contains_and)

lemma mask_not_intersects: "\<not> mask_intersects m n \<Longrightarrow> mask_contains n f \<Longrightarrow> \<not> mask_contains m f"
  by (metis mask_intersects_def mask_contains_and mask_contains_zero)

subsection \<open>Sums and differences\<close>

lemma val_bit_eq [simp]: "val_bit v i = bit v i"
  by (simp add: val_bit_def bit_iff_odd_drop_bit)

lemma uint_add_carry:
  fixes l r :: "'a::len word"
  shows "uint (result_with_carry Add l r c) =
    (let s = uint l + uint r + of_bool c in if s < 2 ^ LENGTH('a) then s else s - 2 ^ LENGTH('a))"
proof -
  let ?M = "2 ^ LENGTH('a) :: int"
  let ?s = "uint l + uint r + of_bool c"
  have b: "0 \<le> uint l" "0 \<le> uint r" "uint l < ?M" "uint r < ?M" "0 \<le> (of_bool c :: int)" "of_bool c \<le> (1 :: int)" by auto
  have "uint (result_with_carry Add l r c) = ?s mod ?M"
    by (simp add: result_with_carry_def uint_word_ariths mod_simps)
  also have "\<dots> = (if ?s < ?M then ?s else ?s - ?M)"
  proof (cases "?s < ?M")
    case False
    then have "?s mod ?M = (?s - ?M) mod ?M" by simp
    also have "\<dots> = ?s - ?M" using b False by (intro mod_pos_pos_trivial) linarith+
    finally show ?thesis using False by simp
  qed (use b in simp)
  finally show ?thesis by (simp add: Let_def)
qed

lemma uint_sub_carry:
  fixes l r :: "'a::len word"
  shows "uint (result_with_carry Subtract l r c) =
    (let d = uint l - uint r - of_bool c in if 0 \<le> d then d else d + 2 ^ LENGTH('a))"
proof -
  let ?M = "2 ^ LENGTH('a) :: int"
  let ?d = "uint l - uint r - of_bool c"
  have b: "0 \<le> uint l" "0 \<le> uint r" "uint l < ?M" "uint r < ?M" "0 \<le> (of_bool c :: int)" "of_bool c \<le> (1 :: int)" by auto
  have "uint (result_with_carry Subtract l r c) = ?d mod ?M"
    by (simp add: result_with_carry_def uint_word_ariths mod_simps)
  also have "\<dots> = (if 0 \<le> ?d then ?d else ?d + ?M)"
  proof (cases "0 \<le> ?d")
    case False
    have "?d mod ?M = (?d + ?M) mod ?M" by simp
    also have "\<dots> = ?d + ?M" using b False by (intro mod_pos_pos_trivial) linarith+
    finally show ?thesis using False by simp
  next
    case True
    then have "?d mod ?M = ?d" using b by (intro mod_pos_pos_trivial) linarith+
    then show ?thesis using True by (simp only: if_True)
  qed
  finally show ?thesis by (simp add: Let_def)
qed

lemma sign_bit: "bit (w :: 'a::len word) (LENGTH('a) - 1) \<longleftrightarrow> 2 ^ (LENGTH('a) - 1) \<le> uint w"
proof -
  have "(\<forall>k\<ge>LENGTH('a) - 1. \<not> bit w k) \<longleftrightarrow> \<not> bit w (LENGTH('a) - 1)"
  proof
    assume top: "\<not> bit w (LENGTH('a) - 1)"
    show "\<forall>k\<ge>LENGTH('a) - 1. \<not> bit w k"
    proof (intro allI impI)
      fix k assume "LENGTH('a) - 1 \<le> k"
      then show "\<not> bit w k" using top bit_imp_le_length [of w k] by (cases "k = LENGTH('a) - 1") auto
    qed
  qed simp
  then show ?thesis using uint_less_exp_bits_zero [of w "LENGTH('a) - 1"] not_less by blast
qed

lemma sint_sign: "sint (w :: 'a::len word) = uint w - (if bit w (LENGTH('a) - 1) then 2 ^ LENGTH('a) else 0)"
proof -
  have "bit (uint w) (LENGTH('a) - 1) = bit w (LENGTH('a) - 1)" by (simp add: bit_uint_iff)
  moreover have "take_bit LENGTH('a) (uint w) = uint w" by (simp add: take_bit_int_eq_self)
  ultimately show ?thesis
    by (simp add: sint_uint signed_take_bit_eq_take_bit_minus)
qed

text \<open>The overflow equation, for sums and differences.\<close>

lemma overflow_sum:
  fixes a b c H x :: int
  assumes "0 \<le> a" "a < 2 * H" "0 \<le> b" "b < 2 * H" "0 \<le> c" "c \<le> 1"
    and "x = (if a + b + c < 2 * H then a + b + c else a + b + c - 2 * H)"
  shows "(H \<le> a) \<noteq> (H \<le> x) \<and> (H \<le> b) \<noteq> (H \<le> x) \<longleftrightarrow>
    (let v = (a - (if H \<le> a then 2 * H else 0)) + (b - (if H \<le> b then 2 * H else 0)) + c in v < - H \<or> H \<le> v)"
  using assms unfolding Let_def by (cases "H \<le> a"; cases "H \<le> b"; cases "a + b + c < 2 * H") auto

lemma overflow_difference:
  fixes a b c H x :: int
  assumes "0 \<le> a" "a < 2 * H" "0 \<le> b" "b < 2 * H" "0 \<le> c" "c \<le> 1"
    and "x = (if 0 \<le> a - b - c then a - b - c else a - b - c + 2 * H)"
  shows "(H \<le> a) \<noteq> (H \<le> x) \<and> (H \<le> a) \<noteq> (H \<le> b) \<longleftrightarrow>
    (let v = (a - (if H \<le> a then 2 * H else 0)) - (b - (if H \<le> b then 2 * H else 0)) - c in v < - H \<or> H \<le> v)"
  using assms unfolding Let_def by (cases "H \<le> a"; cases "H \<le> b"; cases "0 \<le> a - b - c") auto

lemma overflow_exact:
  fixes l r :: "'a::len word"
  shows "arithmetic_flag op l r (result_with_carry op l r c) c OF \<longleftrightarrow>
    (let v = (case op of Add \<Rightarrow> sint l + sint r + of_bool c | Subtract \<Rightarrow> sint l - sint r - of_bool c) in
     v < - (2 ^ (LENGTH('a) - 1)) \<or> 2 ^ (LENGTH('a) - 1) \<le> v)"
proof -
  define H where "H = (2 ^ (LENGTH('a) - 1) :: int)"
  have M: "2 ^ LENGTH('a) = 2 * H" unfolding H_def by (metis Suc_diff_1 len_gt_0 power_Suc)
  have b: "0 \<le> uint l" "uint l < 2 * H" "0 \<le> uint r" "uint r < 2 * H" "0 \<le> (of_bool c :: int)" "of_bool c \<le> (1 :: int)"
    using uint_lt2p [of l] uint_lt2p [of r] by (auto simp: M)
  let ?x = "result_with_carry op l r c"
  note sb = sign_bit [of l, folded H_def] sign_bit [of r, folded H_def] sign_bit [of ?x, folded H_def]
  note si = sint_sign [of l, unfolded M sb(1)] sint_sign [of r, unfolded M sb(2)]
  show ?thesis
  proof (cases op)
    case Add
    have "uint ?x = (if uint l + uint r + of_bool c < 2 * H then uint l + uint r + of_bool c else uint l + uint r + of_bool c - 2 * H)"
      using uint_add_carry [of l r c] Add by (simp add: M Let_def)
    from overflow_sum [OF b this] show ?thesis
      unfolding Add arithmetic_flag.simps arithmetic_op.case Let_def val_bit_eq bit_and_iff bit_xor_iff
        sb [unfolded Add] si H_def [symmetric] by simp
  next
    case Subtract
    have "uint ?x = (if 0 \<le> uint l - uint r - of_bool c then uint l - uint r - of_bool c else uint l - uint r - of_bool c + 2 * H)"
      using uint_sub_carry [of l r c] Subtract by (simp add: M Let_def)
    from overflow_difference [OF b this] show ?thesis
      unfolding Subtract arithmetic_flag.simps arithmetic_op.case Let_def val_bit_eq bit_and_iff bit_xor_iff
        sb [unfolded Subtract] si H_def [symmetric] by simp
  qed
qed

lemma carry_sum:
  fixes a b M x :: int
  assumes "0 \<le> a" "a < M" "0 \<le> b" "b < M"
    and "x = (if a + b + of_bool c < M then a + b + of_bool c else a + b + of_bool c - M)"
  shows "(if c then x \<le> a else x < a) \<longleftrightarrow> M \<le> a + b + of_bool c"
  using assms by (cases c) auto

lemma carry_exact:
  fixes l r :: "'a::len word"
  shows "arithmetic_flag op l r (result_with_carry op l r c) c CF \<longleftrightarrow>
    (case op of Add \<Rightarrow> 2 ^ LENGTH('a) \<le> uint l + uint r + of_bool c | Subtract \<Rightarrow> uint l < uint r + of_bool c)"
proof (cases op)
  case Add
  have "uint (result_with_carry Add l r c) = (if uint l + uint r + of_bool c < 2 ^ LENGTH('a)
      then uint l + uint r + of_bool c else uint l + uint r + of_bool c - 2 ^ LENGTH('a))"
    using uint_add_carry [of l r c] by (simp add: Let_def)
  from carry_sum [OF _ _ _ _ this] show ?thesis unfolding Add
    by (cases c) (simp_all add: Let_def word_less_def word_le_def)
next
  case Subtract
  then show ?thesis by (auto simp: Let_def word_less_def word_le_def)
qed

text \<open>The auxiliary carry, from the low four bits.\<close>

lemma bit4_parity: "4 < LENGTH('a::len) \<Longrightarrow> bit (w :: 'a word) 4 \<longleftrightarrow> odd (uint w div 16)"
proof -
  assume "4 < LENGTH('a)"
  then have "bit w 4 = bit (uint w) 4" by (simp add: bit_uint_iff)
  also have "\<dots> = odd (uint w div 16)" by (simp add: bit_iff_odd)
  finally show ?thesis .
qed

text \<open>An equation between numbers, one digit down.\<close>

lemma nibble_split:
  fixes a b d x :: int
  assumes "x = a + s * b + c + 16 * d"
  shows "x div 16 = a div 16 + s * (b div 16) + d + (a mod 16 + s * (b mod 16) + c) div 16"
proof -
  obtain a1 a0 b1 b0 where n: "a div 16 = a1" "a mod 16 = a0" "b div 16 = b1" "b mod 16 = b0" by blast
  then have "a = 16 * a1 + a0" "b = 16 * b1 + b0" using mult_div_mod_eq [of 16 a] mult_div_mod_eq [of 16 b] by simp_all
  then have "x = (a0 + s * b0 + c) + 16 * (a1 + s * b1 + d)" using assms by (simp add: algebra_simps)
  then show ?thesis unfolding n by simp
qed

lemma parity_sum:
  fixes a b d t x :: int
  assumes "x = a + s * b + d + t" and "even d" and "s = 1 \<or> s = - 1"
  shows "odd (a + b + x) \<longleftrightarrow> odd t"
  using assms by auto

lemma nibble_carry:
  fixes a b c :: int
  assumes "0 \<le> a" "a < 16" "0 \<le> b" "b < 16" "0 \<le> c" "c \<le> 1"
  shows "odd ((a + b + c) div 16) \<longleftrightarrow> 16 \<le> a + b + c" and "odd ((a - b - c) div 16) \<longleftrightarrow> a < b + c"
proof -
  have *: "0 \<le> t \<Longrightarrow> t < 32 \<Longrightarrow> odd (t div 16) \<longleftrightarrow> 16 \<le> t" "- 16 \<le> t \<Longrightarrow> t < 16 \<Longrightarrow> odd (t div 16) \<longleftrightarrow> t < 0" for t :: int
    by presburger+
  show "odd ((a + b + c) div 16) \<longleftrightarrow> 16 \<le> a + b + c" using assms by (intro *) linarith+
  have "odd ((a - b - c) div 16) \<longleftrightarrow> a - b - c < 0" using assms by (intro *) linarith+
  then show "odd ((a - b - c) div 16) \<longleftrightarrow> a < b + c" by linarith
qed

lemma adjust_exact:
  fixes l r :: "'a::len word"
  assumes "4 < LENGTH('a)"
  shows "arithmetic_flag op l r (result_with_carry op l r c) c AF \<longleftrightarrow>
    (case op of Add \<Rightarrow> 16 \<le> uint l mod 16 + uint r mod 16 + of_bool c
     | Subtract \<Rightarrow> uint l mod 16 < uint r mod 16 + of_bool c)"
proof -
  let ?x = "result_with_carry op l r c"
  have low: "0 \<le> uint w mod 16" "uint w mod 16 < 16" for w :: "'a word" by simp_all
  have "2 ^ LENGTH('a) = (16 :: int) * 2 ^ (LENGTH('a) - 4)" using assms power_add [of "2 :: int" 4 "LENGTH('a) - 4"] by simp
  moreover have "even ((2 :: int) ^ (LENGTH('a) - 4))" using assms by simp
  ultimately obtain q where q: "2 ^ LENGTH('a) = (16 :: int) * (2 * q)" by (metis evenE)
  have flag: "arithmetic_flag op l r ?x c AF \<longleftrightarrow> odd (uint l div 16 + uint r div 16 + uint ?x div 16)"
    using assms by (simp add: bit_xor_iff bit4_parity) blast
  show ?thesis
  proof (cases op)
    case Add
    define t where "t = uint l mod 16 + uint r mod 16 + of_bool c"
    define d where "d = (if uint l + uint r + of_bool c < 2 ^ LENGTH('a) then 0 else - 2 * q)"
    have "uint ?x = uint l + 1 * uint r + of_bool c + 16 * d"
      using uint_add_carry [of l r c] by (simp add: Add Let_def q d_def)
    from nibble_split [OF this] have "uint ?x div 16 = uint l div 16 + 1 * (uint r div 16) + d + t div 16" by (simp add: t_def)
    moreover have "even d" by (simp add: d_def)
    ultimately have "odd (uint l div 16 + uint r div 16 + uint ?x div 16) \<longleftrightarrow> odd (t div 16)" by (rule parity_sum) simp
    then have "arithmetic_flag op l r ?x c AF \<longleftrightarrow> odd (t div 16)" using flag by blast
    also have "\<dots> \<longleftrightarrow> 16 \<le> uint l mod 16 + uint r mod 16 + of_bool c" unfolding t_def by (rule nibble_carry(1) [OF low low]) simp_all
    finally show ?thesis by (simp only: Add arithmetic_op.case)
  next
    case Subtract
    define t where "t = uint l mod 16 - uint r mod 16 - of_bool c"
    define d where "d = (if 0 \<le> uint l - uint r - of_bool c then 0 else 2 * q)"
    have "uint ?x = uint l + - 1 * uint r + - of_bool c + 16 * d"
      using uint_sub_carry [of l r c] by (simp add: Subtract Let_def q d_def)
    from nibble_split [OF this] have "uint ?x div 16 = uint l div 16 + - 1 * (uint r div 16) + d + t div 16" by (simp add: t_def)
    moreover have "even d" by (simp add: d_def)
    ultimately have "odd (uint l div 16 + uint r div 16 + uint ?x div 16) \<longleftrightarrow> odd (t div 16)" by (rule parity_sum) simp
    then have "arithmetic_flag op l r ?x c AF \<longleftrightarrow> odd (t div 16)" using flag by blast
    also have "\<dots> \<longleftrightarrow> uint l mod 16 < uint r mod 16 + of_bool c" unfolding t_def by (rule nibble_carry(2) [OF low low]) simp_all
    finally show ?thesis by (simp only: Subtract arithmetic_op.case)
  qed
qed

subsection \<open>Conditions\<close>

lemma evaluate_cong: "(\<And>f. mask_contains (condition_flags c) (Status f) \<Longrightarrow> v f = w f) \<Longrightarrow> evaluate c v = evaluate c w"
  by (cases c) (simp_all add: condition_flags_def canonical_def CANONICAL_def)

lemma canonical_inverted: "evaluate c v = (evaluate (canonical c) v \<noteq> is_inverted c)"
  by (cases c) (auto simp: canonical_def is_inverted_def CANONICAL_def)

lemma condition_flags_canonical [simp]: "condition_flags (canonical c) = condition_flags c"
  by (cases c) (simp_all add: condition_flags_def canonical_def CANONICAL_def)

text \<open>A subtraction record carries its own result.\<close>

fun source_ok :: "'a::len word status_source \<Rightarrow> bool" where
  "source_ok (Arithmetic op l r x) \<longleftrightarrow> x = arithmetic_result op l r"
| "source_ok (Logic x) \<longleftrightarrow> True"
| "source_ok (Explicit flags) \<longleftrightarrow> length flags = 6"

primrec any_ok :: "any_source \<Rightarrow> bool" where
  "any_ok (Byte s) = source_ok s"
| "any_ok (Word s) = source_ok s"
| "any_ok (Dword s) = source_ok s"

lemma no_carry [simp]: "result_with_carry op l r False = arithmetic_result op l r"
  by (cases op) (simp_all add: result_with_carry_def)

lemma signed_less_int:
  fixes a b u v H :: int
  assumes "- H \<le> a" "a < H" "- H \<le> b" "b < H" "u = a \<or> u = a + 2 * H" "v = b \<or> v = b + 2 * H"
    and "0 \<le> u" "0 \<le> v" "u < 2 * H" "v < 2 * H"
  shows "a < b \<longleftrightarrow> (H \<le> (if 0 \<le> u - v then u - v else u - v + 2 * H)) \<noteq> (a - b < - H \<or> H \<le> a - b)"
  using assms by (auto split: if_splits)

lemma signed_less_flags:
  fixes l r :: "'a::len word"
  shows "sint l < sint r \<longleftrightarrow> bit (l - r) (LENGTH('a) - 1) \<noteq> arithmetic_flag Subtract l r (l - r) False OF"
proof -
  define H where "H = (2 ^ (LENGTH('a) - 1) :: int)"
  have M: "2 ^ LENGTH('a) = 2 * H" unfolding H_def by (metis Suc_diff_1 len_gt_0 power_Suc)
  have d: "uint (l - r) = (if 0 \<le> uint l - uint r then uint l - uint r else uint l - uint r + 2 * H)"
    using uint_sub_carry [of l r False] by (simp add: M)
  have o: "arithmetic_flag Subtract l r (l - r) False OF \<longleftrightarrow> sint l - sint r < - H \<or> H \<le> sint l - sint r"
    using overflow_exact [of Subtract l r False] by (simp add: H_def Let_def)
  have s: "bit (l - r) (LENGTH('a) - 1) \<longleftrightarrow> H \<le> uint (l - r)" using sign_bit [of "l - r"] by (simp add: H_def)
  have b: "- H \<le> sint l" "sint l < H" "- H \<le> sint r" "sint r < H"
    using sint_range_size [of l] sint_range_size [of r] by (auto simp: H_def word_size)
  have e: "uint l = sint l \<or> uint l = sint l + 2 * H" "uint r = sint r \<or> uint r = sint r + 2 * H"
    "0 \<le> uint l" "0 \<le> uint r" "uint l < 2 * H" "uint r < 2 * H"
    using sint_sign [of l] sint_sign [of r] uint_lt2p [of l] uint_lt2p [of r] by (auto simp: M)
  show ?thesis unfolding o s d using b e signed_less_int [of H "sint l" "sint r" "uint l" "uint r"] by blast
qed

lemma subtract_flags:
  fixes l r :: "'a::len word"
  shows "arithmetic_flag Subtract l r (l - r) False CF \<longleftrightarrow> l < r"
    and "arithmetic_flag Subtract l r (l - r) False ZF \<longleftrightarrow> l = r"
    and "(arithmetic_flag Subtract l r (l - r) False SF \<noteq> arithmetic_flag Subtract l r (l - r) False OF) \<longleftrightarrow> sint l < sint r"
  using signed_less_flags [of l r] by (simp_all add: Let_def)

lemma sint_le_iff: "sint l \<le> sint r \<longleftrightarrow> l = r \<or> sint l < sint (r :: 'a::len word)"
  by (metis order.strict_iff_order signed_word_eqI order.refl)

lemma word_le_iff: "l \<le> r \<longleftrightarrow> l < r \<or> l = (r :: 'a::len word)"
  by (rule le_less)

lemma shortcut_flags:
  assumes "source_ok s" and "source_shortcut s c = Some v"
  shows "v = evaluate c (source_flag s)"
proof (cases s)
  case (Arithmetic op l r x)
  with assms have s: "op = Subtract" "x = l - r" "map_option (\<lambda>compare. compare l r) (operand_comparison c) = Some v"
    by (cases op; simp)+
  show ?thesis
    using s(3) subtract_flags [of l r] sint_le_iff [of l r] word_le_iff [of l r]
    unfolding Arithmetic s(1,2) source_flag.simps by (cases c) (auto simp del: arithmetic_flag.simps)
next
  case (Logic x)
  then show ?thesis using assms by (cases c) auto
qed (use assms in simp)

lemma source_condition_flags: "source_ok s \<Longrightarrow> source_condition s c = evaluate c (source_flag s)"
  using shortcut_flags [of s c] by (auto simp: source_condition_def split: option.splits)

lemma any_condition_flags: "any_ok s \<Longrightarrow> any_condition s c = evaluate c (any_flag s)"
proof -
  have "any_flag (Byte x) = source_flag x" "any_flag (Word y) = source_flag y" "any_flag (Dword z) = source_flag z" for x y z
    by (simp_all add: fun_eq_iff)
  then show "any_ok s \<Longrightarrow> any_condition s c = evaluate c (any_flag s)"
    by (cases s) (simp_all add: source_condition_flags)
qed

subsection \<open>Properties\<close>

text \<open>C14: the flag equations of addition and subtraction, with or without an incoming carry, are the
  architectural ones: the carry is the overflow of the unsigned numbers, the overflow flag that of
  the signed numbers, the auxiliary carry that of the low digits, and zero, sign and parity
  describe the result, at every operand width.\<close>

theorem arithmetic_flags_exact:
  fixes l r :: "'a::len word"
  assumes "4 < LENGTH('a)" and "x = result_with_carry op l r c"
  shows "arithmetic_flag op l r x c f \<longleftrightarrow>
    (case f of
       CF \<Rightarrow> (case op of Add \<Rightarrow> 2 ^ LENGTH('a) \<le> uint l + uint r + of_bool c | Subtract \<Rightarrow> uint l < uint r + of_bool c)
     | OF \<Rightarrow> (let v = (case op of Add \<Rightarrow> sint l + sint r + of_bool c | Subtract \<Rightarrow> sint l - sint r - of_bool c)
              in v < - (2 ^ (LENGTH('a) - 1)) \<or> 2 ^ (LENGTH('a) - 1) \<le> v)
     | AF \<Rightarrow> (case op of Add \<Rightarrow> 16 \<le> uint l mod 16 + uint r mod 16 + of_bool c
              | Subtract \<Rightarrow> uint l mod 16 < uint r mod 16 + of_bool c)
     | ZF \<Rightarrow> uint x = 0
     | SF \<Rightarrow> sint x < 0
     | PF \<Rightarrow> even (count_ones (x AND 0xFF)))"
proof (cases f)
  case SF
  have "bit x (LENGTH('a) - 1) \<longleftrightarrow> sint x < 0"
    using sint_sign [of x] uint_lt2p [of x] by simp
  then show ?thesis using SF by simp
next
  case CF
  then show ?thesis using carry_exact [of op l r c] assms(2) by (simp only: status_flag.case)
next
  case OF
  then show ?thesis using overflow_exact [of op l r c] assms(2) by (simp only: status_flag.case)
next
  case AF
  then show ?thesis using adjust_exact [OF assms(1), of op l r c] assms(2) by (simp only: status_flag.case)
next
  case ZF
  then show ?thesis by (simp add: word_uint_eq_iff)
qed simp

theorem arithmetic_flags_exact_witness:
  "arithmetic_flag Add (0x80 :: u8) 0x7F 0 True CF \<longleftrightarrow> 2 ^ 8 \<le> uint (0x80 :: u8) + uint (0x7F :: u8) + of_bool True"
proof -
  have "(0 :: u8) = result_with_carry Add 0x80 0x7F True" by code_simp
  from arithmetic_flags_exact [OF _ this, of CF] show ?thesis
    unfolding status_flag.case arithmetic_op.case by simp
qed

text \<open>C18: a condition code answered from a record's operands is the one its flags give. The
  comparison shortcuts of subtractions and logical results agree with the predicate over the six
  flags for every condition and operand width, and opposite conditions are complements.\<close>

theorem condition_shortcuts_agree:
  assumes "any_ok s"
  shows "any_condition s c = evaluate c (any_flag s) \<and>
    evaluate c (any_flag s) = (evaluate (canonical c) (any_flag s) \<noteq> is_inverted c)"
  using any_condition_flags [OF assms, of c] canonical_inverted [of c "any_flag s"] by (rule conjI)

theorem condition_shortcuts_agree_witness:
  "any_condition (Byte (Arithmetic Subtract 0x80 1 0x7F)) CcL \<and> any_flag (Byte (Arithmetic Subtract 0x80 1 0x7F)) OF"
  using condition_shortcuts_agree [of "Byte (Arithmetic Subtract 0x80 1 0x7F)" CcL] by (simp add: source_condition_def)

end
