(* ===== verification/Lazy_Flags.thy ===== *)
theory Lazy_Flags
  imports X86_Flags
begin

text \<open>
  Lazy status flags of translated code: the stored record of \<open>x86/src/state/layout.rs\<close> with its readers
  (\<open>state/cpu/flags.rs\<close>), and the tracker that follows flag changes inside a translated block
  without computing them (\<open>state/flags.rs\<close>, \<open>flags/queries.rs\<close>, \<open>flags/publication.rs\<close>,
  \<open>flags/record.rs\<close>). Definitions give the value each emitted fragment has at run time; the
  decisions the translator takes while emitting are kept. A trap or a panic is \<open>None\<close>. Of the
  tracker, the part that owns the six status flags is modelled.
\<close>

subsection \<open>layout.rs, record.rs\<close>

record flags_state =
  fs_kind :: u8
  fs_left :: u32
  fs_right :: u32
  fs_cf :: u8
  fs_pf :: u8
  fs_af :: u8
  fs_zf :: u8
  fs_sf :: u8
  fs_of :: u8

definition width_code :: "nat \<Rightarrow> u8" where
  "width_code bytes = (if bytes = 1 then 0 else if bytes = 2 then 4 else 8)"

definition encode_kind :: "nat \<Rightarrow> arithmetic_op \<Rightarrow> u8" where
  "encode_kind bytes operation = width_code bytes OR (case operation of Subtract \<Rightarrow> 1 | Add \<Rightarrow> 2)"

definition encode_logic :: "nat \<Rightarrow> u8" where
  "encode_logic bytes = width_code bytes OR 3"

definition flag_byte :: "bool \<Rightarrow> u8" where
  "flag_byte b = of_bool b"

definition write_concrete :: "bool list \<Rightarrow> flags_state \<Rightarrow> flags_state" where
  "write_concrete status st =
     st\<lparr>fs_cf := flag_byte (status ! 0), fs_pf := flag_byte (status ! 1), fs_af := flag_byte (status ! 2),
        fs_zf := flag_byte (status ! 3), fs_sf := flag_byte (status ! 4), fs_of := flag_byte (status ! 5), fs_kind := 0\<rparr>"

text \<open>\<open>FlagRecord::from_source\<close> and \<open>write\<close>; the operand width is that of the word.\<close>

fun write_record :: "'a::len word status_source \<Rightarrow> flags_state \<Rightarrow> flags_state" where
  "write_record (Arithmetic operation left right _) st =
     st\<lparr>fs_left := ucast left, fs_right := ucast right, fs_kind := encode_kind (LENGTH('a) div 8) operation\<rparr>"
| "write_record (Logic result) st = st\<lparr>fs_left := ucast result, fs_kind := encode_logic (LENGTH('a) div 8)\<rparr>"
| "write_record (Explicit flags) st = write_concrete flags st"

primrec publish_source :: "any_source \<Rightarrow> flags_state \<Rightarrow> flags_state" where
  "publish_source (Byte source) st = write_record source st"
| "publish_source (Word source) st = write_record source st"
| "publish_source (Dword source) st = write_record source st"

subsection \<open>cpu/flags.rs\<close>

primrec read_concrete_flag :: "status_flag \<Rightarrow> flags_state \<Rightarrow> bool" where
  "read_concrete_flag CF st = odd (fs_cf st)"
| "read_concrete_flag PF st = odd (fs_pf st)"
| "read_concrete_flag AF st = odd (fs_af st)"
| "read_concrete_flag ZF st = odd (fs_zf st)"
| "read_concrete_flag SF st = odd (fs_sf st)"
| "read_concrete_flag OF st = odd (fs_of st)"

text \<open>\<open>return_query\<close>: the source a record of one operand width stands for, or a trap.\<close>

definition record_source :: "flags_state \<Rightarrow> 'a::len word status_source option" where
  "record_source st =
     (let left = ucast (fs_left st) :: 'a word; right = ucast (fs_right st); bytes = LENGTH('a) div 8 in
      if fs_kind st = encode_kind bytes Subtract then Some (Arithmetic Subtract left right (arithmetic_result Subtract left right))
      else if fs_kind st = encode_kind bytes Add then Some (Arithmetic Add left right (arithmetic_result Add left right))
      else if fs_kind st = encode_logic bytes then Some (Logic left)
      else None)"

text \<open>\<open>define_flag_resolver\<close>, for any query over concrete flags and sources.\<close>

definition flag_resolver :: "((status_flag \<Rightarrow> bool) \<Rightarrow> 'r) \<Rightarrow> (any_source \<Rightarrow> 'r) \<Rightarrow> flags_state \<Rightarrow> 'r option" where
  "flag_resolver concrete from_source st =
     (if fs_kind st = 0 then Some (concrete (\<lambda>f. read_concrete_flag f st))
      else if fs_kind st < width_code 2 then map_option (\<lambda>s. from_source (Byte s)) (record_source st)
      else if fs_kind st < width_code 4 then map_option (\<lambda>s. from_source (Word s)) (record_source st)
      else map_option (\<lambda>s. from_source (Dword s)) (record_source st))"

definition read_flags :: "flag_mask \<Rightarrow> flags_state \<Rightarrow> (status_flag \<Rightarrow> bool option) option" where
  "read_flags needed st =
     (if needed = MASK_EMPTY then Some (\<lambda>_. None)
      else flag_resolver
        (\<lambda>read f. if mask_contains needed (Status f) then Some (read f) else None)
        (\<lambda>source f. if mask_contains needed (Status f) then Some (any_flag source f) else None) st)"

definition read_condition_fallback :: "condition \<Rightarrow> flags_state \<Rightarrow> bool option" where
  "read_condition_fallback c st =
     map_option (\<lambda>v. if is_inverted c then \<not> v else v)
       (flag_resolver (evaluate (canonical c)) (\<lambda>source. any_condition source (canonical c)) st)"

definition read_subtraction :: "'a::len itself \<Rightarrow> condition \<Rightarrow> flags_state \<Rightarrow> bool option" where
  "read_subtraction _ c st =
     map_option (\<lambda>compare. compare (ucast (fs_left st) :: 'a word) (ucast (fs_right st))) (operand_comparison c)"

definition read_logic :: "'a::len itself \<Rightarrow> condition \<Rightarrow> flags_state \<Rightarrow> bool option" where
  "read_logic _ c st = map_option (\<lambda>compare. compare (ucast (fs_left st) :: 'a word)) (logic_result_comparison c)"

definition read_condition :: "condition \<Rightarrow> flags_state \<Rightarrow> bool option" where
  "read_condition c st =
     (if (operand_comparison c :: (u32 \<Rightarrow> u32 \<Rightarrow> bool) option) = None then read_condition_fallback c st
      else
        let kind = fs_kind st; logic = (logic_result_comparison c :: (u32 \<Rightarrow> bool) option) \<noteq> None in
        if kind = encode_kind 1 Subtract then read_subtraction TYPE(8) c st
        else if kind = encode_kind 2 Subtract then read_subtraction TYPE(16) c st
        else if kind = encode_kind 4 Subtract then read_subtraction TYPE(32) c st
        else if logic \<and> kind = encode_logic 1 then read_logic TYPE(8) c st
        else if logic \<and> kind = encode_logic 2 then read_logic TYPE(16) c st
        else if logic \<and> kind = encode_logic 4 then read_logic TYPE(32) c st
        else read_condition_fallback c st)"

subsection \<open>flags.rs\<close>

text \<open>Conditions and flags already read from the stored record are cached.\<close>

record flag_cache =
  ca_conditions :: "bool option list"
  ca_auxiliary :: "bool option"

definition empty_cache :: flag_cache where
  "empty_cache = \<lparr>ca_conditions = replicate 8 None, ca_auxiliary = None\<rparr>"

datatype status_base = Stored flag_cache | Local any_source

record status_state =
  ss_base :: status_base
  ss_updates :: "flag_change list"

definition status_default :: status_state where
  "status_default = \<lparr>ss_base = Stored empty_cache, ss_updates = []\<rparr>"

definition status_apply :: "flag_change \<Rightarrow> status_state \<Rightarrow> status_state" where
  "status_apply ch S =
     (case fc_values ch of
        StatusValues source \<Rightarrow>
          if fc_condition ch = None \<and> fc_writes ch = MASK_STATUS then S\<lparr>ss_base := Local source, ss_updates := []\<rparr>
          else S\<lparr>ss_updates := ss_updates S @ [ch]\<rparr>
      | ExplicitValues _ \<Rightarrow> S\<lparr>ss_updates := ss_updates S @ [ch]\<rparr>)"

text \<open>\<open>FlagTracker::apply\<close>, the status flags of it.\<close>

definition tracker_apply :: "flag_change \<Rightarrow> status_state \<Rightarrow> status_state" where
  "tracker_apply ch S =
     (if fc_writes ch = MASK_EMPTY \<or> fc_condition ch = Some (Constant False) then S
      else
        let ch = (if fc_condition ch = Some (Constant True) then ch\<lparr>fc_condition := None\<rparr> else ch);
            ch = change_retaining MASK_STATUS ch
        in if fc_writes ch \<noteq> MASK_EMPTY then status_apply ch S else S)"

subsection \<open>queries.rs\<close>

definition condition_index :: "condition \<Rightarrow> nat" where
  "condition_index c = length (takeWhile (\<lambda>d. d \<noteq> c) CANONICAL)"

definition slot_get :: "status_flag \<Rightarrow> flag_cache \<Rightarrow> bool option" where
  "slot_get f cache =
     (case status_condition f of None \<Rightarrow> ca_auxiliary cache | Some c \<Rightarrow> ca_conditions cache ! condition_index c)"

definition slot_set :: "status_flag \<Rightarrow> bool option \<Rightarrow> flag_cache \<Rightarrow> flag_cache" where
  "slot_set f v cache =
     (case status_condition f of
        None \<Rightarrow> cache\<lparr>ca_auxiliary := v\<rparr>
      | Some c \<Rightarrow> cache\<lparr>ca_conditions := (ca_conditions cache)[condition_index c := v]\<rparr>)"

fun base_condition :: "condition \<Rightarrow> flags_state \<Rightarrow> status_base \<Rightarrow> (status_base \<times> bool) option" where
  "base_condition c st (Local source) = Some (Local source, any_condition source c)"
| "base_condition c st (Stored cache) =
     (let index = condition_index (canonical c) in
      map_option (\<lambda>(cache, v). (Stored cache, if is_inverted c then \<not> v else v))
        (case ca_conditions cache ! index of
           Some v \<Rightarrow> Some (cache, v)
         | None \<Rightarrow>
             map_option (\<lambda>v. (cache\<lparr>ca_conditions := (ca_conditions cache)[index := Some v]\<rparr>, v))
               (read_condition (canonical c) st)))"

fun base_read_flags :: "flag_mask \<Rightarrow> flags_state \<Rightarrow> status_base \<Rightarrow> (status_base \<times> (status_flag \<Rightarrow> bool option)) option" where
  "base_read_flags needed st (Local source) =
     Some (Local source, \<lambda>f. if mask_contains needed (Status f) then Some (any_flag source f) else None)"
| "base_read_flags needed st (Stored cache) =
     (let missing = fold (\<lambda>f m. if mask_contains needed (Status f) \<and> slot_get f cache = None
                                   then m OR mask_of (Status f) else m) STATUS_FLAGS MASK_EMPTY in
      map_option
        (\<lambda>cache. (Stored cache, \<lambda>f. if mask_contains needed (Status f) then slot_get f cache else None))
        (if missing = MASK_EMPTY then Some cache
         else map_option
           (\<lambda>flags. fold (\<lambda>f cache. if flags f \<noteq> None then slot_set f (flags f) cache else cache) STATUS_FLAGS cache)
           (read_flags missing st)))"

definition rposition :: "('a \<Rightarrow> bool) \<Rightarrow> 'a list \<Rightarrow> nat option" where
  "rposition P xs = (if \<exists>x\<in>set xs. P x then Some (length xs - 1 - length (takeWhile (\<lambda>x. \<not> P x) (rev xs))) else None)"

text \<open>One update on top of the value so far.\<close>

definition select_update :: "predicate option \<Rightarrow> bool \<Rightarrow> bool \<Rightarrow> bool" where
  "select_update p changed v = (case p of Some b \<Rightarrow> if truth b then changed else v | None \<Rightarrow> changed)"

definition update_flag :: "status_flag \<Rightarrow> flag_change \<Rightarrow> bool option \<Rightarrow> bool option" where
  "update_flag f u v =
     (if mask_contains (fc_writes u) (Status f)
      then Option.bind v (\<lambda>v. map_option (\<lambda>changed. select_update (fc_condition u) changed v) (change_flag u (Status f)))
      else v)"

definition flag_start :: "flag_change list \<Rightarrow> status_flag \<Rightarrow> nat option" where
  "flag_start us f = rposition (\<lambda>u. fc_condition u = None \<and> mask_contains (fc_writes u) (Status f)) us"

text \<open>A requested flag that stays empty is an \<open>unwrap\<close> of \<open>None\<close>.\<close>

definition resolve_flags ::
  "flags_state \<Rightarrow> status_base \<Rightarrow> flag_change list \<Rightarrow> flag_mask \<Rightarrow> (status_base \<times> (status_flag \<Rightarrow> bool option)) option" where
  "resolve_flags st base us needed =
     (let inherited = fold (\<lambda>f m. if mask_contains needed (Status f) \<and> flag_start us f = None
                                  then m OR mask_of (Status f) else m) STATUS_FLAGS MASK_EMPTY in
      Option.bind (base_read_flags inherited st base) (\<lambda>(base, flags).
        let resolved = (\<lambda>f.
           if \<not> mask_contains needed (Status f) then flags f
           else case flag_start us f of
             Some index \<Rightarrow> fold (update_flag f) (drop (index + 1) us) (change_flag (us ! index) (Status f))
           | None \<Rightarrow> fold (update_flag f) us (flags f))
        in if list_ex (\<lambda>f. mask_contains needed (Status f) \<and> resolved f = None) STATUS_FLAGS then None
           else Some (base, resolved)))"

definition update_condition :: "condition \<Rightarrow> flag_change \<Rightarrow> bool \<Rightarrow> bool" where
  "update_condition c u v =
     (case change_status_source u (condition_flags c) of
        Some source \<Rightarrow> select_update (fc_condition u) (any_condition source c) v
      | None \<Rightarrow> v)"

definition status_query :: "condition \<Rightarrow> flags_state \<Rightarrow> status_state \<Rightarrow> (status_state \<times> bool) option" where
  "status_query c st S =
     (let needed = condition_flags c;
          us = ss_updates S;
          replacement = rposition (\<lambda>u. fc_condition u = None \<and> change_status_source u needed \<noteq> None) us;
          partial = (case rposition (\<lambda>u. mask_intersects (fc_writes u) needed \<and> change_status_source u needed = None) us of
              None \<Rightarrow> None
            | Some index \<Rightarrow> if (case replacement of None \<Rightarrow> True | Some r \<Rightarrow> index > r) then Some index else None)
      in map_option (\<lambda>(base, v, following). (S\<lparr>ss_base := base\<rparr>, fold (update_condition c) following v))
        (case partial of
           Some index \<Rightarrow>
             map_option (\<lambda>(base, flags). (base, evaluate c (\<lambda>f. the (flags f)), drop (index + 1) us))
               (resolve_flags st (ss_base S) (take (index + 1) us) needed)
         | None \<Rightarrow>
             (case replacement of
                Some index \<Rightarrow>
                  map_option (\<lambda>source. (ss_base S, any_condition source c, drop (index + 1) us))
                    (change_status_source (us ! index) needed)
              | None \<Rightarrow> map_option (\<lambda>(base, v). (base, v, us)) (base_condition c st (ss_base S)))))"

definition status_read_flag :: "status_flag \<Rightarrow> flags_state \<Rightarrow> status_state \<Rightarrow> (status_state \<times> bool) option" where
  "status_read_flag f st S =
     (case status_condition f of
        Some c \<Rightarrow> status_query c st S
      | None \<Rightarrow>
          Option.bind (resolve_flags st (ss_base S) (ss_updates S) (mask_of (Status f))) (\<lambda>(base, flags).
            map_option (\<lambda>v. (S\<lparr>ss_base := base\<rparr>, v)) (flags f)))"

subsection \<open>publication.rs\<close>

primrec base_publish :: "status_base \<Rightarrow> flags_state \<Rightarrow> flags_state" where
  "base_publish (Stored _) st = st"
| "base_publish (Local source) st = publish_source source st"

definition publish_concrete :: "status_state \<Rightarrow> flags_state \<Rightarrow> flags_state option" where
  "publish_concrete S st =
     Option.bind (resolve_flags st (ss_base S) (ss_updates S) MASK_STATUS) (\<lambda>(_, flags).
       if list_ex (\<lambda>f. flags f = None) STATUS_FLAGS then None
       else Some (write_concrete (map (\<lambda>f. the (flags f)) STATUS_FLAGS) st))"

text \<open>Whether the last active change is a partial one.\<close>

definition needs_concrete :: "flag_change list \<Rightarrow> bool" where
  "needs_concrete us =
     fold (\<lambda>u needs. select_update (fc_condition u) (change_status_source u MASK_STATUS = None) needs) us False"

primrec publish_replacement :: "flag_change list \<Rightarrow> status_base \<Rightarrow> flags_state \<Rightarrow> flags_state" where
  "publish_replacement [] base st = base_publish base st"
| "publish_replacement (u # us) base st =
     (case change_status_source u MASK_STATUS of
        Some source \<Rightarrow>
          if select_update (fc_condition u) True False then publish_source source st
          else publish_replacement us base st
      | None \<Rightarrow> publish_replacement us base st)"

text \<open>The emitter unwraps the condition of every complete replacement while it writes the arms, so one
  without a condition is a panic whichever arm runs.\<close>

definition status_publish :: "status_state \<Rightarrow> flags_state \<Rightarrow> flags_state option" where
  "status_publish S st =
     (if ss_updates S = [] then Some (base_publish (ss_base S) st)
      else if list_ex (\<lambda>u. change_status_source u MASK_STATUS \<noteq> None \<and> fc_condition u = None) (ss_updates S) then None
      else if list_ex (\<lambda>u. change_status_source u MASK_STATUS = None) (ss_updates S) \<and> needs_concrete (ss_updates S)
      then publish_concrete S st
      else Some (publish_replacement (rev (ss_updates S)) (ss_base S) st))"

subsection \<open>The flags a record and a tracker stand for\<close>

definition stored_ok :: "flags_state \<Rightarrow> bool" where
  "stored_ok st \<longleftrightarrow> fs_kind st \<in> {0, 1, 2, 3, 5, 6, 7, 9, 10, 11}"

definition stored_flag :: "flags_state \<Rightarrow> status_flag \<Rightarrow> bool" where
  "stored_flag st f = the (flag_resolver (\<lambda>read. read f) (\<lambda>source. any_flag source f) st)"

primrec base_value :: "flags_state \<Rightarrow> status_base \<Rightarrow> status_flag \<Rightarrow> bool" where
  "base_value st (Stored _) = stored_flag st"
| "base_value st (Local source) = any_flag source"

text \<open>The eager meaning of a change: every written flag takes its new value, if the condition holds.\<close>

definition apply_change :: "flag_change \<Rightarrow> (status_flag \<Rightarrow> bool) \<Rightarrow> status_flag \<Rightarrow> bool" where
  "apply_change ch v f =
     (if mask_contains (fc_writes ch) (Status f)
      then select_update (fc_condition ch) (the (change_flag ch (Status f))) (v f) else v f)"

definition status_flags :: "flags_state \<Rightarrow> status_state \<Rightarrow> status_flag \<Rightarrow> bool" where
  "status_flags st S = fold apply_change (ss_updates S) (base_value st (ss_base S))"

definition change_ok :: "flag_change \<Rightarrow> bool" where
  "change_ok ch =
     (case fc_values ch of
        StatusValues source \<Rightarrow> any_ok source \<and> mask_covers MASK_STATUS (fc_writes ch)
      | ExplicitValues flags \<Rightarrow>
          length flags = 12 \<and> list_all (\<lambda>f. mask_contains (fc_writes ch) f \<longrightarrow> flags ! flag_index f \<noteq> None) ALL_FLAGS)"

definition cache_ok :: "flags_state \<Rightarrow> flag_cache \<Rightarrow> bool" where
  "cache_ok st cache \<longleftrightarrow>
     length (ca_conditions cache) = 8 \<and>
     (\<forall>c\<in>set CANONICAL. \<forall>v. ca_conditions cache ! condition_index c = Some v \<longrightarrow> v = evaluate c (stored_flag st)) \<and>
     (\<forall>v. ca_auxiliary cache = Some v \<longrightarrow> v = stored_flag st AF)"

primrec base_ok :: "flags_state \<Rightarrow> status_base \<Rightarrow> bool" where
  "base_ok st (Stored cache) = cache_ok st cache"
| "base_ok st (Local source) = any_ok source"

definition status_ok :: "flags_state \<Rightarrow> status_state \<Rightarrow> bool" where
  "status_ok st S \<longleftrightarrow>
     stored_ok st \<and> base_ok st (ss_base S) \<and>
     (\<forall>u\<in>set (ss_updates S). change_ok u \<and> \<not> (change_status_source u MASK_STATUS \<noteq> None \<and> fc_condition u = None))"

subsection \<open>Reading the stored record\<close>

text \<open>The source a record stands for; none for concrete flags.\<close>

definition stored_source :: "flags_state \<Rightarrow> any_source option option" where
  "stored_source st = flag_resolver (\<lambda>_. None) Some st"

lemma flag_resolver_source:
  "flag_resolver c s st =
     map_option (\<lambda>r. case r of None \<Rightarrow> c (\<lambda>f. read_concrete_flag f st) | Some source \<Rightarrow> s source) (stored_source st)"
  by (simp add: stored_source_def flag_resolver_def option.map_comp comp_def)

lemma stored_source_ok:
  assumes "stored_ok st"
  shows "stored_source st = Some None \<or> (\<exists>source. stored_source st = Some (Some source) \<and> any_ok source)"
proof -
  have "fs_kind st \<in> {0, 1, 2, 3, 5, 6, 7, 9, 10, 11}" using assms by (simp add: stored_ok_def)
  then show ?thesis unfolding insert_iff empty_iff HOL.simp_thms
    by (elim disjE) (simp_all add: stored_source_def flag_resolver_def record_source_def width_code_def encode_kind_def encode_logic_def Let_def)
qed

lemma resolver_value:
  assumes "stored_ok st" and "\<And>source. any_ok source \<Longrightarrow> s source = c (any_flag source)"
  shows "flag_resolver c s st = Some (c (stored_flag st))"
proof -
  consider "stored_source st = Some None" | source where "stored_source st = Some (Some source)" "any_ok source"
    using stored_source_ok [OF assms(1)] by blast
  then show ?thesis
  proof cases
    case 1
    then have "stored_flag st = (\<lambda>f. read_concrete_flag f st)" by (simp add: fun_eq_iff stored_flag_def flag_resolver_source)
    with 1 show ?thesis by (simp add: flag_resolver_source)
  next
    case 2
    then have "stored_flag st = any_flag source" by (simp add: fun_eq_iff stored_flag_def flag_resolver_source)
    with 2 assms(2) show ?thesis by (simp add: flag_resolver_source)
  qed
qed

lemma read_flags_value:
  assumes "stored_ok st"
  shows "read_flags needed st = Some (\<lambda>f. if mask_contains needed (Status f) then Some (stored_flag st f) else None)"
  using resolver_value [OF assms,
    of "\<lambda>source f. if mask_contains needed (Status f) then Some (any_flag source f) else None"
       "\<lambda>read f. if mask_contains needed (Status f) then Some (read f) else None"]
  by (simp add: read_flags_def)

lemma read_condition_fallback_value:
  assumes "stored_ok st"
  shows "read_condition_fallback c st = Some (evaluate c (stored_flag st))"
  using resolver_value [OF assms, of "\<lambda>source. any_condition source (canonical c)" "evaluate (canonical c)"]
  by (auto simp: read_condition_fallback_def any_condition_flags canonical_inverted [of c "stored_flag st"])

text \<open>The records the inlined queries select.\<close>

lemma subtraction_source:
  "fs_kind st = encode_kind 1 Subtract \<Longrightarrow>
    stored_source st = Some (Some (Byte (Arithmetic Subtract (ucast (fs_left st)) (ucast (fs_right st)) (ucast (fs_left st) - ucast (fs_right st)))))"
  "fs_kind st = encode_kind 2 Subtract \<Longrightarrow>
    stored_source st = Some (Some (Word (Arithmetic Subtract (ucast (fs_left st)) (ucast (fs_right st)) (ucast (fs_left st) - ucast (fs_right st)))))"
  "fs_kind st = encode_kind 4 Subtract \<Longrightarrow>
    stored_source st = Some (Some (Dword (Arithmetic Subtract (ucast (fs_left st)) (ucast (fs_right st)) (ucast (fs_left st) - ucast (fs_right st)))))"
  by (simp_all add: stored_source_def flag_resolver_def record_source_def width_code_def encode_kind_def encode_logic_def Let_def)

lemma logic_source:
  "fs_kind st = encode_logic 1 \<Longrightarrow> stored_source st = Some (Some (Byte (Logic (ucast (fs_left st)))))"
  "fs_kind st = encode_logic 2 \<Longrightarrow> stored_source st = Some (Some (Word (Logic (ucast (fs_left st)))))"
  "fs_kind st = encode_logic 4 \<Longrightarrow> stored_source st = Some (Some (Dword (Logic (ucast (fs_left st)))))"
  by (simp_all add: stored_source_def flag_resolver_def record_source_def width_code_def encode_kind_def encode_logic_def Let_def)

lemma stored_flag_source: "stored_source st = Some (Some source) \<Longrightarrow> stored_flag st = any_flag source"
  by (simp add: fun_eq_iff stored_flag_def flag_resolver_source)

lemma source_shortcut_value:
  fixes source :: "'a::len word status_source"
  assumes "source_ok source" and "source_shortcut source c \<noteq> None"
  shows "source_shortcut source c = Some (evaluate c (source_flag source))"
  using shortcut_flags [OF assms(1)] assms(2) by auto

lemma read_subtraction_value:
  assumes "(operand_comparison c :: (u32 \<Rightarrow> u32 \<Rightarrow> bool) option) \<noteq> None"
  shows "read_subtraction TYPE('a::len) c st = Some (evaluate c (source_flag
    (Arithmetic Subtract (ucast (fs_left st) :: 'a word) (ucast (fs_right st)) (ucast (fs_left st) - ucast (fs_right st)))))"
proof -
  let ?l = "ucast (fs_left st) :: 'a word" and ?r = "ucast (fs_right st) :: 'a word"
  have "(operand_comparison c :: ('a word \<Rightarrow> 'a word \<Rightarrow> bool) option) \<noteq> None" using assms by (cases c) simp_all
  then show ?thesis using source_shortcut_value [of "Arithmetic Subtract ?l ?r (?l - ?r)" c] by (simp add: read_subtraction_def)
qed

lemma read_logic_value:
  assumes "(logic_result_comparison c :: (u32 \<Rightarrow> bool) option) \<noteq> None"
  shows "read_logic TYPE('a::len) c st = Some (evaluate c (source_flag (Logic (ucast (fs_left st) :: 'a word))))"
proof -
  have "(logic_result_comparison c :: ('a word \<Rightarrow> bool) option) \<noteq> None" using assms by (cases c) simp_all
  then show ?thesis using source_shortcut_value [of "Logic (ucast (fs_left st) :: 'a word)" c] by (simp add: read_logic_def)
qed

lemma any_flag_ext:
  "any_flag (Byte x) = source_flag x" "any_flag (Word y) = source_flag y" "any_flag (Dword z) = source_flag z"
  by (simp_all add: fun_eq_iff)

lemma read_condition_value:
  assumes "stored_ok st"
  shows "read_condition c st = Some (evaluate c (stored_flag st))"
proof -
  note sub = subtraction_source [THEN stored_flag_source] and log = logic_source [THEN stored_flag_source]
  show ?thesis
    unfolding read_condition_def Let_def
    by (auto simp: read_condition_fallback_value [OF assms] read_subtraction_value read_logic_value sub log any_flag_ext simp del: source_flag.simps)
qed

subsection \<open>Masks and the cache\<close>

lemma gathered_mask:
  "mask_contains (fold (\<lambda>f m. if P f then m OR mask_of (Status f) else m) fs m) (Status g) \<longleftrightarrow>
    mask_contains m (Status g) \<or> (g \<in> set fs \<and> P g)"
  by (induction fs arbitrary: m) auto

lemma STATUS_FLAGS_all [simp]: "f \<in> set STATUS_FLAGS"
  by (cases f) (simp_all add: STATUS_FLAGS_def)

lemma condition_index_less: "c \<in> set CANONICAL \<Longrightarrow> condition_index c < 8"
  by (auto simp: condition_index_def CANONICAL_def)

lemma condition_index_inject:
  "c \<in> set CANONICAL \<Longrightarrow> d \<in> set CANONICAL \<Longrightarrow> condition_index c = condition_index d \<longleftrightarrow> c = d"
  by (auto simp: condition_index_def CANONICAL_def)

lemma canonical_CANONICAL: "canonical c \<in> set CANONICAL"
  by (cases c) (simp_all add: canonical_def CANONICAL_def)

lemma status_condition_CANONICAL: "status_condition f = Some c \<Longrightarrow> c \<in> set CANONICAL"
  by (cases f) (auto simp: CANONICAL_def)

lemma status_condition_flag: "status_condition f = Some c \<Longrightarrow> evaluate c v = v f"
  by (cases f) auto

lemma status_condition_inject: "status_condition f = status_condition g \<longleftrightarrow> f = g"
  by (cases f; cases g) simp_all

lemma cache_ok_slot: "cache_ok st cache \<Longrightarrow> slot_get f cache = Some v \<Longrightarrow> v = stored_flag st f"
  by (cases f) (auto simp: cache_ok_def slot_get_def CANONICAL_def)

lemma cache_ok_condition:
  assumes "cache_ok st cache" and "c \<in> set CANONICAL"
  shows "cache_ok st (cache\<lparr>ca_conditions := (ca_conditions cache)[condition_index c := Some (evaluate c (stored_flag st))]\<rparr>)"
  using assms condition_index_less [OF assms(2)] condition_index_inject [OF assms(2)]
  by (auto simp: cache_ok_def nth_list_update)

lemma cache_ok_set:
  assumes "cache_ok st cache"
  shows "cache_ok st (slot_set f (Some (stored_flag st f)) cache)"
proof (cases "status_condition f")
  case None
  then have "f = AF" by (cases f) simp_all
  then show ?thesis using assms by (simp add: slot_set_def cache_ok_def)
next
  case (Some c)
  then show ?thesis
    using cache_ok_condition [OF assms status_condition_CANONICAL [OF Some]] status_condition_flag [OF Some]
    by (simp add: slot_set_def)
qed

lemma slot_get_set:
  assumes "cache_ok st cache"
  shows "slot_get g (slot_set f v cache) = (if g = f then v else slot_get g cache)"
  using assms status_condition_inject [of f g] status_condition_CANONICAL [of f] status_condition_CANONICAL [of g]
    condition_index_less condition_index_inject
  by (auto simp: slot_get_def slot_set_def cache_ok_def nth_list_update split: option.splits)

lemma cache_fill:
  assumes "cache_ok st cache" and "\<And>f. flags f = None \<or> flags f = Some (stored_flag st f)"
  shows "cache_ok st (fold (\<lambda>f cache. if flags f \<noteq> None then slot_set f (flags f) cache else cache) fs cache) \<and>
    slot_get g (fold (\<lambda>f cache. if flags f \<noteq> None then slot_set f (flags f) cache else cache) fs cache) =
      (if g \<in> set fs \<and> flags g \<noteq> None then flags g else slot_get g cache)"
  using assms(1)
proof (induction fs arbitrary: cache)
  case (Cons f fs)
  show ?case
  proof (cases "flags f")
    case None
    then show ?thesis using Cons.IH [OF Cons.prems] by auto
  next
    case (Some v)
    then have v: "v = stored_flag st f" using assms(2) [of f] by simp
    show ?thesis
      using Cons.IH [OF cache_ok_set [OF Cons.prems, of f]] slot_get_set [OF Cons.prems, of g f] Some v by auto
  qed
qed simp

lemma base_read_flags_value:
  assumes "stored_ok st" and "base_ok st base"
  shows "\<exists>base'. base_read_flags needed st base =
      Some (base', \<lambda>f. if mask_contains needed (Status f) then Some (base_value st base f) else None) \<and>
    base_ok st base' \<and> base_value st base' = base_value st base"
proof (cases base)
  case (Local source)
  then show ?thesis using assms(2) unfolding Local by (simp cong: if_cong)
next
  case (Stored cache)
  define missing where "missing = fold (\<lambda>f m. if mask_contains needed (Status f) \<and> slot_get f cache = None
    then m OR mask_of (Status f) else m) STATUS_FLAGS MASK_EMPTY"
  have m: "mask_contains missing (Status f) \<longleftrightarrow> mask_contains needed (Status f) \<and> slot_get f cache = None" for f
    unfolding missing_def gathered_mask by simp
  define flags where "flags = (\<lambda>f. if mask_contains missing (Status f) then Some (stored_flag st f) else None)"
  define filled where "filled = fold (\<lambda>f cache. if flags f \<noteq> None then slot_set f (flags f) cache else cache) STATUS_FLAGS cache"
  have ok: "cache_ok st cache" using assms(2) Stored by simp
  have fill: "cache_ok st filled" "slot_get g filled = (if flags g \<noteq> None then flags g else slot_get g cache)" for g
    unfolding filled_def using cache_fill [OF ok, of flags STATUS_FLAGS] by (simp_all add: flags_def)
  have slot: "slot_get f filled = Some (stored_flag st f)" if "mask_contains needed (Status f)" for f
    using fill(2) [of f] m [of f] that cache_ok_slot [OF ok, of f] by (auto simp: flags_def)
  have "(if missing = MASK_EMPTY then Some cache else map_option
      (\<lambda>flags. fold (\<lambda>f cache. if flags f \<noteq> None then slot_set f (flags f) cache else cache) STATUS_FLAGS cache)
      (read_flags missing st)) = Some filled"
  proof (cases "missing = MASK_EMPTY")
    case True
    then have "flags = (\<lambda>_. None)" by (simp add: flags_def)
    then have "filled = cache" by (simp add: filled_def STATUS_FLAGS_def)
    with True show ?thesis by simp
  next
    case False
    have "read_flags missing st = Some flags" unfolding flags_def by (rule read_flags_value [OF assms(1)])
    with False show ?thesis by (simp add: filled_def)
  qed
  then have "base_read_flags needed st base =
      Some (Stored filled, \<lambda>f. if mask_contains needed (Status f) then slot_get f filled else None)"
    unfolding Stored base_read_flags.simps Let_def missing_def [symmetric] by simp
  moreover have "(\<lambda>f. if mask_contains needed (Status f) then slot_get f filled else None) =
      (\<lambda>f. if mask_contains needed (Status f) then Some (base_value st base f) else None)"
    using slot by (auto simp: Stored)
  ultimately show ?thesis using fill(1) by (simp add: Stored)
qed

lemma base_condition_value:
  assumes "stored_ok st" and "base_ok st base"
  shows "\<exists>base'. base_condition c st base = Some (base', evaluate c (base_value st base)) \<and>
    base_ok st base' \<and> base_value st base' = base_value st base"
proof (cases base)
  case (Local source)
  then show ?thesis using assms(2) by (simp add: any_condition_flags)
next
  case (Stored cache)
  let ?d = "canonical c"
  have ok: "cache_ok st cache" using assms(2) Stored by simp
  have inv: "(if is_inverted c then \<not> evaluate ?d (stored_flag st) else evaluate ?d (stored_flag st)) = evaluate c (stored_flag st)"
    using canonical_inverted [of c "stored_flag st"] by simp
  show ?thesis
  proof (cases "ca_conditions cache ! condition_index ?d")
    case None
    then show ?thesis using cache_ok_condition [OF ok canonical_CANONICAL [of c]] inv
      by (simp add: Stored read_condition_value [OF assms(1)])
  next
    case (Some v)
    then have "v = evaluate ?d (stored_flag st)" using ok canonical_CANONICAL [of c] by (auto simp: cache_ok_def)
    then show ?thesis using Some ok inv by (simp add: Stored)
  qed
qed

subsection \<open>Histories of changes\<close>

lemma rposition_SomeD:
  assumes "rposition P xs = Some i"
  shows "i < length xs" "P (xs ! i)" "\<forall>x\<in>set (drop (i + 1) xs). \<not> P x"
proof -
  let ?w = "takeWhile (\<lambda>x. \<not> P x) (rev xs)"
  have ex: "\<exists>x\<in>set (rev xs). \<not> \<not> P x" and i: "i = length xs - 1 - length ?w"
    using assms by (auto simp: rposition_def split: if_splits)
  then have w: "length ?w < length (rev xs)" "P (rev xs ! length ?w)"
    using nth_length_takeWhile [of "\<lambda>x. \<not> P x" "rev xs"] takeWhile_eq_all_conv [of "\<lambda>x. \<not> P x" "rev xs"]
      length_takeWhile_le [of "\<lambda>x. \<not> P x" "rev xs"] takeWhile_dropWhile_id [of "\<lambda>x. \<not> P x" "rev xs"]
    by (metis append_take_drop_id le_neq_implies_less take_all takeWhile_eq_take order.refl)+
  then show "i < length xs" "P (xs ! i)" using i by (auto simp: rev_nth)
  have "drop (i + 1) xs = rev (take (length ?w) (rev xs))" using i w(1) by (simp add: take_rev Suc_diff_Suc)
  also have "take (length ?w) (rev xs) = ?w" by (metis takeWhile_eq_take)
  finally show "\<forall>x\<in>set (drop (i + 1) xs). \<not> P x" using set_takeWhileD [of _ "\<lambda>x. \<not> P x" "rev xs"] by auto
qed

lemma rposition_NoneD: "rposition P xs = None \<Longrightarrow> \<forall>x\<in>set xs. \<not> P x"
  by (auto simp: rposition_def split: if_splits)

lemma fold_split_at:
  assumes "i < length xs"
  shows "fold f xs v = fold f (drop (i + 1) xs) (f (xs ! i) (fold f (take i xs) v))"
  using assms by (metis Suc_eq_plus1 comp_apply fold_append fold_simps(2) id_take_nth_drop)

lemma change_flag_ok:
  assumes "change_ok u" and "mask_contains (fc_writes u) (Status f)"
  shows "change_flag u (Status f) \<noteq> None"
  using assms by (cases f) (auto simp: change_ok_def change_flag_def ALL_FLAGS_def STATUS_FLAGS_def split: flag_values.splits)

lemma update_flag_value: "change_ok u \<Longrightarrow> update_flag f u (Some (v f)) = Some (apply_change u v f)"
  using change_flag_ok [of u f] by (auto simp: update_flag_def apply_change_def)

lemma fold_update_flag:
  "(\<And>u. u \<in> set us \<Longrightarrow> change_ok u) \<Longrightarrow> fold (update_flag f) us (Some (v f)) = Some (fold apply_change us v f)"
  by (induction us arbitrary: v) (simp_all add: update_flag_value)

lemma resolve_one:
  assumes "\<And>u. u \<in> set us \<Longrightarrow> change_ok u" and "flag_start us f = None \<Longrightarrow> flags f = Some (v f)"
  shows "(case flag_start us f of
       Some index \<Rightarrow> fold (update_flag f) (drop (index + 1) us) (change_flag (us ! index) (Status f))
     | None \<Rightarrow> fold (update_flag f) us (flags f)) = Some (fold apply_change us v f)"
proof (cases "flag_start us f")
  case None
  then show ?thesis using fold_update_flag [of us f v] assms by simp
next
  case (Some i)
  note r = rposition_SomeD [OF Some [unfolded flag_start_def]]
  let ?v = "fold apply_change (take i us) v"
  have ok: "change_ok (us ! i)" "\<And>u. u \<in> set (drop (i + 1) us) \<Longrightarrow> change_ok u"
    using assms(1) r(1) by (auto dest: in_set_dropD)
  have "change_flag (us ! i) (Status f) = Some (apply_change (us ! i) ?v f)"
    using r(2) change_flag_ok [OF ok(1)] by (auto simp: apply_change_def select_update_def)
  then show ?thesis
    using fold_update_flag [of "drop (i + 1) us" f "apply_change (us ! i) ?v"] ok(2) fold_split_at [OF r(1), of apply_change v] Some by simp
qed

lemma resolve_flags_value:
  assumes "stored_ok st" and "base_ok st base" and "\<And>u. u \<in> set us \<Longrightarrow> change_ok u"
  shows "\<exists>base' flags. resolve_flags st base us needed = Some (base', flags) \<and>
    (\<forall>f. mask_contains needed (Status f) \<longrightarrow> flags f = Some (fold apply_change us (base_value st base) f)) \<and>
    base_ok st base' \<and> base_value st base' = base_value st base"
proof -
  define inherited where "inherited = fold (\<lambda>f m. if mask_contains needed (Status f) \<and> flag_start us f = None
    then m OR mask_of (Status f) else m) STATUS_FLAGS MASK_EMPTY"
  have i: "mask_contains inherited (Status f) \<longleftrightarrow> mask_contains needed (Status f) \<and> flag_start us f = None" for f
    unfolding inherited_def gathered_mask by simp
  define flags where "flags = (\<lambda>f. if mask_contains inherited (Status f) then Some (base_value st base f) else None)"
  obtain base' where b: "base_read_flags inherited st base = Some (base', flags)"
      "base_ok st base'" "base_value st base' = base_value st base"
    using base_read_flags_value [OF assms(1,2), of inherited] unfolding flags_def by blast
  define resolved where "resolved = (\<lambda>f. if \<not> mask_contains needed (Status f) then flags f
     else case flag_start us f of
       Some index \<Rightarrow> fold (update_flag f) (drop (index + 1) us) (change_flag (us ! index) (Status f))
     | None \<Rightarrow> fold (update_flag f) us (flags f))"
  have r: "resolved f = Some (fold apply_change us (base_value st base) f)" if "mask_contains needed (Status f)" for f
    using resolve_one [OF assms(3), of us f flags "base_value st base"] that i [of f] by (simp add: resolved_def flags_def)
  then have "\<not> list_ex (\<lambda>f. mask_contains needed (Status f) \<and> resolved f = None) STATUS_FLAGS"
    by (auto simp: list_ex_iff)
  then have "resolve_flags st base us needed = Some (base', resolved)"
    unfolding resolve_flags_def Let_def inherited_def [symmetric] b(1) by (simp add: resolved_def)
  then show ?thesis using r b(2,3) by blast
qed

text \<open>A change that is not partial for a condition either misses its flags or decides it alone.\<close>

lemma update_condition_value:
  assumes "change_ok u" and "\<not> (mask_intersects (fc_writes u) (condition_flags c) \<and> change_status_source u (condition_flags c) = None)"
  shows "evaluate c (apply_change u v) = update_condition c u (evaluate c v)"
proof (cases "change_status_source u (condition_flags c)")
  case None
  then have "apply_change u v f = v f" if "mask_contains (condition_flags c) (Status f)" for f
    using assms(2) mask_not_intersects that by (auto simp: apply_change_def)
  then show ?thesis using None evaluate_cong [of c "apply_change u v" v] by (simp add: update_condition_def)
next
  case (Some source)
  then have s: "fc_values u = StatusValues source" "mask_covers (fc_writes u) (condition_flags c)" "any_ok source"
    using assms(1) by (auto simp: change_status_source_def change_ok_def split: flag_values.splits if_splits)
  have "apply_change u v f = (if select_update (fc_condition u) True False then any_flag source f else v f)"
    if "mask_contains (condition_flags c) (Status f)" for f
    using mask_covers_contains [OF s(2) that] s(1)
    by (auto simp: apply_change_def change_flag_def select_update_def split: option.splits)
  then have "evaluate c (apply_change u v) = evaluate c (if select_update (fc_condition u) True False then any_flag source else v)"
    by (intro evaluate_cong) simp
  also have "\<dots> = update_condition c u (evaluate c v)"
    using Some by (auto simp: update_condition_def select_update_def any_condition_flags [OF s(3)] split: option.splits)
  finally show ?thesis .
qed

lemma fold_update_condition:
  assumes "\<And>u. u \<in> set us \<Longrightarrow> change_ok u"
    and "\<forall>u\<in>set us. \<not> (mask_intersects (fc_writes u) (condition_flags c) \<and> change_status_source u (condition_flags c) = None)"
  shows "fold (update_condition c) us (evaluate c v) = evaluate c (fold apply_change us v)"
  using assms by (induction us arbitrary: v) (simp_all add: update_condition_value [symmetric])

subsection \<open>Queries\<close>

text \<open>What every read keeps: the flags and the history, and the invariant of the cache.\<close>

definition same_flags :: "flags_state \<Rightarrow> status_state \<Rightarrow> status_state \<Rightarrow> bool" where
  "same_flags st S S' \<longleftrightarrow> status_ok st S' \<and> ss_updates S' = ss_updates S \<and> status_flags st S' = status_flags st S"

lemma same_flags_base:
  "status_ok st S \<Longrightarrow> base_ok st base' \<Longrightarrow> base_value st base' = base_value st (ss_base S) \<Longrightarrow>
    same_flags st S (S\<lparr>ss_base := base'\<rparr>)"
  by (simp add: same_flags_def status_ok_def status_flags_def)

lemma status_okD:
  assumes "status_ok st S"
  shows "stored_ok st" "base_ok st (ss_base S)" "\<And>u. u \<in> set (ss_updates S) \<Longrightarrow> change_ok u"
    "\<And>u. u \<in> set (ss_updates S) \<Longrightarrow> change_status_source u MASK_STATUS \<noteq> None \<Longrightarrow> fc_condition u \<noteq> None"
  using assms by (auto simp: status_ok_def)

lemma fold_replaced:
  assumes "i < length us" "fc_condition (us ! i) = None" "change_status_source (us ! i) (condition_flags c) = Some source"
    and "\<And>u. u \<in> set us \<Longrightarrow> change_ok u"
  shows "evaluate c (fold apply_change (take (i + 1) us) v) = any_condition source c"
proof -
  have u: "us ! i \<in> set us" "take (i + 1) us = take i us @ [us ! i]" using assms(1) by (simp_all add: take_Suc_conv_app_nth)
  from update_condition_value [OF assms(4) [OF u(1)], of c "fold apply_change (take i us) v"] show ?thesis
    using assms(2,3) unfolding u(2) by (simp add: update_condition_def select_update_def)
qed

lemma fold_take_drop: "fold f xs v = fold f (drop n xs) (fold f (take n xs) v)"
  by (metis append_take_drop_id comp_apply fold_append)

lemma status_query_value:
  assumes "status_ok st S"
  shows "\<exists>S'. status_query c st S = Some (S', evaluate c (status_flags st S)) \<and> same_flags st S S'"
proof -
  let ?needed = "condition_flags c" and ?us = "ss_updates S" and ?v = "base_value st (ss_base S)"
  let ?P = "\<lambda>u. mask_intersects (fc_writes u) ?needed \<and> change_status_source u ?needed = None"
  define replacement where "replacement = rposition (\<lambda>u. fc_condition u = None \<and> change_status_source u ?needed \<noteq> None) ?us"
  define partial where "partial = (case rposition ?P ?us of None \<Rightarrow> None
    | Some index \<Rightarrow> if (case replacement of None \<Rightarrow> True | Some r \<Rightarrow> index > r) then Some index else None)"
  note ok = status_okD [OF assms]
  have following: "fold (update_condition c) (drop n ?us) (evaluate c (fold apply_change (take n ?us) ?v)) = evaluate c (status_flags st S)"
    if "\<forall>u\<in>set (drop n ?us). \<not> ?P u" for n
    using fold_update_condition [of "drop n ?us" c] ok(3) that fold_take_drop [of apply_change ?us ?v n]
    by (simp add: status_flags_def in_set_dropD)
  note query = status_query_def [of c st S, unfolded Let_def, folded replacement_def, folded partial_def]
  show ?thesis
  proof (cases partial)
    case (Some i)
    then have i: "rposition ?P ?us = Some i" by (auto simp: partial_def split: option.splits if_splits)
    note r = rposition_SomeD [OF i]
    obtain base' flags where f: "resolve_flags st (ss_base S) (take (i + 1) ?us) ?needed = Some (base', flags)"
        "\<forall>f. mask_contains ?needed (Status f) \<longrightarrow> flags f = Some (fold apply_change (take (i + 1) ?us) ?v f)"
        "base_ok st base'" "base_value st base' = ?v"
      using resolve_flags_value [OF ok(1,2), of "take (i + 1) ?us" ?needed] ok(3) by (meson in_set_takeD)
    have "evaluate c (\<lambda>f. the (flags f)) = evaluate c (fold apply_change (take (i + 1) ?us) ?v)"
      using f(2) by (intro evaluate_cong) simp
    with following [OF r(3)] show ?thesis
      using Some f(1) same_flags_base [OF assms f(3,4)] by (simp add: query)
  next
    case None
    show ?thesis
    proof (cases replacement)
      case (Some i)
      note r = rposition_SomeD [OF Some [unfolded replacement_def]]
      obtain source where s: "change_status_source (?us ! i) ?needed = Some source" using r(2) by blast
      have "\<forall>u\<in>set (drop (i + 1) ?us). \<not> ?P u"
      proof (cases "rposition ?P ?us")
        case none: None
        show ?thesis using rposition_NoneD [OF none] by (meson in_set_dropD)
      next
        case j: (Some j)
        then have "j + 1 \<le> i + 1" using None Some by (simp add: partial_def split: if_splits)
        then have "set (drop (i + 1) ?us) \<subseteq> set (drop (j + 1) ?us)" by (rule set_drop_subset_set_drop)
        then show ?thesis using rposition_SomeD(3) [OF j] by (meson subsetD)
      qed
      from following [OF this] show ?thesis
        using None Some s r same_flags_base [OF assms ok(2) refl] fold_replaced [OF r(1) _ s ok(3), of ?v] by (simp add: query)
    next
      case repl: None
      then have "\<forall>u\<in>set (drop 0 ?us). \<not> ?P u" using None rposition_NoneD [of ?P ?us] by (auto simp: partial_def split: option.splits)
      from following [OF this] show ?thesis
        using None repl base_condition_value [OF ok(1,2), of c] same_flags_base [OF assms] by (auto simp: query)
    qed
  qed
qed

lemma status_read_flag_value:
  assumes "status_ok st S"
  shows "\<exists>S'. status_read_flag f st S = Some (S', status_flags st S f) \<and> same_flags st S S'"
proof (cases "status_condition f")
  case (Some c)
  then show ?thesis
    using status_query_value [OF assms, of c] status_condition_flag [OF Some] by (simp add: status_read_flag_def)
next
  case None
  note ok = status_okD [OF assms]
  obtain base' flags where r: "resolve_flags st (ss_base S) (ss_updates S) (mask_of (Status f)) = Some (base', flags)"
      "flags f = Some (status_flags st S f)" "base_ok st base'" "base_value st base' = base_value st (ss_base S)"
    using resolve_flags_value [OF ok(1,2,3), of "ss_updates S" "mask_of (Status f)"] by (auto simp: status_flags_def)
  then show ?thesis using None same_flags_base [OF assms r(3,4)] by (simp add: status_read_flag_def)
qed

subsection \<open>Changes\<close>

lemma fold_clear_length: "length (fold (\<lambda>f values. if P f then values else values[flag_index f := None]) fs xs) = length xs"
  by (induction fs arbitrary: xs) simp_all

lemma fold_clear_nth:
  "P f \<Longrightarrow> fold (\<lambda>f values. if P f then values else values[flag_index f := None]) fs xs ! flag_index f = xs ! flag_index f"
proof (induction fs arbitrary: xs)
  case (Cons g fs)
  then show ?case by (cases "g = f") simp_all
qed simp

lemma change_retaining_ok: "change_ok ch \<Longrightarrow> change_ok (change_retaining m ch)"
proof (cases "fc_values ch")
  case (StatusValues source)
  assume "change_ok ch"
  moreover have "MASK_STATUS AND (w AND m) = w AND m" if "MASK_STATUS AND w = w" for w :: flag_mask
    using that by (metis and.assoc)
  ultimately show ?thesis using StatusValues by (simp add: change_ok_def change_retaining_def mask_covers_def Let_def)
next
  case (ExplicitValues flags)
  assume "change_ok ch"
  with ExplicitValues show ?thesis
    by (simp add: change_ok_def change_retaining_def Let_def list_all_iff fold_clear_length fold_clear_nth)
qed

lemma change_retaining_flag:
  assumes "mask_contains m f"
  shows "change_flag (change_retaining m ch) f = change_flag ch f"
  using assms
  by (auto simp: change_flag_def change_retaining_def Let_def fold_clear_nth simp del: mask_contains_and split: flag_values.splits)
    (simp_all add: mask_contains_and)

lemma change_retaining_apply: "apply_change (change_retaining MASK_STATUS ch) v = apply_change ch v"
  by (rule ext) (simp add: apply_change_def change_retaining_flag, simp add: change_retaining_def Let_def)

lemma status_source_full:
  assumes "change_status_source u MASK_STATUS = Some source"
  shows "apply_change u v = (if select_update (fc_condition u) True False then any_flag source else v)"
proof -
  have s: "fc_values u = StatusValues source" "mask_covers (fc_writes u) MASK_STATUS"
    using assms by (auto simp: change_status_source_def split: flag_values.splits if_splits)
  have "mask_contains (fc_writes u) (Status f)" for f by (rule mask_covers_contains [OF s(2)]) simp
  then show ?thesis using s(1) by (auto simp: apply_change_def change_flag_def select_update_def fun_eq_iff split: option.splits)
qed

lemma status_apply_value:
  assumes "status_ok st S" and "change_ok ch" and "mask_covers MASK_STATUS (fc_writes ch)"
  shows "status_ok st (status_apply ch S) \<and> status_flags st (status_apply ch S) = apply_change ch (status_flags st S)"
proof (cases "change_status_source ch MASK_STATUS \<noteq> None \<and> fc_condition ch = None")
  case True
  then obtain source where s: "change_status_source ch MASK_STATUS = Some source" "fc_condition ch = None" by blast
  then have v: "fc_values ch = StatusValues source" "fc_writes ch AND MASK_STATUS = MASK_STATUS"
    by (auto simp: change_status_source_def mask_covers_def split: flag_values.splits if_splits)
  have "fc_writes ch = MASK_STATUS" using v(2) assms(3) by (metis mask_covers_def and.commute)
  then have "status_apply ch S = S\<lparr>ss_base := Local source, ss_updates := []\<rparr>" using v(1) s(2) by (simp add: status_apply_def)
  then show ?thesis using assms v(1) status_source_full [OF s(1)] s(2)
    by (simp add: status_ok_def status_flags_def change_ok_def select_update_def)
next
  case False
  then have "status_apply ch S = S\<lparr>ss_updates := ss_updates S @ [ch]\<rparr>"
    by (auto simp: status_apply_def change_status_source_def mask_covers_def split: flag_values.splits if_splits)
  then show ?thesis using assms False by (auto simp: status_ok_def status_flags_def)
qed

lemma apply_change_unwritten: "fc_writes ch = MASK_EMPTY \<Longrightarrow> apply_change ch v = v"
  by (simp add: apply_change_def fun_eq_iff)

lemma tracker_apply_value:
  assumes "status_ok st S" and "change_ok ch"
  shows "status_ok st (tracker_apply ch S) \<and> status_flags st (tracker_apply ch S) = apply_change ch (status_flags st S)"
proof (cases "fc_writes ch = MASK_EMPTY \<or> fc_condition ch = Some (Constant False)")
  case True
  then have "apply_change ch v = v" for v
    using apply_change_unwritten [of ch v] by (auto simp: apply_change_def select_update_def fun_eq_iff)
  with True assms show ?thesis by (simp add: tracker_apply_def)
next
  case False
  define ch1 where "ch1 = (if fc_condition ch = Some (Constant True) then ch\<lparr>fc_condition := None\<rparr> else ch)"
  define ch2 where "ch2 = change_retaining MASK_STATUS ch1"
  have "change_ok ch1" using assms(2) by (simp add: ch1_def change_ok_def split: flag_values.splits)
  then have ok: "change_ok ch2" unfolding ch2_def by (rule change_retaining_ok)
  have a: "apply_change ch2 v = apply_change ch v" for v
    unfolding ch2_def change_retaining_apply by (auto simp: ch1_def apply_change_def change_flag_def select_update_def fun_eq_iff)
  have c: "mask_covers MASK_STATUS (fc_writes ch2)"
    unfolding ch2_def mask_covers_def change_retaining_def Let_def by (simp add: and.commute and.left_commute)
  have t: "tracker_apply ch S = (if fc_writes ch2 \<noteq> MASK_EMPTY then status_apply ch2 S else S)"
    using False by (simp add: tracker_apply_def ch1_def ch2_def Let_def)
  show ?thesis
  proof (cases "fc_writes ch2 = MASK_EMPTY")
    case True
    then show ?thesis using assms(1) a apply_change_unwritten [OF True, of "status_flags st S"] by (simp add: t)
  next
    case False
    then show ?thesis using status_apply_value [OF assms(1) ok c] a by (simp add: t)
  qed
qed

subsection \<open>Publication\<close>

lemma write_concrete_flag:
  "length flags = 6 \<Longrightarrow> stored_ok (write_concrete flags st) \<and> stored_flag (write_concrete flags st) f = flags ! status_index f"
  by (cases f) (simp_all add: stored_ok_def write_concrete_def stored_flag_def flag_resolver_def flag_byte_def)

lemma ucast_round [simp]:
  "ucast (ucast (a :: u8) :: u32) = a" "ucast (ucast (b :: u16) :: u32) = b" "ucast (c :: u32) = c"
  by (simp_all add: bit_eq_iff bit_simps)

lemma source_cases:
  obtains l r x where "source = Arithmetic Add l r x" | l r x where "source = Arithmetic Subtract l r x"
  | x where "source = Logic x" | flags where "source = Explicit flags"
  by (metis arithmetic_op.exhaust status_source.exhaust)

text \<open>A published source is read back as itself.\<close>

lemmas record_defs = stored_ok_def fun_eq_iff stored_flag_def flag_resolver_def record_source_def
  encode_kind_def encode_logic_def width_code_def Let_def

lemma publish_source_value:
  assumes "any_ok source"
  shows "stored_ok (publish_source source st) \<and> stored_flag (publish_source source st) = any_flag source"
proof (cases source)
  case (Byte s)
  with assms show ?thesis
    by (cases s rule: source_cases) (simp_all add: fun_eq_iff write_concrete_flag del: arithmetic_flag.simps logic_flag.simps,
        simp_all add: record_defs del: arithmetic_flag.simps logic_flag.simps)
next
  case (Word s)
  with assms show ?thesis
    by (cases s rule: source_cases) (simp_all add: fun_eq_iff write_concrete_flag del: arithmetic_flag.simps logic_flag.simps,
        simp_all add: record_defs del: arithmetic_flag.simps logic_flag.simps)
next
  case (Dword s)
  with assms show ?thesis
    by (cases s rule: source_cases) (simp_all add: fun_eq_iff write_concrete_flag del: arithmetic_flag.simps logic_flag.simps,
        simp_all add: record_defs del: arithmetic_flag.simps logic_flag.simps)
qed

lemma base_publish_value:
  "stored_ok st \<Longrightarrow> base_ok st base \<Longrightarrow> stored_ok (base_publish base st) \<and> stored_flag (base_publish base st) = base_value st base"
  by (cases base) (simp_all add: publish_source_value)

lemma needs_concrete_simps [simp]:
  "\<not> needs_concrete []"
  "needs_concrete (us @ [u]) = select_update (fc_condition u) (change_status_source u MASK_STATUS = None) (needs_concrete us)"
  by (simp_all add: needs_concrete_def)

lemma publish_replacement_value:
  assumes "stored_ok st" and "base_ok st base" and "\<And>u. u \<in> set us \<Longrightarrow> change_ok u" and "\<not> needs_concrete us"
  shows "stored_ok (publish_replacement (rev us) base st) \<and>
    stored_flag (publish_replacement (rev us) base st) = fold apply_change us (base_value st base)"
  using assms(3,4)
proof (induction us rule: rev_induct)
  case Nil
  then show ?case using base_publish_value [OF assms(1,2)] by simp
next
  case (snoc u us)
  show ?case
  proof (cases "select_update (fc_condition u) True False")
    case True
    then obtain source where s: "change_status_source u MASK_STATUS = Some source"
      using snoc.prems(2) by (auto simp: select_update_def split: option.splits if_splits)
    then have "any_ok source" using snoc.prems(1) [of u]
      by (auto simp: change_status_source_def change_ok_def split: flag_values.splits if_splits)
    then show ?thesis using True s publish_source_value by (simp add: status_source_full [OF s])
  next
    case False
    then have "\<not> needs_concrete us" "apply_change u v = v" for v
      using snoc.prems(2) by (auto simp: select_update_def apply_change_def fun_eq_iff split: option.splits if_splits)
    then show ?thesis using False snoc.IH snoc.prems(1) by (auto split: option.splits)
  qed
qed

lemma needs_concrete_complete: "\<not> list_ex (\<lambda>u. change_status_source u MASK_STATUS = None) us \<Longrightarrow> \<not> needs_concrete us"
  by (induction us rule: rev_induct) (auto simp: select_update_def split: option.splits)

lemma publish_concrete_value:
  assumes "status_ok st S"
  shows "\<exists>st'. publish_concrete S st = Some st' \<and> stored_ok st' \<and> stored_flag st' = status_flags st S"
proof -
  note ok = status_okD [OF assms]
  obtain base' flags where r: "resolve_flags st (ss_base S) (ss_updates S) MASK_STATUS = Some (base', flags)"
      "\<forall>f. flags f = Some (status_flags st S f)"
    using resolve_flags_value [OF ok(1,2,3), of "ss_updates S" MASK_STATUS] by (auto simp: status_flags_def)
  then have p: "publish_concrete S st = Some (write_concrete (map (status_flags st S) STATUS_FLAGS) st)"
    by (simp add: publish_concrete_def list_ex_iff)
  have "length (map (status_flags st S) STATUS_FLAGS) = 6" "map (status_flags st S) STATUS_FLAGS ! status_index f = status_flags st S f" for f
    by (simp add: STATUS_FLAGS_def) (cases f; simp add: STATUS_FLAGS_def)
  then show ?thesis using p write_concrete_flag by (simp add: fun_eq_iff)
qed

lemma status_publish_value:
  assumes "status_ok st S"
  shows "\<exists>st'. status_publish S st = Some st' \<and> stored_ok st' \<and> stored_flag st' = status_flags st S"
proof -
  note ok = status_okD [OF assms]
  have n: "\<not> list_ex (\<lambda>u. change_status_source u MASK_STATUS \<noteq> None \<and> fc_condition u = None) (ss_updates S)"
    using ok(4) unfolding list_ex_iff by blast
  consider "ss_updates S = []"
    | "ss_updates S \<noteq> []" "list_ex (\<lambda>u. change_status_source u MASK_STATUS = None) (ss_updates S)" "needs_concrete (ss_updates S)"
    | "ss_updates S \<noteq> []" "\<not> needs_concrete (ss_updates S)"
    using needs_concrete_complete by blast
  then show ?thesis
  proof cases
    case 1
    then show ?thesis using base_publish_value [OF ok(1,2)] by (simp add: status_publish_def status_flags_def)
  next
    case 2
    then show ?thesis using publish_concrete_value [OF assms] n by (simp add: status_publish_def)
  next
    case 3
    then show ?thesis using publish_replacement_value [OF ok(1,2,3), of "ss_updates S"] n
      by (simp add: status_publish_def status_flags_def)
  qed
qed

subsection \<open>Changes the translator builds\<close>

lemma change_from_ok: "any_ok source \<Longrightarrow> change_ok (change_from source)"
  by (simp add: change_ok_def change_from_def mask_covers_def)

lemma change_when_ok: "change_ok ch \<Longrightarrow> change_ok (change_when p ch)"
  by (simp add: change_ok_def change_when_def split: flag_values.splits)

lemma change_preserving_ok: "change_ok ch \<Longrightarrow> change_ok (change_preserving f ch)"
  unfolding change_preserving_def by (rule change_retaining_ok)

lemma change_partial_ok: "change_ok (change_partial flags)"
proof -
  have "length (fst (fold (\<lambda>(f, v) (xs, writes). (xs[flag_index f := Some v], writes OR mask_of f)) flags (xs, writes))) = 12 \<and>
    (\<forall>f. mask_contains (snd (fold (\<lambda>(f, v) (xs, writes). (xs[flag_index f := Some v], writes OR mask_of f)) flags (xs, writes))) f \<longrightarrow>
      fst (fold (\<lambda>(f, v) (xs, writes). (xs[flag_index f := Some v], writes OR mask_of f)) flags (xs, writes)) ! flag_index f \<noteq> None)"
    if "length xs = 12" "\<forall>f. mask_contains writes f \<longrightarrow> xs ! flag_index f \<noteq> None" for xs :: "bool option list" and writes
    using that
  proof (induction flags arbitrary: xs writes)
    case (Cons fv flags)
    obtain f v where "fv = (f, v)" by (cases fv)
    moreover have "\<forall>g. mask_contains (writes OR mask_of f) g \<longrightarrow> xs[flag_index f := Some v] ! flag_index g \<noteq> None"
      using Cons.prems by (auto simp: nth_list_update)
    ultimately show ?case using Cons.IH [of "xs[flag_index f := Some v]" "writes OR mask_of f"] Cons.prems(1) by simp
  qed simp
  from this [of "replicate 12 None" MASK_EMPTY] show ?thesis
    by (auto simp: change_ok_def change_partial_def list_all_iff split: prod.splits)
qed

subsection \<open>A translated block\<close>

text \<open>What the instructions of a block ask of the tracker, in program order.\<close>

datatype flag_event = Change flag_change | Query condition | Read status_flag

fun run_lazy :: "flag_event list \<Rightarrow> flags_state \<Rightarrow> status_state \<Rightarrow> (status_state \<times> bool list) option" where
  "run_lazy [] st S = Some (S, [])"
| "run_lazy (Change ch # es) st S = run_lazy es st (tracker_apply ch S)"
| "run_lazy (Query c # es) st S =
     Option.bind (status_query c st S) (\<lambda>(S, v). map_option (\<lambda>(S, vs). (S, v # vs)) (run_lazy es st S))"
| "run_lazy (Read f # es) st S =
     Option.bind (status_read_flag f st S) (\<lambda>(S, v). map_option (\<lambda>(S, vs). (S, v # vs)) (run_lazy es st S))"

text \<open>The same events on six plain flags.\<close>

fun run_eager :: "flag_event list \<Rightarrow> (status_flag \<Rightarrow> bool) \<Rightarrow> (status_flag \<Rightarrow> bool) \<times> bool list" where
  "run_eager [] v = (v, [])"
| "run_eager (Change ch # es) v = run_eager es (apply_change ch v)"
| "run_eager (Query c # es) v = apsnd ((#) (evaluate c v)) (run_eager es v)"
| "run_eager (Read f # es) v = apsnd ((#) (v f)) (run_eager es v)"

primrec event_ok :: "flag_event \<Rightarrow> bool" where
  "event_ok (Change ch) = change_ok ch"
| "event_ok (Query _) = True"
| "event_ok (Read _) = True"

lemma run_lazy_value:
  assumes "status_ok st S" and "list_all event_ok es"
  shows "\<exists>S'. run_lazy es st S = Some (S', snd (run_eager es (status_flags st S))) \<and> status_ok st S' \<and>
    status_flags st S' = fst (run_eager es (status_flags st S))"
  using assms
proof (induction es arbitrary: S)
  case (Cons e es)
  show ?case
  proof (cases e)
    case (Change ch)
    then show ?thesis using Cons.IH [of "tracker_apply ch S"] tracker_apply_value [of st S ch] Cons.prems by auto
  next
    case (Query c)
    obtain S1 where s: "status_query c st S = Some (S1, evaluate c (status_flags st S))" "same_flags st S S1"
      using status_query_value [OF Cons.prems(1), of c] by blast
    then show ?thesis using Cons.IH [of S1] Cons.prems(2) by (auto simp: Query same_flags_def)
  next
    case (Read f)
    obtain S1 where s: "status_read_flag f st S = Some (S1, status_flags st S f)" "same_flags st S S1"
      using status_read_flag_value [OF Cons.prems(1), of f] by blast
    then show ?thesis using Cons.IH [of S1] Cons.prems(2) by (auto simp: Read same_flags_def)
  qed
qed simp

lemma status_default_ok: "stored_ok st \<Longrightarrow> status_ok st status_default"
  using condition_index_less by (auto simp: status_ok_def status_default_def cache_ok_def empty_cache_def)

lemma status_default_flags: "status_flags st status_default = stored_flag st"
  by (simp add: status_flags_def status_default_def)

subsection \<open>Properties\<close>

text \<open>C3: lazy status flags implement eager ones. Take any record the CPU can hold and any sequence
  of flag changes (complete, partial, conditional, preserving), condition queries and flag reads of
  a translated block: the tracker never panics or traps, every query and read has the answer six
  plain flags give at that point, whatever was cached before, and the record published at the end of
  the block reads back as exactly the flags eager execution leaves.\<close>

theorem lazy_flags_refine:
  assumes "stored_ok st" and "list_all event_ok es"
  shows "\<exists>S st'. run_lazy es st status_default = Some (S, snd (run_eager es (stored_flag st))) \<and>
    status_publish S st = Some st' \<and> stored_ok st' \<and> stored_flag st' = fst (run_eager es (stored_flag st))"
  using run_lazy_value [OF status_default_ok [OF assms(1)] assms(2)] status_publish_value status_default_flags by metis

definition example_events :: "flag_event list" where
  "example_events =
    [Change (change_from (Byte (Arithmetic Subtract 0x10 0x20 0xF0))), Query CcB,
     Change (change_when (Dynamic True) (change_partial [(Status CF, False)])), Query CcB, Read ZF]"

lemma example_events_ok: "list_all event_ok example_events"
  by (simp add: example_events_def change_from_ok change_when_ok change_partial_ok)

definition example_state :: flags_state where
  "example_state = \<lparr>fs_kind = 3, fs_left = 0, fs_right = 0, fs_cf = 1, fs_pf = 1, fs_af = 1, fs_zf = 1, fs_sf = 1, fs_of = 1\<rparr>"

theorem lazy_flags_refine_witness:
  "\<exists>S st'. run_lazy example_events example_state status_default = Some (S, [True, False, False]) \<and>
    status_publish S example_state = Some st' \<and> \<not> stored_flag st' CF"
proof -
  have "stored_ok example_state" by (simp add: stored_ok_def example_state_def)
  moreover have "snd (run_eager example_events v) = [True, False, False] \<and> \<not> fst (run_eager example_events v) CF" for v
    by (simp add: example_events_def apply_change_def change_from_def change_when_def change_partial_def select_update_def
      change_flag_def mask_of_def mask_contains_def mask_intersects_def)
  ultimately show ?thesis
    using lazy_flags_refine [OF _ example_events_ok, of example_state] by metis
qed

text \<open>C19: publication and the stored readers are inverse. After a status source of any width is
  published, over any earlier record, every condition read through the inlined comparisons or the
  shared resolver, and every subset of the flags, is the one the source defines.\<close>

theorem published_source_reads_back:
  assumes "any_ok source" and "st' = publish_source source st"
  shows "read_condition c st' = Some (evaluate c (any_flag source)) \<and>
    read_flags needed st' = Some (\<lambda>f. if mask_contains needed (Status f) then Some (any_flag source f) else None)"
  using publish_source_value [OF assms(1), of st] read_condition_value [of st' c] read_flags_value [of st' needed] assms(2) by (simp cong: if_cong)

theorem published_source_reads_back_witness:
  "read_condition CcL (publish_source (Word (Arithmetic Subtract 0x8000 1 0x7FFF)) example_state) = Some True"
  using published_source_reads_back [of "Word (Arithmetic Subtract 0x8000 1 0x7FFF)" _ example_state CcL] by simp

end
