(* ===== verification/X86_Alu.thy ===== *)
theory X86_Alu
  imports Lazy_Flags
begin

text \<open>
  Integer operations of the x86 crate: the rest of \<open>alu.rs\<close> and \<open>alu/\<close> over the flag equations of
  \<open>X86_Flags\<close>. An operand is the word it has at run time; the shift, rotate and division methods of
  the compiler's values (\<open>compiler/src/value.rs\<close>) are written out first. A trap of the emitted
  division is \<open>None\<close>.
\<close>

subsection \<open>compiler/src/value.rs\<close>

text \<open>Counts are modulo 32, and modulo 64 for 64-bit values; rotates wrap at the logical width.\<close>

definition shift_amount :: "'a::len word \<Rightarrow> u32 \<Rightarrow> nat" where
  "shift_amount _ n = unat n mod (if LENGTH('a) = 64 then 64 else 32)"

definition val_shl :: "'a::len word \<Rightarrow> u32 \<Rightarrow> 'a word" where
  "val_shl x n = push_bit (shift_amount x n) x"

definition val_shr_unsigned :: "'a::len word \<Rightarrow> u32 \<Rightarrow> 'a word" where
  "val_shr_unsigned x n = drop_bit (shift_amount x n) x"

definition val_shr_signed :: "'a::len word \<Rightarrow> u32 \<Rightarrow> 'a word" where
  "val_shr_signed x n = signed_drop_bit (shift_amount x n) x"

definition val_rotl :: "'a::len word \<Rightarrow> u32 \<Rightarrow> 'a word" where
  "val_rotl x n = word_rotl (unat n mod LENGTH('a)) x"

definition val_rotr :: "'a::len word \<Rightarrow> u32 \<Rightarrow> 'a word" where
  "val_rotr x n = word_rotr (unat n mod LENGTH('a)) x"

definition val_div_signed :: "'a::len word \<Rightarrow> 'a word \<Rightarrow> 'a word option" where
  "val_div_signed x y =
     (if y = 0 \<or> LENGTH('a) \<in> {32, 64} \<and> sint x = - (2 ^ (LENGTH('a) - 1)) \<and> sint y = - 1 then None
      else Some (word_of_int (sint x sdiv sint y)))"

definition val_rem_signed :: "'a::len word \<Rightarrow> 'a word \<Rightarrow> 'a word option" where
  "val_rem_signed x y = (if y = 0 then None else Some (word_of_int (sint x smod sint y)))"

subsection \<open>alu.rs, arithmetic.rs, logic.rs\<close>

record 'v alu_result =
  ar_result :: 'v
  ar_flags :: flag_change

text \<open>\<open>From<StatusSource<T>> for AnyStatusSource\<close>: the constructor of the operand width.\<close>

definition into_any :: "'a::len word status_source \<Rightarrow> any_source" where
  "into_any s =
     (if LENGTH('a) = 8 then Byte (map_status_source ucast s)
      else if LENGTH('a) = 16 then Word (map_status_source ucast s)
      else Dword (map_status_source ucast s))"

definition arithmetic_apply :: "arithmetic_op \<Rightarrow> 'a::len word \<Rightarrow> 'a word \<Rightarrow> 'a word alu_result" where
  "arithmetic_apply operation left right =
     (let result = arithmetic_result operation left right in
      \<lparr>ar_result = result, ar_flags = change_from (into_any (Arithmetic operation left right result))\<rparr>)"

definition apply_with_carry :: "arithmetic_op \<Rightarrow> 'a::len word \<Rightarrow> 'a word \<Rightarrow> bool \<Rightarrow> 'a word alu_result" where
  "apply_with_carry operation left right carry_in =
     (let result = result_with_carry operation left right carry_in;
          flags = map (arithmetic_flag operation left right result carry_in) STATUS_FLAGS
      in \<lparr>ar_result = result, ar_flags = change_from (into_any (Explicit flags :: 'a word status_source))\<rparr>)"

datatype logic_op = LogicAnd | LogicOr | LogicXor

definition logic_apply :: "logic_op \<Rightarrow> 'a::len word \<Rightarrow> 'a word \<Rightarrow> 'a word alu_result" where
  "logic_apply operation left right =
     (let result = (case operation of LogicAnd \<Rightarrow> left AND right | LogicOr \<Rightarrow> left OR right | LogicXor \<Rightarrow> left XOR right)
      in \<lparr>ar_result = result, ar_flags = change_from (into_any (Logic result))\<rparr>)"

subsection \<open>shifts.rs\<close>

datatype shift_kind = ShLeft | ShRightLogical | ShRightArithmetic

datatype double_shift = DoubleLeft | DoubleRight

definition result_with_flags :: "'a::len word \<Rightarrow> bool \<Rightarrow> bool \<Rightarrow> u32 \<Rightarrow> 'a word alu_result" where
  "result_with_flags result carry overflow n =
     (let overflow = (overflow \<and> n = 1);
          flags = map (\<lambda>f. case f of CF \<Rightarrow> carry | OF \<Rightarrow> overflow | AF \<Rightarrow> False | _ \<Rightarrow> result_flag result f) STATUS_FLAGS
      in \<lparr>ar_result = result,
          ar_flags = change_when (Dynamic (n \<noteq> 0)) (change_from (into_any (Explicit flags :: 'a word status_source)))\<rparr>)"

definition shift_apply :: "shift_kind \<Rightarrow> 'a::len word \<Rightarrow> u32 \<Rightarrow> 'a word alu_result" where
  "shift_apply operation input n =
     (let width = LENGTH('a);
          result = (case operation of
              ShLeft \<Rightarrow> val_shl input n
            | ShRightLogical \<Rightarrow> val_shr_unsigned input n
            | ShRightArithmetic \<Rightarrow> val_shr_signed input n);
          carry = (case operation of
              ShLeft \<Rightarrow> odd (val_shr_unsigned input (of_nat width - n)) \<and> n < of_nat width
            | ShRightLogical \<Rightarrow> odd (val_shr_unsigned input (n - 1)) \<and> n < of_nat width
            | ShRightArithmetic \<Rightarrow> odd (val_shr_signed input (n - 1)));
          overflow = (case operation of
              ShLeft \<Rightarrow> val_bit result (width - 1) \<noteq> carry
            | ShRightLogical \<Rightarrow> val_bit input (width - 1)
            | ShRightArithmetic \<Rightarrow> False)
      in result_with_flags result carry overflow n)"

definition double_shift_apply :: "double_shift \<Rightarrow> 'a::len word \<Rightarrow> 'a word \<Rightarrow> u32 \<Rightarrow> 'a word alu_result" where
  "double_shift_apply operation input source n =
     (let width = LENGTH('a);
          wrap_count = of_nat width - n;
          input32 = ucast input :: u32;
          source32 = ucast source :: u32;
          shifted = (case operation of
              DoubleLeft \<Rightarrow> val_shl input32 n OR val_shr_unsigned source32 wrap_count
            | DoubleRight \<Rightarrow> val_shr_unsigned input32 n OR val_shl source32 wrap_count);
          result = (if n \<noteq> 0 then ucast shifted else input);
          carry = ((case operation of
              DoubleLeft \<Rightarrow> odd (val_shr_unsigned input wrap_count)
            | DoubleRight \<Rightarrow> odd (val_shr_unsigned input (n - 1))) \<and> n < of_nat (width + 1));
          overflow = (val_bit input (width - 1) \<noteq> val_bit result (width - 1))
      in result_with_flags result carry overflow n)"

subsection \<open>rotates.rs\<close>

datatype rotate_direction = RotLeft | RotRight

definition rotate_flags :: "rotate_direction \<Rightarrow> 'a::len word \<Rightarrow> bool \<Rightarrow> u32 \<Rightarrow> flag_change" where
  "rotate_flags direction result carry n =
     (let width = LENGTH('a);
          overflow = ((case direction of
              RotLeft \<Rightarrow> val_bit result (width - 1) \<noteq> carry
            | RotRight \<Rightarrow> val_bit result (width - 1) \<noteq> val_bit result (width - 2)) \<and> n = 1)
      in change_partial [(Status CF, carry), (Status OF, overflow)])"

definition rotate_apply :: "rotate_direction \<Rightarrow> 'a::len word \<Rightarrow> u32 \<Rightarrow> 'a word alu_result" where
  "rotate_apply direction input n =
     (let width = LENGTH('a);
          result = (case direction of RotLeft \<Rightarrow> val_rotl input n | RotRight \<Rightarrow> val_rotr input n);
          carry = (case direction of RotLeft \<Rightarrow> val_bit result 0 | RotRight \<Rightarrow> val_bit result (width - 1))
      in \<lparr>ar_result = result, ar_flags = change_when (Dynamic (n \<noteq> 0)) (rotate_flags direction result carry n)\<rparr>)"

definition reduce_carry_count :: "u32 \<Rightarrow> nat \<Rightarrow> u32" where
  "reduce_carry_count n ring_width =
     fold (\<lambda>multiple n. if multiple < 32 \<and> n \<ge> of_nat multiple then n - of_nat multiple else n)
       [2 * ring_width, ring_width] n"

definition rotate_ring :: "rotate_direction \<Rightarrow> 'r::len word \<Rightarrow> nat \<Rightarrow> u32 \<Rightarrow> 'r word" where
  "rotate_ring direction ring width n =
     (let wrap_count = of_nat width - n in
      case direction of
        RotLeft \<Rightarrow> val_shl ring n OR val_shr_unsigned ring wrap_count
      | RotRight \<Rightarrow> val_shr_unsigned ring n OR val_shl ring wrap_count)"

definition rotate_through_carry :: "rotate_direction \<Rightarrow> 'a::len word \<Rightarrow> u32 \<Rightarrow> bool \<Rightarrow> 'a word alu_result" where
  "rotate_through_carry direction input n carry =
     (let width = LENGTH('a);
          effective = reduce_carry_count n (width + 1);
          extended_input = ucast input :: u32;
          (rotated, rotated_carry) =
            (if width = 32
             then let ring = ucast extended_input OR val_shl (of_bool carry :: u64) (of_nat width);
                      rotated = rotate_ring direction ring (width + 1) effective
                  in (ucast (ucast rotated :: u32) :: 'a word, val_bit rotated width)
             else let ring = extended_input OR val_shl (of_bool carry) (of_nat width);
                      rotated = rotate_ring direction ring (width + 1) effective
                  in (ucast rotated, val_bit rotated width));
          has_rotation = (effective \<noteq> 0);
          result = (if has_rotation then rotated else input);
          carry = (if has_rotation then rotated_carry else carry)
      in \<lparr>ar_result = result, ar_flags = change_when (Dynamic has_rotation) (rotate_flags direction result carry n)\<rparr>)"

subsection \<open>multiply.rs, divide.rs\<close>

datatype multiply_op = MulSigned | MulUnsigned

definition multiply_apply :: "multiply_op \<Rightarrow> 'a::len word \<Rightarrow> 'a word \<Rightarrow> 'd::len word alu_result" where
  "multiply_apply operation left right =
     (let result = (case operation of
              MulSigned \<Rightarrow> scast left * scast right :: 'd word
            | MulUnsigned \<Rightarrow> ucast left * ucast right);
          overflow = (case operation of
              MulSigned \<Rightarrow> result \<noteq> scast (ucast result :: 'a word)
            | MulUnsigned \<Rightarrow> val_shr_unsigned result (of_nat LENGTH('a)) \<noteq> 0);
          flags = [overflow, True, False, False, False, overflow]
      in \<lparr>ar_result = result, ar_flags = change_from (into_any (Explicit flags :: 'a word status_source))\<rparr>)"

datatype divide_op = DivideUnsigned | DivideSigned

record 'v division_result =
  dr_quotient :: 'v
  dr_remainder :: 'v
  dr_overflow :: "bool option"

fun input_fault :: "divide_op \<Rightarrow> 'd::len word \<Rightarrow> 'a::len word \<Rightarrow> bool" where
  "input_fault DivideUnsigned dividend divisor = (ucast (val_shr_unsigned dividend (of_nat LENGTH('a))) \<ge> divisor)"
| "input_fault DivideSigned dividend divisor =
     (let zero = (divisor = 0) in
      if LENGTH('a) = 8 then zero
      else zero \<or> dividend = val_shl 1 (of_nat (LENGTH('a) * 2 - 1)) \<and> divisor = - 1)"

definition divide_apply :: "divide_op \<Rightarrow> 'd::len word \<Rightarrow> 'a::len word \<Rightarrow> 'a word division_result option" where
  "divide_apply operation dividend divisor =
     (let divisor = (case operation of DivideUnsigned \<Rightarrow> ucast divisor :: 'd word | DivideSigned \<Rightarrow> scast divisor) in
      Option.bind (case operation of DivideUnsigned \<Rightarrow> checked_div dividend divisor | DivideSigned \<Rightarrow> val_div_signed dividend divisor)
        (\<lambda>quotient.
          let overflow = (case operation of
                DivideUnsigned \<Rightarrow> None
              | DivideSigned \<Rightarrow> Some (quotient \<noteq> scast (ucast quotient :: 'a word)))
          in map_option
            (\<lambda>remainder. \<lparr>dr_quotient = ucast quotient, dr_remainder = ucast remainder, dr_overflow = overflow\<rparr>)
            (case operation of DivideUnsigned \<Rightarrow> checked_rem dividend divisor | DivideSigned \<Rightarrow> val_rem_signed dividend divisor)))"

subsection \<open>adjust.rs\<close>

definition adjust_unpacked :: "arithmetic_op \<Rightarrow> u16 \<Rightarrow> bool \<Rightarrow> u16 alu_result" where
  "adjust_unpacked operation accumulator auxiliary =
     (let adjust = (accumulator AND 0xF \<ge> 10 \<or> auxiliary);
          correction = (if adjust then 0x106 else 0);
          result = arithmetic_result operation accumulator correction AND 0xFF0F
      in \<lparr>ar_result = result, ar_flags = change_partial [(Status AF, adjust), (Status CF, adjust)]\<rparr>)"

definition adjust_packed :: "arithmetic_op \<Rightarrow> u8 \<Rightarrow> bool \<Rightarrow> bool \<Rightarrow> u8 alu_result" where
  "adjust_packed operation accumulator auxiliary carry =
     (let adjust_low = (accumulator AND 0xF \<ge> 10 \<or> auxiliary);
          adjust_high = (accumulator \<ge> 0x9A \<or> carry);
          low_correction = (if adjust_low then 6 else 0);
          correction = low_correction + (if adjust_high then 0x60 else 0);
          result = arithmetic_result operation accumulator correction;
          carry = (case operation of
              Add \<Rightarrow> adjust_high
            | Subtract \<Rightarrow> adjust_high \<or> adjust_low \<and> accumulator < 6)
      in \<lparr>ar_result = result,
          ar_flags = change_partial [(Status AF, adjust_low), (Status CF, carry), (Status PF, result_flag result PF),
            (Status ZF, result_flag result ZF), (Status SF, result_flag result SF)]\<rparr>)"

definition digit_flags :: "u8 \<Rightarrow> flag_change" where
  "digit_flags result = change_partial (map (\<lambda>f. (Status f, result_flag result f)) [PF, ZF, SF])"

text \<open>A zero base traps in the emitted division.\<close>

definition adjust_after_multiply :: "u8 \<Rightarrow> u8 \<Rightarrow> u16 alu_result option" where
  "adjust_after_multiply accumulator base =
     Option.bind (checked_div accumulator base) (\<lambda>high.
       map_option (\<lambda>low. \<lparr>ar_result = val_shl (ucast high) 8 OR ucast low, ar_flags = digit_flags low\<rparr>)
         (checked_rem accumulator base))"

definition adjust_before_division :: "u16 \<Rightarrow> u8 \<Rightarrow> u16 alu_result" where
  "adjust_before_division accumulator base =
     (let high = ucast (val_shr_unsigned accumulator 8);
          low = ucast accumulator + high * base
      in \<lparr>ar_result = ucast low, ar_flags = digit_flags low\<rparr>)"

subsection \<open>unary.rs, bit_scans.rs, bit_tests.rs, update.rs\<close>

datatype alu_unary_op = Increment | Decrement | Negate | Complement | ByteSwap

text \<open>A byte swap of another width is unreachable: \<open>None\<close>.\<close>

fun unary_apply :: "alu_unary_op \<Rightarrow> 'a::len word \<Rightarrow> 'a word alu_result option" where
  "unary_apply Increment input =
     (let outcome = arithmetic_apply Add input 1
      in Some \<lparr>ar_result = ar_result outcome, ar_flags = change_preserving (Status CF) (ar_flags outcome)\<rparr>)"
| "unary_apply Decrement input =
     (let outcome = arithmetic_apply Subtract input 1
      in Some \<lparr>ar_result = ar_result outcome, ar_flags = change_preserving (Status CF) (ar_flags outcome)\<rparr>)"
| "unary_apply Negate input = Some (arithmetic_apply Subtract 0 input)"
| "unary_apply Complement input = Some \<lparr>ar_result = input XOR - 1, ar_flags = change_partial []\<rparr>"
| "unary_apply ByteSwap input =
     (if LENGTH('a) = 16 then Some \<lparr>ar_result = 0, ar_flags = change_partial []\<rparr>
      else if LENGTH('a) = 32
      then Some \<lparr>ar_result = (val_rotl input 8 AND 0x00FF00FF) OR (val_rotr input 8 AND 0xFF00FF00), ar_flags = change_partial []\<rparr>
      else None)"

datatype bit_scan_op = ScanForward | ScanReverse

definition bit_scan_apply :: "bit_scan_op \<Rightarrow> 'a::len word \<Rightarrow> 'a word \<Rightarrow> 'a word alu_result" where
  "bit_scan_apply operation source previous =
     (let zero = (source = 0);
          index = (case operation of
              ScanForward \<Rightarrow> of_nat (trailing_zeros source)
            | ScanReverse \<Rightarrow> of_nat (LENGTH('a) - 1) - of_nat (leading_zeros source));
          flags = [False, even (count_ones source), False, zero, False, False]
      in \<lparr>ar_result = (if zero then previous else index),
          ar_flags = change_from (into_any (Explicit flags :: 'a word status_source))\<rparr>)"

datatype bit_test_op = BitTest | BitSet | BitReset | BitComplement

definition bit_test_mask :: "u32 \<Rightarrow> 'a::len word" where
  "bit_test_mask offset = val_shl 1 (offset AND of_nat (LENGTH('a) - 1))"

definition bit_test_apply :: "bit_test_op \<Rightarrow> 'a::len word \<Rightarrow> u32 \<Rightarrow> 'a word alu_result" where
  "bit_test_apply operation input offset =
     (let index = offset AND of_nat (LENGTH('a) - 1);
          carry = odd (val_shr_unsigned input index);
          selected = bit_test_mask offset;
          result = (case operation of
              BitTest \<Rightarrow> input
            | BitSet \<Rightarrow> input OR selected
            | BitReset \<Rightarrow> input AND (selected XOR - 1)
            | BitComplement \<Rightarrow> input XOR selected)
      in \<lparr>ar_result = result, ar_flags = change_partial [(Status CF, carry)]\<rparr>)"

datatype 'v operand_update =
  UpdateAdd 'v
| UpdateAddWithCarry 'v bool
| UpdateSubtract 'v
| UpdateSubtractWithBorrow 'v bool
| UpdateAnd 'v
| UpdateOr 'v
| UpdateXor 'v
| UpdateNegate
| UpdateExchange 'v
| UpdateCompareExchange 'v 'v

primrec update_apply :: "'a::len word operand_update \<Rightarrow> 'a word \<Rightarrow> 'a word" where
  "update_apply (UpdateAdd v) previous = arithmetic_result Add previous v"
| "update_apply (UpdateAddWithCarry source carry) previous = result_with_carry Add previous source carry"
| "update_apply (UpdateSubtract v) previous = arithmetic_result Subtract previous v"
| "update_apply (UpdateSubtractWithBorrow source borrow) previous = result_with_carry Subtract previous source borrow"
| "update_apply (UpdateAnd v) previous = previous AND v"
| "update_apply (UpdateOr v) previous = previous OR v"
| "update_apply (UpdateXor v) previous = previous XOR v"
| "update_apply UpdateNegate previous = 0 - previous"
| "update_apply (UpdateExchange v) previous = v"
| "update_apply (UpdateCompareExchange expected replacement) previous = (if expected = previous then replacement else previous)"

subsection \<open>Widths and flag changes\<close>

definition operand_width :: "'a::len itself \<Rightarrow> bool" where
  "operand_width _ \<longleftrightarrow> LENGTH('a) \<in> {8, 16, 32}"

lemma operand_width_cases:
  assumes "operand_width TYPE('a::len)"
  obtains "LENGTH('a) = 8" | "LENGTH('a) = 16" | "LENGTH('a) = 32"
  using assms by (auto simp: operand_width_def)

lemma operand_widthD:
  assumes "operand_width TYPE('a::len)"
  shows "8 \<le> LENGTH('a)" "LENGTH('a) \<le> 32" "LENGTH('a) \<noteq> 64"
  using assms by (auto simp: operand_width_def)

text \<open>A cast between types of one width keeps every bit.\<close>

lemma bit_same_width:
  "LENGTH('a::len) = LENGTH('b::len) \<Longrightarrow> bit (ucast (x :: 'a word) :: 'b word) n = bit x n"
  using bit_imp_le_length [of x n] by (auto simp: bit_ucast_iff)

lemma uint_same_width:
  assumes "LENGTH('a::len) = LENGTH('b::len)"
  shows "uint (ucast (x :: 'a word) :: 'b word) = uint x"
proof -
  have "take_bit LENGTH('a) (uint x) = uint x" by (simp add: take_bit_int_eq_self_iff)
  then show ?thesis by (simp only: assms unsigned_ucast_eq)
qed

lemma ucast_same_width:
  assumes "LENGTH('a::len) = LENGTH('b::len)"
  shows "ucast (arithmetic_result op x y :: 'a word) = arithmetic_result op (ucast x :: 'b word) (ucast y)"
proof -
  have "uint (ucast (arithmetic_result op x y) :: 'b word) = uint (arithmetic_result op (ucast x :: 'b word) (ucast y))"
    using assms by (cases op) (simp_all add: uint_same_width uint_word_ariths)
  then show ?thesis by (simp only: word_uint_eq_iff)
qed

lemma count_ones_same_width:
  assumes "LENGTH('a::len) = LENGTH('b::len)" and "\<And>n. bit (x :: 'a word) n = bit (y :: 'b word) n"
  shows "count_ones x = count_ones y"
proof -
  have "bit x = bit y" using assms(2) by (rule ext)
  then show ?thesis by (simp only: count_ones_def assms(1))
qed

lemma result_flag_same_width:
  assumes "LENGTH('a::len) = LENGTH('b::len)"
  shows "result_flag (ucast (x :: 'a word) :: 'b word) f = result_flag x f"
proof -
  have "count_ones (ucast x AND 0xFF :: 'b word) = count_ones (x AND 0xFF)"
  proof (rule count_ones_same_width [OF assms [symmetric]])
    show "bit (ucast x AND 0xFF :: 'b word) n = bit (x AND 0xFF) n" for n
      using assms bit_same_width [OF assms, of x n] by (auto simp: bit_and_iff bit_numeral_word_iff)
  qed
  moreover have "(ucast x :: 'b word) = 0 \<longleftrightarrow> x = 0" using uint_same_width [OF assms, of x] by (metis unsigned_eq_0_iff)
  ultimately show ?thesis using assms bit_same_width [OF assms, of x] by (cases f) simp_all
qed

lemma arithmetic_flag_same_width:
  assumes "LENGTH('a::len) = LENGTH('b::len)"
  shows "arithmetic_flag op (ucast (l :: 'a word) :: 'b word) (ucast r) (ucast x) c f = arithmetic_flag op l r x c f"
proof (cases f)
  case CF
  then show ?thesis by (cases op) (simp_all add: word_less_def word_le_def uint_same_width [OF assms])
next
  case OF
  then show ?thesis using assms by (cases op) (simp_all add: bit_same_width [OF assms] bit_and_iff bit_xor_iff)
next
  case AF
  then show ?thesis by (simp add: bit_same_width [OF assms] bit_xor_iff)
qed (simp_all add: result_flag_same_width [OF assms] del: result_flag.simps)

lemma source_flag_same_width:
  assumes "LENGTH('a::len) = LENGTH('b::len)"
  shows "source_flag (map_status_source ucast (s :: 'a word status_source) :: 'b word status_source) f = source_flag s f"
proof (cases s)
  case (Arithmetic op l r x)
  then show ?thesis by (simp add: arithmetic_flag_same_width [OF assms] del: arithmetic_flag.simps)
next
  case (Logic x)
  then show ?thesis by (cases f) (simp_all add: result_flag_same_width [OF assms] del: result_flag.simps)
qed simp

lemma into_any_flag:
  fixes s :: "'a::len word status_source"
  assumes "operand_width TYPE('a)"
  shows "any_flag (into_any s) f = source_flag s f"
  using assms by (cases rule: operand_width_cases) (simp_all add: into_any_def source_flag_same_width)

lemma source_ok_same_width:
  assumes "LENGTH('a::len) = LENGTH('b::len)" and "source_ok (s :: 'a word status_source)"
  shows "source_ok (map_status_source ucast s :: 'b word status_source)"
  using assms(2) by (cases s) (simp_all add: ucast_same_width [OF assms(1)])

lemma into_any_ok:
  fixes s :: "'a::len word status_source"
  assumes "operand_width TYPE('a)" and "source_ok s"
  shows "any_ok (into_any s)"
  using assms(1) by (cases rule: operand_width_cases) (simp_all add: into_any_def source_ok_same_width assms(2))

lemma apply_change_from: "apply_change (change_from source) v = any_flag source"
  by (auto simp: apply_change_def change_from_def change_flag_def select_update_def)

lemma apply_change_when:
  "fc_condition ch = None \<Longrightarrow> apply_change (change_when p ch) v = (if truth p then apply_change ch v else v)"
  by (auto simp: apply_change_def change_when_def change_flag_def select_update_def fun_eq_iff)

lemma change_from_condition [simp]: "fc_condition (change_from source) = None"
  by (simp add: change_from_def)

lemma change_partial_condition [simp]: "fc_condition (change_partial flags) = None"
  by (simp add: change_partial_def split: prod.splits)

lemma apply_change_preserving:
  "apply_change (change_preserving (Status g) ch) v f = (if f = g then v f else apply_change ch v f)"
proof -
  have c: "mask_contains (mask_without MASK_ALL (Status g)) (Status f) \<longleftrightarrow> f \<noteq> g"
    by (cases f; cases g) (simp_all add: mask_without_def mask_of_def mask_contains_def mask_intersects_def)
  then show ?thesis
    using change_retaining_flag [of "mask_without MASK_ALL (Status g)" "Status f" ch]
    by (auto simp: change_preserving_def apply_change_def) (simp_all add: change_retaining_def Let_def)
qed

text \<open>Carry and overflow alone, as rotates write them.\<close>

lemma apply_carry_overflow:
  "apply_change (change_partial [(Status CF, c), (Status OF, ov)]) v f = (case f of CF \<Rightarrow> c | OF \<Rightarrow> ov | _ \<Rightarrow> v f)"
  by (cases f) (simp_all add: apply_change_def change_partial_def change_flag_def select_update_def)

text \<open>The flags an explicit source of the six leaves.\<close>

lemma apply_explicit:
  assumes "operand_width TYPE('a::len)"
  shows "apply_change (change_from (into_any (Explicit (map g STATUS_FLAGS) :: 'a word status_source))) v f = g f"
  using into_any_flag [OF assms, of "Explicit (map g STATUS_FLAGS)" f]
  by (cases f) (simp_all add: apply_change_from STATUS_FLAGS_def)

subsection \<open>Shifts\<close>

text \<open>One bit at a time: the shifted value and the bit that left it.\<close>

fun shift_step :: "shift_kind \<Rightarrow> 'a::len word \<times> bool \<Rightarrow> 'a word \<times> bool" where
  "shift_step ShLeft (x, c) = (push_bit 1 x, bit x (LENGTH('a) - 1))"
| "shift_step ShRightLogical (x, c) = (drop_bit 1 x, bit x 0)"
| "shift_step ShRightArithmetic (x, c) = (signed_drop_bit 1 x, bit x 0)"

lemma funpow_step: "(f ^^ Suc (Suc n)) s = f ((f ^^ Suc n) s)"
  by simp

lemma shift_steps:
  fixes x :: "'a::len word"
  shows "(shift_step ShLeft ^^ Suc n) (x, c) = (push_bit (Suc n) x, n < LENGTH('a) \<and> bit x (LENGTH('a) - Suc n))"
    and "(shift_step ShRightLogical ^^ Suc n) (x, c) = (drop_bit (Suc n) x, bit x n)"
    and "(shift_step ShRightArithmetic ^^ Suc n) (x, c) = (signed_drop_bit (Suc n) x, bit (signed_drop_bit n x) 0)"
proof -
  show "(shift_step ShLeft ^^ Suc n) (x, c) = (push_bit (Suc n) x, n < LENGTH('a) \<and> bit x (LENGTH('a) - Suc n))"
  proof (induction n)
    case (Suc n)
    have "bit (push_bit (Suc n) x) (LENGTH('a) - 1) \<longleftrightarrow> Suc n < LENGTH('a) \<and> bit x (LENGTH('a) - Suc (Suc n))"
      unfolding bit_push_bit_iff by auto
    then show ?case unfolding funpow_step Suc by (simp only: shift_step.simps push_bit_push_bit plus_1_eq_Suc)
  qed simp
  show "(shift_step ShRightLogical ^^ Suc n) (x, c) = (drop_bit (Suc n) x, bit x n)"
  proof (induction n)
    case (Suc n)
    show ?case unfolding funpow_step Suc by (simp add: bit_drop_bit_eq)
  qed simp
  show "(shift_step ShRightArithmetic ^^ Suc n) (x, c) = (signed_drop_bit (Suc n) x, bit (signed_drop_bit n x) 0)"
  proof (induction n)
    case (Suc n)
    show ?case unfolding funpow_step Suc by simp
  qed simp
qed

lemma shift_amount_eq:
  fixes x :: "'a::len word"
  assumes "operand_width TYPE('a)" and "unat n < 32"
  shows "shift_amount x n = unat n"
  using assms operand_widthD(3) [OF assms(1)] by (simp add: shift_amount_def)

lemma width_minus_count:
  assumes "unat n \<le> w" and "w \<le> 64"
  shows "unat (of_nat w - n :: u32) = w - unat n"
proof -
  have "unat (of_nat w :: u32) = w" using assms(2) by (simp add: unat_of_nat take_bit_nat_eq_self)
  moreover from this have "n \<le> of_nat w" using assms(1) by (simp add: word_le_nat_alt)
  ultimately show ?thesis by (simp add: unat_sub)
qed

lemma count_minus_one: "n \<noteq> 0 \<Longrightarrow> unat (n - 1 :: u32) = unat n - 1"
  by (metis unat_minus_one)

lemma odd_bit: "odd (w :: 'a::len word) = bit w 0"
  by (simp add: bit_0)

lemma result_with_flags_apply:
  fixes y :: "'a::len word"
  assumes "operand_width TYPE('a)"
  shows "ar_result (result_with_flags y c ov n) = y"
    and "apply_change (ar_flags (result_with_flags y c ov n)) v =
      (if n = 0 then v else (\<lambda>f. case f of CF \<Rightarrow> c | OF \<Rightarrow> ov \<and> n = 1 | AF \<Rightarrow> False | _ \<Rightarrow> result_flag y f))"
  by (simp_all add: result_with_flags_def Let_def apply_change_when apply_explicit [OF assms] fun_eq_iff)

lemma less_of_nat_width: "w \<le> 64 \<Longrightarrow> n < (of_nat w :: u32) \<longleftrightarrow> unat n < w"
  by (simp add: word_less_nat_alt unat_of_nat take_bit_nat_eq_self)

lemma shift_apply_steps:
  fixes x :: "'a::len word"
  assumes "operand_width TYPE('a)" and "unat n < 32" and s_def: "s = (shift_step op ^^ unat n) (x, False)"
  shows "ar_result (shift_apply op x n) = fst s"
    and "apply_change (ar_flags (shift_apply op x n)) v =
      (if n = 0 then v else (\<lambda>f. case f of
          CF \<Rightarrow> snd s \<and> (op = ShRightArithmetic \<or> unat n < LENGTH('a))
        | OF \<Rightarrow> n = 1 \<and> bit (fst s) (LENGTH('a) - 1) \<noteq> bit x (LENGTH('a) - 1)
        | AF \<Rightarrow> False | _ \<Rightarrow> result_flag (fst s) f))"
proof -
  note w = operand_widthD [OF assms(1)]
  note defs = shift_apply_def Let_def result_with_flags_apply [OF assms(1)] val_shl_def val_shr_unsigned_def val_shr_signed_def
    shift_amount_eq [OF assms(1,2)]
  show "ar_result (shift_apply op x n) = fst s"
  proof (cases "unat n")
    case 0
    then show ?thesis by (cases op) (simp_all add: defs s_def)
  next
    case (Suc m)
    then show ?thesis unfolding s_def Suc by (cases op) (simp_all only: shift_steps fst_conv defs Suc shift_kind.case)
  qed
  show "apply_change (ar_flags (shift_apply op x n)) v =
      (if n = 0 then v else (\<lambda>f. case f of
          CF \<Rightarrow> snd s \<and> (op = ShRightArithmetic \<or> unat n < LENGTH('a))
        | OF \<Rightarrow> n = 1 \<and> bit (fst s) (LENGTH('a) - 1) \<noteq> bit x (LENGTH('a) - 1)
        | AF \<Rightarrow> False | _ \<Rightarrow> result_flag (fst s) f))"
  proof (cases "n = 0")
    case True
    then show ?thesis by (simp add: defs)
  next
    case False
    then obtain m where m: "unat n = Suc m" by (metis not0_implies_Suc unat_eq_0)
    have below: "shift_amount x (n - 1) = m"
      using shift_amount_eq [OF assms(1), of "n - 1" x] count_minus_one [OF False] m assms(2) by simp
    have above: "shift_amount x (of_nat LENGTH('a) - n) = LENGTH('a) - Suc m" if "Suc m < LENGTH('a)"
      using shift_amount_eq [OF assms(1), of "of_nat LENGTH('a) - n" x] width_minus_count [of n "LENGTH('a)"] m that w by simp
    have one: "n = 1 \<longleftrightarrow> m = 0" using m by (metis One_nat_def nat.inject unat_1 word_unat_eq_iff)
    have sgn: "n < of_nat LENGTH('a) \<longleftrightarrow> Suc m < LENGTH('a)" using less_of_nat_width [of "LENGTH('a)" n] w m by simp
    show ?thesis
    proof (cases op)
      case ShLeft
      have "s = (push_bit (Suc m) x, m < LENGTH('a) \<and> bit x (LENGTH('a) - Suc m))" unfolding s_def m ShLeft by (rule shift_steps)
      then show ?thesis using False w
        by (auto simp: ShLeft defs m sgn one odd_bit bit_drop_bit_eq above fun_eq_iff simp del: result_flag.simps push_bit_Suc split: status_flag.split)
    next
      case ShRightLogical
      have "s = (drop_bit (Suc m) x, bit x m)" unfolding s_def m ShRightLogical by (rule shift_steps)
      then show ?thesis using False w
        by (auto simp: ShRightLogical defs m sgn one odd_bit bit_drop_bit_eq below fun_eq_iff simp del: result_flag.simps split: status_flag.split
          dest: bit_imp_le_length)
    next
      case ShRightArithmetic
      have "s = (signed_drop_bit (Suc m) x, bit (signed_drop_bit m x) 0)" unfolding s_def m ShRightArithmetic by (rule shift_steps)
      then show ?thesis using False w
        by (auto simp: ShRightArithmetic defs m one odd_bit below bit_signed_drop_bit_iff fun_eq_iff simp del: result_flag.simps split: status_flag.split)
    qed
  qed
qed

subsection \<open>Rotates\<close>

fun rotate_step :: "rotate_direction \<Rightarrow> 'a::len word \<times> bool \<Rightarrow> 'a word \<times> bool" where
  "rotate_step RotLeft (x, c) = (word_rotl 1 x, bit x (LENGTH('a) - 1))"
| "rotate_step RotRight (x, c) = (word_rotr 1 x, bit x 0)"

lemma word_rotl_mod: "word_rotl (n mod LENGTH('a)) (x :: 'a::len word) = word_rotl n x"
  by (rule bit_word_eqI) (simp add: bit_word_rotl_iff)

lemma word_rotr_mod: "word_rotr (n mod LENGTH('a)) (x :: 'a::len word) = word_rotr n x"
  by (rule bit_word_eqI) (simp add: bit_word_rotr_iff mod_add_right_eq)

lemma word_rot_0 [simp]: "word_rotl 0 x = x" "word_rotr 0 x = (x :: 'a::len word)"
  by (rule bit_word_eqI, simp add: bit_word_rotl_iff bit_word_rotr_iff)+

lemma rotate_steps:
  fixes x :: "'a::len word"
  shows "(rotate_step RotLeft ^^ Suc n) (x, c) = (word_rotl (Suc n) x, bit (word_rotl (Suc n) x) 0)"
    and "(rotate_step RotRight ^^ Suc n) (x, c) = (word_rotr (Suc n) x, bit (word_rotr (Suc n) x) (LENGTH('a) - 1))"
proof -
  have left: "rotate_step RotLeft (y, b) = (word_rotl 1 y, bit (word_rotl 1 y) 0)" for y :: "'a word" and b
  proof (cases "LENGTH('a) = 1")
    case False
    then have "1 mod LENGTH('a) = 1" by (metis len_gt_0 mod_less nat_neq_iff less_one)
    then show ?thesis by (simp add: bit_word_rotl_iff)
  qed (simp add: bit_word_rotl_iff)
  have right: "rotate_step RotRight (y, b) = (word_rotr 1 y, bit (word_rotr 1 y) (LENGTH('a) - 1))" for y :: "'a word" and b
    by (simp add: bit_word_rotr_iff)
  have add: "word_rotl 1 (word_rotl k x) = word_rotl (Suc k) x" "word_rotr 1 (word_rotr k x) = word_rotr (Suc k) x" for k
    unfolding word_rotl_rev by (simp_all add: word_rotr_word_rotr_eq)
  show "(rotate_step RotLeft ^^ Suc n) (x, c) = (word_rotl (Suc n) x, bit (word_rotl (Suc n) x) 0)"
  proof (induction n)
    case (Suc n)
    show ?case unfolding funpow_step Suc left add ..
  next
    case 0
    show ?case using left [of x c] by simp
  qed
  show "(rotate_step RotRight ^^ Suc n) (x, c) = (word_rotr (Suc n) x, bit (word_rotr (Suc n) x) (LENGTH('a) - 1))"
  proof (induction n)
    case (Suc n)
    show ?case unfolding funpow_step Suc right add ..
  next
    case 0
    show ?case using right [of x c] by simp
  qed
qed

lemma rotate_apply_steps:
  fixes x :: "'a::len word"
  assumes s_def: "s = (rotate_step d ^^ unat n) (x, v CF)"
  shows "ar_result (rotate_apply d x n) = fst s"
    and "apply_change (ar_flags (rotate_apply d x n)) v f = (case f of
        CF \<Rightarrow> snd s
      | OF \<Rightarrow> if n = 0 then v OF else n = 1 \<and> (case d of RotLeft \<Rightarrow> bit (fst s) (LENGTH('a) - 1) \<noteq> snd s
          | RotRight \<Rightarrow> bit (fst s) (LENGTH('a) - 1) \<noteq> bit (fst s) (LENGTH('a) - 2))
      | _ \<Rightarrow> v f)"
proof -
  note defs = rotate_apply_def rotate_flags_def Let_def val_rotl_def val_rotr_def word_rotl_mod word_rotr_mod apply_change_when apply_carry_overflow
  show "ar_result (rotate_apply d x n) = fst s"
  proof (cases "unat n")
    case 0
    then show ?thesis by (cases d) (simp_all add: defs s_def)
  next
    case (Suc m)
    then show ?thesis unfolding s_def Suc by (cases d) (simp_all only: rotate_steps fst_conv defs Suc rotate_direction.case alu_result.simps)
  qed
  show "apply_change (ar_flags (rotate_apply d x n)) v f = (case f of
        CF \<Rightarrow> snd s
      | OF \<Rightarrow> if n = 0 then v OF else n = 1 \<and> (case d of RotLeft \<Rightarrow> bit (fst s) (LENGTH('a) - 1) \<noteq> snd s
          | RotRight \<Rightarrow> bit (fst s) (LENGTH('a) - 1) \<noteq> bit (fst s) (LENGTH('a) - 2))
      | _ \<Rightarrow> v f)"
  proof (cases "unat n")
    case 0
    then have "n = 0" by (simp add: unat_eq_0)
    then show ?thesis by (cases f) (simp_all add: defs s_def)
  next
    case (Suc m)
    then have "n \<noteq> 0" by auto
    then show ?thesis unfolding s_def Suc
      by (cases d; cases f) (auto simp: rotate_steps defs Suc simp del: funpow.simps(2))
  qed
qed

text \<open>Through the carry: operand and carry form a ring of one more bit.\<close>

fun carry_step :: "rotate_direction \<Rightarrow> 'a::len word \<times> bool \<Rightarrow> 'a word \<times> bool" where
  "carry_step RotLeft (x, c) = (push_bit 1 x OR of_bool c, bit x (LENGTH('a) - 1))"
| "carry_step RotRight (x, c) = (drop_bit 1 x OR push_bit (LENGTH('a) - 1) (of_bool c), bit x 0)"

definition ring_bit :: "'a::len word \<times> bool \<Rightarrow> nat \<Rightarrow> bool" where
  "ring_bit s j = (if j = LENGTH('a) then snd s else bit (fst s) j)"

lemma ring_eqI:
  fixes s t :: "'a::len word \<times> bool"
  assumes "\<And>j. j \<le> LENGTH('a) \<Longrightarrow> ring_bit s j = ring_bit t j"
  shows "s = t"
proof (rule prod_eqI)
  show "fst s = fst t"
  proof (rule bit_word_eqI)
    show "bit (fst s) n = bit (fst t) n" if "n < LENGTH('a)" for n using assms [of n] that by (simp add: ring_bit_def)
  qed
  show "snd s = snd t" using assms [of "LENGTH('a)"] by (simp add: ring_bit_def)
qed

lemma ring_bit_step:
  fixes s :: "'a::len word \<times> bool"
  assumes "j \<le> LENGTH('a)"
  shows "ring_bit (carry_step RotLeft s) j = ring_bit s (if j = 0 then LENGTH('a) else j - 1)"
    and "ring_bit (carry_step RotRight s) j = ring_bit s (if j = LENGTH('a) then 0 else j + 1)"
proof -
  obtain x c where s: "s = (x, c)" by (cases s)
  have ne: "LENGTH('a) - Suc 0 \<noteq> LENGTH('a)" using len_gt_0 [where 'a = 'a] by linarith
  show "ring_bit (carry_step RotLeft s) j = ring_bit s (if j = 0 then LENGTH('a) else j - 1)"
    using assms unfolding s carry_step.simps ring_bit_def fst_conv snd_conv bit_or_iff bit_push_bit_iff
    by (auto simp: bit_of_bool_iff ne)
  show "ring_bit (carry_step RotRight s) j = ring_bit s (if j = LENGTH('a) then 0 else j + 1)"
    using assms unfolding s carry_step.simps ring_bit_def fst_conv snd_conv bit_or_iff bit_push_bit_iff bit_drop_bit_eq comp_apply
    by (auto simp: bit_of_bool_iff ne dest: bit_imp_le_length)
qed

lemma ring_bit_steps:
  fixes s :: "'a::len word \<times> bool"
  assumes "j \<le> LENGTH('a)"
  shows "ring_bit ((carry_step RotLeft ^^ n) s) j = ring_bit s ((j + n * LENGTH('a)) mod (LENGTH('a) + 1))"
    and "ring_bit ((carry_step RotRight ^^ n) s) j = ring_bit s ((j + n) mod (LENGTH('a) + 1))"
proof -
  let ?w = "LENGTH('a)"
  show "ring_bit ((carry_step RotLeft ^^ n) s) j = ring_bit s ((j + n * ?w) mod (?w + 1))"
    using assms
  proof (induction n arbitrary: j)
    case (Suc n)
    let ?k = "if j = 0 then ?w else j - 1"
    have k: "?k = (j + ?w) mod (?w + 1)"
    proof (cases "j = 0")
      case False
      then have "j + ?w = (j - 1) + (?w + 1)" by simp
      then have "(j + ?w) mod (?w + 1) = (j - 1) mod (?w + 1)" by (metis mod_add_self2)
      with False Suc.prems show ?thesis by simp
    qed simp
    then have "?k \<le> ?w" using Suc.prems by auto
    from Suc.IH [OF this] have "ring_bit ((carry_step RotLeft ^^ Suc n) s) j = ring_bit s ((?k + n * ?w) mod (?w + 1))"
      using ring_bit_step(1) [OF Suc.prems] by simp
    then show ?case unfolding k by (simp only: mod_add_left_eq mult_Suc add.assoc)
  qed simp
  show "ring_bit ((carry_step RotRight ^^ n) s) j = ring_bit s ((j + n) mod (?w + 1))"
    using assms
  proof (induction n arbitrary: j)
    case (Suc n)
    let ?k = "if j = ?w then 0 else j + 1"
    have k: "?k = (j + 1) mod (?w + 1)" using Suc.prems by auto
    then have "?k \<le> ?w" using Suc.prems by auto
    from Suc.IH [OF this] have "ring_bit ((carry_step RotRight ^^ Suc n) s) j = ring_bit s ((?k + n) mod (?w + 1))"
      using ring_bit_step(2) [OF Suc.prems] by simp
    then show ?case unfolding k by (simp only: mod_add_left_eq) simp
  qed simp
qed

lemma unat_reduce_carry_count:
  assumes "unat n < 32" and "w \<in> {8, 16, 32}"
  shows "unat (reduce_carry_count n (w + 1)) = unat n mod (w + 1)"
proof -
  have sub: "unat (n - of_nat k) = unat n - k" if "of_nat k \<le> n" "k < 32" for n :: u32 and k :: nat
    using that by (simp add: unat_sub unat_of_nat take_bit_nat_eq_self)
  have le: "of_nat k \<le> n \<longleftrightarrow> k \<le> unat n" if "k < 32" for n :: u32 and k :: nat
    using that by (simp add: word_le_nat_alt unat_of_nat take_bit_nat_eq_self)
  consider "w = 8" | "w = 16" | "w = 32" using assms(2) by blast
  then show ?thesis
  proof cases
    case 1
    show ?thesis using assms(1) sub [of 18 n] sub [of 9 n] sub [of 9 "n - 18"] le [of 18 n] le [of 9 n] le [of 9 "n - 18"]
      by (auto simp: reduce_carry_count_def 1 mod_nat_eqI mod_if)
  next
    case 2
    show ?thesis using assms(1) sub [of 17 n] le [of 17 n] by (auto simp: reduce_carry_count_def 2 mod_if)
  next
    case 3
    then show ?thesis using assms(1) by (simp add: reduce_carry_count_def)
  qed
qed

text \<open>The emitted rotation of a ring held in a wider word.\<close>

lemma rotate_ring_bit:
  fixes ring :: "'r::len word" and s :: "'a::len word \<times> bool"
  assumes "\<And>j. bit ring j \<longleftrightarrow> j \<le> LENGTH('a) \<and> ring_bit s j"
    and "unat e \<le> LENGTH('a)" and "LENGTH('a) + 1 < LENGTH('r)"
    and "LENGTH('r) = 64 \<and> LENGTH('a) < 63 \<or> LENGTH('r) \<noteq> 64 \<and> LENGTH('a) < 31"
    and "j \<le> LENGTH('a)" and "unat e \<noteq> 0"
  shows "bit (rotate_ring RotLeft ring (LENGTH('a) + 1) e) j = ring_bit s ((j + (LENGTH('a) + 1 - unat e)) mod (LENGTH('a) + 1))"
    and "bit (rotate_ring RotRight ring (LENGTH('a) + 1) e) j = ring_bit s ((j + unat e) mod (LENGTH('a) + 1))"
proof -
  let ?w = "LENGTH('a)"
  have e: "shift_amount ring e = unat e" using assms(2,4) by (auto simp: shift_amount_def)
  have u: "unat (of_nat (?w + 1) - e) = ?w + 1 - unat e" using width_minus_count [of e "?w + 1"] assms(2,4) by auto
  have k: "shift_amount ring (of_nat (?w + 1) - e) = ?w + 1 - unat e"
    unfolding shift_amount_def u using assms(2,4,6) by auto
  show "bit (rotate_ring RotLeft ring (?w + 1) e) j = ring_bit s ((j + (?w + 1 - unat e)) mod (?w + 1))"
    unfolding rotate_ring_def Let_def rotate_direction.case val_shl_def val_shr_unsigned_def e k bit_or_iff bit_push_bit_iff bit_drop_bit_eq
      comp_apply assms(1)
    using assms(2,3,5,6) by (cases "unat e \<le> j") (auto simp: mod_if add.commute)
  show "bit (rotate_ring RotRight ring (?w + 1) e) j = ring_bit s ((j + unat e) mod (?w + 1))"
    unfolding rotate_ring_def Let_def rotate_direction.case val_shl_def val_shr_unsigned_def e k bit_or_iff bit_push_bit_iff bit_drop_bit_eq
      comp_apply assms(1)
    using assms(2,3,5,6) by (cases "j + unat e \<le> ?w") (auto simp: mod_if add.commute)
qed

lemma ring_steps_mod:
  fixes w n :: nat
  assumes "e = n mod (w + 1)"
  shows "(j + n * w) mod (w + 1) = (j + (w + 1 - e)) mod (w + 1)" "(j + n) mod (w + 1) = (j + e) mod (w + 1)"
proof -
  have "int ((j + n * w) mod (w + 1)) = (int j - int n) mod int (w + 1)"
  proof -
    have "int (j + n * w) = (int j - int n) + int n * int (w + 1)" by (simp add: algebra_simps)
    then show ?thesis unfolding zmod_int by (metis mod_mult_self1)
  qed
  also have "\<dots> = (int j - int e) mod int (w + 1)" unfolding assms by (simp only: zmod_int mod_diff_right_eq)
  also have "\<dots> = (int j - int e + int (w + 1)) mod int (w + 1)" by (simp only: mod_add_self2)
  also have "\<dots> = int ((j + (w + 1 - e)) mod (w + 1))"
  proof -
    have "e < w + 1" using assms by simp
    then show ?thesis by (simp add: zmod_int of_nat_diff algebra_simps)
  qed
  finally show "(j + n * w) mod (w + 1) = (j + (w + 1 - e)) mod (w + 1)" by (simp only: of_nat_eq_iff)
  show "(j + n) mod (w + 1) = (j + e) mod (w + 1)" unfolding assms by (simp only: mod_add_right_eq)
qed

lemma carry_ring:
  fixes x :: "'a::len word"
  assumes "operand_width TYPE('a)"
  shows "LENGTH('a) = 32 \<Longrightarrow> bit (ucast (ucast x :: u32) OR val_shl (of_bool c :: u64) (of_nat LENGTH('a))) j \<longleftrightarrow>
      j \<le> LENGTH('a) \<and> ring_bit (x, c) j"
    and "LENGTH('a) \<noteq> 32 \<Longrightarrow> bit ((ucast x :: u32) OR val_shl (of_bool c) (of_nat LENGTH('a))) j \<longleftrightarrow>
      j \<le> LENGTH('a) \<and> ring_bit (x, c) j"
  using assms by (cases rule: operand_width_cases;
    auto simp: ring_bit_def val_shl_def shift_amount_def bit_simps bit_push_bit_iff bit_of_bool_iff dest: bit_imp_le_length)+

lemma rotate_through_carry_steps:
  fixes x :: "'a::len word"
  assumes "operand_width TYPE('a)" and "unat n < 32" and r_def: "r = rotate_through_carry d x n (v CF)"
  shows "(ar_result r, apply_change (ar_flags r) v CF) = (carry_step d ^^ unat n) (x, v CF)"
proof (rule ring_eqI)
  let ?w = "LENGTH('a)" and ?e = "reduce_carry_count n (LENGTH('a) + 1)" and ?c = "v CF"
  let ?turn = "\<lambda>j. case d of RotLeft \<Rightarrow> (j + (?w + 1 - unat ?e)) mod (?w + 1) | RotRight \<Rightarrow> (j + unat ?e) mod (?w + 1)"
  note defs = r_def rotate_through_carry_def Let_def apply_change_when rotate_flags_def apply_carry_overflow
  have w: "?w \<in> {8, 16, 32}" using assms(1) by (simp add: operand_width_def)
  have e: "unat ?e = unat n mod (?w + 1)" by (rule unat_reduce_carry_count [OF assms(2) w])
  fix j assume j: "j \<le> ?w"
  have steps: "ring_bit ((carry_step d ^^ unat n) (x, ?c)) j = ring_bit (x, ?c) (?turn j)"
    using ring_bit_steps [OF j, of "unat n" "(x, ?c)"] ring_steps_mod [OF e, of j] by (cases d) simp_all
  show "ring_bit (ar_result r, apply_change (ar_flags r) v CF) j = ring_bit ((carry_step d ^^ unat n) (x, ?c)) j"
  proof (cases "?e = 0")
    case True
    then have "ring_bit (x, ?c) (?turn j) = ring_bit (x, ?c) j"
      using j mod_add_self2 [of j "?w + 1"] by (cases d) simp_all
    moreover have "ar_result r = x" "apply_change (ar_flags r) v CF = ?c"
      using True by (cases "?w = 32"; simp add: defs)+
    ultimately show ?thesis using steps by simp
  next
    case False
    have le: "unat ?e \<le> ?w" using e by simp
    have le': "unat ?e \<noteq> 0" using False unat_eq_0 [of ?e] by blast
    show ?thesis
    proof (cases "?w = 32")
      case True
      let ?ring = "ucast (ucast x :: u32) OR val_shl (of_bool ?c :: u64) (of_nat ?w)"
      have "bit (rotate_ring d ?ring (?w + 1) ?e) j = ring_bit (x, ?c) (?turn j)"
        using rotate_ring_bit [OF carry_ring(1) [OF assms(1) True] le _ _ j le'] True by (cases d) simp_all
      moreover have "ar_result r = ucast (ucast (rotate_ring d ?ring (?w + 1) ?e) :: u32)"
          "apply_change (ar_flags r) v CF = bit (rotate_ring d ?ring (?w + 1) ?e) ?w"
        using True False by (simp_all add: defs)
      ultimately show ?thesis using steps True j by (auto simp: ring_bit_def bit_ucast_iff)
    next
      case narrow: False
      let ?ring = "(ucast x :: u32) OR val_shl (of_bool ?c) (of_nat ?w)"
      have w16: "?w < 31" using w narrow by auto
      have "bit (rotate_ring d ?ring (?w + 1) ?e) j = ring_bit (x, ?c) (?turn j)"
        using rotate_ring_bit [OF carry_ring(2) [OF assms(1) narrow] le _ _ j le'] w16 by (cases d) simp_all
      moreover have "ar_result r = ucast (rotate_ring d ?ring (?w + 1) ?e)"
          "apply_change (ar_flags r) v CF = bit (rotate_ring d ?ring (?w + 1) ?e) ?w"
        using narrow False by (simp_all add: defs)
      ultimately show ?thesis using steps j w16 by (auto simp: ring_bit_def bit_ucast_iff)
    qed
  qed
qed

subsection \<open>Products and quotients\<close>

lemma uint_product:
  fixes l r :: "'a::len word"
  assumes "LENGTH('d::len) = 2 * LENGTH('a)"
  shows "uint (ucast l * ucast r :: 'd word) = uint l * uint r"
proof -
  have "uint l * uint r < 2 ^ LENGTH('a) * 2 ^ LENGTH('a)" by (intro mult_strict_mono') simp_all
  then have "uint l * uint r < 2 ^ LENGTH('d)" using assms by (simp add: power_add [symmetric] mult_2)
  then show ?thesis
    using assms by (simp add: uint_word_ariths unsigned_ucast_eq take_bit_int_eq_self_iff
      take_bit_int_eq_self order.strict_trans2 [OF uint_lt2p] mod_pos_pos_trivial)
qed

text \<open>A signed value of the double width fits the operand when its low half extends back to it.\<close>

definition fits_signed :: "nat \<Rightarrow> int \<Rightarrow> bool" where
  "fits_signed w k \<longleftrightarrow> - (2 ^ (w - 1)) \<le> k \<and> k < 2 ^ (w - 1)"

lemma fits_signed_take_bit: "0 < w \<Longrightarrow> fits_signed w k \<longleftrightarrow> signed_take_bit (w - 1) k = k"
  by (simp add: fits_signed_def signed_take_bit_int_eq_self_iff)

lemma sint_of_int: "fits_signed LENGTH('d::len) k \<Longrightarrow> sint (word_of_int k :: 'd word) = k"
  by (simp add: fits_signed_take_bit sint_sbintrunc')

lemma truncate_extend:
  assumes "LENGTH('a::len) \<le> LENGTH('d::len)" and "fits_signed LENGTH('d) k"
  shows "(word_of_int k :: 'd word) = scast (ucast (word_of_int k :: 'd word) :: 'a word) \<longleftrightarrow> fits_signed LENGTH('a) k"
proof -
  have "sint (ucast (word_of_int k :: 'd word) :: 'a word) = signed_take_bit (LENGTH('a) - 1) k"
    using assms(1) by (simp add: unsigned_of_int sint_sbintrunc' signed_take_bit_take_bit)
  moreover have "scast (ucast (word_of_int k :: 'd word) :: 'a word) = (word_of_int (sint (ucast (word_of_int k :: 'd word) :: 'a word)) :: 'd word)"
    by (rule scast_eq)
  moreover have "fits_signed LENGTH('d) (signed_take_bit (LENGTH('a) - 1) k)"
    using assms(1) by (simp add: fits_signed_take_bit signed_take_bit_signed_take_bit min_def)
  ultimately show ?thesis
    using sint_of_int [OF assms(2)] sint_of_int [where 'd = 'd, of "signed_take_bit (LENGTH('a) - 1) k"] fits_signed_take_bit [of "LENGTH('a)" k]
    by (metis len_gt_0)
qed

lemma sint_fits: "fits_signed LENGTH('a) (sint (x :: 'a::len word))"
  using sint_range_size [of x] by (simp add: fits_signed_def word_size)

lemma abs_fits: "fits_signed w k \<Longrightarrow> \<bar>k\<bar> \<le> 2 ^ (w - 1)"
  by (auto simp: fits_signed_def)

lemma product_fits:
  fixes l r :: "'a::len word"
  shows "fits_signed (2 * LENGTH('a)) (sint l * sint r)"
proof -
  have "\<bar>sint l * sint r\<bar> \<le> 2 ^ (LENGTH('a) - 1) * 2 ^ (LENGTH('a) - 1)"
    unfolding abs_mult by (intro mult_mono abs_fits sint_fits) simp_all
  also have "\<dots> = 2 ^ (2 * LENGTH('a) - 2)" by (simp add: power_add [symmetric] mult_2)
  also have "\<dots> < (2 :: int) ^ (2 * LENGTH('a) - 1)" by (rule power_strict_increasing) (use len_gt_0 [where 'a = 'a] in linarith, simp)
  finally show ?thesis by (simp add: fits_signed_def abs_less_iff)
qed

lemma signed_product:
  fixes l r :: "'a::len word"
  assumes "LENGTH('d::len) = 2 * LENGTH('a)"
  shows "scast l * scast r = (word_of_int (sint l * sint r) :: 'd word)"
  unfolding scast_eq wi_hom_mult ..

lemma uint_drop_bit: "uint (drop_bit n (w :: 'a::len word)) = uint w div 2 ^ n"
proof -
  have "uint (drop_bit n w) = drop_bit n (take_bit LENGTH('a) (uint w))" by (rule unsigned_drop_bit_eq)
  also have "take_bit LENGTH('a) (uint w) = uint w" by (simp add: take_bit_int_eq_self_iff)
  finally show ?thesis by (simp only: drop_bit_eq_div)
qed

lemma drop_bit_eq_0_iff: "drop_bit n (w :: 'a::len word) = 0 \<longleftrightarrow> uint w < 2 ^ n"
proof -
  have "drop_bit n w = 0 \<longleftrightarrow> uint w div 2 ^ n = 0" unfolding uint_drop_bit [symmetric] by (rule uint_0_iff [symmetric])
  also have "\<dots> \<longleftrightarrow> uint w < 2 ^ n" by (auto simp: zdiv_eq_0_iff)
  finally show ?thesis .
qed

lemma apply_multiply_flags:
  assumes "operand_width TYPE('a::len)"
  shows "apply_change (change_from (into_any (Explicit [ov, True, False, False, False, ov] :: 'a word status_source))) v f =
    (case f of CF \<Rightarrow> ov | OF \<Rightarrow> ov | PF \<Rightarrow> True | _ \<Rightarrow> False)"
  by (cases f) (simp_all add: apply_change_from into_any_flag [OF assms])

lemma multiply_unsigned:
  fixes l r :: "'a::len word"
  assumes "operand_width TYPE('a)" and "LENGTH('d::len) = 2 * LENGTH('a)"
  defines "m \<equiv> multiply_apply MulUnsigned l r :: 'd word alu_result"
  shows "uint (ar_result m) = uint l * uint r"
    and "apply_change (ar_flags m) v CF \<longleftrightarrow> 2 ^ LENGTH('a) \<le> uint l * uint r"
    and "apply_change (ar_flags m) v OF \<longleftrightarrow> 2 ^ LENGTH('a) \<le> uint l * uint r"
proof -
  let ?p = "ucast l * ucast r :: 'd word"
  have "shift_amount ?p (of_nat LENGTH('a)) = LENGTH('a)"
    using assms(1,2) by (cases rule: operand_width_cases) (simp_all add: shift_amount_def)
  moreover have "drop_bit LENGTH('a) ?p \<noteq> 0 \<longleftrightarrow> 2 ^ LENGTH('a) \<le> uint l * uint r"
  proof -
    show ?thesis unfolding drop_bit_eq_0_iff uint_product [OF assms(2), of l r] by auto
  qed
  ultimately show "uint (ar_result m) = uint l * uint r"
    "apply_change (ar_flags m) v CF \<longleftrightarrow> 2 ^ LENGTH('a) \<le> uint l * uint r"
    "apply_change (ar_flags m) v OF \<longleftrightarrow> 2 ^ LENGTH('a) \<le> uint l * uint r"
    using uint_product [OF assms(2), of l r]
    by (simp_all add: m_def multiply_apply_def Let_def val_shr_unsigned_def apply_multiply_flags [OF assms(1)])
qed

lemma multiply_signed:
  fixes l r :: "'a::len word"
  assumes "operand_width TYPE('a)" and "LENGTH('d::len) = 2 * LENGTH('a)"
  defines "m \<equiv> multiply_apply MulSigned l r :: 'd word alu_result"
  shows "sint (ar_result m) = sint l * sint r"
    and "apply_change (ar_flags m) v CF \<longleftrightarrow> \<not> fits_signed LENGTH('a) (sint l * sint r)"
    and "apply_change (ar_flags m) v OF \<longleftrightarrow> \<not> fits_signed LENGTH('a) (sint l * sint r)"
proof -
  have f: "fits_signed LENGTH('d) (sint l * sint r)" using product_fits [of l r] assms(2) by simp
  have "LENGTH('a) \<le> LENGTH('d)" using assms(2) by simp
  note fit = truncate_extend [OF this f]
  have m: "ar_result m = word_of_int (sint l * sint r)"
    unfolding m_def multiply_apply_def Let_def multiply_op.case alu_result.simps by (rule signed_product [OF assms(2)])
  have ov: "apply_change (ar_flags m) v g = (case g of CF \<Rightarrow> ov | OF \<Rightarrow> ov | PF \<Rightarrow> True | _ \<Rightarrow> False)"
    if "ov = (ar_result m \<noteq> scast (ucast (ar_result m) :: 'a word))" for g ov
    unfolding that m_def multiply_apply_def Let_def multiply_op.case alu_result.simps by (rule apply_multiply_flags [OF assms(1)])
  show "sint (ar_result m) = sint l * sint r" unfolding m by (rule sint_of_int [OF f])
  show "apply_change (ar_flags m) v CF \<longleftrightarrow> \<not> fits_signed LENGTH('a) (sint l * sint r)"
    "apply_change (ar_flags m) v OF \<longleftrightarrow> \<not> fits_signed LENGTH('a) (sint l * sint r)"
    unfolding ov [OF refl] status_flag.case m fit by (rule refl)+
qed

text \<open>A division as the instruction runs it: guard, divide, reject an overflow.\<close>

definition division_outcome :: "divide_op \<Rightarrow> 'd::len word \<Rightarrow> 'a::len word \<Rightarrow> ('a word \<times> 'a word) option option" where
  "division_outcome op dividend divisor =
     (if input_fault op dividend divisor then Some None
      else map_option (\<lambda>r. if dr_overflow r = Some True then None else Some (dr_quotient r, dr_remainder r))
        (divide_apply op dividend divisor))"

lemma le_div_iff:
  fixes k n M :: int
  assumes "0 < M"
  shows "k \<le> n div M \<longleftrightarrow> k * M \<le> n"
proof
  assume "k \<le> n div M"
  then have "k * M \<le> n div M * M" using assms by simp
  also have "\<dots> \<le> n" using assms div_mult_mod_eq [of n M] pos_mod_sign [of M n] by linarith
  finally show "k * M \<le> n" .
next
  assume "k * M \<le> n"
  from zdiv_mono1 [OF this assms] show "k \<le> n div M" using assms by simp
qed

lemma unsigned_quotient_fits:
  fixes n d M :: int
  assumes "0 \<le> n" "0 \<le> d" "0 < M"
  shows "n div M < d \<longleftrightarrow> d \<noteq> 0 \<and> n div d < M"
proof (cases "d = 0")
  case True
  then show ?thesis using assms by (simp add: not_less pos_imp_zdiv_nonneg_iff)
next
  case False
  then have "0 < d" using assms(2) by simp
  then have "n div M < d \<longleftrightarrow> n < d * M" "n div d < M \<longleftrightarrow> n < M * d"
    using le_div_iff [OF assms(3), of d n] le_div_iff [of d M n] by linarith+
  then show ?thesis using False by (simp add: mult.commute)
qed

lemma divide_unsigned:
  fixes dividend :: "'d::len word" and divisor :: "'a::len word"
  assumes "operand_width TYPE('a)" and "LENGTH('d) = 2 * LENGTH('a)"
  shows "division_outcome DivideUnsigned dividend divisor = Some
    (if divisor = 0 \<or> 2 ^ LENGTH('a) \<le> uint dividend div uint divisor then None
     else Some (word_of_int (uint dividend div uint divisor), word_of_int (uint dividend mod uint divisor)))"
proof -
  let ?M = "2 ^ LENGTH('a) :: int"
  have "shift_amount dividend (of_nat LENGTH('a)) = LENGTH('a)"
    using assms by (cases rule: operand_width_cases) (simp_all add: shift_amount_def)
  moreover have "uint (ucast (drop_bit LENGTH('a) dividend) :: 'a word) = uint dividend div ?M"
  proof -
    have "uint dividend < ?M * ?M" using uint_lt2p [of dividend] assms(2) by (simp add: power_add [symmetric] mult_2)
    then have "uint dividend div ?M < ?M" using le_div_iff [of ?M ?M "uint dividend"] by simp
    then have "take_bit LENGTH('a) (uint dividend div ?M) = uint dividend div ?M" by (simp add: take_bit_int_eq_self_iff pos_imp_zdiv_nonneg_iff)
    then show ?thesis by (simp only: unsigned_ucast_eq uint_drop_bit)
  qed
  ultimately have fault: "input_fault DivideUnsigned dividend divisor \<longleftrightarrow> divisor = 0 \<or> ?M \<le> uint dividend div uint divisor"
    using unsigned_quotient_fits [of "uint dividend" "uint divisor" ?M]
    by (auto simp: val_shr_unsigned_def word_le_def not_less uint_0_iff)
  have wide: "uint (ucast divisor :: 'd word) = uint divisor"
    using assms(2) by (simp add: unsigned_ucast_eq take_bit_int_eq_self_iff order.strict_trans2 [OF uint_lt2p])
  have "word_of_int (uint dividend div uint divisor) = (ucast (dividend div ucast divisor) :: 'a word)"
    "word_of_int (uint dividend mod uint divisor) = (ucast (dividend mod ucast divisor) :: 'a word)"
    unfolding ucast_eq [of "_ div _"] ucast_eq [of "_ mod _"] uint_div_distrib uint_mod_distrib wide by (rule refl)+
  moreover have "(ucast divisor :: 'd word) = 0 \<longleftrightarrow> divisor = 0" using wide by (metis uint_0_iff)
  ultimately have "divide_apply DivideUnsigned dividend divisor = Some \<lparr>dr_quotient = word_of_int (uint dividend div uint divisor),
      dr_remainder = word_of_int (uint dividend mod uint divisor), dr_overflow = None\<rparr>" if "divisor \<noteq> 0"
    using that by (simp add: divide_apply_def Let_def checked_div_def checked_rem_def)
  then show ?thesis using fault by (simp add: division_outcome_def del: input_fault.simps)
qed

text \<open>Signed division. Only the smallest number over minus one leaves the double width.\<close>

lemma fits_signed_mono:
  assumes "fits_signed v k" and "v \<le> w"
  shows "fits_signed w k"
proof -
  have "(2 :: int) ^ (v - 1) \<le> 2 ^ (w - 1)" using assms(2) by (intro power_increasing) simp_all
  then show ?thesis using assms(1) unfolding fits_signed_def by linarith
qed

lemma quotient_fits:
  assumes "fits_signed w a" and "\<not> (a = - (2 ^ (w - 1)) \<and> b = - 1)"
  shows "fits_signed w (a sdiv b)"
proof -
  have r: "- \<bar>a\<bar> \<le> a sdiv b" "a sdiv b \<le> \<bar>a\<bar>" using sdiv_int_range [of a b] by auto
  have "a sdiv b \<noteq> 2 ^ (w - 1)"
  proof
    assume q: "a sdiv b = 2 ^ (w - 1)"
    then have "a = - (2 ^ (w - 1))" using r assms(1) by (auto simp: fits_signed_def)
    moreover from this have "a sdiv b = - a" "a \<noteq> 0" using q by simp_all
    then have "b = - 1" by simp
    ultimately show False using assms(2) by blast
  qed
  then show ?thesis using r assms(1) by (auto simp: fits_signed_def)
qed

lemma sint_scast_wider:
  assumes "LENGTH('a::len) \<le> LENGTH('d::len)"
  shows "sint (scast (x :: 'a word) :: 'd word) = sint x"
  unfolding scast_eq by (rule sint_of_int) (rule fits_signed_mono [OF sint_fits assms])

lemma ucast_of_int:
  assumes "LENGTH('a::len) \<le> LENGTH('d::len)"
  shows "ucast (word_of_int k :: 'd word) = (word_of_int k :: 'a word)"
  by (rule bit_word_eqI) (use assms in \<open>simp add: bit_ucast_iff bit_word_of_int_iff\<close>)

lemma smallest_word:
  fixes x :: "'a::len word"
  shows "x = 2 ^ (LENGTH('a) - 1) \<longleftrightarrow> sint x = - (2 ^ (LENGTH('a) - 1))"
proof -
  have "2 ^ (LENGTH('a) - 1) = (word_of_int (- (2 ^ (LENGTH('a) - 1))) :: 'a word)"
    by (rule bit_word_eqI) (auto simp: bit_exp_iff bit_word_of_int_iff bit_minus_exp_iff)
  moreover have "sint (word_of_int (- (2 ^ (LENGTH('a) - 1))) :: 'a word) = - (2 ^ (LENGTH('a) - 1))"
    by (rule sint_of_int) (simp add: fits_signed_def)
  ultimately show ?thesis by (metis signed_word_eqI)
qed

lemma minus_one_sint: "x = - 1 \<longleftrightarrow> sint x = - 1" for x :: "'a::len word"
proof -
  have "sint (- 1 :: 'a word) = - 1" by simp
  then show ?thesis by (metis signed_word_eqI)
qed

lemma divide_signed:
  fixes dividend :: "'d::len word" and divisor :: "'a::len word"
  assumes "operand_width TYPE('a)" and "LENGTH('d) = 2 * LENGTH('a)"
  shows "division_outcome DivideSigned dividend divisor = Some
    (if divisor = 0 \<or> \<not> fits_signed LENGTH('a) (sint dividend sdiv sint divisor) then None
     else Some (word_of_int (sint dividend sdiv sint divisor), word_of_int (sint dividend smod sint divisor)))"
proof (cases "divisor = 0")
  case True
  then show ?thesis by (simp add: division_outcome_def Let_def)
next
  case nz: False
  let ?n = "sint dividend" and ?m = "sint divisor" and ?w = "LENGTH('a)"
  let ?small = "?n = - (2 ^ (LENGTH('d) - 1)) \<and> ?m = - 1"
  have le: "?w \<le> LENGTH('d)" using assms(2) by simp
  have m: "sint (scast divisor :: 'd word) = ?m" by (rule sint_scast_wider [OF le])
  then have nz': "(scast divisor :: 'd word) \<noteq> 0" using nz by (metis signed_0 signed_word_eqI)
  have "val_shl 1 (of_nat (?w * 2 - 1)) = (2 ^ (LENGTH('d) - 1) :: 'd word)"
    using assms by (cases rule: operand_width_cases) (simp_all add: val_shl_def shift_amount_def)
  then have fault: "input_fault DivideSigned dividend divisor \<longleftrightarrow> ?w \<noteq> 8 \<and> ?small"
    using nz smallest_word [of dividend] minus_one_sint [of divisor] by auto
  have rem: "val_rem_signed dividend (scast divisor) = Some (word_of_int (?n smod ?m))"
    using nz' by (simp add: val_rem_signed_def m)
  have outcome: "division_outcome DivideSigned dividend divisor = Some
      (if (word_of_int k :: 'd word) \<noteq> scast (ucast (word_of_int k :: 'd word) :: 'a word) then None
       else Some (word_of_int (?n sdiv ?m), word_of_int (?n smod ?m)))"
    if "val_div_signed dividend (scast divisor) = Some (word_of_int k)" "\<not> input_fault DivideSigned dividend divisor"
      "(word_of_int k :: 'd word) = word_of_int (?n sdiv ?m)" for k
    using that by (simp add: division_outcome_def divide_apply_def Let_def rem ucast_of_int [OF le] del: input_fault.simps)
  show ?thesis
  proof (cases ?small)
    case True
    have big: "?n sdiv ?m = 2 ^ (LENGTH('d) - 1)" using True by simp
    have nf: "\<not> fits_signed ?w (?n sdiv ?m)"
      using fits_signed_mono [OF _ le, of "?n sdiv ?m"] unfolding big by (auto simp: fits_signed_def)
    show ?thesis
    proof (cases "?w = 8")
      case True
      then have d: "LENGTH('d) = 16" using assms(2) by simp
      have e: "(word_of_int (?n sdiv ?m) :: 'd word) = word_of_int (- (2 ^ 15))"
        by (simp add: word_of_int_eq_iff big d)
      have f: "fits_signed LENGTH('d) (- (2 ^ 15))" "\<not> fits_signed ?w (- (2 ^ 15))" by (simp_all add: d True fits_signed_def)
      have "val_div_signed dividend (scast divisor) = Some (word_of_int (- (2 ^ 15)))"
        using nz' e by (simp add: val_div_signed_def m d)
      from outcome [OF this _ e [symmetric]] show ?thesis
        using truncate_extend [OF le f(1)] f(2) nf fault True by simp
    next
      case False
      then have "input_fault DivideSigned dividend divisor" using fault \<open>?small\<close> by blast
      then show ?thesis using nf by (simp add: division_outcome_def del: input_fault.simps)
    qed
  next
    case False
    have f: "fits_signed LENGTH('d) (?n sdiv ?m)" by (rule quotient_fits [OF sint_fits False])
    have "val_div_signed dividend (scast divisor) = Some (word_of_int (?n sdiv ?m))"
      using nz' False by (auto simp: val_div_signed_def m)
    from outcome [OF this _ refl] show ?thesis using truncate_extend [OF le f] fault False nz by simp
  qed
qed

subsection \<open>Decimal adjustments\<close>

definition bcd :: "nat \<Rightarrow> u8" where
  "bcd n = of_nat (16 * (n div 10) + n mod 10)"

lemma uint_bcd: "n < 100 \<Longrightarrow> uint (bcd n) = 16 * (int n div 10) + int n mod 10"
proof -
  assume "n < 100"
  then have "16 * (n div 10) + n mod 10 < 2 ^ 8" by simp
  then have "uint (of_nat (16 * (n div 10) + n mod 10) :: u8) = int (16 * (n div 10) + n mod 10)"
    by (simp add: take_bit_nat_eq_self unsigned_of_nat del: of_nat_add of_nat_mult)
  then show ?thesis by (simp only: bcd_def of_nat_add of_nat_mult zdiv_int zmod_int of_nat_numeral)
qed

lemma uint_and_low: "uint (x AND 0xF) = uint x mod 16" for x :: "'a::len word"
proof -
  have "x AND 0xF = take_bit 4 x" by (simp add: take_bit_eq_mask mask_numeral)
  then have "uint (x AND 0xF) = take_bit 4 (uint x)" by (simp only: unsigned_take_bit_eq)
  then show ?thesis by (simp add: take_bit_eq_mod)
qed

lemma mod_once: "0 \<le> x \<Longrightarrow> x < 2 * M \<Longrightarrow> x mod M = (if x < M then x else x - M)" for x M :: int
  using mod_pos_pos_trivial [of "x - M" M] by (cases "x < M") (auto simp: mod_pos_pos_trivial)

lemma mod_borrow: "- M \<le> x \<Longrightarrow> x < M \<Longrightarrow> x mod M = (if 0 \<le> x then x else x + M)" for x M :: int
  using mod_once [of "x + M" M] by auto

lemma decimal_digits: "0 \<le> r \<Longrightarrow> r < 10 \<Longrightarrow> (10 * q + r) div 10 = q \<and> (10 * q + r) mod 10 = r" for q r :: int
  by (simp add: div_pos_pos_trivial mod_pos_pos_trivial)

lemma mod_shift: "(x + M * i - M * j) mod M = x mod M" for x M :: int
proof -
  have "x + M * i - M * j = x + (i - j) * M" by (simp add: algebra_simps)
  then show ?thesis by (simp only: mod_mult_self1)
qed

lemma daa_sum:
  fixes s0 s1 a t :: int
  assumes "0 \<le> s0" "s0 < 20" "0 \<le> s1" "s1 < 19" and a_def: "a = (16 * s1 + s0) mod 256" and t_def: "t = 10 * s1 + s0"
  shows "(10 \<le> a mod 16 \<or> 16 \<le> s0) \<longleftrightarrow> 10 \<le> s0" "(154 \<le> a \<or> 256 \<le> 16 * s1 + s0) \<longleftrightarrow> 100 \<le> t"
    and "(a + ((if 10 \<le> s0 then 6 else 0) + (if 100 \<le> t then 96 else 0))) mod 256 = 16 * (t mod 100 div 10) + t mod 100 mod 10"
proof -
  have a: "a = (if 16 * s1 + s0 < 256 then 16 * s1 + s0 else 16 * s1 + s0 - 256)"
    unfolding a_def using assms(1-4) by (intro mod_once) linarith+
  have "a mod 16 = (16 * s1 + s0) mod 16" unfolding a_def by (rule mod_mod_cancel) simp
  then have "a mod 16 = s0 mod 16" by simp
  also have "\<dots> = (if s0 < 16 then s0 else s0 - 16)" using assms(1,2) by (intro mod_once) linarith+
  finally show "(10 \<le> a mod 16 \<or> 16 \<le> s0) \<longleftrightarrow> 10 \<le> s0" by auto
  consider "s1 \<le> 8" | "s1 = 9" | "10 \<le> s1" by linarith
  then show "(154 \<le> a \<or> 256 \<le> 16 * s1 + s0) \<longleftrightarrow> 100 \<le> t"
    unfolding a t_def using assms(1-4) by cases (simp_all split: if_splits)
  define q r where "q = s1 + (if 10 \<le> s0 then 1 else 0) - (if 100 \<le> t then 10 else 0)" and "r = s0 - (if 10 \<le> s0 then 10 else 0)"
  have t: "t mod 100 = 10 * q + r" using mod_once [of t 100] assms(1-4) by (auto simp: q_def r_def t_def)
  have r: "0 \<le> r" "r < 10" using assms(1,2) by (auto simp: r_def)
  have q: "0 \<le> q" "q < 10" using assms(1-4) by (auto simp: q_def t_def)
  have "(a + ((if 10 \<le> s0 then 6 else 0) + (if 100 \<le> t then 96 else 0))) mod 256 = (16 * q + r + 256 * (if 100 \<le> t then 1 else 0) - 256 * (if 256 \<le> 16 * s1 + s0 then 1 else 0)) mod 256"
    by (rule arg_cong [of _ _ "\<lambda>x. x mod 256"]) (auto simp: a q_def r_def)
  also have "\<dots> = (16 * q + r) mod 256" by (rule mod_shift)
  also have "\<dots> = 16 * q + r" using q r by (intro mod_pos_pos_trivial) linarith+
  finally show "(a + ((if 10 \<le> s0 then 6 else 0) + (if 100 \<le> t then 96 else 0))) mod 256 = 16 * (t mod 100 div 10) + t mod 100 mod 10"
    unfolding t using decimal_digits [OF r, of q] by simp
qed

lemma das_difference:
  fixes d0 d1 a t :: int
  assumes "- 10 \<le> d0" "d0 < 10" "- 10 < d1" "d1 < 10" and a_def: "a = (16 * d1 + d0) mod 256" and t_def: "t = 10 * d1 + d0"
  shows "(10 \<le> a mod 16 \<or> d0 < 0) \<longleftrightarrow> d0 < 0" "(154 \<le> a \<or> 16 * d1 + d0 < 0) \<longleftrightarrow> t < 0"
    and "t < 0 \<or> d0 < 0 \<and> a < 6 \<longleftrightarrow> t < 0"
    and "(a - ((if d0 < 0 then 6 else 0) + (if t < 0 then 96 else 0))) mod 256 = 16 * (t mod 100 div 10) + t mod 100 mod 10"
proof -
  have a: "a = (if 0 \<le> 16 * d1 + d0 then 16 * d1 + d0 else 16 * d1 + d0 + 256)"
    unfolding a_def using assms(1-4) by (intro mod_borrow) linarith+
  have "a mod 16 = (16 * d1 + d0) mod 16" unfolding a_def by (rule mod_mod_cancel) simp
  then have "a mod 16 = d0 mod 16" by simp
  also have "\<dots> = (if 0 \<le> d0 then d0 else d0 + 16)" using assms(1,2) by (intro mod_borrow) linarith+
  finally show "(10 \<le> a mod 16 \<or> d0 < 0) \<longleftrightarrow> d0 < 0" using assms(2) by auto
  consider "d1 \<le> - 1" | "d1 = 0" | "1 \<le> d1" by linarith
  then have neg: "16 * d1 + d0 < 0 \<longleftrightarrow> t < 0" unfolding t_def using assms(1-4) by cases simp_all
  then show "(154 \<le> a \<or> 16 * d1 + d0 < 0) \<longleftrightarrow> t < 0" unfolding a using assms(1-4) by auto
  have "6 \<le> a" if "0 \<le> t" "d0 < 0"
  proof -
    have "1 \<le> d1" using that by (simp add: t_def)
    then show ?thesis using assms(1) by (simp add: a)
  qed
  then show "t < 0 \<or> d0 < 0 \<and> a < 6 \<longleftrightarrow> t < 0" by (meson not_le)
  define q r where "q = d1 - (if d0 < 0 then 1 else 0) + (if t < 0 then 10 else 0)" and "r = d0 + (if d0 < 0 then 10 else 0)"
  have "t mod 100 = (if 0 \<le> t then t else t + 100)" using assms(1-4) unfolding t_def by (intro mod_borrow) linarith+
  then have t: "t mod 100 = 10 * q + r" by (auto simp: q_def r_def t_def)
  have r: "0 \<le> r" "r < 10" using assms(1,2) by (auto simp: r_def)
  have q: "0 \<le> q" "q < 10" using assms(1-4) by (auto simp: q_def t_def)
  have "(a - ((if d0 < 0 then 6 else 0) + (if t < 0 then 96 else 0))) mod 256 =
      (16 * q + r + 256 * (if 16 * d1 + d0 < 0 then 1 else 0) - 256 * (if t < 0 then 1 else 0)) mod 256"
    by (rule arg_cong [of _ _ "\<lambda>x. x mod 256"]) (auto simp: a q_def r_def)
  also have "\<dots> = (16 * q + r) mod 256" by (rule mod_shift)
  also have "\<dots> = 16 * q + r" using q r by (intro mod_pos_pos_trivial) linarith+
  finally show "(a - ((if d0 < 0 then 6 else 0) + (if t < 0 then 96 else 0))) mod 256 = 16 * (t mod 100 div 10) + t mod 100 mod 10"
    unfolding t using decimal_digits [OF r, of q] by simp
qed

text \<open>The two corrections as one number.\<close>

lemma uint_corrections:
  "uint ((if p then 6 else 0) + (if q then 0x60 else 0) :: u8) = (if p then 6 else 0) + (if q then 96 else 0)"
  by simp

lemma digit_sums:
  fixes m n c :: int
  assumes "0 \<le> m" "m < 100" "0 \<le> n" "n < 100" "0 \<le> c" "c \<le> 1"
  shows "0 \<le> m mod 10 + n mod 10 + c" "m mod 10 + n mod 10 + c < 20" "0 \<le> m div 10 + n div 10" "m div 10 + n div 10 < 19"
    and "- 10 \<le> m mod 10 - n mod 10 - c" "m mod 10 - n mod 10 - c < 10" "- 10 < m div 10 - n div 10" "m div 10 - n div 10 < 10"
  using assms by presburger+

lemma low_nibble_bcd: "n < 100 \<Longrightarrow> uint (bcd n) mod 16 = int n mod 10"
  by (simp add: uint_bcd)

lemma apply_with_carry_flags:
  fixes l r :: "'a::len word"
  assumes "operand_width TYPE('a)"
  shows "ar_result (apply_with_carry op l r c) = result_with_carry op l r c"
    and "apply_change (ar_flags (apply_with_carry op l r c)) v f = arithmetic_flag op l r (result_with_carry op l r c) c f"
  by (simp_all add: apply_with_carry_def Let_def apply_explicit [OF assms] del: arithmetic_flag.simps)

lemma byte_width: "operand_width TYPE(8)" and word_width: "operand_width TYPE(16)" and dword_width: "operand_width TYPE(32)"
  by (simp_all add: operand_width_def)

text \<open>Addition and subtraction of packed decimals, then the adjustment.\<close>

definition decimal_result :: "arithmetic_op \<Rightarrow> u8 \<Rightarrow> u8 \<Rightarrow> (status_flag \<Rightarrow> bool) \<Rightarrow> u8 \<times> bool" where
  "decimal_result op x y v =
     (let first = apply_with_carry op x y (v CF);
          v = apply_change (ar_flags first) v;
          second = adjust_packed op (ar_result first) (v AF) (v CF)
      in (ar_result second, apply_change (ar_flags second) v CF))"

lemma adjust_packed_carry:
  "apply_change (ar_flags (adjust_packed op x af cf)) v CF =
    (case op of Add \<Rightarrow> x \<ge> 0x9A \<or> cf | Subtract \<Rightarrow> (x \<ge> 0x9A \<or> cf) \<or> (x AND 0xF \<ge> 10 \<or> af) \<and> x < 6)"
  by (simp add: adjust_packed_def Let_def apply_change_def change_partial_def change_flag_def select_update_def)

lemma uint_byte_carry:
  "uint (result_with_carry op x y c :: u8) =
    (case op of Add \<Rightarrow> uint x + uint y + of_bool c | Subtract \<Rightarrow> uint x - uint y - of_bool c) mod 256"
  by (cases op) (simp_all add: result_with_carry_def uint_word_ariths mod_simps)

lemma digits_sum: "(b * q + r) + (b * q' + r') + c = b * (q + q') + (r + r' + c)" for b q r q' r' c :: int
  by (simp add: algebra_simps)

lemma digits_difference: "(b * q + r) - (b * q' + r') - c = b * (q - q') + (r - r' - c)" for b q r q' r' c :: int
  by (simp add: algebra_simps)

lemma borrow_iff: "(a - b - c < 0) = (a < b + c)" for a b c :: int
  by linarith

lemma byte_adjust:
  "arithmetic_flag op x y (result_with_carry op x y c) c AF \<longleftrightarrow>
    (case op of Add \<Rightarrow> 16 \<le> uint x mod 16 + uint y mod 16 + of_bool c | Subtract \<Rightarrow> uint x mod 16 < uint y mod 16 + of_bool c)"
  for x y :: u8
  by (rule adjust_exact) simp

lemma byte_carry:
  "arithmetic_flag op x y (result_with_carry op x y c) c CF \<longleftrightarrow>
    (case op of Add \<Rightarrow> 256 \<le> uint x + uint y + of_bool c | Subtract \<Rightarrow> uint x < uint y + of_bool c)"
  for x y :: u8
  unfolding carry_exact by (cases op) simp_all

lemma uint_byte_add: "uint (x + y :: u8) = (uint x + uint y) mod 256"
  by (simp add: uint_word_ariths)

lemma uint_byte_sub: "uint (x - y :: u8) = (uint x - uint y) mod 256"
  by (simp add: uint_word_ariths)

lemma adjust_packed_result:
  "ar_result (adjust_packed op x af cf) =
    arithmetic_result op x ((if 10 \<le> x AND 0xF \<or> af then 6 else 0) + (if 0x9A \<le> x \<or> cf then 0x60 else 0))"
  by (simp add: adjust_packed_def Let_def)

lemma decimal_result_steps:
  assumes "x' = result_with_carry op x y (v CF)"
    and "af = arithmetic_flag op x y x' (v CF) AF" and "cf = arithmetic_flag op x y x' (v CF) CF"
  shows "decimal_result op x y v = (ar_result (adjust_packed op x' af cf), apply_change (ar_flags (adjust_packed op x' af cf)) v CF)"
  unfolding assms decimal_result_def Let_def apply_with_carry_flags [OF byte_width] adjust_packed_carry ..

lemma decimal_add:
  assumes "m < 100" "n < 100"
  shows "decimal_result Add (bcd m) (bcd n) v = (bcd ((m + n + of_bool (v CF)) mod 100), 100 \<le> m + n + of_bool (v CF))"
proof -
  let ?c = "of_bool (v CF) :: int" and ?x = "result_with_carry Add (bcd m) (bcd n) (v CF)" and ?t = "m + n + of_bool (v CF)"
  let ?s0 = "int m mod 10 + int n mod 10 + ?c" and ?s1 = "int m div 10 + int n div 10"
  let ?corr = "(if 10 \<le> ?s0 then 6 else 0) + (if 100 \<le> int ?t then 0x60 else 0) :: u8"
  have c: "0 \<le> ?c" "?c \<le> 1" by simp_all
  have b: "0 \<le> int m" "int m < 100" "0 \<le> int n" "int n < 100" using assms by simp_all
  note s = digit_sums(1-4) [OF b c]
  have x: "uint ?x = (16 * ?s1 + ?s0) mod 256"
    unfolding uint_byte_carry arithmetic_op.case uint_bcd [OF assms(1)] uint_bcd [OF assms(2)] by (simp only: digits_sum)
  have t: "int ?t = 10 * ?s1 + ?s0" by simp
  have af: "(16 \<le> ?s0) = arithmetic_flag Add (bcd m) (bcd n) ?x (v CF) AF"
    unfolding byte_adjust arithmetic_op.case low_nibble_bcd [OF assms(1)] low_nibble_bcd [OF assms(2)] ..
  have cf: "(256 \<le> 16 * ?s1 + ?s0) = arithmetic_flag Add (bcd m) (bcd n) ?x (v CF) CF"
    unfolding byte_carry arithmetic_op.case uint_bcd [OF assms(1)] uint_bcd [OF assms(2)] digits_sum ..
  note sum = daa_sum [OF s x t]
  have low: "(10 \<le> ?x AND 0xF \<or> 16 \<le> ?s0) \<longleftrightarrow> 10 \<le> ?s0" using sum(1) by (simp add: word_le_def uint_and_low)
  have high: "(0x9A \<le> ?x \<or> 256 \<le> 16 * ?s1 + ?s0) \<longleftrightarrow> 100 \<le> int ?t" using sum(2) by (simp add: word_le_def)
  have "uint (?x + ?corr) = (uint ?x + ((if 10 \<le> ?s0 then 6 else 0) + (if 100 \<le> int ?t then 96 else 0))) mod 256"
    unfolding uint_byte_add [of ?x ?corr] uint_corrections ..
  also have "\<dots> = uint (bcd (?t mod 100))"
    unfolding sum(3) using uint_bcd [of "?t mod 100"] by (simp add: zmod_int)
  finally have "?x + ?corr = bcd (?t mod 100)" by (simp only: word_uint_eq_iff)
  then have "ar_result (adjust_packed Add ?x (16 \<le> ?s0) (256 \<le> 16 * ?s1 + ?s0)) = bcd (?t mod 100)"
    unfolding adjust_packed_result low high by simp
  moreover have "apply_change (ar_flags (adjust_packed Add ?x (16 \<le> ?s0) (256 \<le> 16 * ?s1 + ?s0))) v CF \<longleftrightarrow> 100 \<le> ?t"
    unfolding adjust_packed_carry arithmetic_op.case high by (metis of_nat_le_iff of_nat_numeral)
  ultimately show ?thesis unfolding decimal_result_steps [where v = v, OF refl af cf] by simp
qed

lemma decimal_subtract:
  assumes "m < 100" "n < 100"
  shows "decimal_result Subtract (bcd m) (bcd n) v =
    (bcd (nat ((int m - int n - of_bool (v CF)) mod 100)), m < n + of_bool (v CF))"
proof -
  let ?c = "of_bool (v CF) :: int" and ?x = "result_with_carry Subtract (bcd m) (bcd n) (v CF)"
  let ?d0 = "int m mod 10 - int n mod 10 - ?c" and ?d1 = "int m div 10 - int n div 10"
  let ?t = "int m - int n - ?c" let ?corr = "(if ?d0 < 0 then 6 else 0) + (if ?t < 0 then 0x60 else 0) :: u8"
  have c: "0 \<le> ?c" "?c \<le> 1" by simp_all
  have b: "0 \<le> int m" "int m < 100" "0 \<le> int n" "int n < 100" using assms by simp_all
  note d = digit_sums(5-8) [OF b c]
  have x: "uint ?x = (16 * ?d1 + ?d0) mod 256"
    unfolding uint_byte_carry arithmetic_op.case uint_bcd [OF assms(1)] uint_bcd [OF assms(2)] by (simp only: digits_difference)
  have t: "?t = 10 * ?d1 + ?d0"
    using digits_difference [of 10 "int m div 10" "int m mod 10" "int n div 10" "int n mod 10" ?c] by (simp only: mult_div_mod_eq)
  have af: "(?d0 < 0) = arithmetic_flag Subtract (bcd m) (bcd n) ?x (v CF) AF"
    unfolding byte_adjust arithmetic_op.case low_nibble_bcd [OF assms(1)] low_nibble_bcd [OF assms(2)] by (rule borrow_iff)
  have cf: "(16 * ?d1 + ?d0 < 0) = arithmetic_flag Subtract (bcd m) (bcd n) ?x (v CF) CF"
    unfolding byte_carry arithmetic_op.case uint_bcd [OF assms(1)] uint_bcd [OF assms(2)] borrow_iff [symmetric] digits_difference ..
  note diff = das_difference [OF d x t]
  have low: "(10 \<le> ?x AND 0xF \<or> ?d0 < 0) \<longleftrightarrow> ?d0 < 0" using diff(1) by (simp add: word_le_def uint_and_low)
  have high: "(0x9A \<le> ?x \<or> 16 * ?d1 + ?d0 < 0) \<longleftrightarrow> ?t < 0" using diff(2) by (simp add: word_le_def)
  have "uint (?x - ?corr) = (uint ?x - ((if ?d0 < 0 then 6 else 0) + (if ?t < 0 then 96 else 0))) mod 256"
    unfolding uint_byte_sub [of ?x ?corr] uint_corrections ..
  also have "\<dots> = uint (bcd (nat (?t mod 100)))"
    unfolding diff(4) using uint_bcd [of "nat (?t mod 100)"] by simp
  finally have "?x - ?corr = bcd (nat (?t mod 100))" by (simp only: word_uint_eq_iff)
  then have "ar_result (adjust_packed Subtract ?x (?d0 < 0) (16 * ?d1 + ?d0 < 0)) = bcd (nat (?t mod 100))"
    unfolding adjust_packed_result low high by simp
  moreover have "apply_change (ar_flags (adjust_packed Subtract ?x (?d0 < 0) (16 * ?d1 + ?d0 < 0))) v CF \<longleftrightarrow> ?t < 0"
    unfolding adjust_packed_carry arithmetic_op.case high low using diff(3) by (simp add: word_less_def)
  moreover have "?t < 0 \<longleftrightarrow> m < n + of_bool (v CF)"
    unfolding borrow_iff by (metis of_nat_add of_nat_less_iff of_nat_of_bool)
  ultimately show ?thesis unfolding decimal_result_steps [where v = v, OF refl af cf] by simp
qed

text \<open>Unpacked digits, with the carry into the next byte of the accumulator.\<close>

lemma aam_aad:
  assumes "base \<noteq> 0"
  shows "\<exists>r. adjust_after_multiply al base = Some r \<and> ar_result (adjust_before_division (ar_result r) base) = ucast al \<and>
    ar_result r = push_bit 8 (ucast (al div base)) OR ucast (al mod base)"
proof -
  let ?w = "push_bit 8 (ucast (al div base)) OR ucast (al mod base) :: u16"
  have sh: "shift_amount x 8 = 8" for x :: u16 by (simp add: shift_amount_def)
  have "ucast (drop_bit 8 ?w) = al div base" "ucast ?w = al mod base"
    by (rule bit_word_eqI; auto simp: bit_ucast_iff bit_drop_bit_eq bit_or_iff bit_push_bit_iff dest: bit_imp_le_length)+
  then have "ar_result (adjust_before_division ?w base) = ucast al"
    by (simp add: adjust_before_division_def Let_def val_shr_unsigned_def sh mod_div_mult_eq)
  then show ?thesis using assms
    by (simp add: adjust_after_multiply_def checked_div_def checked_rem_def val_shl_def sh)
qed

subsection \<open>Bit scans, byte swaps, increments\<close>

lemma trailing_zeros_first:
  fixes x :: "'a::len word"
  assumes "x \<noteq> 0"
  shows "trailing_zeros x < LENGTH('a)" "bit x (trailing_zeros x)" "\<And>k. k < trailing_zeros x \<Longrightarrow> \<not> bit x k"
proof -
  let ?P = "\<lambda>n. \<not> bit x n" and ?xs = "[0..<LENGTH('a)]"
  have "\<exists>n<LENGTH('a). bit x n" using assms by (metis bit_word_eqI bit_0_eq bot_apply bot_bool_def)
  then have "takeWhile ?P ?xs \<noteq> ?xs" unfolding takeWhile_eq_all_conv by auto
  then show l: "trailing_zeros x < LENGTH('a)"
    using length_takeWhile_le [of ?P ?xs] takeWhile_eq_take [of ?P ?xs] by (auto simp: trailing_zeros_def nat_less_le)
  then show "bit x (trailing_zeros x)" using nth_length_takeWhile [of ?P ?xs] by (simp add: trailing_zeros_def)
  show "\<not> bit x k" if "k < trailing_zeros x" for k
    using length_takeWhile_nth [of k ?P ?xs] that l by (simp add: trailing_zeros_def)
qed

lemma leading_zeros_last:
  fixes x :: "'a::len word"
  assumes "x \<noteq> 0"
  shows "leading_zeros x < LENGTH('a)" "bit x (LENGTH('a) - 1 - leading_zeros x)"
    "\<And>k. LENGTH('a) - 1 - leading_zeros x < k \<Longrightarrow> \<not> bit x k"
proof -
  let ?P = "\<lambda>n. \<not> bit x n" and ?xs = "rev [0..<LENGTH('a)]"
  have "\<exists>n<LENGTH('a). bit x n" using assms by (metis bit_word_eqI bit_0_eq bot_apply bot_bool_def)
  then have "takeWhile ?P ?xs \<noteq> ?xs" unfolding takeWhile_eq_all_conv by auto
  then show l: "leading_zeros x < LENGTH('a)"
    using length_takeWhile_le [of ?P ?xs] takeWhile_eq_take [of ?P ?xs] by (auto simp: leading_zeros_def nat_less_le)
  then show "bit x (LENGTH('a) - 1 - leading_zeros x)"
    using nth_length_takeWhile [of ?P ?xs] by (simp add: leading_zeros_def rev_nth)
  show "\<not> bit x k" if "LENGTH('a) - 1 - leading_zeros x < k" for k
  proof (cases "k < LENGTH('a)")
    case True
    then have "LENGTH('a) - 1 - k < leading_zeros x" using that l by linarith
    then show ?thesis using length_takeWhile_nth [of "LENGTH('a) - 1 - k" ?P ?xs] True by (simp add: leading_zeros_def rev_nth)
  qed (use bit_imp_le_length in blast)
qed

lemma bit_scan_exact:
  fixes x :: "'a::len word"
  assumes "operand_width TYPE('a)" and "x \<noteq> 0"
    and lowest_def: "lowest = unat (ar_result (bit_scan_apply ScanForward x p))"
    and highest_def: "highest = unat (ar_result (bit_scan_apply ScanReverse x p))"
  shows "bit x lowest \<and> (\<forall>k<lowest. \<not> bit x k)" "bit x highest \<and> (\<forall>k>highest. \<not> bit x k)"
proof -
  have small: "unat (of_nat k :: 'a word) = k" if "k < LENGTH('a)" for k
  proof -
    have "k < 2 ^ LENGTH('a)" using that less_exp [of "LENGTH('a)"] by linarith
    then show ?thesis by (simp add: unat_of_nat take_bit_nat_eq_self)
  qed
  note f = trailing_zeros_first [OF assms(2)] and l = leading_zeros_last [OF assms(2)]
  have "lowest = trailing_zeros x" using assms(2) small [OF f(1)] by (simp add: lowest_def bit_scan_apply_def Let_def)
  then show "bit x lowest \<and> (\<forall>k<lowest. \<not> bit x k)" using f by simp
  have "of_nat (LENGTH('a) - 1) - of_nat (leading_zeros x) = (of_nat (LENGTH('a) - 1 - leading_zeros x) :: 'a word)"
    using l(1) by (simp add: of_nat_diff)
  moreover have "ar_result (bit_scan_apply ScanReverse x p) = of_nat (LENGTH('a) - 1) - of_nat (leading_zeros x)"
    using assms(2) by (simp add: bit_scan_apply_def Let_def)
  moreover have "LENGTH('a) - 1 - leading_zeros x < LENGTH('a)" using l(1) by linarith
  ultimately have "highest = LENGTH('a) - 1 - leading_zeros x" by (simp only: highest_def small)
  then show "bit x highest \<and> (\<forall>k>highest. \<not> bit x k)" using l by simp
qed

lemma byte_swap_bytes:
  fixes x :: u32
  shows "\<exists>r. unary_apply ByteSwap x = Some r \<and> to_le_bytes (ar_result r) = rev (to_le_bytes x)"
proof -
  let ?y = "(word_rotl 8 x AND 0x00FF00FF) OR (word_rotr 8 x AND 0xFF00FF00)"
  have byte: "ucast (drop_bit (8 * i) ?y) = (ucast (drop_bit (8 * (4 - Suc i)) x) :: u8)" if "i < 4" for i
  proof (rule bit_word_eqI)
    fix n assume n: "n < LENGTH(8)"
    have "i \<in> {0, 1, 2, 3}" "n \<in> {0, 1, 2, 3, 4, 5, 6, 7}" using that n by auto
    then show "bit (ucast (drop_bit (8 * i) ?y) :: u8) n = bit (ucast (drop_bit (8 * (4 - Suc i)) x) :: u8) n"
      by (auto simp: bit_ucast_iff bit_drop_bit_eq bit_or_iff bit_and_iff bit_word_rotl_iff bit_word_rotr_iff) (simp_all add: numeral_2_eq_2)
  qed
  have nth: "to_le_bytes z ! i = ucast (drop_bit (8 * i) z)" "length (to_le_bytes z) = 4" if "i < 4" for i and z :: u32
    using that by (simp_all add: to_le_bytes_def)
  have "to_le_bytes ?y = rev (to_le_bytes x)"
  proof (rule nth_equalityI)
    show l: "length (to_le_bytes ?y) = length (rev (to_le_bytes x))" by (simp add: to_le_bytes_def)
    fix i assume "i < length (to_le_bytes ?y)"
    then have i: "i < 4" "4 - Suc i < 4" by (simp_all add: to_le_bytes_def)
    then have "rev (to_le_bytes x) ! i = to_le_bytes x ! (4 - Suc i)" by (simp add: rev_nth nth(2) [OF i(1)])
    then show "to_le_bytes ?y ! i = rev (to_le_bytes x) ! i" by (simp only: nth(1) [OF i(1)] nth(1) [OF i(2)] byte [OF i(1)])
  qed
  then show ?thesis by (simp add: val_rotl_def val_rotr_def)
qed

lemma increment_keeps_carry:
  fixes x :: "'a::len word"
  assumes "operand_width TYPE('a)"
  shows "\<exists>r. unary_apply Increment x = Some r \<and> ar_result r = x + 1 \<and>
      apply_change (ar_flags r) v f = (if f = CF then v CF else arithmetic_flag Add x 1 (x + 1) False f)"
    and "\<exists>r. unary_apply Decrement x = Some r \<and> ar_result r = x - 1 \<and>
      apply_change (ar_flags r) v f = (if f = CF then v CF else arithmetic_flag Subtract x 1 (x - 1) False f)"
  by (simp_all add: arithmetic_apply_def Let_def apply_change_preserving apply_change_from into_any_flag [OF assms] del: arithmetic_flag.simps)

text \<open>Every change the operations build satisfies the tracker's contract.\<close>

lemma alu_changes_ok:
  fixes x :: "'a::len word"
  assumes "operand_width TYPE('a)"
  shows "change_ok (ar_flags (arithmetic_apply op x y))" "change_ok (ar_flags (apply_with_carry op x y c))"
    "change_ok (ar_flags (logic_apply lop x y))" "change_ok (ar_flags (shift_apply sh x n))"
    "change_ok (ar_flags (double_shift_apply dop x y n))" "change_ok (ar_flags (rotate_apply d x n))"
    "change_ok (ar_flags (rotate_through_carry d x n c))" "change_ok (ar_flags (bit_test_apply bop x n))"
    "change_ok (ar_flags (bit_scan_apply sop x y))"
  by (simp_all add: arithmetic_apply_def apply_with_carry_def logic_apply_def shift_apply_def double_shift_apply_def result_with_flags_def
    rotate_apply_def rotate_through_carry_def rotate_flags_def bit_test_apply_def bit_scan_apply_def Let_def STATUS_FLAGS_def
    change_from_ok change_when_ok change_partial_ok into_any_ok [OF assms] split: prod.split)

subsection \<open>Properties\<close>

text \<open>C21: a shift by any masked count is that many one-bit shifts. The result, the carry (the last bit
  shifted out, zero where the architecture leaves it undefined), the overflow flag (whether a
  one-bit shift changed the sign) and the result flags are those of the repeated step, and a zero
  count leaves value and flags alone.\<close>

theorem shift_is_repeated_step:
  fixes x :: "'a::len word"
  assumes "operand_width TYPE('a)" and "unat n < 32" and "s = (shift_step op ^^ unat n) (x, False)"
  shows "ar_result (shift_apply op x n) = fst s \<and> apply_change (ar_flags (shift_apply op x n)) v =
      (if n = 0 then v else (\<lambda>f. case f of
          CF \<Rightarrow> snd s \<and> (op = ShRightArithmetic \<or> unat n < LENGTH('a))
        | OF \<Rightarrow> n = 1 \<and> bit (fst s) (LENGTH('a) - 1) \<noteq> bit x (LENGTH('a) - 1)
        | AF \<Rightarrow> False | _ \<Rightarrow> result_flag (fst s) f))"
  using shift_apply_steps [OF assms] by (rule conjI)

theorem shift_is_repeated_step_witness:
  "ar_result (shift_apply ShLeft (0xC1 :: u8) 2) = 4 \<and> apply_change (ar_flags (shift_apply ShLeft (0xC1 :: u8) 2)) (\<lambda>_. False) CF"
proof -
  have "(shift_step ShLeft ^^ unat (2 :: u32)) (0xC1 :: u8, False) = (4, True)" by code_simp
  with shift_is_repeated_step [where n = 2 and op = ShLeft and x = "0xC1 :: u8" and v = "\<lambda>_. False", OF byte_width _ refl] show ?thesis by simp
qed

text \<open>C25: rotating through the carry by any masked count is that many one-bit rotations of the operand
  and the carry flag together. The count reduction (18 and 9 for bytes, 17 for words) and the
  rotation of a 9, 17 or 33 bit ring inside a wider word are exact for both directions.\<close>

theorem rotate_through_carry_is_repeated_step:
  fixes x :: "'a::len word"
  assumes "operand_width TYPE('a)" and "unat n < 32" and "r = rotate_through_carry d x n (v CF)"
  shows "(ar_result r, apply_change (ar_flags r) v CF) = (carry_step d ^^ unat n) (x, v CF)"
  by (rule rotate_through_carry_steps [where v = v, OF assms])

theorem rotate_through_carry_is_repeated_step_witness:
  "ar_result (rotate_through_carry RotLeft (0x80 :: u8) 10 True) = 1"
proof -
  let ?v = "\<lambda>f. f = CF"
  have "(carry_step RotLeft ^^ 10) (0x80 :: u8, True) = (1, True)" by code_simp
  with rotate_through_carry_is_repeated_step [where n = 10 and d = RotLeft and x = "0x80 :: u8" and v = ?v, OF byte_width _ refl]
  show ?thesis by simp
qed

text \<open>C20: division faults exactly when it must. With the dividend of twice the width, the guard on the
  inputs and the later overflow check together reject a zero divisor and every quotient that does
  not fit, signed or unsigned, at every width; otherwise quotient and remainder are those of the
  integers, and the emitted machine division never traps.\<close>

theorem division_exact:
  fixes dividend :: "'d::len word" and divisor :: "'a::len word"
  assumes "operand_width TYPE('a)" and "LENGTH('d) = 2 * LENGTH('a)"
  shows "division_outcome op dividend divisor = Some (case op of
      DivideUnsigned \<Rightarrow>
        if divisor = 0 \<or> 2 ^ LENGTH('a) \<le> uint dividend div uint divisor then None
        else Some (word_of_int (uint dividend div uint divisor), word_of_int (uint dividend mod uint divisor))
    | DivideSigned \<Rightarrow>
        if divisor = 0 \<or> \<not> fits_signed LENGTH('a) (sint dividend sdiv sint divisor) then None
        else Some (word_of_int (sint dividend sdiv sint divisor), word_of_int (sint dividend smod sint divisor)))"
  using divide_unsigned [OF assms] divide_signed [OF assms] by (cases op) (simp_all only: divide_op.case)

theorem division_exact_witness:
  "division_outcome DivideSigned (0x8000 :: u16) (0xFF :: u8) = Some None \<and>
   division_outcome DivideSigned (0xFFF9 :: u16) (2 :: u8) = Some (Some (0xFD, 0xFF))"
  using division_exact [where op = DivideSigned and dividend = "0x8000 :: u16" and divisor = "0xFF :: u8", OF byte_width] division_exact [where op = DivideSigned and dividend = "0xFFF9 :: u16" and divisor = "2 :: u8", OF byte_width]
  by (simp add: fits_signed_def signed_divide_int_def signed_modulo_int_def)

text \<open>C26: addition and subtraction of two-digit packed decimals followed by the decimal adjustment give
  the decimal sum or difference modulo one hundred with its carry or borrow, for every pair of
  operands and either incoming carry.\<close>

theorem decimal_arithmetic_exact:
  assumes "m < 100" and "n < 100"
  shows "decimal_result Add (bcd m) (bcd n) v = (bcd ((m + n + of_bool (v CF)) mod 100), 100 \<le> m + n + of_bool (v CF)) \<and>
    decimal_result Subtract (bcd m) (bcd n) v =
      (bcd (nat ((int m - int n - of_bool (v CF)) mod 100)), m < n + of_bool (v CF))"
  using decimal_add [OF assms] decimal_subtract [OF assms] by (rule conjI)

theorem decimal_arithmetic_exact_witness:
  "decimal_result Add (bcd 38) (bcd 75) (\<lambda>f. f = CF) = (bcd 14, True)"
  using decimal_arithmetic_exact [of 38 75 "\<lambda>f. f = CF"] by simp

end
