(* ===== verification/Paging.thy ===== *)
theory Paging
  imports State_Fields Segments X86_Alu
begin

text \<open>
  Protected-mode guest memory. \<open>x86/src/memory/page_table.rs\<close> keeps one entry per 4 KiB page in a separate
  memory; \<open>memory/access.rs\<close> resolves a whole span before anything is transferred, \<open>memory/accesses.rs\<close>
  reuses earlier proofs along a path, \<open>memory/transfer.rs\<close> and \<open>memory/update.rs\<close> move the bytes, whether
  their backing is contiguous or scattered over frames. Definitions give the values the emitted
  code has at run time. Wasm addresses are natural numbers: a 32-bit base plus a constant offset
  does not wrap. Backing memory is as large as the frames the host maps.
\<close>

subsection \<open>memory/page\_table.rs\<close>

definition PAGE_BYTES :: u32 where
  "PAGE_BYTES = 0x1000"

definition PAGE_OFFSET :: u32 where
  "PAGE_OFFSET = PAGE_BYTES - 1"

definition FRAME_MASK :: u32 where
  "FRAME_MASK = NOT PAGE_OFFSET"

definition PRESENT :: u32 where
  "PRESENT = 1"

definition WRITABLE :: u32 where
  "WRITABLE = 2"

definition SCATTERED :: u32 where
  "SCATTERED = 4"

definition LATER_DENIAL :: u32 where
  "LATER_DENIAL = 8"

definition entry_offset :: "u32 \<Rightarrow> u32" where
  "entry_offset linear_address = push_bit 2 (drop_bit 12 linear_address)"

definition encode_entry :: "u32 \<Rightarrow> bool \<Rightarrow> u8 list option" where
  "encode_entry backing_offset writable =
     (if backing_offset AND PAGE_OFFSET \<noteq> 0 then None
      else Some (to_le_bytes (backing_offset OR PRESENT OR (if writable then WRITABLE else 0))))"

definition page_entry :: "backing \<Rightarrow> u32 \<Rightarrow> u32" where
  "page_entry table address = load_word (unat (push_bit 2 (drop_bit 12 address) :: u32)) table"

definition scattered_backing :: "u32 \<Rightarrow> u32 \<Rightarrow> bool" where
  "scattered_backing first_frame next_entry =
     (let next_frame = first_frame + PAGE_BYTES in next_entry AND FRAME_MASK \<noteq> next_frame \<or> next_frame < first_frame)"

definition crosses_page :: "u32 \<Rightarrow> u32 \<Rightarrow> bool" where
  "crosses_page start bytes = (if bytes = 1 then False else start AND PAGE_OFFSET \<ge> PAGE_BYTES - bytes + 1)"

definition physical_address :: "u32 \<Rightarrow> u32 \<Rightarrow> u32" where
  "physical_address backing address = (backing AND FRAME_MASK) OR (address AND PAGE_OFFSET)"

text \<open>The walk over the pages after the first: the word of a denial, or whether backing is scattered.\<close>

function walk_pages :: "backing \<Rightarrow> u32 \<Rightarrow> u32 \<Rightarrow> u32 \<Rightarrow> bool \<Rightarrow> u32 \<Rightarrow> u32 + bool" where
  "walk_pages table required address frame scattered remaining =
     (if remaining = 0 then Inr scattered
      else let next_address = address + PAGE_BYTES; entry = page_entry table next_address in
        if entry AND required \<noteq> required then Inl (next_address OR (entry AND PRESENT) OR LATER_DENIAL)
        else walk_pages table required next_address (entry AND FRAME_MASK) (scattered \<or> scattered_backing frame entry) (remaining - 1))"
  by pat_completeness auto
termination
  by (relation "measure (\<lambda>(_, _, _, _, _, remaining). unat remaining)") (auto simp: unat_minus_one unat_gt_0)

declare walk_pages.simps [simp del]

definition range_resolver :: "backing \<Rightarrow> u32 \<Rightarrow> u32 \<Rightarrow> u32 \<Rightarrow> u32 \<Rightarrow> u32" where
  "range_resolver table start last_byte_offset first_entry required =
     (if first_entry AND required \<noteq> required then first_entry AND (FRAME_MASK OR PRESENT OR WRITABLE)
      else
        let boundaries = drop_bit 12 last_byte_offset + drop_bit 12 ((start AND PAGE_OFFSET) + (last_byte_offset AND PAGE_OFFSET)) in
        case walk_pages table required (start AND FRAME_MASK) (first_entry AND FRAME_MASK) False boundaries of
          Inl denial \<Rightarrow> denial
        | Inr scattered \<Rightarrow> (first_entry AND (FRAME_MASK OR PRESENT OR WRITABLE)) OR push_bit 2 (of_bool scattered))"

subsection \<open>memory/page\_table/cache.rs\<close>

record page_cache =
  pc_index :: u32
  pc_entry :: u32

definition EMPTY_CACHE :: page_cache where
  "EMPTY_CACHE = \<lparr>pc_index = - 1, pc_entry = 0\<rparr>"

definition cache_lookup :: "backing \<Rightarrow> u32 \<Rightarrow> page_cache \<Rightarrow> u32 \<times> page_cache" where
  "cache_lookup table address c =
     (let index = push_bit 2 (drop_bit 12 address);
          entry = (if index = pc_index c then pc_entry c else load_word (unat index) table)
      in (entry, \<lparr>pc_index = index, pc_entry = entry\<rparr>))"

subsection \<open>memory.rs, memory/access.rs\<close>

definition required_permissions :: "intent \<Rightarrow> u32" where
  "required_permissions i = (case i of Write \<Rightarrow> PRESENT OR WRITABLE | _ \<Rightarrow> PRESENT)"

definition base_error_code :: "intent \<Rightarrow> u32" where
  "base_error_code i = (case i of Fetch \<Rightarrow> 16 | Write \<Rightarrow> 2 | _ \<Rightarrow> 0)"

record access =
  ac_linear :: u32
  ac_physical :: u32
  ac_denied :: bool
  ac_unavailable :: bool
  ac_intent :: intent
  ac_bytes :: "u32 option"

definition access_scattered :: "access \<Rightarrow> bool" where
  "access_scattered a \<longleftrightarrow> ac_unavailable a \<and> \<not> ac_denied a"

text \<open>A typed transfer inside a checked span; anything else is a panic.\<close>

definition check_field :: "access \<Rightarrow> nat \<Rightarrow> nat \<Rightarrow> bool" where
  "check_field a offset width = (case ac_bytes a of None \<Rightarrow> False | Some bytes \<Rightarrow> offset \<le> unat bytes \<and> width \<le> unat bytes - offset)"

text \<open>A non-faulting probe of a constant span of at most one page: denied, unavailable.\<close>

definition probe_span :: "backing \<Rightarrow> u32 \<Rightarrow> u32 \<Rightarrow> u32 \<Rightarrow> u32 \<Rightarrow> bool \<times> bool" where
  "probe_span table start bytes first_entry required =
     (if bytes = 0 then (True, True)
      else if crosses_page start bytes then
        let next_entry = page_entry table (start + (bytes - 1));
            denied = (first_entry AND next_entry AND required \<noteq> required);
            scattered = scattered_backing (first_entry AND FRAME_MASK) next_entry
        in (denied, denied \<or> scattered)
      else let denied = (first_entry AND required \<noteq> required) in (denied, denied))"

text \<open>Full resolution: the address and presence of a denial, or whether backing is scattered and where.\<close>

definition resolve_pages :: "backing \<Rightarrow> u32 \<Rightarrow> u32 \<Rightarrow> u32 \<Rightarrow> u32 \<Rightarrow> (u32 \<times> bool) + (bool \<times> u32)" where
  "resolve_pages table start bytes first_entry required =
     (let w = range_resolver table start (bytes - 1) first_entry required in
      if w AND required \<noteq> required then Inl (if w AND LATER_DENIAL \<noteq> 0 then w AND FRAME_MASK else start, bit w 0)
      else Inr (w AND SCATTERED \<noteq> 0, physical_address w start))"

definition is_power_of_two :: "u32 \<Rightarrow> bool" where
  "is_power_of_two x \<longleftrightarrow> count_ones x = 1"

definition resolve_span :: "backing \<Rightarrow> u32 \<Rightarrow> u32 \<Rightarrow> bool \<Rightarrow> bool \<Rightarrow> u32 \<Rightarrow> u32 \<Rightarrow> (u32 \<times> bool) + (bool \<times> u32)" where
  "resolve_span table start bytes constant faulting first_entry required =
     (let first = (if first_entry AND required \<noteq> required then Inl (start, bit first_entry 0)
                   else Inr (False, physical_address first_entry start)) in
      if constant \<and> bytes = 1 \<and> faulting then first
      else if constant \<and> bytes \<le> PAGE_BYTES then
        let may_cross = (if is_power_of_two bytes then start AND (bytes - 1) \<noteq> 0 else True) in
        if may_cross \<and> crosses_page start bytes then resolve_pages table start bytes first_entry required else first
      else if \<not> faulting \<and> bytes = 0 then Inl (start, bit first_entry 0)
      else resolve_pages table start bytes first_entry required)"

definition page_fault :: "intent \<Rightarrow> u32 \<Rightarrow> bool \<Rightarrow> exception" where
  "page_fault i address present =
     PageFault address (case i of Write \<Rightarrow> of_bool present OR base_error_code i | _ \<Rightarrow> base_error_code i)"

definition virtual_resolve ::
  "backing \<Rightarrow> u32 \<Rightarrow> u32 \<Rightarrow> bool \<Rightarrow> intent \<Rightarrow> page_cache option \<Rightarrow> bool \<Rightarrow> ((exception + access) \<times> page_cache option) option" where
  "virtual_resolve table start bytes constant i cache faulting =
     (if faulting \<and> constant \<and> bytes = 0 then None
      else
        case (case cache of Some c \<Rightarrow> map_prod id Some (cache_lookup table start c) | None \<Rightarrow> (page_entry table start, None)) of
          (first_entry, cache) \<Rightarrow>
        let required = required_permissions i;
            known = (if constant then Some bytes else None);
            result = (\<lambda>denied unavailable physical.
              \<lparr>ac_linear = start, ac_physical = physical, ac_denied = denied, ac_unavailable = unavailable, ac_intent = i, ac_bytes = known\<rparr>)
        in Some (
          if \<not> faulting \<and> constant \<and> bytes \<le> PAGE_BYTES then
            case probe_span table start bytes first_entry required of
              (denied, unavailable) \<Rightarrow> Inr (result denied unavailable (physical_address first_entry start))
          else case resolve_span table start bytes constant faulting first_entry required of
              Inl (address, present) \<Rightarrow>
                if faulting then Inl (page_fault i address present)
                else Inr (result True True (physical_address first_entry start))
            | Inr (unavailable, physical) \<Rightarrow> Inr (result False unavailable physical), cache))"

subsection \<open>memory/accesses.rs\<close>

record anchors =
  an_read :: "access option"
  an_write :: "access option"

definition no_anchors :: anchors where
  "no_anchors = \<lparr>an_read = None, an_write = None\<rparr>"

text \<open>An earlier proof of the same span; the Boolean is the translator's answer that it started at the
  same expression.\<close>

definition reusable :: "bool \<Rightarrow> u32 \<Rightarrow> intent \<Rightarrow> access option \<Rightarrow> access option" where
  "reusable same bytes i anchor =
     (case anchor of None \<Rightarrow> None | Some a \<Rightarrow>
        if required_permissions (ac_intent a) AND required_permissions i = required_permissions i \<and> same \<and>
           (case ac_bytes a of None \<Rightarrow> False | Some checked \<Rightarrow> checked \<ge> bytes)
        then Some (a\<lparr>ac_bytes := Some bytes, ac_intent := i\<rparr>) else None)"

definition anchor_for :: "intent \<Rightarrow> anchors \<Rightarrow> access option" where
  "anchor_for i an = (case i of Write \<Rightarrow> an_write an | _ \<Rightarrow> (case an_read an of Some a \<Rightarrow> Some a | None \<Rightarrow> an_write an))"

definition retain_anchor :: "intent \<Rightarrow> access \<Rightarrow> anchors \<Rightarrow> anchors" where
  "retain_anchor i a an =
     (case i of Write \<Rightarrow> if an_write an = None then an\<lparr>an_write := Some a\<rparr> else an
      | _ \<Rightarrow> if an_read an = None then an\<lparr>an_read := Some a\<rparr> else an)"

definition accesses_resolve ::
  "backing \<Rightarrow> bool \<Rightarrow> bool \<Rightarrow> u32 \<Rightarrow> u32 \<Rightarrow> intent \<Rightarrow> anchors \<Rightarrow> ((exception + access) \<times> anchors) option" where
  "accesses_resolve table same_write same_read start bytes i an =
     (if \<not> (1 \<le> bytes \<and> bytes \<le> PAGE_BYTES) then None
      else case reusable same_write bytes i (an_write an) of Some a \<Rightarrow> Some (Inr a, an) | None \<Rightarrow>
      case reusable same_read bytes i (an_read an) of Some a \<Rightarrow> Some (Inr a, an) | None \<Rightarrow>
      Option.bind
        (case anchor_for i an of
           None \<Rightarrow> map_option fst (virtual_resolve table start bytes True i None True)
         | Some anchor \<Rightarrow>
             let here = (\<lambda>scattered physical. \<lparr>ac_linear = start, ac_physical = physical, ac_denied = False,
                   ac_unavailable = scattered, ac_intent = i, ac_bytes = Some bytes\<rparr>) in
             if start - (ac_linear anchor AND FRAME_MASK) < PAGE_BYTES - bytes + 1
             then Some (Inr (here False (physical_address (ac_physical anchor) start)))
             else map_option (\<lambda>(r, _). case r of Inl x \<Rightarrow> Inl x | Inr a \<Rightarrow> Inr (here (access_scattered a) (ac_physical a)))
               (virtual_resolve table start bytes True i None True))
        (\<lambda>r. Some (r, case r of Inl _ \<Rightarrow> an | Inr a \<Rightarrow> retain_anchor i a an)))"

subsection \<open>memory/transfer.rs\<close>

definition translated :: "backing \<Rightarrow> u32 \<Rightarrow> nat" where
  "translated table address = unat (physical_address (page_entry table address) address)"

definition scattered_part :: "backing \<Rightarrow> backing \<Rightarrow> u32 \<Rightarrow> nat \<Rightarrow> nat \<Rightarrow> u64" where
  "scattered_part table guest linear part bytes =
     fold (\<lambda>offset v. v OR push_bit (offset * 8) (ucast (guest (translated table (linear + of_nat (part + offset)))))) [0..<bytes] 0"

definition scattered_read :: "backing \<Rightarrow> backing \<Rightarrow> u32 \<Rightarrow> 'a::len word" where
  "scattered_read table guest linear =
     (if LENGTH('a) = 128 then ucast (scattered_part table guest linear 0 8) OR push_bit 64 (ucast (scattered_part table guest linear 8 8))
      else ucast (scattered_part table guest linear 0 (LENGTH('a) div 8)))"

definition scattered_write_part :: "backing \<Rightarrow> u32 \<Rightarrow> nat \<Rightarrow> nat \<Rightarrow> u64 \<Rightarrow> backing \<Rightarrow> backing" where
  "scattered_write_part table linear part bytes v guest =
     fold (\<lambda>offset guest. guest(translated table (linear + of_nat (part + offset)) := ucast (drop_bit (offset * 8) v))) [0..<bytes] guest"

definition scattered_write :: "backing \<Rightarrow> u32 \<Rightarrow> 'a::len word \<Rightarrow> backing \<Rightarrow> backing" where
  "scattered_write table linear v guest =
     (if LENGTH('a) = 128
      then scattered_write_part table linear 8 8 (ucast (drop_bit 64 v)) (scattered_write_part table linear 0 8 (ucast v) guest)
      else scattered_write_part table linear 0 (LENGTH('a) div 8) (ucast v) guest)"

definition virtual_read :: "backing \<Rightarrow> backing \<Rightarrow> access \<Rightarrow> nat \<Rightarrow> 'a::len word option" where
  "virtual_read table guest a offset =
     (if \<not> check_field a offset (LENGTH('a) div 8) then None
      else if ac_bytes a = Some 1 then Some (load_word (unat (ac_physical a)) guest)
      else if access_scattered a then Some (scattered_read table guest (ac_linear a + of_nat offset))
      else Some (load_word (unat (ac_physical a) + offset) guest))"

definition virtual_write :: "backing \<Rightarrow> access \<Rightarrow> nat \<Rightarrow> 'a::len word \<Rightarrow> backing \<Rightarrow> backing option" where
  "virtual_write table a offset v guest =
     (if \<not> check_field a offset (LENGTH('a) div 8) \<or> ac_intent a \<noteq> Write then None
      else if ac_bytes a = Some 1 then Some (store_bytes (unat (ac_physical a)) (to_le_bytes v) guest)
      else if access_scattered a then Some (scattered_write table (ac_linear a + of_nat offset) v guest)
      else Some (store_bytes (unat (ac_physical a) + offset) (to_le_bytes v) guest))"

subsection \<open>memory/update.rs\<close>

text \<open>A native atomic operation returns the previous value and traps unless naturally aligned. Negation is a
  compare-exchange loop, which in private memory succeeds at its first iteration.\<close>

definition native_update :: "u32 \<Rightarrow> 'a::len word operand_update \<Rightarrow> backing \<Rightarrow> ('a word \<times> backing) option" where
  "native_update physical update guest =
     (if unat physical mod (LENGTH('a) div 8) \<noteq> 0 then None
      else
        let previous = load_word (unat physical) guest in
        Some (previous, store_bytes (unat physical) (to_le_bytes (case update of
            UpdateAdd v \<Rightarrow> previous + v
          | UpdateAddWithCarry source carry \<Rightarrow> previous + (source + of_bool carry)
          | UpdateSubtract v \<Rightarrow> previous - v
          | UpdateSubtractWithBorrow source borrow \<Rightarrow> previous - (source + of_bool borrow)
          | UpdateAnd v \<Rightarrow> previous AND v
          | UpdateOr v \<Rightarrow> previous OR v
          | UpdateXor v \<Rightarrow> previous XOR v
          | UpdateExchange v \<Rightarrow> v
          | UpdateCompareExchange expected replacement \<Rightarrow> if previous = expected then replacement else previous
          | UpdateNegate \<Rightarrow> update_apply update previous)) guest))"

definition virtual_update ::
  "backing \<Rightarrow> access \<Rightarrow> 'a::len word operand_update \<Rightarrow> backing \<Rightarrow> ('a word \<times> backing) option" where
  "virtual_update table a update guest =
     (if ac_intent a \<noteq> Write \<or> ac_bytes a \<noteq> Some (of_nat (LENGTH('a) div 8)) then None
      else if LENGTH('a) div 8 = 1 \<or> ac_linear a AND of_nat (LENGTH('a) div 8 - 1) = 0 then native_update (ac_physical a) update guest
      else Option.bind (virtual_read table guest a 0) (\<lambda>previous.
        map_option (Pair previous) (virtual_write table a 0 (update_apply update previous) guest)))"

subsection \<open>Page numbers\<close>

lemmas page_consts = PAGE_BYTES_def PAGE_OFFSET_def FRAME_MASK_def PRESENT_def WRITABLE_def SCATTERED_def LATER_DENIAL_def

definition entry_at :: "backing \<Rightarrow> nat \<Rightarrow> u32" where
  "entry_at table n = load_word (4 * (n mod 2 ^ 20)) table"

lemma page_offset_mask: "PAGE_OFFSET = mask 12"
  by (simp add: page_consts mask_eq_exp_minus_1)

lemma unat_page_offset: "unat (a AND PAGE_OFFSET) = unat a mod 4096"
  by (simp add: page_offset_mask take_bit_eq_mod unat_mod_distrib flip: take_bit_eq_mask)

lemma unat_drop_12: "unat (drop_bit 12 a :: u32) = unat a div 4096"
  by (simp add: drop_bit_eq_div unat_div_distrib)

lemma unat_frame: "unat (a AND FRAME_MASK) = unat a div 4096 * 4096"
proof -
  have "a AND FRAME_MASK = push_bit 12 (drop_bit 12 a)"
    by (rule bit_word_eqI) (auto simp: FRAME_MASK_def page_offset_mask bit_simps)
  moreover have "unat a div 4096 * 4096 < 2 ^ 32" using unsigned_less [of a, where 'a = nat] div_times_less_eq_dividend [of "unat a" 4096]
    by (simp del: div_times_less_eq_dividend)
  ultimately show ?thesis by (simp add: push_bit_eq_mult unat_word_ariths(2) unat_drop_12)
qed

lemma unat_physical: "unat (physical_address b a) = unat b div 4096 * 4096 + unat a mod 4096"
proof -
  have "physical_address b a = (b AND FRAME_MASK) + (a AND PAGE_OFFSET)"
    unfolding physical_address_def by (rule disjunctive_add [symmetric]) (auto simp: FRAME_MASK_def bit_simps)
  moreover have "unat b div 4096 * 4096 + unat a mod 4096 < 2 ^ 32"
  proof -
    have "unat b div 4096 < 2 ^ 20" using unsigned_less [of b, where 'a = nat] by (simp add: less_mult_imp_div_less)
    moreover have "unat a mod 4096 < 4096" by simp
    ultimately show ?thesis by (simp add: algebra_simps)
  qed
  ultimately show ?thesis by (simp add: unat_add_no_wrap unat_frame unat_page_offset)
qed

lemma page_entry_at: "page_entry table a = entry_at table (unat a div 4096)"
proof -
  have "unat a div 4096 < 2 ^ 20" using unsigned_less [of a, where 'a = nat] by (simp add: less_mult_imp_div_less)
  then have "unat (push_bit 2 (drop_bit 12 a) :: u32) = 4 * (unat a div 4096)"
    by (simp add: push_bit_eq_mult unat_word_ariths(2) unat_drop_12)
  then show ?thesis using \<open>unat a div 4096 < 2 ^ 20\<close> by (simp add: page_entry_def entry_at_def)
qed

lemma entry_at_mod: "entry_at table (n mod 2 ^ 20) = entry_at table n"
  by (simp add: entry_at_def)

lemma page_entry_of_nat: "page_entry table (of_nat x) = entry_at table (x div 4096)"
proof -
  have "x mod 2 ^ 32 div 4096 = x div 4096 mod 2 ^ 20"
    using mod_mult2_eq [of x 4096 "2 ^ 20"] by simp
  then show ?thesis using entry_at_mod [of table "x div 4096"] by (simp add: page_entry_at unat_of_nat)
qed

lemma page_entry_add: "page_entry table (start + of_nat k) = entry_at table ((unat start + k) div 4096)"
  using page_entry_of_nat [of table "unat start + k"] by simp


subsection \<open>The page walk\<close>

definition permitted :: "backing \<Rightarrow> u32 \<Rightarrow> nat \<Rightarrow> bool" where
  "permitted table required n \<longleftrightarrow> entry_at table n AND required = required"

fun frames_linked :: "u32 \<Rightarrow> u32 list \<Rightarrow> bool" where
  "frames_linked frame [] \<longleftrightarrow> True"
| "frames_linked frame (e # es) \<longleftrightarrow> \<not> scattered_backing frame e \<and> frames_linked (e AND FRAME_MASK) es"

lemma walk_pages_find:
  assumes "r < 2 ^ 32"
  shows "walk_pages table required (of_nat (4096 * n)) frame scattered (of_nat r) =
    (case find (\<lambda>k. \<not> permitted table required k) [n + 1..<n + r + 1] of
       Some k \<Rightarrow> Inl (of_nat (4096 * k) OR (entry_at table k AND PRESENT) OR LATER_DENIAL)
     | None \<Rightarrow> Inr (scattered \<or> \<not> frames_linked frame (map (entry_at table) [n + 1..<n + r + 1])))"
  using assms
proof (induction r arbitrary: n frame scattered)
  case 0
  then show ?case by (simp add: walk_pages.simps)
next
  case (Suc r)
  have nz: "(of_nat (Suc r) :: u32) \<noteq> 0" using Suc.prems of_nat_inverse [of "Suc r", where 'a = 32] by (auto simp del: of_nat_Suc)
  have pred: "(of_nat (Suc r) :: u32) - 1 = of_nat r" by simp
  have step: "(of_nat (4096 * n) :: u32) + PAGE_BYTES = of_nat (4096 * Suc n)" by (simp add: PAGE_BYTES_def algebra_simps)
  have entry: "page_entry table (of_nat (4096 * Suc n)) = entry_at table (Suc n)" by (subst page_entry_of_nat) simp
  have upt: "[n + 1..<n + Suc r + 1] = Suc n # [Suc n + 1..<Suc n + r + 1]" by (simp add: upt_conv_Cons)
  show ?case
  proof (cases "permitted table required (Suc n)")
    case True
    have "walk_pages table required (of_nat (4096 * n)) frame scattered (of_nat (Suc r)) =
      walk_pages table required (of_nat (4096 * Suc n)) (entry_at table (Suc n) AND FRAME_MASK)
        (scattered \<or> scattered_backing frame (entry_at table (Suc n))) (of_nat r)"
      by (subst walk_pages.simps) (use True nz pred in \<open>simp only: step entry Let_def permitted_def if_False not_True_eq_False simp_thms\<close>)
    also have "\<dots> = (case find (\<lambda>k. \<not> permitted table required k) [Suc n + 1..<Suc n + r + 1] of
       Some k \<Rightarrow> Inl (of_nat (4096 * k) OR (entry_at table k AND PRESENT) OR LATER_DENIAL)
     | None \<Rightarrow> Inr ((scattered \<or> scattered_backing frame (entry_at table (Suc n))) \<or>
         \<not> frames_linked (entry_at table (Suc n) AND FRAME_MASK) (map (entry_at table) [Suc n + 1..<Suc n + r + 1])))"
      by (rule Suc.IH) (use Suc.prems in simp)
    finally show ?thesis unfolding upt using True by (auto split: option.split simp del: upt_Suc)
  next
    case False
    then have "walk_pages table required (of_nat (4096 * n)) frame scattered (of_nat (Suc r)) =
      Inl (of_nat (4096 * Suc n) OR (entry_at table (Suc n) AND PRESENT) OR LATER_DENIAL)"
      by (subst walk_pages.simps) (use nz in \<open>simp only: step entry Let_def permitted_def if_True if_False simp_thms\<close>)
    then show ?thesis unfolding upt using False by (simp del: upt_Suc)
  qed
qed

lemma not_scattered_frame:
  assumes "\<not> scattered_backing frame e"
  shows "unat (e AND FRAME_MASK) = unat frame + 4096"
proof -
  have "e AND FRAME_MASK = frame + PAGE_BYTES" "\<not> frame + PAGE_BYTES < frame" using assms by (auto simp: scattered_backing_def Let_def)
  then show ?thesis by (auto simp: PAGE_BYTES_def word_less_nat_alt unat_plus_if' split: if_splits)
qed

lemma linked_frames:
  assumes "frames_linked frame es" and "i < length es"
  shows "unat (es ! i AND FRAME_MASK) = unat frame + 4096 * (i + 1)"
  using assms
proof (induction es arbitrary: frame i)
  case (Cons e es)
  then have e: "unat (e AND FRAME_MASK) = unat frame + 4096" using not_scattered_frame by simp
  show ?case
  proof (cases i)
    case (Suc j)
    with Cons.IH [of "e AND FRAME_MASK" j] Cons.prems e show ?thesis by simp
  qed (use e in simp)
qed simp


subsection \<open>Whole spans\<close>

lemma find_upt_Some: "find Q [a..<b] = Some k \<longleftrightarrow> a \<le> k \<and> k < b \<and> Q k \<and> (\<forall>j. a \<le> j \<and> j < k \<longrightarrow> \<not> Q j)"
proof
  assume "find Q [a..<b] = Some k"
  then obtain i where i: "i < b - a" "Q (a + i)" "k = a + i" "\<forall>j<i. \<not> Q (a + j)" by (auto simp: find_Some_iff)
  have "\<not> Q j" if "a \<le> j" "j < k" for j using i(3,4) that le_Suc_ex [of a j] by auto
  with i show "a \<le> k \<and> k < b \<and> Q k \<and> (\<forall>j. a \<le> j \<and> j < k \<longrightarrow> \<not> Q j)" by auto
next
  assume *: "a \<le> k \<and> k < b \<and> Q k \<and> (\<forall>j. a \<le> j \<and> j < k \<longrightarrow> \<not> Q j)"
  then show "find Q [a..<b] = Some k" by (auto simp: find_Some_iff intro!: exI [of _ "k - a"])
qed

lemma find_upt_None: "find Q [a..<b] = None \<longleftrightarrow> (\<forall>k. a \<le> k \<and> k < b \<longrightarrow> \<not> Q k)"
  by (auto simp: find_None_iff)

text \<open>The first byte of a span on a denied page.\<close>

definition first_denied :: "backing \<Rightarrow> u32 \<Rightarrow> u32 \<Rightarrow> nat \<Rightarrow> nat option" where
  "first_denied table required start b = find (\<lambda>k. page_entry table (start + of_nat k) AND required \<noteq> required) [0..<b]"

lemma first_denied_permitted:
  "first_denied table required start b = find (\<lambda>k. \<not> permitted table required ((unat start + k) div 4096)) [0..<b]"
  by (simp add: first_denied_def page_entry_add permitted_def)

lemma page_div: "4096 * (n :: nat) \<le> x \<longleftrightarrow> n \<le> x div 4096"
  by (simp add: less_eq_div_iff_mult_less_eq mult.commute)

lemma first_denied_pages:
  assumes "0 < b"
  shows "first_denied table required start b =
    (if \<not> permitted table required (unat start div 4096) then Some 0
     else map_option (\<lambda>n. 4096 * n - unat start)
       (find (\<lambda>n. \<not> permitted table required n) [unat start div 4096 + 1..<(unat start + b - 1) div 4096 + 1]))"
proof (cases "permitted table required (unat start div 4096)")
  case False
  then show ?thesis using assms by (simp add: first_denied_permitted upt_conv_Cons)
next
  case True
  let ?s = "unat start" and ?P = "permitted table required"
  show ?thesis
  proof (cases "find (\<lambda>n. \<not> ?P n) [?s div 4096 + 1..<(?s + b - 1) div 4096 + 1]")
    case None
    have "?P ((?s + k) div 4096)" if "k < b" for k
    proof (cases "(?s + k) div 4096 = ?s div 4096")
      case False
      have "?s div 4096 \<le> (?s + k) div 4096" "(?s + k) div 4096 \<le> (?s + b - 1) div 4096" using that by (auto intro!: div_le_mono)
      with False show ?thesis using None [unfolded find_upt_None, rule_format, of "(?s + k) div 4096"] by simp
    qed (use True in simp)
    then have "first_denied table required start b = None" by (simp add: first_denied_permitted find_upt_None)
    with None True show ?thesis by simp
  next
    case (Some n)
    then have n: "?s div 4096 < n" "n \<le> (?s + b - 1) div 4096" "\<not> ?P n" "\<And>j. ?s div 4096 < j \<Longrightarrow> j < n \<Longrightarrow> ?P j"
      unfolding find_upt_Some by auto
    have lt: "?s < 4096 * n" using n(1) page_div [of n ?s] by linarith
    have le: "4096 * n \<le> ?s + b - 1" using n(2) by (simp only: page_div)
    have "first_denied table required start b = Some (4096 * n - ?s)"
      unfolding first_denied_permitted find_upt_Some
    proof (intro conjI allI impI)
      show "4096 * n - ?s < b" using lt le assms by linarith
      show "\<not> ?P ((?s + (4096 * n - ?s)) div 4096)" using lt n(3) by simp
      fix j assume j: "0 \<le> j \<and> j < 4096 * n - ?s"
      then have "\<not> n \<le> (?s + j) div 4096" using lt page_div [of n "?s + j"] by linarith
      then show "\<not> \<not> ?P ((?s + j) div 4096)"
        using n(4) [of "(?s + j) div 4096"] True div_le_mono [of ?s "?s + j" 4096] by (cases "(?s + j) div 4096 = ?s div 4096") auto
    qed simp
    with Some True show ?thesis by simp
  qed
qed

lemma boundaries:
  assumes "bytes \<noteq> 0"
  shows "drop_bit 12 (bytes - 1) + drop_bit 12 ((start AND PAGE_OFFSET) + ((bytes - 1) AND PAGE_OFFSET)) =
    (of_nat ((unat start + unat bytes - 1) div 4096 - unat start div 4096) :: u32)"
proof -
  let ?s = "unat start" and ?l = "unat (bytes - 1)"
  have l: "?l = unat bytes - 1" using assms by (simp add: unat_minus_one)
  have "unat ((start AND PAGE_OFFSET) + ((bytes - 1) AND PAGE_OFFSET)) = ?s mod 4096 + ?l mod 4096"
    using mod_less_divisor [of 4096 ?s] mod_less_divisor [of 4096 ?l]
    by (subst unat_add_no_wrap) (simp_all add: unat_page_offset del: mod_less_divisor)
  then have "unat (drop_bit 12 ((start AND PAGE_OFFSET) + ((bytes - 1) AND PAGE_OFFSET))) = (?s mod 4096 + ?l mod 4096) div 4096"
    by (simp add: unat_drop_12)
  then have "unat (drop_bit 12 (bytes - 1)) + unat (drop_bit 12 ((start AND PAGE_OFFSET) + ((bytes - 1) AND PAGE_OFFSET))) =
    (?s + ?l) div 4096 - ?s div 4096"
    using div_add1_eq [of ?s ?l 4096] by (simp only: unat_drop_12 add.assoc add_diff_cancel_left')
  then have "drop_bit 12 (bytes - 1) + drop_bit 12 ((start AND PAGE_OFFSET) + ((bytes - 1) AND PAGE_OFFSET)) =
    of_nat ((?s + ?l) div 4096 - ?s div 4096)"
    by (simp only: word_arith_nat_add [of "drop_bit 12 (bytes - 1)"])
  moreover have "?s + ?l = ?s + unat bytes - 1" using l assms unat_gt_0 [of bytes] by linarith
  ultimately show ?thesis by simp
qed


text \<open>Bits of the words the resolver returns.\<close>

lemma of_nat_page: "(of_nat (4096 * n) :: u32) = push_bit 12 (of_nat n)"
  by (simp add: push_bit_eq_mult mult.commute)

lemma bit_page:
  "bit PRESENT k \<longleftrightarrow> k = 0" "bit WRITABLE k \<longleftrightarrow> k = 1" "bit SCATTERED k \<longleftrightarrow> k = 2" "bit LATER_DENIAL k \<longleftrightarrow> k = 3"
  "bit FRAME_MASK k \<longleftrightarrow> 12 \<le> k \<and> k < 32" "k < 12 \<Longrightarrow> \<not> bit (of_nat (4096 * n) :: u32) k"
proof -
  have p: "WRITABLE = 2 ^ 1" "SCATTERED = 2 ^ 2" "LATER_DENIAL = 2 ^ 3" by (simp_all add: page_consts)
  show "bit WRITABLE k \<longleftrightarrow> k = 1" unfolding p bit_exp_iff by auto
  show "bit SCATTERED k \<longleftrightarrow> k = 2" unfolding p bit_exp_iff by auto
  show "bit LATER_DENIAL k \<longleftrightarrow> k = 3" unfolding p bit_exp_iff by auto
  show "bit PRESENT k \<longleftrightarrow> k = 0" by (simp add: PRESENT_def bit_1_iff)
  show "bit FRAME_MASK k \<longleftrightarrow> 12 \<le> k \<and> k < 32" by (auto simp: FRAME_MASK_def page_offset_mask bit_simps)
  show "k < 12 \<Longrightarrow> \<not> bit (of_nat (4096 * n) :: u32) k" unfolding of_nat_page by (simp only: bit_push_bit_iff) simp
qed

lemma denial_word:
  assumes "r = 1 \<or> r = 3" and "e AND r \<noteq> r"
  shows "((of_nat (4096 * n) OR (e AND PRESENT) OR LATER_DENIAL) AND r) \<noteq> (r :: u32)"
    and "(of_nat (4096 * n) OR (e AND PRESENT) OR LATER_DENIAL) AND LATER_DENIAL \<noteq> (0 :: u32)"
    and "(of_nat (4096 * n) OR (e AND PRESENT) OR LATER_DENIAL) AND FRAME_MASK = (of_nat (4096 * n) :: u32)"
    and "bit (of_nat (4096 * n) OR (e AND PRESENT) OR LATER_DENIAL :: u32) 0 = bit e 0"
proof -
  let ?w = "of_nat (4096 * n) OR (e AND PRESENT) OR LATER_DENIAL :: u32"
  have b: "bit ?w k \<longleftrightarrow> (if k < 12 then k = 3 \<or> k = 0 \<and> bit e 0 else bit (of_nat (4096 * n) :: u32) k)" if "k < 32" for k
    using that bit_page(6) [of k n] by (auto simp: bit_or_iff bit_and_iff bit_page(1-5) simp del: of_nat_mult)
  note low = bit_page(6)
  show "bit ?w 0 = bit e 0" using b [of 0] by simp
  show "?w AND LATER_DENIAL \<noteq> 0"
  proof
    assume "?w AND LATER_DENIAL = 0"
    then have "bit (?w AND LATER_DENIAL) 3 = bit (0 :: u32) 3" by (rule arg_cong)
    then show False using b [of 3] by (simp add: bit_and_iff bit_page(1-5) del: of_nat_mult)
  qed
  show "?w AND FRAME_MASK = of_nat (4096 * n)"
    by (rule bit_word_eqI) (use b low [of _ n] in \<open>auto simp: bit_and_iff bit_page(1-5) simp del: of_nat_mult\<close>)
  show "?w AND r \<noteq> r"
  proof
    assume *: "?w AND r = r"
    have "bit ?w k" if "bit r k" for k using that arg_cong [OF *, of "\<lambda>x. bit x k"] by (simp add: bit_and_iff)
    then have "r = 1" "bit ?w 0" using assms(1) b [of 0] b [of 1] by (auto simp: bit_numeral_rec)
    then have "bit e 0" using b [of 0] by simp
    then show False using assms(2) \<open>r = 1\<close> by (simp add: bit_0 and_one_eq odd_iff_mod_2_eq_one)
  qed
qed

lemma entry_word:
  assumes "r = 1 \<or> r = 3"
  shows "(e AND (FRAME_MASK OR PRESENT OR WRITABLE) OR push_bit 2 (of_bool b)) AND r = e AND (r :: u32)"
    and "(e AND (FRAME_MASK OR PRESENT OR WRITABLE) OR push_bit 2 (of_bool b)) AND LATER_DENIAL = 0"
    and "(e AND (FRAME_MASK OR PRESENT OR WRITABLE) OR push_bit 2 (of_bool b)) AND SCATTERED \<noteq> 0 \<longleftrightarrow> b"
    and "(e AND (FRAME_MASK OR PRESENT OR WRITABLE) OR push_bit 2 (of_bool b)) AND FRAME_MASK = e AND FRAME_MASK"
    and "bit (e AND (FRAME_MASK OR PRESENT OR WRITABLE) OR push_bit 2 (of_bool b)) 0 = bit e 0"
proof -
  let ?w = "e AND (FRAME_MASK OR PRESENT OR WRITABLE) OR push_bit 2 (of_bool b)"
  have w: "bit ?w k \<longleftrightarrow> (if k < 12 then k < 2 \<and> bit e k \<or> k = 2 \<and> b else bit e k)" if "k < 32" for k
    using that by (auto simp: bit_or_iff bit_and_iff bit_page(1-5) bit_push_bit_iff bit_of_bool_iff)
  have r: "bit r k \<Longrightarrow> k < 2" for k
  proof -
    assume "bit r k"
    moreover have "r = PRESENT \<or> r = PRESENT OR WRITABLE" using assms by (auto simp: page_consts)
    ultimately show "k < 2" by (auto simp: bit_or_iff bit_page(1-5))
  qed
  show "?w AND r = e AND r" by (rule bit_word_eqI) (use w r in \<open>auto simp: bit_and_iff\<close>)
  show "?w AND LATER_DENIAL = 0" by (rule bit_word_eqI) (use w in \<open>auto simp: bit_and_iff bit_page(1-5) bit_push_bit_iff bit_of_bool_iff\<close>)
  show "?w AND FRAME_MASK = e AND FRAME_MASK" by (rule bit_word_eqI) (use w in \<open>auto simp: bit_and_iff bit_page(1-5) bit_push_bit_iff bit_of_bool_iff\<close>)
  show "bit ?w 0 = bit e 0" using w [of 0] by simp
  have "?w AND SCATTERED = push_bit 2 (of_bool b)" by (rule bit_word_eqI) (use w in \<open>auto simp: bit_and_iff bit_page(1-5) bit_push_bit_iff bit_of_bool_iff\<close>)
  then show "?w AND SCATTERED \<noteq> 0 \<longleftrightarrow> b" by (simp add: push_bit_eq_mult)
qed


text \<open>The bytes of a span lie one after another in backing memory.\<close>

definition contiguous :: "backing \<Rightarrow> u32 \<Rightarrow> nat \<Rightarrow> u32 \<Rightarrow> bool" where
  "contiguous table start b physical \<longleftrightarrow> (\<forall>k<b. translated table (start + of_nat k) = unat physical + k)"

lemma translated_add:
  "translated table (start + of_nat k) =
     unat (entry_at table ((unat start + k) div 4096) AND FRAME_MASK) + (unat start + k) mod 4096"
proof -
  have "unat (start + of_nat k) mod 4096 = (unat start + k) mod 4096"
    by (simp add: unat_word_ariths(1) unat_of_nat mod_mod_cancel mod_add_right_eq)
  then show ?thesis by (simp add: translated_def unat_physical unat_frame page_entry_add)
qed

lemma page_add:
  assumes "(x :: nat) mod 4096 + k < 4096"
  shows "(x + k) div 4096 = x div 4096" "(x + k) mod 4096 = x mod 4096 + k"
proof -
  have "k < 4096" using assms by linarith
  then show "(x + k) div 4096 = x div 4096" "(x + k) mod 4096 = x mod 4096 + k"
    using assms div_add1_eq [of x k 4096] mod_add_eq [of x 4096 k] by simp_all
qed

lemma same_page_span:
  assumes "unat start mod 4096 + b \<le> 4096" and "0 < b"
  shows "contiguous table start b (physical_address (page_entry table start) start)"
    and "first_denied table required start b = (if page_entry table start AND required \<noteq> required then Some 0 else None)"
proof -
  have page: "(unat start + k) div 4096 = unat start div 4096" "(unat start + k) mod 4096 = unat start mod 4096 + k" if "k < b" for k
    using page_add [of "unat start" k] assms that by auto
  show "contiguous table start b (physical_address (page_entry table start) start)"
    using page by (simp add: contiguous_def translated_add unat_physical unat_frame page_entry_at)
  show "first_denied table required start b = (if page_entry table start AND required \<noteq> required then Some 0 else None)"
  proof (cases "page_entry table start AND required = required")
    case True
    then show ?thesis using page by (auto simp: first_denied_permitted find_upt_None permitted_def page_entry_at)
  next
    case False
    then show ?thesis using page [of 0] assms(2) by (auto simp: first_denied_permitted find_upt_Some permitted_def page_entry_at)
  qed
qed

lemma page_split: "s + k = 4096 * (n + i) + m \<Longrightarrow> s = 4096 * n + j \<Longrightarrow> 4096 * i + m = j + (k :: nat)"
  by simp

lemma linked_contiguous:
  assumes "frames_linked (entry_at table (unat start div 4096) AND FRAME_MASK)
      (map (entry_at table) [unat start div 4096 + 1..<(unat start + b - 1) div 4096 + 1])"
  shows "contiguous table start b (physical_address (page_entry table start) start)"
  unfolding contiguous_def
proof (intro allI impI)
  fix k assume k: "k < b"
  let ?s = "unat start" and ?n = "unat start div 4096"
  define i where "i = (?s + k) div 4096 - ?n"
  have le: "?n \<le> (?s + k) div 4096" "(?s + k) div 4096 \<le> (?s + b - 1) div 4096" using k by (auto intro!: div_le_mono)
  then have page: "(?s + k) div 4096 = ?n + i" by (simp add: i_def)
  have frame: "unat (entry_at table (?n + i) AND FRAME_MASK) = unat (entry_at table ?n AND FRAME_MASK) + 4096 * i"
  proof (cases i)
    case (Suc j)
    then have "j < length [?n + 1..<(?s + b - 1) div 4096 + 1]" using le page unfolding length_upt by linarith
    then show ?thesis using linked_frames [OF assms, of j] Suc by (simp del: upt_Suc)
  qed simp
  have "?s + k = 4096 * (?n + i) + (?s + k) mod 4096" using page by (metis mult_div_mod_eq)
  moreover have "?s = 4096 * ?n + ?s mod 4096" by simp
  ultimately have "4096 * i + (?s + k) mod 4096 = ?s mod 4096 + k" by (rule page_split)
  then show "translated table (start + of_nat k) = unat (physical_address (page_entry table start) start) + k"
    using frame page by (simp add: translated_add unat_physical unat_frame page_entry_at)
qed

lemma resolve_pages_spec:
  assumes r: "r = 1 \<or> r = 3" and b: "bytes \<noteq> 0"
  shows "case first_denied table r start (unat bytes) of
      Some k \<Rightarrow> resolve_pages table start bytes (page_entry table start) r = Inl (start + of_nat k, bit (page_entry table (start + of_nat k)) 0)
    | None \<Rightarrow> \<exists>s. resolve_pages table start bytes (page_entry table start) r = Inr (s, physical_address (page_entry table start) start) \<and>
        (\<not> s \<longrightarrow> contiguous table start (unat bytes) (physical_address (page_entry table start) start))"
proof -
  let ?s = "unat start" and ?b = "unat bytes" and ?e = "page_entry table start"
  let ?pages = "[?s div 4096 + 1..<(?s + ?b - 1) div 4096 + 1]"
  have pos: "0 < ?b" using b by (simp add: unat_gt_0)
  note fd = first_denied_pages [OF pos, of table r start]
  have e: "?e = entry_at table (?s div 4096)" by (rule page_entry_at)
  show ?thesis
  proof (cases "permitted table r (?s div 4096)")
    case False
    then have "?e AND r \<noteq> r" by (simp add: permitted_def e)
    moreover have "bit (?e AND (FRAME_MASK OR PRESENT OR WRITABLE)) 0 = bit ?e 0" using entry_word(5) [OF r, of ?e False] by simp
    ultimately have "resolve_pages table start bytes ?e r = Inl (start, bit ?e 0)"
      using entry_word(1,2) [OF r, of ?e False] by (simp add: resolve_pages_def range_resolver_def Let_def)
    then show ?thesis using fd False by simp
  next
    case True
    then have er: "?e AND r = r" by (simp add: permitted_def e)
    define n where "n = (?s + ?b - 1) div 4096 - ?s div 4096"
    have le: "?s div 4096 \<le> (?s + ?b - 1) div 4096" using pos by (intro div_le_mono) simp
    have nlt: "n < 2 ^ 32"
    proof -
      have "(?s + ?b - 1) div 4096 \<le> ?s + ?b - 1" by simp
      moreover have "?s + ?b - 1 < 4096 * 2 ^ 32" using unsigned_less [of start, where 'a = nat] unsigned_less [of bytes, where 'a = nat] by simp
      ultimately show ?thesis using less_mult_imp_div_less [of "?s + ?b - 1" "2 ^ 32" 4096] by (simp add: n_def mult.commute)
    qed
    have base: "start AND FRAME_MASK = of_nat (4096 * (?s div 4096))"
    proof -
      have "4096 * (?s div 4096) < 2 ^ 32" using unsigned_less [of start, where 'a = nat] by (simp add: mult_div_mod_eq [symmetric] minus_mod_eq_mult_div [symmetric])
      then have "unat (of_nat (4096 * (?s div 4096)) :: u32) = 4096 * (?s div 4096)" by (simp only: unat_of_nat) simp
      then show ?thesis unfolding word_unat_eq_iff unat_frame by (simp only: mult.commute)
    qed
    have pages: "[?s div 4096 + 1..<?s div 4096 + n + 1] = ?pages" using le by (simp add: n_def del: upt_Suc)
    have walk: "walk_pages table r (start AND FRAME_MASK) (?e AND FRAME_MASK) False
        (drop_bit 12 (bytes - 1) + drop_bit 12 ((start AND PAGE_OFFSET) + ((bytes - 1) AND PAGE_OFFSET))) =
      (case find (\<lambda>k. \<not> permitted table r k) ?pages of
         Some k \<Rightarrow> Inl (of_nat (4096 * k) OR (entry_at table k AND PRESENT) OR LATER_DENIAL)
       | None \<Rightarrow> Inr (\<not> frames_linked (?e AND FRAME_MASK) (map (entry_at table) ?pages)))"
      unfolding boundaries [OF b] base n_def [symmetric]
      by (rule walk_pages_find [OF nlt, of table r "?s div 4096" "?e AND FRAME_MASK" False, unfolded pages simp_thms])
    show ?thesis
    proof (cases "find (\<lambda>k. \<not> permitted table r k) ?pages")
      case None
      define s where "s = (\<not> frames_linked (?e AND FRAME_MASK) (map (entry_at table) ?pages))"
      have w: "range_resolver table start (bytes - 1) ?e r = (?e AND (FRAME_MASK OR PRESENT OR WRITABLE)) OR push_bit 2 (of_bool s)"
        using er walk None by (simp add: range_resolver_def Let_def s_def del: upt_Suc)
      have "resolve_pages table start bytes ?e r = Inr (s, physical_address ?e start)"
        using entry_word [OF r, of ?e s] er by (simp only: resolve_pages_def w Let_def physical_address_def if_False simp_thms)
      moreover have "\<not> s \<longrightarrow> contiguous table start ?b (physical_address ?e start)"
        using linked_contiguous [of table start ?b] by (simp add: s_def e)
      ultimately show ?thesis using fd True None by (simp del: upt_Suc)
    next
      case (Some k)
      let ?w = "of_nat (4096 * k) OR (entry_at table k AND PRESENT) OR LATER_DENIAL :: u32"
      have k: "\<not> permitted table r k" "?s div 4096 < k" using Some [unfolded find_upt_Some] by auto
      have lt: "?s < 4096 * k" using k(2) page_div [of k ?s] by linarith
      have w: "range_resolver table start (bytes - 1) ?e r = ?w"
        using er walk Some by (simp add: range_resolver_def Let_def del: upt_Suc of_nat_mult)
      have at: "(of_nat (4096 * k) :: u32) = start + of_nat (4096 * k - ?s)"
        using lt by (simp add: of_nat_diff del: of_nat_mult)
      have entry: "page_entry table (start + of_nat (4096 * k - ?s)) = entry_at table k"
      proof -
        have "?s + (4096 * k - ?s) = 4096 * k" using lt by simp
        then show ?thesis by (simp only: page_entry_add) simp
      qed
      have "resolve_pages table start bytes ?e r = Inl (of_nat (4096 * k), bit (entry_at table k) 0)"
        using denial_word [OF r, of "entry_at table k" k] k(1)
        by (simp only: resolve_pages_def w Let_def permitted_def if_True simp_thms)
      then show ?thesis using fd True Some at entry by (simp del: upt_Suc of_nat_mult)
    qed
  qed
qed


lemma power_of_two:
  assumes "is_power_of_two (x :: u32)"
  obtains j where "j < 32" and "x = 2 ^ j"
proof -
  have "length (filter (bit x) [0..<32]) = 1" using assms by (simp add: is_power_of_two_def count_ones_def)
  then obtain j where j: "filter (bit x) [0..<32] = [j]" by (auto simp: length_Suc_conv)
  have "{n. n < 32 \<and> bit x n} = set (filter (bit x) [0..<32])" by auto
  then have "{n. n < 32 \<and> bit x n} = {j}" by (simp only: j) simp
  then have mem: "n < 32 \<and> bit x n \<longleftrightarrow> n = j" for n by blast
  have "x = 2 ^ j"
    by (rule bit_word_eqI) (use mem in \<open>auto simp: bit_exp_iff\<close>)
  then show thesis using that mem by blast
qed

lemma aligned_no_cross:
  assumes "is_power_of_two bytes" and "unat bytes \<le> 4096" and "start AND (bytes - 1) = 0"
  shows "unat start mod 4096 + unat bytes \<le> 4096"
proof -
  obtain j where j: "j < 32" "bytes = 2 ^ j" by (rule power_of_two [OF assms(1)])
  have "(2 :: nat) ^ j < 2 ^ 32" using j by (intro power_strict_increasing) simp_all
  then have "unat (of_nat (2 ^ j) :: u32) = 2 ^ j" by (simp only: unat_of_nat) simp
  then have u: "unat bytes = 2 ^ j" using j by simp
  then have "j \<le> 12" using assms(2) power_le_imp_le_exp [of 2 j 12] by simp
  have "bytes - 1 = mask j" using j by (simp add: mask_eq_exp_minus_1)
  then have "take_bit j start = 0" using assms(3) by (simp add: take_bit_eq_mask)
  then have "take_bit j (unat start) = 0" by (metis unsigned_0 unsigned_take_bit_eq)
  then have "2 ^ j dvd unat start" by (simp add: take_bit_eq_mod mod_eq_0_iff_dvd)
  moreover have d: "(2 :: nat) ^ j dvd 4096" using le_imp_power_dvd [OF \<open>j \<le> 12\<close>, of "2 :: nat"] by simp
  ultimately have "2 ^ j dvd unat start mod 4096" by (simp add: dvd_mod)
  with d have "2 ^ j dvd 4096 - unat start mod 4096" by (simp add: dvd_diff_nat)
  moreover have "0 < 4096 - unat start mod 4096" by simp
  ultimately have "2 ^ j \<le> 4096 - unat start mod 4096" by (rule dvd_imp_le)
  then show ?thesis using u by simp
qed

lemma crosses_page_iff:
  assumes "1 \<le> unat bytes" and "unat bytes \<le> 4096"
  shows "crosses_page start bytes \<longleftrightarrow> 4096 < unat start mod 4096 + unat bytes"
proof (cases "bytes = 1")
  case False
  then have "2 \<le> unat bytes" using assms(1) by (metis Suc_1 Suc_leI le_neq_implies_less numeral_1_eq_Suc_0 numeral_One unat_1 word_unat_eq_iff)
  have "unat (PAGE_BYTES - bytes) = 4096 - unat bytes"
    using assms(2) by (subst unat_sub) (simp_all add: PAGE_BYTES_def word_le_nat_alt)
  then have "unat (PAGE_BYTES - bytes + 1) = 4096 - unat bytes + 1" using \<open>2 \<le> unat bytes\<close> by (subst unat_add_no_wrap) simp_all
  then show ?thesis using False assms(2) by (auto simp: crosses_page_def word_le_nat_alt unat_page_offset)
next
  case True
  have "unat start mod 4096 < 4096" by simp
  with True show ?thesis by (simp add: crosses_page_def)
qed

text \<open>A span up to a page: what resolution with faults answers.\<close>

lemma resolve_span_spec:
  assumes r: "r = 1 \<or> r = 3" and b: "1 \<le> unat bytes" "unat bytes \<le> 4096"
  shows "case first_denied table r start (unat bytes) of
      Some k \<Rightarrow> resolve_span table start bytes True True (page_entry table start) r = Inl (start + of_nat k, bit (page_entry table (start + of_nat k)) 0)
    | None \<Rightarrow> \<exists>s. resolve_span table start bytes True True (page_entry table start) r = Inr (s, physical_address (page_entry table start) start) \<and>
        (\<not> s \<longrightarrow> contiguous table start (unat bytes) (physical_address (page_entry table start) start))"
proof (cases "crosses_page start bytes")
  case True
  then have "4096 < unat start mod 4096 + unat bytes" using crosses_page_iff [OF b] by blast
  then have "bytes \<noteq> 1" "\<not> (is_power_of_two bytes \<and> start AND (bytes - 1) = 0)"
    using aligned_no_cross [of bytes start] b by (auto simp: mod_less_divisor not_less [symmetric])
  moreover have "bytes \<le> PAGE_BYTES" "bytes \<noteq> 0" using b by (auto simp: word_le_nat_alt PAGE_BYTES_def)
  ultimately have eq: "resolve_span table start bytes True True (page_entry table start) r = resolve_pages table start bytes (page_entry table start) r"
    using True by (auto simp: resolve_span_def Let_def)
  show ?thesis unfolding eq by (rule resolve_pages_spec [OF r \<open>bytes \<noteq> 0\<close>])
next
  case False
  then have "unat start mod 4096 + unat bytes \<le> 4096" using crosses_page_iff [OF b, of start] by linarith
  note sp = same_page_span(2) [OF this, of table r] same_page_span(1) [OF this, of table]
  have "bytes \<le> PAGE_BYTES" using b by (auto simp: word_le_nat_alt PAGE_BYTES_def)
  with False sp b show ?thesis by (auto simp: resolve_span_def Let_def)
qed


subsection \<open>Transfers, byte by byte\<close>

definition linear_bytes :: "backing \<Rightarrow> backing \<Rightarrow> u32 \<Rightarrow> nat \<Rightarrow> u8 list" where
  "linear_bytes table guest start n = map (\<lambda>k. guest (translated table (start + of_nat k))) [0..<n]"

definition write_linear :: "backing \<Rightarrow> u32 \<Rightarrow> u8 list \<Rightarrow> backing \<Rightarrow> backing" where
  "write_linear table start bs guest =
     fold (\<lambda>k g. g(translated table (start + of_nat k) := bs ! k)) [0..<length bs] guest"

lemma bit_or_fold:
  "bit (fold (\<lambda>offset v. v OR push_bit (offset * 8) (ucast (f offset :: u8))) [0..<n] 0 :: u64) k \<longleftrightarrow>
     k < 64 \<and> k div 8 < n \<and> bit (f (k div 8)) (k mod 8)"
proof (induction n)
  case (Suc n)
  have "n * 8 \<le> k \<and> bit (f n) (k - n * 8) \<longleftrightarrow> k div 8 = n \<and> bit (f (k div 8)) (k mod 8)"
  proof (cases "k div 8 = n")
    case True
    then have "k - n * 8 = k mod 8" "n * 8 \<le> k" by (auto simp: minus_div_mult_eq_mod)
    with True show ?thesis by simp
  next
    case False
    then have "k < n * 8 \<or> n * 8 + 8 \<le> k"
      using div_mult_mod_eq [of k 8] less_eq_div_iff_mult_less_eq [of 8 n k] div_less_iff_less_mult [of 8 k "Suc n"] by force
    moreover have "\<not> bit (f n) (k - n * 8)" if "n * 8 + 8 \<le> k" using that bit_imp_le_length [of "f n" "k - n * 8"] by auto
    ultimately show ?thesis using False by auto
  qed
  with Suc show ?case by (auto simp: bit_or_iff bit_push_bit_iff bit_ucast_iff less_Suc_eq dest: bit_imp_le_length)
qed simp

lemma scattered_part_bit:
  "bit (scattered_part table guest linear part bytes) k \<longleftrightarrow>
     k < 64 \<and> k div 8 < bytes \<and> bit (guest (translated table (linear + of_nat (part + k div 8)))) (k mod 8)"
  unfolding scattered_part_def bit_or_fold by simp

lemma scattered_read_bytes:
  assumes "field_width TYPE('a::len)"
  shows "(scattered_read table guest linear :: 'a word) = from_le_bytes (linear_bytes table guest linear (LENGTH('a) div 8))"
proof (rule bit_word_eqI)
  fix k assume k: "k < LENGTH('a)"
  have w: "LENGTH('a) \<in> {8, 16, 32, 64, 128}" using assms by (simp add: field_width_def)
  have rhs: "bit (from_le_bytes (linear_bytes table guest linear (LENGTH('a) div 8)) :: 'a word) k \<longleftrightarrow>
    bit (guest (translated table (linear + of_nat (k div 8)))) (k mod 8)"
  proof -
    have "k div 8 < LENGTH('a) div 8" using k w by auto
    then show ?thesis using k by (simp add: bit_from_le_bytes linear_bytes_def)
  qed
  show "bit (scattered_read table guest linear :: 'a word) k \<longleftrightarrow> bit (from_le_bytes (linear_bytes table guest linear (LENGTH('a) div 8)) :: 'a word) k"
  proof (cases "LENGTH('a) = 128")
    case False
    then have "k < 64" "k div 8 < LENGTH('a) div 8" using k w by auto
    with False k show ?thesis unfolding rhs by (simp add: scattered_read_def bit_ucast_iff scattered_part_bit)
  next
    case True
    show ?thesis
    proof (cases "k < 64")
      case lo: True
      then have "k div 8 < 8" by simp
      with lo True k show ?thesis unfolding rhs by (simp add: scattered_read_def bit_or_iff bit_push_bit_iff bit_ucast_iff scattered_part_bit)
    next
      case hi: False
      then obtain j where j: "k = 64 + j" by (metis le_add_diff_inverse not_less)
      then have "j < 64" "(64 + j) div 8 = 8 + j div 8" using k True by auto
      moreover have "(64 + j) mod 8 = j mod 8" by presburger
      moreover have "j div 8 < 8" using \<open>j < 64\<close> by simp
      ultimately show ?thesis using j True k unfolding rhs
        by (simp add: scattered_read_def bit_or_iff bit_push_bit_iff bit_ucast_iff scattered_part_bit)
    qed
  qed
qed


lemma write_linear_parts:
  "write_linear table start (xs @ ys) guest =
     fold (\<lambda>k g. g(translated table (start + of_nat (length xs + k)) := ys ! k)) [0..<length ys] (write_linear table start xs guest)"
proof -
  have "[0..<length (xs @ ys)] = [0..<length xs] @ map (\<lambda>k. length xs + k) [0..<length ys]"
    using map_add_upt [of "length xs" "length ys"] upt_add_eq_append [of 0 "length xs" "length ys"] by (simp add: add.commute)
  then have "write_linear table start (xs @ ys) guest =
    fold (\<lambda>k g. g(translated table (start + of_nat k) := (xs @ ys) ! k)) (map (\<lambda>k. length xs + k) [0..<length ys])
      (fold (\<lambda>k g. g(translated table (start + of_nat k) := (xs @ ys) ! k)) [0..<length xs] guest)"
    by (simp only: write_linear_def fold_append o_apply)
  also have "fold (\<lambda>k g. g(translated table (start + of_nat k) := (xs @ ys) ! k)) [0..<length xs] guest = write_linear table start xs guest"
    unfolding write_linear_def by (rule fold_cong) (auto simp: nth_append)
  finally show ?thesis unfolding fold_map o_def nth_append_length_plus .
qed

lemma scattered_write_bytes:
  fixes v :: "'a::len word"
  assumes "field_width TYPE('a)"
  shows "scattered_write table linear v guest = write_linear table linear (to_le_bytes v) guest"
proof -
  have w: "LENGTH('a) \<in> {8, 16, 32, 64, 128}" using assms by (simp add: field_width_def)
  have part: "scattered_write_part table linear part n x guest =
    fold (\<lambda>k g. g(translated table (linear + of_nat (part + k)) := bs ! k)) [0..<n] guest"
    if "\<And>k. k < n \<Longrightarrow> bs ! k = ucast (drop_bit (k * 8) x)" for part n x bs guest
    unfolding scattered_write_part_def by (rule fold_cong) (use that in auto)
  have byte: "ucast (drop_bit (k * 8) (ucast v :: u64)) = (ucast (drop_bit (8 * k) v) :: u8)" if "k < 8" for k
    by (rule bit_word_eqI) (use that in \<open>auto simp: bit_simps mult.commute\<close>)
  show ?thesis
  proof (cases "LENGTH('a) = 128")
    case False
    then have n: "LENGTH('a) div 8 \<le> 8" using w by auto
    have "scattered_write_part table linear 0 (LENGTH('a) div 8) (ucast v) guest =
      fold (\<lambda>k g. g(translated table (linear + of_nat (0 + k)) := to_le_bytes v ! k)) [0..<LENGTH('a) div 8] guest"
      by (rule part) (use n byte in \<open>auto simp: nth_to_le_bytes\<close>)
    with False show ?thesis by (simp add: scattered_write_def write_linear_def)
  next
    case True
    let ?lo = "take 8 (to_le_bytes v)" and ?hi = "drop 8 (to_le_bytes v)"
    have len: "length ?lo = 8" "length ?hi = 8" using True by simp_all
    have hi: "ucast (drop_bit (k * 8) (ucast (drop_bit 64 v) :: u64)) = (ucast (drop_bit (8 * (8 + k)) v) :: u8)" if "k < 8" for k
      by (rule bit_word_eqI) (use that in \<open>auto simp: bit_simps algebra_simps\<close>)
    have lo_part: "scattered_write_part table linear 0 8 (ucast v) guest = write_linear table linear ?lo guest"
      unfolding write_linear_def len using part [of 8 ?lo "ucast v" 0 guest] byte True by (simp add: nth_to_le_bytes)
    have "scattered_write_part table linear 8 8 (ucast (drop_bit 64 v)) g =
      fold (\<lambda>k g. g(translated table (linear + of_nat (8 + k)) := ?hi ! k)) [0..<8] g" for g
      by (rule part) (use hi True in \<open>simp add: nth_to_le_bytes\<close>)
    then have "scattered_write table linear v guest = write_linear table linear (?lo @ ?hi) guest"
      using True lo_part by (simp only: scattered_write_def write_linear_parts len if_True simp_thms)
    then show ?thesis by simp
  qed
qed

lemma write_linear_contiguous:
  assumes "\<And>k. k < length bs \<Longrightarrow> translated table (start + of_nat k) = p + k"
  shows "write_linear table start bs guest = store_bytes p bs guest"
proof -
  have "fold (\<lambda>k g. g(translated table (start + of_nat k) := bs ! k)) [0..<n] guest = store_bytes p (take n bs) guest"
    if "n \<le> length bs" for n
    using that
  proof (induction n)
    case (Suc n)
    have "fold (\<lambda>k g. g(translated table (start + of_nat k) := bs ! k)) [0..<Suc n] guest =
      (fold (\<lambda>k g. g(translated table (start + of_nat k) := bs ! k)) [0..<n] guest)(translated table (start + of_nat n) := bs ! n)" by simp
    also have "\<dots> = (store_bytes p (take n bs) guest)(p + n := bs ! n)"
      using Suc.IH Suc.prems assms [of n] by (simp only: Suc_le_lessD Suc_leD)
    also have "\<dots> = store_bytes p (take (Suc n) bs) guest"
      using Suc.prems by (auto simp: store_bytes_def fun_eq_iff)
    finally show ?case .
  qed (auto simp: store_bytes_def fun_eq_iff)
  from this [of "length bs"] show ?thesis by (simp add: write_linear_def)
qed

subsection \<open>Accesses as proofs\<close>

text \<open>An access proves its span: every byte is permitted for its intent, its address is that of the first
  byte, and unless it is scattered the bytes are contiguous.\<close>

definition proves :: "backing \<Rightarrow> access \<Rightarrow> bool" where
  "proves table a \<longleftrightarrow> (\<exists>bytes. ac_bytes a = Some bytes \<and> 1 \<le> unat bytes \<and> unat bytes \<le> 4096 \<and> \<not> ac_denied a \<and>
     first_denied table (required_permissions (ac_intent a)) (ac_linear a) (unat bytes) = None \<and>
     ac_physical a = physical_address (page_entry table (ac_linear a)) (ac_linear a) \<and>
     (\<not> ac_unavailable a \<longrightarrow> contiguous table (ac_linear a) (unat bytes) (ac_physical a)))"

lemma required_cases: "required_permissions i = 1 \<or> required_permissions i = 3"
  by (cases i) (simp_all add: required_permissions_def page_consts)

definition fault_at :: "backing \<Rightarrow> intent \<Rightarrow> u32 \<Rightarrow> nat \<Rightarrow> exception" where
  "fault_at table i start k = page_fault i (start + of_nat k) (bit (page_entry table (start + of_nat k)) 0)"

lemma virtual_resolve_spec:
  assumes b: "1 \<le> unat bytes" "unat bytes \<le> 4096"
  shows "case first_denied table (required_permissions i) start (unat bytes) of
      Some k \<Rightarrow> virtual_resolve table start bytes True i None True = Some (Inl (fault_at table i start k), None)
    | None \<Rightarrow> \<exists>a. virtual_resolve table start bytes True i None True = Some (Inr a, None) \<and> proves table a \<and>
        ac_linear a = start \<and> ac_bytes a = Some bytes \<and> ac_intent a = i"
proof -
  have "bytes \<noteq> 0" using b by auto
  then show ?thesis
    using resolve_span_spec [OF required_cases [of i] b, of table start] b
    by (auto simp: virtual_resolve_def Let_def proves_def fault_at_def split: option.splits)
qed

lemma virtual_read_exact:
  assumes "field_width TYPE('a::len)" and "proves table a" and "ac_bytes a = Some bytes" and "offset + LENGTH('a) div 8 \<le> unat bytes"
  shows "virtual_read table guest a offset = Some (from_le_bytes (linear_bytes table guest (ac_linear a + of_nat offset) (LENGTH('a) div 8)) :: 'a word)"
proof -
  let ?n = "LENGTH('a) div 8"
  have n: "0 < ?n" using width_bytes [OF assms(1)] by simp
  have ok: "check_field a offset ?n" using assms(3,4) by (simp add: check_field_def)
  have first: "unat (ac_physical a) = translated table (ac_linear a)" using assms(2) by (auto simp: proves_def translated_def)
  have load: "load_word (unat (ac_physical a) + offset) guest = (from_le_bytes (linear_bytes table guest (ac_linear a + of_nat offset) ?n) :: 'a word)"
    if "\<And>k. k < ?n \<Longrightarrow> translated table (ac_linear a + of_nat (offset + k)) = unat (ac_physical a) + (offset + k)"
  proof -
    have "map guest [unat (ac_physical a) + offset..<unat (ac_physical a) + offset + ?n] = linear_bytes table guest (ac_linear a + of_nat offset) ?n"
      unfolding linear_bytes_def using that by (auto intro!: nth_equalityI simp: add.assoc)
    then show ?thesis unfolding load_word_def by (rule arg_cong)
  qed
  show ?thesis
  proof (cases "bytes = 1")
    case True
    then have "offset = 0" "?n = 1" using assms(4) n by auto
    then show ?thesis using ok True assms(3) load first by (simp add: virtual_read_def)
  next
    case False
    show ?thesis
    proof (cases "access_scattered a")
      case True
      then show ?thesis using False ok assms(3) by (simp add: virtual_read_def scattered_read_bytes [OF assms(1)])
    next
      case direct: False
      then have "contiguous table (ac_linear a) (unat bytes) (ac_physical a)"
        using assms(2,3) by (auto simp: proves_def access_scattered_def)
      then have "translated table (ac_linear a + of_nat (offset + k)) = unat (ac_physical a) + (offset + k)" if "k < ?n" for k
        using that assms(4) unfolding contiguous_def by (meson add_less_cancel_left order_less_le_trans)
      from load [OF this] show ?thesis using False direct ok assms(3,4) by (simp add: virtual_read_def)
    qed
  qed
qed

lemma virtual_write_exact:
  fixes v :: "'a::len word"
  assumes "field_width TYPE('a)" and "proves table a" and "ac_bytes a = Some bytes" and "offset + LENGTH('a) div 8 \<le> unat bytes"
    and "ac_intent a = Write"
  shows "virtual_write table a offset v guest = Some (write_linear table (ac_linear a + of_nat offset) (to_le_bytes v) guest)"
proof -
  let ?n = "LENGTH('a) div 8"
  have n: "0 < ?n" using width_bytes [OF assms(1)] by simp
  have ok: "check_field a offset ?n" using assms(3,4) by (simp add: check_field_def)
  have first: "unat (ac_physical a) = translated table (ac_linear a)" using assms(2) by (auto simp: proves_def translated_def)
  have store: "store_bytes (unat (ac_physical a) + offset) (to_le_bytes v) guest = write_linear table (ac_linear a + of_nat offset) (to_le_bytes v) guest"
    if "\<And>k. k < ?n \<Longrightarrow> translated table (ac_linear a + of_nat (offset + k)) = unat (ac_physical a) + (offset + k)"
    by (rule write_linear_contiguous [symmetric]) (use that in \<open>simp add: add.assoc\<close>)
  show ?thesis
  proof (cases "bytes = 1")
    case True
    then have "offset = 0" "?n = 1" using assms(4) n by auto
    then show ?thesis using ok True assms(3,5) store first by (simp add: virtual_write_def)
  next
    case False
    show ?thesis
    proof (cases "access_scattered a")
      case True
      then show ?thesis using False ok assms(3,5) by (simp add: virtual_write_def scattered_write_bytes [OF assms(1)])
    next
      case direct: False
      then have "contiguous table (ac_linear a) (unat bytes) (ac_physical a)"
        using assms(2,3) by (auto simp: proves_def access_scattered_def)
      then have "translated table (ac_linear a + of_nat (offset + k)) = unat (ac_physical a) + (offset + k)" if "k < ?n" for k
        using that assms(4) unfolding contiguous_def by (meson add_less_cancel_left order_less_le_trans)
      from store [OF this] show ?thesis using False direct ok assms(3-5) by (simp add: virtual_write_def)
    qed
  qed
qed


subsection \<open>Reused proofs\<close>

text \<open>Anchors prove their spans; the write anchor was checked for writing.\<close>

definition anchors_ok :: "backing \<Rightarrow> anchors \<Rightarrow> bool" where
  "anchors_ok table an \<longleftrightarrow> (\<forall>a. an_read an = Some a \<longrightarrow> proves table a) \<and>
     (\<forall>a. an_write an = Some a \<longrightarrow> proves table a \<and> ac_intent a = Write)"

lemma permissions_subset:
  assumes "required_permissions j AND required_permissions i = required_permissions i" and "e AND required_permissions j = required_permissions j"
  shows "e AND required_permissions i = required_permissions i"
  using assms by (metis and.assoc and.commute)

lemma first_denied_None: "first_denied table r start n = None \<longleftrightarrow> (\<forall>k<n. page_entry table (start + of_nat k) AND r = r)"
  by (auto simp: first_denied_def find_upt_None)

lemma proves_reuse:
  assumes "proves table a" and "ac_bytes a = Some checked" and "bytes \<le> checked" and "1 \<le> unat bytes"
    and "required_permissions (ac_intent a) AND required_permissions i = required_permissions i"
  shows "proves table (a\<lparr>ac_bytes := Some bytes, ac_intent := i\<rparr>)"
proof -
  have le: "unat bytes \<le> unat checked" using assms(3) by (simp add: word_le_nat_alt)
  have "first_denied table (required_permissions i) (ac_linear a) (unat bytes) = None"
    using assms(1,2,5) le permissions_subset by (fastforce simp: proves_def first_denied_None)
  then show ?thesis using assms(1,2,4) le by (auto simp: proves_def contiguous_def)
qed

lemma reusable_proves:
  assumes "reusable same bytes i anchor = Some a" and "\<And>b. anchor = Some b \<Longrightarrow> proves table b \<and> (same \<longrightarrow> ac_linear b = start)" and "1 \<le> unat bytes"
  shows "proves table a \<and> ac_linear a = start \<and> ac_bytes a = Some bytes \<and> ac_intent a = i"
proof -
  obtain b checked where b: "anchor = Some b" "ac_bytes b = Some checked" "bytes \<le> checked" same
    "required_permissions (ac_intent b) AND required_permissions i = required_permissions i" "a = b\<lparr>ac_bytes := Some bytes, ac_intent := i\<rparr>"
    using assms(1) by (auto simp: reusable_def split: option.splits if_splits)
  then show ?thesis using proves_reuse [OF _ b(2,3) assms(3) b(5)] assms(2) [OF b(1)] by simp
qed

text \<open>A span inside the page of an anchor needs no walk.\<close>

lemma anchor_hit:
  assumes p: "proves table a" and b: "1 \<le> unat bytes" "unat bytes \<le> 4096"
    and perm: "required_permissions (ac_intent a) AND required_permissions i = required_permissions i"
    and hit: "start - (ac_linear a AND FRAME_MASK) < PAGE_BYTES - bytes + 1"
  shows "proves table \<lparr>ac_linear = start, ac_physical = physical_address (ac_physical a) start, ac_denied = False,
    ac_unavailable = False, ac_intent = i, ac_bytes = Some bytes\<rparr>"
proof -
  let ?page = "ac_linear a AND FRAME_MASK"
  define d where "d = unat (start - ?page)"
  have bound: "unat (PAGE_BYTES - bytes + 1) = 4096 - unat bytes + 1"
  proof -
    have "unat (PAGE_BYTES - bytes) = 4096 - unat bytes" using b(2) by (subst unat_sub) (simp_all add: PAGE_BYTES_def word_le_nat_alt)
    then show ?thesis using b by (subst unat_add_no_wrap) simp_all
  qed
  have d: "d + unat bytes \<le> 4096" using hit b bound by (simp add: word_less_nat_alt d_def)
  have "unat (ac_linear a) div 4096 < 2 ^ 20" using unsigned_less [of "ac_linear a", where 'a = nat] by (simp add: less_mult_imp_div_less)
  then have "unat ?page + d < 2 ^ 32" using d b by (simp add: unat_frame)
  then have start: "unat start = unat (ac_linear a) div 4096 * 4096 + d"
    using unat_add_no_wrap [of ?page "start - ?page"] by (simp add: d_def unat_frame)
  have page: "unat start div 4096 = unat (ac_linear a) div 4096" "unat start mod 4096 = d"
    using start d b by (simp_all add: div_mult_self1 )
  have entry: "page_entry table start = page_entry table (ac_linear a)" by (simp add: page_entry_at page)
  have frame: "physical_address (ac_physical a) start = physical_address (page_entry table start) start"
  proof -
    have "ac_physical a = physical_address (page_entry table (ac_linear a)) (ac_linear a)" using p by (auto simp: proves_def)
    then show ?thesis unfolding word_unat_eq_iff entry by (simp add: unat_physical)
  qed
  have "page_entry table (ac_linear a) AND required_permissions (ac_intent a) = required_permissions (ac_intent a)"
    using p by (auto simp: proves_def first_denied_None dest: spec [of _ 0])
  then have ok: "page_entry table start AND required_permissions i = required_permissions i"
    using permissions_subset [OF perm] entry by simp
  have "unat start mod 4096 + unat bytes \<le> 4096" "0 < unat bytes" using page(2) d b by auto
  from same_page_span [OF this, of table] ok frame b show ?thesis by (simp add: proves_def)
qed

lemma retain_anchor_ok:
  assumes "anchors_ok table an" and "proves table a" and "ac_intent a = i"
  shows "anchors_ok table (retain_anchor i a an)"
  using assms by (cases i) (auto simp: anchors_ok_def retain_anchor_def)

lemma accesses_resolve_spec:
  assumes ok: "anchors_ok table an" and b: "1 \<le> unat bytes" "unat bytes \<le> 4096"
    and same: "\<And>a. same_write \<Longrightarrow> an_write an = Some a \<Longrightarrow> ac_linear a = start" "\<And>a. same_read \<Longrightarrow> an_read an = Some a \<Longrightarrow> ac_linear a = start"
  shows "case first_denied table (required_permissions i) start (unat bytes) of
      Some k \<Rightarrow> accesses_resolve table same_write same_read start bytes i an = Some (Inl (fault_at table i start k), an)
    | None \<Rightarrow> \<exists>a an'. accesses_resolve table same_write same_read start bytes i an = Some (Inr a, an') \<and> anchors_ok table an' \<and>
        proves table a \<and> ac_linear a = start \<and> ac_bytes a = Some bytes \<and> ac_intent a = i"
proof -
  let ?d = "first_denied table (required_permissions i) start (unat bytes)"
  have sz: "1 \<le> bytes \<and> bytes \<le> PAGE_BYTES" using b by (simp add: word_le_nat_alt PAGE_BYTES_def)
  have none: "?d = None" if "proves table a" "ac_linear a = start" "ac_bytes a = Some bytes" "ac_intent a = i" for a
    using that by (auto simp: proves_def)
  show ?thesis
  proof (cases "reusable same_write bytes i (an_write an)")
    case (Some a)
    then have "proves table a \<and> ac_linear a = start \<and> ac_bytes a = Some bytes \<and> ac_intent a = i"
      by (rule reusable_proves) (use ok same(1) b in \<open>auto simp: anchors_ok_def\<close>)
    with none [of a] ok sz Some show ?thesis by (simp add: accesses_resolve_def)
  next
    case w: None
    show ?thesis
    proof (cases "reusable same_read bytes i (an_read an)")
      case (Some a)
      then have "proves table a \<and> ac_linear a = start \<and> ac_bytes a = Some bytes \<and> ac_intent a = i"
        by (rule reusable_proves) (use ok same(2) b in \<open>auto simp: anchors_ok_def\<close>)
      with none [of a] ok sz Some w show ?thesis by (simp add: accesses_resolve_def)
    next
      case r: None
      note vr = virtual_resolve_spec [OF b, where table = table and i = i and start = start]
      show ?thesis
      proof (cases "anchor_for i an")
        case None
        with vr w r sz ok show ?thesis
          by (cases ?d) (auto simp: accesses_resolve_def intro: retain_anchor_ok)
      next
        case (Some c)
        have c: "proves table c" "required_permissions (ac_intent c) AND required_permissions i = required_permissions i"
          using Some ok by (auto simp: anchors_ok_def anchor_for_def required_permissions_def page_consts split: intent.splits option.splits)
        show ?thesis
        proof (cases "start - (ac_linear c AND FRAME_MASK) < PAGE_BYTES - bytes + 1")
          case True
          note hit = anchor_hit [OF c(1) b c(2) True]
          with none [OF hit] True Some w r sz ok show ?thesis
            by (auto simp: accesses_resolve_def Let_def intro: retain_anchor_ok)
        next
          case False
          show ?thesis
          proof (cases ?d)
            case None
            with vr obtain a where a: "virtual_resolve table start bytes True i None True = Some (Inr a, None)" "proves table a"
              "ac_linear a = start" "ac_bytes a = Some bytes" "ac_intent a = i" by auto
            let ?a = "\<lparr>ac_linear = start, ac_physical = ac_physical a, ac_denied = False, ac_unavailable = access_scattered a, ac_intent = i, ac_bytes = Some bytes\<rparr>"
            have "proves table ?a" using a(2-5) by (auto simp: proves_def access_scattered_def)
            with None a(1) False Some w r sz ok show ?thesis
              by (auto simp: accesses_resolve_def Let_def intro: retain_anchor_ok)
          next
            case (Some k)
            with vr False \<open>anchor_for i an = Some c\<close> w r sz show ?thesis by (simp add: accesses_resolve_def Let_def)
          qed
        qed
      qed
    qed
  qed
qed


subsection \<open>Locked updates\<close>

lemma native_update_apply:
  fixes update :: "'a::len word operand_update"
  assumes "unat physical mod (LENGTH('a) div 8) = 0"
  shows "native_update physical update guest =
    Some (load_word (unat physical) guest, store_bytes (unat physical) (to_le_bytes (update_apply update (load_word (unat physical) guest))) guest)"
  using assms by (cases update) (auto simp: native_update_def Let_def result_with_carry_def diff_diff_eq add.assoc)

lemma aligned_mask:
  assumes "n = 2 ^ j" and "j \<le> 12" and "linear AND (of_nat (n - 1) :: u32) = 0"
  shows "unat linear mod n = 0" "unat linear mod 4096 + n \<le> 4096"
proof -
  have "(of_nat (n - 1) :: u32) = mask j" using assms(1) by (simp add: mask_eq_exp_minus_1 of_nat_diff)
  then have "take_bit j linear = 0" using assms(3) by (simp add: take_bit_eq_mask)
  then have "take_bit j (unat linear) = 0" by (metis unsigned_0 unsigned_take_bit_eq)
  then have dvd: "n dvd unat linear" using assms(1) by (simp add: take_bit_eq_mod mod_eq_0_iff_dvd)
  then show "unat linear mod n = 0" by simp
  have d: "n dvd 4096" using le_imp_power_dvd [OF assms(2), of "2 :: nat"] assms(1) by simp
  then have "n dvd unat linear mod 4096" using dvd by (simp add: dvd_mod)
  with d have "n dvd 4096 - unat linear mod 4096" by (simp add: dvd_diff_nat)
  then have "n \<le> 4096 - unat linear mod 4096" by (rule dvd_imp_le) simp
  then show "unat linear mod 4096 + n \<le> 4096" by simp
qed

lemma virtual_update_exact:
  fixes update :: "'a::len word operand_update"
  assumes w: "LENGTH('a) \<in> {8, 16, 32, 64}" and p: "proves table a" and b: "ac_bytes a = Some (of_nat (LENGTH('a) div 8))" and i: "ac_intent a = Write"
    and prev: "previous = from_le_bytes (linear_bytes table guest (ac_linear a) (LENGTH('a) div 8))"
  shows "virtual_update table a update guest = Some (previous, write_linear table (ac_linear a) (to_le_bytes (update_apply update previous)) guest)"
proof -
  let ?n = "LENGTH('a) div 8"
  have fw: "field_width TYPE('a)" using w by (auto simp: field_width_def)
  obtain j where j: "?n = 2 ^ j" "j \<le> 12"
    using w that [of 0] that [of 1] that [of 2] that [of 3] by auto
  have un: "unat (of_nat ?n :: u32) = ?n" using w by auto
  show ?thesis
  proof (cases "?n = 1 \<or> ac_linear a AND of_nat (?n - 1) = 0")
    case True
    have lin: "unat (ac_linear a) mod ?n = 0" "unat (ac_linear a) mod 4096 + ?n \<le> 4096"
      using True aligned_mask [OF j, of "ac_linear a"] by (auto simp: Suc_leI)
    have phys: "ac_physical a = physical_address (page_entry table (ac_linear a)) (ac_linear a)" using p by (auto simp: proves_def)
    have "?n dvd 4096" using le_imp_power_dvd [OF j(2), of "2 :: nat"] j(1) by simp
    then have al: "unat (ac_physical a) mod ?n = 0"
      using lin(1) by (simp add: phys unat_physical mod_eq_0_iff_dvd dvd_mod)
    have n: "0 < ?n" using width_bytes [OF fw] by simp
    have cont: "translated table (ac_linear a + of_nat k) = unat (ac_physical a) + k" if "k < ?n" for k
      using same_page_span(1) [OF lin(2) n, of table] that phys by (simp add: contiguous_def)
    have load: "load_word (unat (ac_physical a)) guest = previous"
      unfolding prev load_word_def linear_bytes_def using cont by (intro arg_cong [of _ _ from_le_bytes]) (auto intro!: nth_equalityI)
    have "store_bytes (unat (ac_physical a)) (to_le_bytes (update_apply update previous)) guest =
      write_linear table (ac_linear a) (to_le_bytes (update_apply update previous)) guest"
      by (rule write_linear_contiguous [symmetric]) (simp add: cont)
    then show ?thesis using True b i native_update_apply [OF al, of update guest] load by (simp add: virtual_update_def)
  next
    case False
    have "virtual_read table guest a 0 = Some previous"
      using virtual_read_exact [OF fw p b, of 0 guest] un prev by simp
    moreover have "virtual_write table a 0 (update_apply update previous) guest =
      Some (write_linear table (ac_linear a) (to_le_bytes (update_apply update previous)) guest)"
      using virtual_write_exact [OF fw p b _ i, of 0] un by simp
    ultimately show ?thesis using False b i by (simp add: virtual_update_def)
  qed
qed

subsection \<open>Probes\<close>

definition page_cache_ok :: "backing \<Rightarrow> page_cache \<Rightarrow> bool" where
  "page_cache_ok table c \<longleftrightarrow> pc_index c = - 1 \<or> pc_entry c = load_word (unat (pc_index c)) table"

lemma cache_lookup_ok:
  assumes "page_cache_ok table c"
  shows "fst (cache_lookup table address c) = page_entry table address" and "page_cache_ok table (snd (cache_lookup table address c))"
proof -
  have "(push_bit 2 (drop_bit 12 address) :: u32) \<noteq> - 1"
  proof
    assume "(push_bit 2 (drop_bit 12 address) :: u32) = - 1"
    then have "bit (push_bit 2 (drop_bit 12 address) :: u32) 0 = bit (- 1 :: u32) 0" by (rule arg_cong)
    then show False by (simp add: bit_push_bit_iff del: push_bit_of_1)
  qed
  then show "fst (cache_lookup table address c) = page_entry table address" "page_cache_ok table (snd (cache_lookup table address c))"
    using assms by (auto simp: cache_lookup_def page_cache_ok_def page_entry_def Let_def)
qed

lemma and_subset: "x AND r = r \<longleftrightarrow> (\<forall>k. bit r k \<longrightarrow> bit x k)" for x r :: u32
proof
  assume "x AND r = r"
  then have "bit (x AND r) k = bit r k" for k by simp
  then show "\<forall>k. bit r k \<longrightarrow> bit x k" by (auto simp: bit_and_iff)
qed (auto simp: bit_eq_iff bit_and_iff)

lemma probe_span_spec:
  assumes r: "r = 1 \<or> r = 3" and b: "1 \<le> unat bytes" "unat bytes \<le> 4096"
    and ps: "probe_span table start bytes (page_entry table start) r = (denied, unavailable)"
  shows "denied = (first_denied table r start (unat bytes) \<noteq> None)"
    and "\<not> unavailable \<Longrightarrow> \<not> denied \<and> contiguous table start (unat bytes) (physical_address (page_entry table start) start)"
proof -
  let ?s = "unat start" and ?b = "unat bytes"
  have nz: "bytes \<noteq> 0" using b by auto
  have "denied = (first_denied table r start ?b \<noteq> None) \<and>
    (\<not> unavailable \<longrightarrow> \<not> denied \<and> contiguous table start ?b (physical_address (page_entry table start) start))"
  proof (cases "crosses_page start bytes")
    case False
    then have "?s mod 4096 + ?b \<le> 4096" using crosses_page_iff [OF b, of start] by linarith
    note sp = same_page_span(2) [OF this, of table r] same_page_span(1) [OF this, of table]
    with False b ps nz show ?thesis by (auto simp: probe_span_def Let_def)
  next
    case True
    then have cross: "4096 < ?s mod 4096 + ?b" using crosses_page_iff [OF b, of start] by blast
    have last: "(?s + ?b - 1) div 4096 = ?s div 4096 + 1"
    proof -
      have m: "?s mod 4096 < 4096" by simp
      have "?s + ?b - 1 = (?s mod 4096 + ?b - 1 - 4096) + 4096 * (?s div 4096 + 1)" using cross by (simp add: algebra_simps)
      then show ?thesis using m b by simp
    qed
    have "page_entry table (start + (bytes - 1)) = entry_at table (?s div 4096 + 1)"
    proof -
      have "bytes - 1 = of_nat (?b - 1)" using b by (simp add: of_nat_diff)
      then show ?thesis using page_entry_add [of table start "?b - 1"] last b by (simp add: Nat.add_diff_assoc)
    qed
    then have ps': "denied = (page_entry table start AND entry_at table (?s div 4096 + 1) AND r \<noteq> r)"
      "unavailable = (denied \<or> scattered_backing (page_entry table start AND FRAME_MASK) (entry_at table (?s div 4096 + 1)))"
      using ps True nz by (auto simp: probe_span_def Let_def)
    have both: "x AND y AND r = r \<longleftrightarrow> x AND r = r \<and> y AND r = r" for x y :: u32
      unfolding and.assoc [symmetric] and_subset by (auto simp: bit_and_iff)
    have "0 < ?b" using b by simp
    note fd = first_denied_pages [OF this, of table r start]
    have pages: "[?s div 4096 + 1..<(?s + ?b - 1) div 4096 + 1] = [?s div 4096 + 1]" by (simp only: last) simp
    have d: "denied = (first_denied table r start ?b \<noteq> None)"
      unfolding fd pages ps'(1) both by (auto simp: permitted_def page_entry_at)
    moreover have "contiguous table start ?b (physical_address (page_entry table start) start)" if "\<not> unavailable"
      by (rule linked_contiguous, unfold pages) (use that ps'(2) in \<open>simp add: page_entry_at\<close>)
    ultimately show ?thesis using ps'(2) by blast
  qed
  then show "denied = (first_denied table r start (unat bytes) \<noteq> None)"
    and "\<not> unavailable \<Longrightarrow> \<not> denied \<and> contiguous table start (unat bytes) (physical_address (page_entry table start) start)" by auto
qed

lemma probe_exact:
  assumes c: "page_cache_ok table c"
  shows "\<exists>a c'. virtual_resolve table start bytes constant i (Some c) False = Some (Inr a, Some c') \<and> page_cache_ok table c' \<and>
    (ac_denied a \<longleftrightarrow> bytes = 0 \<or> first_denied table (required_permissions i) start (unat bytes) \<noteq> None) \<and>
    (\<not> ac_unavailable a \<longrightarrow> \<not> ac_denied a \<and> contiguous table start (unat bytes) (ac_physical a))"
proof -
  let ?r = "required_permissions i" and ?e = "page_entry table start"
  obtain c' where cl: "cache_lookup table start c = (?e, c')" "page_cache_ok table c'"
    using cache_lookup_ok [OF c, of start] by (metis prod.collapse)
  show ?thesis
  proof (cases "bytes = 0")
    case True
    then show ?thesis using cl by (auto simp: virtual_resolve_def probe_span_def resolve_span_def Let_def PAGE_BYTES_def)
  next
    case False
    show ?thesis
    proof (cases "constant \<and> bytes \<le> PAGE_BYTES")
      case True
      then have b: "1 \<le> unat bytes" "unat bytes \<le> 4096" using False by (auto simp: word_le_nat_alt PAGE_BYTES_def Suc_leI unat_gt_0)
      obtain denied unavailable where ps: "probe_span table start bytes ?e ?r = (denied, unavailable)" by fastforce
      show ?thesis using probe_span_spec [OF required_cases b ps] True False cl ps by (auto simp: virtual_resolve_def Let_def)
    next
      case big: False
      have rs: "resolve_span table start bytes constant False ?e ?r = resolve_pages table start bytes ?e ?r"
        using big False by (auto simp: resolve_span_def Let_def)
      from resolve_pages_spec [OF required_cases [of i] False, of table start] show ?thesis
        using big False cl by (cases "first_denied table ?r start (unat bytes)") (auto simp: virtual_resolve_def Let_def rs)
    qed
  qed
qed


subsection \<open>Host mappings\<close>

lemma unat_page_entry_offset: "unat (entry_offset a) = 4 * (unat a div 4096)"
proof -
  have "unat a div 4096 < 2 ^ 20" using unsigned_less [of a, where 'a = nat] by (simp add: less_mult_imp_div_less)
  then show ?thesis by (simp add: entry_offset_def push_bit_eq_mult unat_word_ariths(2) unat_drop_12)
qed

lemma page_entry_store:
  fixes e :: u32
  shows "page_entry (store_bytes (unat (entry_offset a)) (to_le_bytes e) table) x =
    (if unat x div 4096 = unat a div 4096 then e else page_entry table x)"
proof -
  have pe: "page_entry t x = load_word (4 * (unat x div 4096)) t" for t
    using unat_page_entry_offset [of x] by (simp add: page_entry_def entry_offset_def)
  show ?thesis
  proof (cases "unat x div 4096 = unat a div 4096")
    case True
    have "field_width TYPE(32)" by (simp add: field_width_def)
    from load_store_word [OF this] True show ?thesis by (simp add: pe unat_page_entry_offset)
  next
    case False
    then have "(load_word (4 * (unat x div 4096)) (store_bytes (unat (entry_offset a)) (to_le_bytes e) table) :: u32) =
      load_word (4 * (unat x div 4096)) table"
      by (intro load_word_cong) (auto simp: store_bytes_def unat_page_entry_offset)
    with False show ?thesis by (simp add: pe)
  qed
qed

lemma encoded_bits:
  assumes "off AND PAGE_OFFSET = 0"
  shows "(off OR PRESENT OR (if w then WRITABLE else 0)) AND FRAME_MASK = off"
    and "(off OR PRESENT OR (if w then WRITABLE else 0)) AND PRESENT = PRESENT"
    and "(off OR PRESENT OR (if w then WRITABLE else 0)) AND (PRESENT OR WRITABLE) = PRESENT OR WRITABLE \<longleftrightarrow> w"
proof -
  let ?e = "off OR PRESENT OR (if w then WRITABLE else 0)"
  have low: "\<not> bit off k" if "k < 12" for k
  proof -
    have "bit (off AND PAGE_OFFSET) k = bit (0 :: u32) k" using assms by simp
    then show ?thesis using that by (simp add: bit_and_iff page_offset_mask bit_mask_iff)
  qed
  have e: "bit ?e k \<longleftrightarrow> bit off k \<or> k = 0 \<or> w \<and> k = 1" for k by (auto simp: bit_or_iff bit_page(1-5))
  show "?e AND FRAME_MASK = off" by (rule bit_word_eqI) (use e low in \<open>auto simp: bit_and_iff bit_page(5) not_less [symmetric]\<close>)
  show "?e AND PRESENT = PRESENT" by (auto simp: and_subset e bit_page(1))
  have "\<not> bit off 1" by (rule low) simp
  then show "?e AND (PRESENT OR WRITABLE) = PRESENT OR WRITABLE \<longleftrightarrow> w" by (auto simp: and_subset bit_or_iff e bit_page(1,2))
qed

subsection \<open>Properties\<close>

text \<open>C6: every virtual access is exact. With any proofs retained from earlier accesses of the path, resolving
  a span of one byte to one page faults precisely when some byte of it lies on a page that is
  absent, or read-only for a write; the fault names the first such byte and its error code, and
  nothing has been transferred. Otherwise reads and writes inside the span go byte by byte
  through the page table, whether the frames are contiguous, scattered or aliased and also
  where the span wraps around the address space, and the retained proofs stay valid.\<close>

theorem virtual_access_exact:
  fixes v :: "'a::len word"
  assumes "anchors_ok table an" and "1 \<le> unat bytes" and "unat bytes \<le> 4096"
    and "\<And>a. same_write \<Longrightarrow> an_write an = Some a \<Longrightarrow> ac_linear a = start" and "\<And>a. same_read \<Longrightarrow> an_read an = Some a \<Longrightarrow> ac_linear a = start"
    and "field_width TYPE('a)" and "offset + LENGTH('a) div 8 \<le> unat bytes"
  shows "case first_denied table (required_permissions i) start (unat bytes) of
      Some k \<Rightarrow> accesses_resolve table same_write same_read start bytes i an =
        Some (Inl (PageFault (start + of_nat k) (case i of Fetch \<Rightarrow> 16
          | Write \<Rightarrow> if bit (page_entry table (start + of_nat k)) 0 then 3 else 2 | _ \<Rightarrow> 0)), an)
    | None \<Rightarrow> \<exists>a an'. accesses_resolve table same_write same_read start bytes i an = Some (Inr a, an') \<and> anchors_ok table an' \<and>
        virtual_read table guest a offset = Some (from_le_bytes (linear_bytes table guest (start + of_nat offset) (LENGTH('a) div 8)) :: 'a word) \<and>
        (i = Write \<longrightarrow> virtual_write table a offset v guest = Some (write_linear table (start + of_nat offset) (to_le_bytes v) guest))"
proof (cases "first_denied table (required_permissions i) start (unat bytes)")
  case None
  note accesses_resolve_spec [OF assms(1-5), where i = i, unfolded None option.case]
  then obtain a an' where
    a: "accesses_resolve table same_write same_read start bytes i an = Some (Inr a, an')" "anchors_ok table an'"
      "proves table a" "ac_linear a = start" "ac_bytes a = Some bytes" "ac_intent a = i" by blast
  note virtual_read_exact [OF assms(6) a(3,5) assms(7), of guest]
  moreover note virtual_write_exact [OF assms(6) a(3,5) assms(7), of v guest]
  ultimately show ?thesis unfolding None option.case using a by blast
next
  case (Some k)
  have "fault_at table i start k = PageFault (start + of_nat k) (case i of Fetch \<Rightarrow> 16
      | Write \<Rightarrow> if bit (page_entry table (start + of_nat k)) 0 then 3 else 2 | _ \<Rightarrow> 0)"
    by (cases i) (simp_all add: fault_at_def page_fault_def base_error_code_def)
  with accesses_resolve_spec [OF assms(1-5), where i = i, unfolded Some option.case]
  show ?thesis unfolding Some option.case by (simp only:)
qed

theorem virtual_access_exact_witness:
  "accesses_resolve (store_bytes 0 (to_le_bytes (0x5003 :: u32)) (\<lambda>_. 0)) False False 0xFFE 4 Write no_anchors =
     Some (Inl (PageFault 0x1000 2), no_anchors)"
proof -
  let ?t = "store_bytes 0 (to_le_bytes (0x5003 :: u32)) (\<lambda>_. 0)"
  have d: "first_denied ?t (required_permissions Write) 0xFFE 4 = Some 2" by code_simp
  have e: "page_entry ?t 0x1000 = 0" by code_simp
  have "anchors_ok ?t no_anchors" by (simp add: anchors_ok_def no_anchors_def)
  from virtual_access_exact [where 'a = 32 and bytes = 4 and i = Write and offset = 0 and start = "0xFFE", OF this, of False False] d e
  show ?thesis by (simp add: field_width_def)
qed

text \<open>C23: a locked update is one exact read-modify-write. Through a proof of its span it returns the bytes the
  page table maps and stores the updated value in their place, at every width and alignment;
  the native atomic operation is used only where it does not trap, and computes the same
  replacement as the plain update.\<close>

theorem locked_update_exact:
  fixes update :: "'a::len word operand_update"
  assumes "LENGTH('a) \<in> {8, 16, 32, 64}" and "proves table a" and "ac_bytes a = Some (of_nat (LENGTH('a) div 8))" and "ac_intent a = Write"
    and "previous = from_le_bytes (linear_bytes table guest (ac_linear a) (LENGTH('a) div 8))"
  shows "virtual_update table a update guest = Some (previous, write_linear table (ac_linear a) (to_le_bytes (update_apply update previous)) guest)"
  by (rule virtual_update_exact [OF assms])

theorem locked_update_exact_witness:
  "\<exists>a. virtual_resolve (store_bytes 0 (to_le_bytes (0x5003 :: u32)) (\<lambda>_. 0)) 7 2 True Write None True = Some (Inr a, None) \<and>
    map_option fst (virtual_update (store_bytes 0 (to_le_bytes (0x5003 :: u32)) (\<lambda>_. 0)) a (UpdateAdd (1 :: u16)) (\<lambda>_. 0x11)) = Some 0x1111"
proof -
  let ?t = "store_bytes 0 (to_le_bytes (0x5003 :: u32)) (\<lambda>_. 0)"
  have "first_denied ?t (required_permissions Write) 7 2 = None" by code_simp
  then obtain a where a: "virtual_resolve ?t 7 2 True Write None True = Some (Inr a, None)" "proves ?t a" "ac_linear a = 7" "ac_bytes a = Some 2" "ac_intent a = Write"
    using virtual_resolve_spec [where bytes = 2 and table = ?t and i = Write and start = 7] by auto
  have "map_option fst (virtual_update ?t a (UpdateAdd (1 :: u16)) (\<lambda>_. 0x11)) = Some 0x1111"
    using locked_update_exact [where 'a = 16 and table = ?t and a = a and update = "UpdateAdd 1" and guest = "\<lambda>_. 0x11", OF _ a(2) _ a(5) refl] a(4)
    by (simp add: linear_bytes_def upt_rec)
  with a(1) show ?thesis by blast
qed

text \<open>C22: a probe without faults, as repeated string instructions use it, is sound and complete. Whatever entry
  its cache kept from earlier iterations, it reports denial exactly for an empty span or one with
  a byte that may not be accessed, of any length, and a span it calls available is one
  contiguous range of backing memory. The cache stays consistent with the page table.\<close>

theorem virtual_probe_exact:
  assumes "page_cache_ok table c"
  shows "\<exists>a c'. virtual_resolve table start bytes constant i (Some c) False = Some (Inr a, Some c') \<and> page_cache_ok table c' \<and>
    (ac_denied a \<longleftrightarrow> bytes = 0 \<or> first_denied table (required_permissions i) start (unat bytes) \<noteq> None) \<and>
    (\<not> ac_unavailable a \<longrightarrow> \<not> ac_denied a \<and> contiguous table start (unat bytes) (ac_physical a))"
  by (rule probe_exact [OF assms])

theorem virtual_probe_exact_witness:
  "\<exists>a c. virtual_resolve (\<lambda>_. 0) 0xFFE 4 True intent.Read (Some EMPTY_CACHE) False = Some (Inr a, Some c) \<and> ac_denied a"
proof -
  have "page_cache_ok (\<lambda>_. 0) EMPTY_CACHE" by (simp add: page_cache_ok_def EMPTY_CACHE_def)
  moreover have "first_denied (\<lambda>_. 0) (required_permissions intent.Read) 0xFFE 4 = Some 0" by code_simp
  ultimately show ?thesis using virtual_probe_exact [of "\<lambda>_. 0" EMPTY_CACHE "0xFFE" 4 True intent.Read] by auto
qed

text \<open>C24: entries the host writes mean what it encoded. After installing an encoded entry, every address of
  that page is readable and translates to the chosen frame with its page offset, it is
  writable exactly if the entry says so, and no other page changes.\<close>

theorem page_mapping_round_trip:
  assumes "encode_entry off w = Some bs" and "table' = store_bytes (unat (entry_offset a)) bs table"
  shows "(unat x div 4096 = unat a div 4096 \<longrightarrow> translated table' x = unat off + unat x mod 4096 \<and>
      page_entry table' x AND required_permissions intent.Read = required_permissions intent.Read \<and>
      (page_entry table' x AND required_permissions Write = required_permissions Write \<longleftrightarrow> w)) \<and>
    (unat x div 4096 \<noteq> unat a div 4096 \<longrightarrow> page_entry table' x = page_entry table x)"
proof -
  have off: "off AND PAGE_OFFSET = 0" and bs: "bs = to_le_bytes (off OR PRESENT OR (if w then WRITABLE else 0))"
    using assms(1) by (auto simp: encode_entry_def split: if_splits)
  note e = encoded_bits [OF off, of w]
  have "unat (physical_address (off OR PRESENT OR (if w then WRITABLE else 0)) x) = unat off + unat x mod 4096"
    using e(1) unat_frame [of "off OR PRESENT OR (if w then WRITABLE else 0)"] by (simp add: unat_physical)
  with e(2,3) show ?thesis
    by (auto simp: assms(2) bs page_entry_store translated_def required_permissions_def simp del: unat_eq_0)
qed

theorem page_mapping_round_trip_witness:
  "\<exists>bs. encode_entry 0x20000 True = Some bs \<and> translated (store_bytes (unat (entry_offset 0x400000)) bs (\<lambda>_. 0)) 0x400123 = 0x20123"
proof -
  obtain bs where bs: "encode_entry 0x20000 True = Some bs" by (auto simp: encode_entry_def page_consts)
  from page_mapping_round_trip [OF this refl, of "0x400123" "0x400000" "\<lambda>_. 0"] bs show ?thesis by simp
qed

end
