(* ===== verification/X86_Registers.thy ===== *)
theory X86_Registers
  imports State_Fields
begin

text \<open>
  General-purpose registers and their views: \<open>x86/src/register.rs\<close>, the field of a view
  (\<open>x86/src/state/access.rs\<close>) and the accesses of \<open>x86/src/state.rs\<close> through the retained state fields. A
  view is the low part of a register, a legacy high byte, or either of them selected by code at
  run time. The views are shown to share one register file however values are retained.
\<close>

subsection \<open>register.rs\<close>

datatype gpr32 = Eax | Ecx | Edx | Ebx | Esp | Ebp | Esi | Edi

definition ALL_GPRS :: "gpr32 list" where
  "ALL_GPRS = [Eax, Ecx, Edx, Ebx, Esp, Ebp, Esi, Edi]"

fun gpr_code :: "gpr32 \<Rightarrow> nat" where
  "gpr_code Eax = 0" | "gpr_code Ecx = 1" | "gpr_code Edx = 2" | "gpr_code Ebx = 3"
| "gpr_code Esp = 4" | "gpr_code Ebp = 5" | "gpr_code Esi = 6" | "gpr_code Edi = 7"

definition gpr_from_code :: "u8 \<Rightarrow> gpr32" where
  "gpr_from_code code =
     (let c = code AND 7 in
      if c = 0 then Eax else if c = 1 then Ecx else if c = 2 then Edx else if c = 3 then Ebx
      else if c = 4 then Esp else if c = 5 then Ebp else if c = 6 then Esi else Edi)"

record named_register =
  nr_parent :: gpr32
  nr_byte :: nat

definition AH :: named_register where
  "AH = \<lparr>nr_parent = Eax, nr_byte = 1\<rparr>"

definition low_register :: "gpr32 \<Rightarrow> named_register" where
  "low_register parent = \<lparr>nr_parent = parent, nr_byte = 0\<rparr>"

definition same_location :: "named_register \<Rightarrow> named_register \<Rightarrow> bool" where
  "same_location a b \<longleftrightarrow> gpr_code (nr_parent a) = gpr_code (nr_parent b) \<and> nr_byte a = nr_byte b"

datatype register_code = KnownCode u8 | IndexedCode u32

datatype register_operand = NamedOperand named_register | EncodedOperand register_code

datatype register_selection = NamedView gpr32 nat | IndexedView u32 "u32 option"

definition backing_slot_count :: "'a::len itself \<Rightarrow> nat" where
  "backing_slot_count _ = (if LENGTH('a) = 8 then 4 else 8)"

fun at_slot_start :: "register_code \<Rightarrow> register_selection" where
  "at_slot_start (KnownCode code) = NamedView (gpr_from_code code) 0"
| "at_slot_start (IndexedCode code) = IndexedView (code AND 7) None"

fun select_byte :: "register_code \<Rightarrow> register_selection" where
  "select_byte (KnownCode code) = NamedView (gpr_from_code (code AND 3)) (unat (drop_bit 2 code AND 1))"
| "select_byte (IndexedCode code) = IndexedView (code AND 3) (Some (drop_bit 2 code AND 1))"

definition register_select :: "'a::len itself \<Rightarrow> register_code \<Rightarrow> register_selection" where
  "register_select _ code = (if LENGTH('a) = 8 then select_byte code else at_slot_start code)"

text \<open>A high byte has byte width; another width is a panic.\<close>

definition register_named :: "'a::len itself \<Rightarrow> named_register \<Rightarrow> register_selection option" where
  "register_named _ r = (if nr_byte r = 0 \<or> LENGTH('a) div 8 = 1 then Some (NamedView (nr_parent r) (nr_byte r)) else None)"

fun register_view :: "'a::len itself \<Rightarrow> register_operand \<Rightarrow> register_selection option" where
  "register_view T (NamedOperand r) = register_named T r"
| "register_view T (EncodedOperand code) = Some (register_select T code)"

fun register_known :: "register_selection \<Rightarrow> gpr32 option" where
  "register_known (NamedView parent _) = Some parent"
| "register_known (IndexedView _ _) = None"

fun register_is :: "register_selection \<Rightarrow> gpr32 \<Rightarrow> bool" where
  "register_is (NamedView parent _) r = (parent = r)"
| "register_is (IndexedView slot _) r = (slot = of_nat (gpr_code r))"

subsection \<open>state/access.rs, state.rs\<close>

text \<open>The registers are eight consecutive dwords after the 28 bytes of the flag record.\<close>

definition register_base :: nat where
  "register_base = 28"

definition register_stride :: nat where
  "register_stride = 32 div length ALL_GPRS"

fun register_location :: "'a::len itself \<Rightarrow> register_selection \<Rightarrow> field_address" where
  "register_location T (NamedView parent byte) = Fixed (register_base + gpr_code parent * register_stride + byte)"
| "register_location T (IndexedView slot byte) =
     Indexed (span_new register_base (backing_slot_count T * register_stride))
       (let displacement = push_bit 2 slot in case byte of Some b \<Rightarrow> displacement + b | None \<Rightarrow> displacement)"

definition state_read_register ::
  "register_selection \<Rightarrow> state_fields \<times> backing \<Rightarrow> ('a::len word \<times> state_fields \<times> backing) option" where
  "state_read_register r = field_read (register_location TYPE('a) r)"

definition state_write_register ::
  "bool \<Rightarrow> register_selection \<Rightarrow> 'a::len word \<Rightarrow> state_fields \<times> backing \<Rightarrow> (state_fields \<times> backing) option" where
  "state_write_register same r v = field_define same (register_location TYPE('a) r) v"

subsection \<open>The register file\<close>

type_synonym register_file = "gpr32 \<Rightarrow> u32"

fun view_parent :: "register_selection \<Rightarrow> gpr32" where
  "view_parent (NamedView parent _) = parent"
| "view_parent (IndexedView slot _) = gpr_from_code (ucast slot)"

fun view_byte :: "register_selection \<Rightarrow> nat" where
  "view_byte (NamedView _ byte) = byte"
| "view_byte (IndexedView _ byte) = (case byte of Some b \<Rightarrow> unat b | None \<Rightarrow> 0)"

definition get_view :: "register_selection \<Rightarrow> register_file \<Rightarrow> 'a::len word" where
  "get_view r regs = ucast (drop_bit (8 * view_byte r) (regs (view_parent r)))"

definition set_view :: "register_selection \<Rightarrow> 'a::len word \<Rightarrow> register_file \<Rightarrow> register_file" where
  "set_view r v regs =
     regs(view_parent r := regs (view_parent r) AND NOT (push_bit (8 * view_byte r) (mask LENGTH('a)))
       OR push_bit (8 * view_byte r) (ucast v))"

text \<open>Views that fit their width: what decoding can produce.\<close>

definition view_ok :: "'a::len itself \<Rightarrow> register_selection \<Rightarrow> bool" where
  "view_ok _ r \<longleftrightarrow> LENGTH('a) \<in> {8, 16, 32} \<and> (case r of
     NamedView _ byte \<Rightarrow> byte = 0 \<or> LENGTH('a) = 8 \<and> byte = 1
   | IndexedView slot None \<Rightarrow> unat slot < 8 \<and> LENGTH('a) \<noteq> 8
   | IndexedView slot (Some b) \<Rightarrow> unat slot < 4 \<and> unat b < 2 \<and> LENGTH('a) = 8)"

definition registers_of :: "backing \<Rightarrow> register_file" where
  "registers_of flat r = load_word (register_base + 4 * gpr_code r) flat"

subsection \<open>Views of the backing\<close>

lemma div8_less: "n < w \<Longrightarrow> w mod 8 = 0 \<Longrightarrow> n div 8 < w div (8::nat)"
  by (auto simp: mod_eq_0_iff_dvd dvd_def div_less_iff_less_mult)

lemma div8_range: "w mod 8 = 0 \<Longrightarrow> k \<le> n div 8 \<and> n div 8 < k + w div (8::nat) \<longleftrightarrow> 8 * k \<le> n \<and> n < 8 * k + w"
  by (auto simp: mod_eq_0_iff_dvd dvd_def div_less_iff_less_mult less_eq_div_iff_mult_less_eq)

lemma bit_load_word:
  assumes "LENGTH('a::len) mod 8 = 0"
  shows "bit (load_word a m :: 'a word) n \<longleftrightarrow> n < LENGTH('a) \<and> bit (m (a + n div 8)) (n mod 8)"
proof -
  have "n < LENGTH('a) \<Longrightarrow> n div 8 < LENGTH('a) div 8" using assms by (simp add: div8_less)
  then show ?thesis by (auto simp: load_word_def bit_from_le_bytes)
qed

lemma view_widths: "view_ok TYPE('a::len) r \<Longrightarrow> field_width TYPE('a) \<and> LENGTH('a) mod 8 = 0"
  by (auto simp: view_ok_def field_width_def)

lemma view_fits:
  assumes "view_ok TYPE('a::len) r"
  shows "8 * view_byte r + LENGTH('a) \<le> 32"
  using assms by (auto simp: view_ok_def split: register_selection.splits option.splits)

lemma gpr_code_less: "gpr_code r < 8"
  by (cases r) simp_all

lemma gpr_code_inject: "gpr_code r = gpr_code q \<longleftrightarrow> r = q"
  by (cases r; cases q) simp_all

lemma unat_less_8: "unat (x :: 'a::len word) < 8 \<Longrightarrow> 3 \<le> LENGTH('a) \<Longrightarrow> x \<in> {0, 1, 2, 3, 4, 5, 6, 7}"
proof -
  assume "unat x < 8" and "3 \<le> LENGTH('a)"
  then have "unat x \<in> {0, 1, 2, 3, 4, 5, 6, 7}" by auto
  then have "(of_nat (unat x) :: 'a word) \<in> of_nat ` {0, 1, 2, 3, 4, 5, 6, 7 :: nat}" by (rule imageI)
  then show ?thesis by simp
qed

lemma gpr_code_from_code: "gpr_code (gpr_from_code c) = unat (c AND 7)"
proof -
  have "c AND 7 \<le> 7" by (rule word_and_le1)
  then have "unat (c AND 7) < 8" by (simp add: word_le_nat_alt)
  from unat_less_8 [OF this] show ?thesis by (auto simp: gpr_from_code_def Let_def)
qed

lemma ucast_slot:
  assumes "unat (s :: u32) < 8"
  shows "unat ((ucast s :: u8) AND 7) = unat s"
  using unat_less_8 [OF assms] by auto

text \<open>The field of a view: its place in the backing, which lies inside the span it declares.\<close>

lemma register_flat_address:
  assumes "view_ok TYPE('a::len) r"
  shows "flat_address 0 (register_location TYPE('a) r) = register_base + 4 * gpr_code (view_parent r) + view_byte r"
    and "address_ok 0 (LENGTH('a) div 8) (register_location TYPE('a) r)"
proof -
  have stride: "register_stride = 4" by (simp add: register_stride_def ALL_GPRS_def)
  have disp: "unat (push_bit 2 slot :: u32) = 4 * unat slot" "unat (push_bit 2 slot + b :: u32) = 4 * unat slot + unat b"
    if "unat slot < 8" "unat b < 2" for slot b :: u32
  proof -
    have "b \<in> {0, 1}" using that(2) unat_less_8 [of b] by (auto simp: word_unat_eq_iff)
    then show "unat (push_bit 2 slot) = 4 * unat slot" "unat (push_bit 2 slot + b) = 4 * unat slot + unat b"
      using unat_less_8 [OF that(1)] by (auto simp: push_bit_eq_mult)
  qed
  have "flat_address 0 (register_location TYPE('a) r) = register_base + 4 * gpr_code (view_parent r) + view_byte r \<and>
    address_ok 0 (LENGTH('a) div 8) (register_location TYPE('a) r)"
  proof (cases r)
    case (NamedView parent byte)
    then show ?thesis by (simp add: flat_address_def address_ok_def stride)
  next
    case (IndexedView slot byte)
    have slot: "unat slot < 8" using assms IndexedView by (auto simp: view_ok_def split: option.splits)
    have code: "gpr_code (gpr_from_code (ucast slot)) = unat slot" by (simp add: gpr_code_from_code ucast_slot [OF slot])
    show ?thesis
    proof (cases byte)
      case None
      with IndexedView assms code disp(1) [OF slot, of 0] show ?thesis
        by (auto simp: flat_address_def address_ok_def view_ok_def backing_slot_count_def span_new_def stride)
    next
      case (Some b)
      then have "unat b < 2" using assms IndexedView by (auto simp: view_ok_def)
      with Some IndexedView assms code disp(2) [OF slot this] show ?thesis
        by (auto simp: flat_address_def address_ok_def view_ok_def backing_slot_count_def span_new_def stride)
    qed
  qed
  then show "flat_address 0 (register_location TYPE('a) r) = register_base + 4 * gpr_code (view_parent r) + view_byte r"
    and "address_ok 0 (LENGTH('a) div 8) (register_location TYPE('a) r)" by auto
qed

lemma load_part:
  assumes "LENGTH('a::len) mod 8 = 0" and "8 * k + LENGTH('a) \<le> 32"
  shows "(load_word (a + k) m :: 'a word) = ucast (drop_bit (8 * k) (load_word a m :: u32))"
proof (rule bit_word_eqI)
  fix n assume n: "n < LENGTH('a)"
  have "(8 * k + n) div 8 = k + n div 8" "(8 * k + n) mod 8 = n mod 8" by simp_all
  with n assms(2) show "bit (load_word (a + k) m :: 'a word) n = bit (ucast (drop_bit (8 * k) (load_word a m :: u32)) :: 'a word) n"
    by (simp add: bit_load_word assms(1) bit_ucast_iff bit_drop_bit_eq add.assoc)
qed

lemma store_part:
  fixes v :: "'a::len word"
  assumes w: "LENGTH('a) mod 8 = 0" and k: "8 * k + LENGTH('a) \<le> 32"
  shows "(load_word a (store_bytes (a + k) (to_le_bytes v) m) :: u32) =
    load_word a m AND NOT (push_bit (8 * k) (mask LENGTH('a))) OR push_bit (8 * k) (ucast v)"
proof (rule bit_word_eqI)
  fix n assume n: "n < LENGTH(32)"
  then have n: "n < 32" by simp
  have len: "length (to_le_bytes v) = LENGTH('a) div 8" by simp
  have pos: "a + k \<le> a + n div 8 \<and> a + n div 8 < a + k + LENGTH('a) div 8 \<longleftrightarrow> 8 * k \<le> n \<and> n < 8 * k + LENGTH('a)"
    using div8_range [OF w, of k n] by simp
  show "bit (load_word a (store_bytes (a + k) (to_le_bytes v) m) :: u32) n =
    bit (load_word a m AND NOT (push_bit (8 * k) (mask LENGTH('a))) OR push_bit (8 * k) (ucast v) :: u32) n"
  proof (cases "8 * k \<le> n \<and> n < 8 * k + LENGTH('a)")
    case True
    then obtain j where j: "n = 8 * k + j" "j < LENGTH('a)" by (metis add_less_cancel_left le_iff_add)
    have "j div 8 < LENGTH('a) div 8" using j(2) w by (rule div8_less)
    moreover have "(8 * k + j) div 8 = k + j div 8" "(8 * k + j) mod 8 = j mod 8" by simp_all
    ultimately show ?thesis using True n j
      by (simp add: bit_load_word store_bytes_def nth_to_le_bytes bit_ucast_iff bit_drop_bit_eq bit_or_iff bit_and_iff
          bit_not_iff bit_push_bit_iff bit_mask_iff add.assoc)
  next
    case False
    then have "store_bytes (a + k) (to_le_bytes v) m (a + n div 8) = m (a + n div 8)" using pos by (auto simp: store_bytes_def)
    moreover have "8 * k \<le> n \<Longrightarrow> \<not> bit v (n - 8 * k)" using False bit_imp_le_length [of v "n - 8 * k"] by auto
    ultimately show ?thesis using False n
      by (auto simp: bit_load_word bit_or_iff bit_and_iff bit_not_iff bit_push_bit_iff bit_mask_iff bit_ucast_iff)
  qed
qed

lemma registers_of_get_view:
  assumes "view_ok TYPE('a::len) r"
  shows "load_word (flat_address 0 (register_location TYPE('a) r)) flat = (get_view r (registers_of flat) :: 'a word)"
  using load_part [of "view_byte r" "register_base + 4 * gpr_code (view_parent r)" flat, where 'a = 'a] view_widths [OF assms] view_fits [OF assms]
  by (simp add: register_flat_address(1) [OF assms] get_view_def registers_of_def)

lemma registers_of_set_view:
  fixes v :: "'a::len word"
  assumes ok: "view_ok TYPE('a) r"
  shows "registers_of (store_bytes (flat_address 0 (register_location TYPE('a) r)) (to_le_bytes v) flat) = set_view r v (registers_of flat)"
proof
  fix q
  let ?p = "view_parent r" and ?k = "view_byte r" and ?b = "\<lambda>q. register_base + 4 * gpr_code q"
  have w: "LENGTH('a) mod 8 = 0" "8 * ?k + LENGTH('a) \<le> 32" using view_widths [OF ok] view_fits [OF ok] by auto
  show "registers_of (store_bytes (flat_address 0 (register_location TYPE('a) r)) (to_le_bytes v) flat) q = set_view r v (registers_of flat) q"
  proof (cases "q = ?p")
    case True
    then show ?thesis using store_part [OF w, of "?b ?p" v flat]
      by (simp add: registers_of_def set_view_def register_flat_address(1) [OF ok])
  next
    case False
    then have "gpr_code q \<noteq> gpr_code ?p" by (simp add: gpr_code_inject)
    then have "store_bytes (?b ?p + ?k) (to_le_bytes v) flat (?b q + j) = flat (?b q + j)" if "j < 4" for j
      using that w by (auto simp: store_bytes_def)
    then have "(load_word (?b q) (store_bytes (?b ?p + ?k) (to_le_bytes v) flat) :: u32) = load_word (?b q) flat"
      by (intro load_word_cong) simp
    with False show ?thesis by (simp add: registers_of_def set_view_def register_flat_address(1) [OF ok])
  qed
qed

subsection \<open>Sequences of register accesses\<close>

text \<open>
  Accesses at the three operand widths, on a register operand of an instruction. A write carries
  whether the translator saw that the value is the current expression of the field. Observed
  values are zero-extended to 32 bits.
\<close>

datatype register_event =
  ReadByte register_operand | ReadWord register_operand | ReadDword register_operand |
  WriteByte bool register_operand u8 | WriteWord bool register_operand u16 | WriteDword bool register_operand u32

definition observe :: "('a::len word \<times> state_fields \<times> backing) option \<Rightarrow> (u32 list \<times> state_fields \<times> backing) option" where
  "observe = map_option (\<lambda>(v, fm). ([ucast v], fm))"

fun event_fields :: "register_event \<Rightarrow> state_fields \<times> backing \<Rightarrow> (u32 list \<times> state_fields \<times> backing) option" where
  "event_fields (ReadByte op) fm = Option.bind (register_view TYPE(8) op) (\<lambda>r. observe (state_read_register r fm :: (u8 \<times> _) option))"
| "event_fields (ReadWord op) fm = Option.bind (register_view TYPE(16) op) (\<lambda>r. observe (state_read_register r fm :: (u16 \<times> _) option))"
| "event_fields (ReadDword op) fm = Option.bind (register_view TYPE(32) op) (\<lambda>r. observe (state_read_register r fm :: (u32 \<times> _) option))"
| "event_fields (WriteByte same op v) fm = Option.bind (register_view TYPE(8) op) (\<lambda>r. map_option (Pair []) (state_write_register same r v fm))"
| "event_fields (WriteWord same op v) fm = Option.bind (register_view TYPE(16) op) (\<lambda>r. map_option (Pair []) (state_write_register same r v fm))"
| "event_fields (WriteDword same op v) fm = Option.bind (register_view TYPE(32) op) (\<lambda>r. map_option (Pair []) (state_write_register same r v fm))"

fun run_fields :: "register_event list \<Rightarrow> state_fields \<times> backing \<Rightarrow> (u32 list \<times> state_fields \<times> backing) option" where
  "run_fields [] fm = Some ([], fm)"
| "run_fields (e # es) fm = Option.bind (event_fields e fm) (\<lambda>(vs, fm). map_option (\<lambda>(ws, fm). (vs @ ws, fm)) (run_fields es fm))"

text \<open>The same accesses on a plain register file. A register operand is well formed when it names at
  most a high byte, and only at byte width.\<close>

fun operand_view :: "register_operand \<Rightarrow> 'a::len itself \<Rightarrow> register_selection" where
  "operand_view (NamedOperand r) T = NamedView (nr_parent r) (nr_byte r)"
| "operand_view (EncodedOperand code) T = register_select T code"

fun operand_ok :: "register_operand \<Rightarrow> 'a::len itself \<Rightarrow> bool" where
  "operand_ok (NamedOperand r) T = (nr_byte r = 0 \<or> nr_byte r = 1 \<and> LENGTH('a) = 8)"
| "operand_ok (EncodedOperand code) T = True"

fun event_file :: "register_event \<Rightarrow> register_file \<Rightarrow> u32 list \<times> register_file" where
  "event_file (ReadByte op) regs = ([ucast (get_view (operand_view op TYPE(8)) regs :: u8)], regs)"
| "event_file (ReadWord op) regs = ([ucast (get_view (operand_view op TYPE(16)) regs :: u16)], regs)"
| "event_file (ReadDword op) regs = ([get_view (operand_view op TYPE(32)) regs], regs)"
| "event_file (WriteByte same op v) regs = ([], set_view (operand_view op TYPE(8)) v regs)"
| "event_file (WriteWord same op v) regs = ([], set_view (operand_view op TYPE(16)) v regs)"
| "event_file (WriteDword same op v) regs = ([], set_view (operand_view op TYPE(32)) v regs)"

fun run_file :: "register_event list \<Rightarrow> register_file \<Rightarrow> u32 list \<times> register_file" where
  "run_file [] regs = ([], regs)"
| "run_file (e # es) regs = (case event_file e regs of (vs, regs) \<Rightarrow> case run_file es regs of (ws, regs) \<Rightarrow> (vs @ ws, regs))"

fun register_event_ok :: "register_event \<Rightarrow> register_file \<Rightarrow> bool" where
  "register_event_ok (ReadByte op) regs = operand_ok op TYPE(8)"
| "register_event_ok (ReadWord op) regs = operand_ok op TYPE(16)"
| "register_event_ok (ReadDword op) regs = operand_ok op TYPE(32)"
| "register_event_ok (WriteByte same op v) regs = (operand_ok op TYPE(8) \<and> (same \<longrightarrow> get_view (operand_view op TYPE(8)) regs = v))"
| "register_event_ok (WriteWord same op v) regs = (operand_ok op TYPE(16) \<and> (same \<longrightarrow> get_view (operand_view op TYPE(16)) regs = v))"
| "register_event_ok (WriteDword same op v) regs = (operand_ok op TYPE(32) \<and> (same \<longrightarrow> get_view (operand_view op TYPE(32)) regs = v))"

fun events_ok :: "register_event list \<Rightarrow> register_file \<Rightarrow> bool" where
  "events_ok [] regs = True"
| "events_ok (e # es) regs = (register_event_ok e regs \<and> events_ok es (snd (event_file e regs)))"

lemma and_small:
  "unat (x AND 7 :: u32) < 8" "unat (x AND 3 :: u32) < 4" "unat (x AND 1 :: u32) < 2" "unat (y AND 1 :: u8) < 2"
  using word_and_le1 [of x 7] word_and_le1 [of x 3] word_and_le1 [of x 1] word_and_le1 [of y 1] by (simp_all add: word_le_nat_alt)

lemma operand_view_ok:
  assumes "operand_ok op TYPE('a::len)" and "LENGTH('a) \<in> {8, 16, 32}"
  shows "register_view TYPE('a) op = Some (operand_view op TYPE('a))" and "view_ok TYPE('a) (operand_view op TYPE('a))"
proof -
  show "register_view TYPE('a) op = Some (operand_view op TYPE('a))"
    using assms by (cases op) (auto simp: register_named_def)
  show "view_ok TYPE('a) (operand_view op TYPE('a))"
  proof (cases op)
    case (EncodedOperand code)
    have "unat (drop_bit 2 c AND 1) = 0 \<or> unat (drop_bit 2 c AND 1) = 1" for c :: u8
      using and_small(4) [of "drop_bit 2 c"] by auto
    with EncodedOperand assms(2) and_small show ?thesis
      by (cases code) (auto simp: view_ok_def register_select_def)
  qed (use assms in \<open>auto simp: view_ok_def\<close>)
qed

text \<open>One read, one write, at any width.\<close>

lemma state_read_refines:
  assumes "represents (f, m) flat" and "sf_base f = 0" and "operand_ok op TYPE('a::len)" and "LENGTH('a) \<in> {8, 16, 32}"
  shows "\<exists>g m'. Option.bind (register_view TYPE('a) op) (\<lambda>r. observe (state_read_register r (f, m) :: ('a word \<times> _) option)) =
      Some ([ucast (get_view (operand_view op TYPE('a)) (registers_of flat) :: 'a word)], g, m') \<and>
    represents (g, m') flat \<and> sf_base g = 0"
proof -
  note v = operand_view_ok [OF assms(3,4)]
  from field_read_represents [OF assms(1) conjunct1 [OF view_widths [OF v(2)]], of "register_location TYPE('a) (operand_view op TYPE('a))"]
  show ?thesis using register_flat_address(2) [OF v(2)] assms(2)
    by (fastforce simp: v(1) observe_def state_read_register_def registers_of_get_view [OF v(2)])
qed

lemma state_write_refines:
  fixes v :: "'a::len word"
  assumes "represents (f, m) flat" and "sf_base f = 0" and "operand_ok op TYPE('a)" and "LENGTH('a) \<in> {8, 16, 32}"
    and "same \<longrightarrow> get_view (operand_view op TYPE('a)) (registers_of flat) = v"
  shows "\<exists>g m' flat'. Option.bind (register_view TYPE('a) op) (\<lambda>r. map_option (Pair ([] :: u32 list)) (state_write_register same r v (f, m))) =
      Some ([], g, m') \<and> represents (g, m') flat' \<and> sf_base g = 0 \<and>
    registers_of flat' = set_view (operand_view op TYPE('a)) v (registers_of flat) \<and> (\<forall>x. x < 28 \<or> 60 \<le> x \<longrightarrow> flat' x = flat x)"
proof -
  note ok = operand_view_ok [OF assms(3,4)]
  let ?r = "operand_view op TYPE('a)" and ?l = "register_location TYPE('a) (operand_view op TYPE('a))"
  let ?flat = "store_bytes (flat_address 0 ?l) (to_le_bytes v) flat"
  obtain g m' where g: "field_define same ?l v (f, m) = Some (g, m')" "sf_base g = 0" "represents (g, m') ?flat"
    using field_define_represents [OF assms(1) conjunct1 [OF view_widths [OF ok(2)]], of ?l same v] assms(2,5)
      register_flat_address(2) [OF ok(2)] registers_of_get_view [OF ok(2), of flat] by auto
  have "?flat x = flat x" if "x < 28 \<or> 60 \<le> x" for x
  proof -
    have "register_base + 4 * gpr_code (view_parent ?r) + view_byte ?r + LENGTH('a) div 8 \<le> 60"
      using view_fits [OF ok(2)] gpr_code_less [of "view_parent ?r"] by (simp add: register_base_def)
    with that show ?thesis
      by (auto simp: store_bytes_def register_flat_address(1) [OF ok(2)] register_base_def)
  qed
  then show ?thesis using g registers_of_set_view [OF ok(2), of v flat] ok(1)
    by (intro exI [of _ g] exI [of _ m'] exI [of _ ?flat]) (simp add: state_write_register_def)
qed

lemma event_refines:
  assumes "represents (f, m) flat" and "sf_base f = 0" and "register_event_ok e (registers_of flat)"
  shows "\<exists>g m' flat'. event_fields e (f, m) = Some (fst (event_file e (registers_of flat)), g, m') \<and>
    represents (g, m') flat' \<and> sf_base g = 0 \<and> registers_of flat' = snd (event_file e (registers_of flat)) \<and>
    (\<forall>x. x < 28 \<or> 60 \<le> x \<longrightarrow> flat' x = flat x)"
proof (cases e)
  case (ReadByte op)
  then show ?thesis using state_read_refines [OF assms(1,2), of op, where 'a = 8] assms(3) by fastforce
next
  case (ReadWord op)
  then show ?thesis using state_read_refines [OF assms(1,2), of op, where 'a = 16] assms(3) by fastforce
next
  case (ReadDword op)
  then show ?thesis using state_read_refines [OF assms(1,2), of op, where 'a = 32] assms(3) by fastforce
next
  case (WriteByte same op v)
  then show ?thesis using state_write_refines [OF assms(1,2), of op same v] assms(3) by fastforce
next
  case (WriteWord same op v)
  then show ?thesis using state_write_refines [OF assms(1,2), of op same v] assms(3) by fastforce
next
  case (WriteDword same op v)
  then show ?thesis using state_write_refines [OF assms(1,2), of op same v] assms(3) by fastforce
qed

lemma run_refines:
  assumes "represents (f, m) flat" and "sf_base f = 0" and "events_ok es (registers_of flat)"
  shows "\<exists>g m' flat'. run_fields es (f, m) = Some (fst (run_file es (registers_of flat)), g, m') \<and>
    represents (g, m') flat' \<and> registers_of flat' = snd (run_file es (registers_of flat)) \<and>
    (\<forall>x. x < 28 \<or> 60 \<le> x \<longrightarrow> flat' x = flat x)"
  using assms
proof (induction es arbitrary: f m flat)
  case (Cons e es)
  from event_refines [OF Cons.prems(1,2), of e] Cons.prems(3) obtain g m' flat' where
    e: "event_fields e (f, m) = Some (fst (event_file e (registers_of flat)), g, m')" "represents (g, m') flat'" "sf_base g = 0"
      "registers_of flat' = snd (event_file e (registers_of flat))" "\<forall>x. x < 28 \<or> 60 \<le> x \<longrightarrow> flat' x = flat x" by auto
  from Cons.IH [OF e(2,3)] Cons.prems(3) e(4) obtain h m'' flat'' where
    "run_fields es (g, m') = Some (fst (run_file es (registers_of flat')), h, m'')" "represents (h, m'') flat''"
    "registers_of flat'' = snd (run_file es (registers_of flat'))" "\<forall>x. x < 28 \<or> 60 \<le> x \<longrightarrow> flat'' x = flat' x" by auto
  with e show ?case by (auto split: prod.splits)
qed auto

subsection \<open>Properties\<close>

text \<open>C7: however register values are retained, written back late or overtaken by overlapping views,
  any sequence of byte, word and dword accesses to named and run-time selected registers
  observes exactly what a plain register file would, never panics, and publishing the retained
  values leaves that register file in the backing memory and nothing else changed.\<close>

theorem register_views_refine:
  assumes "events_ok es (registers_of m)"
  shows "\<exists>f m'. run_fields es (fields_with_base 0, m) = Some (fst (run_file es (registers_of m)), f, m') \<and>
    registers_of (fields_publish f m') = snd (run_file es (registers_of m)) \<and>
    (\<forall>x. x < 28 \<or> 60 \<le> x \<longrightarrow> fields_publish f m' x = m x)"
  using run_refines [OF represents_new _ assms] publish_represents by (fastforce simp: fields_with_base_def)

theorem register_views_refine_witness:
  "\<exists>f m'. run_fields [WriteDword False (NamedOperand (low_register Eax)) 0x12345678,
      WriteByte False (NamedOperand AH) 0xAB, ReadWord (EncodedOperand (IndexedCode 0))] (fields_with_base 0, \<lambda>_. 0) = Some ([0xAB78], f, m') \<and>
    registers_of (fields_publish f m') Eax = 0x1234AB78"
proof -
  let ?es = "[WriteDword False (NamedOperand (low_register Eax)) 0x12345678, WriteByte False (NamedOperand AH) 0xAB, ReadWord (EncodedOperand (IndexedCode 0))]"
  let ?m = "\<lambda>_ :: nat. 0 :: u8"
  have eax: "gpr_from_code 0 = Eax" by (simp add: gpr_from_code_def)
  have zero: "registers_of ?m Eax = 0" by (simp add: registers_of_def load_word_def register_base_def upt_rec)
  have r: "fst (run_file ?es (registers_of ?m)) = [0xAB78]" "snd (run_file ?es (registers_of ?m)) Eax = 0x1234AB78"
    by (simp_all add: low_register_def AH_def register_select_def get_view_def set_view_def eax zero mask_eq_exp_minus_1)
  have "events_ok ?es (registers_of ?m)" by (simp add: low_register_def AH_def)
  from register_views_refine [OF this] r show ?thesis by auto
qed

end
