(* ===== verification/X86_Execution.thy ===== *)
theory X86_Execution
  imports Paging X86_Registers Guest_Transfer X86_Alu
begin

unbundle bit_operations_syntax

text \<open>
  The execution builder of the x86 crate: what instruction handlers are written in. A handler is a run over
  the processor's state that completes with a value, stops at an exception (with the state that has been
  defined so far, which is what the fault publishes), or is \<open>None\<close> where the source asserts. Address
  resolution, checked memory operands, write targets, stack frames, code-target checks and flag images
  follow \<^verbatim>\<open>execution.rs\<close>, \<^verbatim>\<open>execution/*.rs\<close>, \<^verbatim>\<open>address.rs\<close> and \<^verbatim>\<open>flags/image.rs\<close>. The second part proves
  the laws of runs the instruction theories use: which runs are free of effects, which cannot fault, and
  which fault before their first effect.
\<close>

subsection \<open>Code equations\<close>

text \<open>Parity of a word is its lowest bit, which evaluates.\<close>

lemmas val_bit_code [code] = val_bit_def [unfolded odd_bit]
lemmas shift_code [code] = shift_apply_def [unfolded odd_bit]
lemmas double_shift_code [code] = double_shift_apply_def [unfolded odd_bit]
lemmas bit_test_code [code] = bit_test_apply_def [unfolded odd_bit]

subsection \<open>Processor state and runs\<close>

record 's cpu =
  gprs :: register_file
  cpu_flags :: "flag \<Rightarrow> bool"
  cpu_iopl :: u8
  segs :: segments
  cpu_eip :: u32
  retired :: u64
  cpu_guest :: "'s guest"

type_synonym ('s, 'v) run = "'s cpu \<Rightarrow> ((exception + 'v) \<times> 's cpu) option"

definition ret :: "'v \<Rightarrow> ('s, 'v) run" where
  "ret v = (\<lambda>c. Some (Inr v, c))"

definition and_then :: "('s, 'v) run \<Rightarrow> ('v \<Rightarrow> ('s, 'w) run) \<Rightarrow> ('s, 'w) run" where
  "and_then m k = (\<lambda>c. case m c of None \<Rightarrow> None | Some (Inl x, c) \<Rightarrow> Some (Inl x, c) | Some (Inr v, c) \<Rightarrow> k v c)"

definition require :: "'v option \<Rightarrow> ('s, 'v) run" where
  "require v = (\<lambda>c. case v of None \<Rightarrow> None | Some v \<Rightarrow> Some (Inr v, c))"

definition look :: "('s cpu \<Rightarrow> 'v) \<Rightarrow> ('s, 'v) run" where
  "look f = (\<lambda>c. Some (Inr (f c), c))"

definition change :: "('s cpu \<Rightarrow> 's cpu) \<Rightarrow> ('s, unit) run" where
  "change f = (\<lambda>c. Some (Inr (), f c))"

text \<open>The memory model of the module: translated private memory, or live physical routing.\<close>

datatype 's memory_model =
  VirtualMemory backing
| PhysicalMemory "nat \<Rightarrow> nat \<Rightarrow> nat \<Rightarrow> 's \<Rightarrow> 's \<times> u64" "nat \<Rightarrow> nat \<Rightarrow> nat \<Rightarrow> u64 \<Rightarrow> 's \<Rightarrow> 's" io_bus "u8 list"

datatype address_size = Address16 | Address32

text \<open>What the builder fixes for one instruction.\<close>

record 's builder =
  eb_profile :: execution_profile
  eb_memory :: "'s memory_model"
  eb_override :: "segment option"
  eb_address_size :: address_size
  eb_locked :: bool

subsection \<open>execution.rs\<close>

definition fault_if :: "bool \<Rightarrow> exception \<Rightarrow> ('s, unit) run" where
  "fault_if condition x = (\<lambda>c. Some (if condition then Inl x else Inr (), c))"

definition fault :: "exception \<Rightarrow> ('s, unit) run" where
  "fault x = fault_if True x"

definition read_register :: "register_selection \<Rightarrow> ('s, 'a::len word) run" where
  "read_register r = look (\<lambda>c. get_view r (gprs c))"

definition write_register :: "register_selection \<Rightarrow> 'a::len word \<Rightarrow> ('s, unit) run" where
  "write_register r v = change (\<lambda>c. c\<lparr>gprs := set_view r v (gprs c)\<rparr>)"

text \<open>The whole change as one function of the flags. The deferred record of the six status flags is the subject of
  \<open>Lazy_Flags\<close>; the other flags have a byte each in the code as here.\<close>

definition flags_after :: "flag_change \<Rightarrow> (flag \<Rightarrow> bool) \<Rightarrow> flag \<Rightarrow> bool" where
  "flags_after ch v f =
     (if (case fc_condition ch of None \<Rightarrow> True | Some p \<Rightarrow> truth p)
      then case change_flag ch f of None \<Rightarrow> v f | Some b \<Rightarrow> b else v f)"

definition write_flags :: "flag_change \<Rightarrow> ('s, unit) run" where
  "write_flags ch = change (\<lambda>c. c\<lparr>cpu_flags := flags_after ch (cpu_flags c)\<rparr>)"

definition read_flag :: "flag \<Rightarrow> ('s, bool) run" where
  "read_flag f = look (\<lambda>c. cpu_flags c f)"

definition write_flag :: "flag \<Rightarrow> bool \<Rightarrow> ('s, unit) run" where
  "write_flag f b = write_flags (change_partial [(f, b)])"

definition read_iopl :: "('s, u8) run" where
  "read_iopl = look (\<lambda>c. cpu_iopl c AND 3)"

definition write_iopl :: "u8 \<Rightarrow> ('s, unit) run" where
  "write_iopl v = change (\<lambda>c. c\<lparr>cpu_iopl := v AND 3\<rparr>)"

definition exec_condition :: "condition \<Rightarrow> ('s, bool) run" where
  "exec_condition cc = look (\<lambda>c. evaluate cc (\<lambda>s. cpu_flags c (Status s)))"

definition exec_translate :: "'s builder \<Rightarrow> segment \<Rightarrow> u32 \<Rightarrow> u32 \<Rightarrow> intent \<Rightarrow> ('s, u32) run" where
  "exec_translate b seg offset bytes i =
     (\<lambda>c. Some (translate_segment (eb_profile b) seg (segments_index (segs c) seg) offset bytes i, c))"

text \<open>Each access is resolved on its own: a retained proof gives the same outcome, as \<open>Paging\<close> shows.\<close>

definition memory_resolve :: "'s memory_model \<Rightarrow> u32 \<Rightarrow> u32 \<Rightarrow> intent \<Rightarrow> (exception + access) option" where
  "memory_resolve m start bytes i =
     (case m of
        VirtualMemory table \<Rightarrow> map_option fst (accesses_resolve table False False start bytes i no_anchors)
      | PhysicalMemory rd wr bus ranges \<Rightarrow>
          if \<not> (1 \<le> bytes \<and> bytes \<le> Paging.PAGE_BYTES) then None
          else Some (Inr \<lparr>ac_linear = start, ac_physical = 0, ac_denied = (bytes = 0), ac_unavailable = True, ac_intent = i,
            ac_bytes = Some bytes\<rparr>))"

definition resolve_access :: "'s builder \<Rightarrow> u32 \<Rightarrow> u32 \<Rightarrow> intent \<Rightarrow> ('s, access) run" where
  "resolve_access b linear bytes i =
     (\<lambda>c. case memory_resolve (eb_memory b) linear bytes i of None \<Rightarrow> None | Some r \<Rightarrow> Some (r, c))"

record operand_span =
  os_bytes :: u32
  os_alignment :: u32

definition span_of :: "u32 \<Rightarrow> operand_span" where
  "span_of bytes = \<lparr>os_bytes = bytes, os_alignment = 1\<rparr>"

definition span_aligned :: "u32 \<Rightarrow> u32 \<Rightarrow> operand_span option" where
  "span_aligned bytes alignment =
     (if is_power_of_two alignment then Some \<lparr>os_bytes = bytes, os_alignment = alignment\<rparr> else None)"

definition checked :: "'s builder \<Rightarrow> segment \<Rightarrow> u32 \<Rightarrow> operand_span \<Rightarrow> intent \<Rightarrow> ('s, access) run" where
  "checked b seg offset spn i =
     and_then (exec_translate b seg offset (os_bytes spn) i) (\<lambda>linear.
     and_then (fault_if (linear AND (os_alignment spn - 1) \<noteq> 0) (GeneralProtection 0)) (\<lambda>_.
     resolve_access b linear (os_bytes spn) i))"

subsection \<open>memory.rs\<close>

text \<open>Transfers of the integer widths, at most eight bytes.\<close>

definition memory_read :: "'s memory_model \<Rightarrow> access \<Rightarrow> nat \<Rightarrow> ('s, 'a::len word) run" where
  "memory_read m a offset =
     (\<lambda>c. case m of
        VirtualMemory table \<Rightarrow> map_option (\<lambda>v. (Inr v, c)) (virtual_read table (storage (cpu_guest c)) a offset)
      | PhysicalMemory rd wr bus ranges \<Rightarrow>
          if \<not> check_field a offset (LENGTH('a) div 8) then None
          else map_option (\<lambda>(g, v). (Inr (ucast v), c\<lparr>cpu_guest := g\<rparr>))
            (physical_read rd bus ranges (ac_linear a + of_nat offset) (LENGTH('a) div 8) (cpu_guest c)))"

definition memory_write :: "'s memory_model \<Rightarrow> access \<Rightarrow> nat \<Rightarrow> 'a::len word \<Rightarrow> ('s, unit) run" where
  "memory_write m a offset v =
     (\<lambda>c. map_option (\<lambda>g. (Inr (), c\<lparr>cpu_guest := g\<rparr>)) (case m of
        VirtualMemory table \<Rightarrow>
          map_option (\<lambda>s. (cpu_guest c)\<lparr>storage := s\<rparr>) (virtual_write table a offset v (storage (cpu_guest c)))
      | PhysicalMemory rd wr bus ranges \<Rightarrow>
          if ac_intent a \<noteq> Write \<or> \<not> check_field a offset (LENGTH('a) div 8) then None
          else physical_write wr bus ranges (ac_linear a + of_nat offset) (LENGTH('a) div 8) (ucast v) (cpu_guest c)))"

definition memory_update :: "'s memory_model \<Rightarrow> access \<Rightarrow> 'a::len word operand_update \<Rightarrow> ('s, 'a word) run" where
  "memory_update m a update =
     (case m of
        VirtualMemory table \<Rightarrow> (\<lambda>c. map_option (\<lambda>(previous, s). (Inr previous, c\<lparr>cpu_guest := (cpu_guest c)\<lparr>storage := s\<rparr>\<rparr>))
          (virtual_update table a update (storage (cpu_guest c))))
      | PhysicalMemory rd wr bus ranges \<Rightarrow>
          and_then (require (if ac_bytes a = Some (of_nat (LENGTH('a) div 8)) then Some () else None)) (\<lambda>_.
          and_then (memory_read m a 0) (\<lambda>previous.
          and_then (memory_write m a 0 (update_apply update previous)) (\<lambda>_. ret previous))))"

subsection \<open>address.rs\<close>

fun wrap_address :: "address_size \<Rightarrow> u32 \<Rightarrow> u32" where
  "wrap_address Address16 v = ucast (ucast v :: u16)"
| "wrap_address Address32 v = v"

record register_term =
  rt_register :: register_selection
  rt_present :: "bool option"

record index_term =
  it_register :: register_term
  it_shift :: u32

record effective_address =
  ea_size :: address_size
  ea_base :: "register_term option"
  ea_index :: "index_term option"
  ea_displacement :: u32

record memory_address =
  ma_segment :: segment
  ma_offset :: effective_address

definition address_memory :: "effective_address \<Rightarrow> memory_address" where
  "address_memory ea =
     \<lparr>ma_segment = (case ea_base ea of
         None \<Rightarrow> Ds
       | Some base \<Rightarrow> (case (register_known (rt_register base), rt_present base) of
             (Some r, None) \<Rightarrow> if r = Esp \<or> r = Ebp then Ss else Ds
           | _ \<Rightarrow> if (register_is (rt_register base) Esp \<or> register_is (rt_register base) Ebp) \<and>
                     (case rt_present base of Some present \<Rightarrow> present | None \<Rightarrow> True) then Ss else Ds)),
      ma_offset = ea\<rparr>"

type_synonym register_value = "gpr32 \<times> u32"

definition term_read :: "register_term \<Rightarrow> register_value list \<Rightarrow> ('s, u32) run" where
  "term_read t bindings =
     look (\<lambda>c.
       let v = (case register_known (rt_register t) of
             Some r \<Rightarrow> (case find (\<lambda>(g, _). g = r) (rev bindings) of
                 Some (_, v) \<Rightarrow> v
               | None \<Rightarrow> get_view (rt_register t) (gprs c))
           | None \<Rightarrow> fold (\<lambda>(g, v) old. if register_is (rt_register t) g then v else old) bindings
               (get_view (rt_register t) (gprs c)))
       in case rt_present t of Some condition \<Rightarrow> if condition then v else 0 | None \<Rightarrow> v)"

definition resolve_address :: "effective_address \<Rightarrow> register_value list \<Rightarrow> ('s, u32) run" where
  "resolve_address ea bindings =
     and_then (case ea_base ea of Some base \<Rightarrow> term_read base bindings | None \<Rightarrow> ret 0) (\<lambda>v.
     and_then (case ea_index ea of
         Some index \<Rightarrow> and_then (term_read (it_register index) bindings) (\<lambda>r. ret (v + val_shl r (it_shift index)))
       | None \<Rightarrow> ret v) (\<lambda>v.
     ret (wrap_address (ea_size ea) (v + ea_displacement ea))))"

subsection \<open>execution/memory.rs\<close>

record memory_operand =
  mo_access :: access
  mo_offset :: u32
  mo_segment :: segment

definition width_bytes_of :: "'a::len itself \<Rightarrow> u32" where
  "width_bytes_of _ = of_nat (LENGTH('a) div 8)"

definition operand_read :: "'s builder \<Rightarrow> memory_operand \<Rightarrow> nat \<Rightarrow> ('s, 'a::len word) run" where
  "operand_read b mo offset = memory_read (eb_memory b) (mo_access mo) offset"

definition operand_write :: "'s builder \<Rightarrow> memory_operand \<Rightarrow> nat \<Rightarrow> 'a::len word \<Rightarrow> ('s, unit) run" where
  "operand_write b mo offset v = memory_write (eb_memory b) (mo_access mo) offset v"

definition operand_atomic_update :: "'s builder \<Rightarrow> memory_operand \<Rightarrow> 'a::len word operand_update \<Rightarrow> ('s, 'a word) run" where
  "operand_atomic_update b mo update = memory_update (eb_memory b) (mo_access mo) update"

definition memory_operand_at :: "'s builder \<Rightarrow> memory_address \<Rightarrow> operand_span \<Rightarrow> intent \<Rightarrow> register_value list \<Rightarrow> ('s, memory_operand) run" where
  "memory_operand_at b address spn i bindings =
     and_then (resolve_address (ma_offset address) bindings) (\<lambda>offset.
     and_then (checked b (ma_segment address) offset spn i) (\<lambda>access.
     ret \<lparr>mo_access = access, mo_offset = offset, mo_segment = ma_segment address\<rparr>))"

definition flush_cache_line :: "'s builder \<Rightarrow> memory_address \<Rightarrow> ('s, unit) run" where
  "flush_cache_line b address = and_then (memory_operand_at b address (span_of 1) ReadOrExecute []) (\<lambda>_. ret ())"

definition read_linear_memory :: "'s builder \<Rightarrow> u32 \<Rightarrow> ('s, 'a::len word) run" where
  "read_linear_memory b linear =
     and_then (resolve_access b linear (width_bytes_of TYPE('a)) intent.Read) (\<lambda>access. memory_read (eb_memory b) access 0)"

definition exec_read_memory :: "'s builder \<Rightarrow> memory_address \<Rightarrow> ('s, 'a::len word) run" where
  "exec_read_memory b address =
     and_then (memory_operand_at b address (span_of (width_bytes_of TYPE('a))) intent.Read []) (\<lambda>mo. operand_read b mo 0)"

definition prepare_memory_write :: "'a::len itself \<Rightarrow> 's builder \<Rightarrow> memory_address \<Rightarrow> register_value list \<Rightarrow> ('s, memory_operand) run" where
  "prepare_memory_write T b address bindings = memory_operand_at b address (span_of (width_bytes_of T)) Write bindings"

definition modify_memory :: "'s builder \<Rightarrow> memory_address \<Rightarrow> 'a::len word operand_update \<Rightarrow> ('s, 'a word) run" where
  "modify_memory b address update =
     and_then (prepare_memory_write TYPE('a) b address []) (\<lambda>target.
     if eb_locked b then operand_atomic_update b target update
     else and_then (operand_read b target 0) (\<lambda>previous.
       and_then (operand_write b target 0 (update_apply update previous)) (\<lambda>_. ret previous)))"

subsection \<open>execution/operands.rs\<close>

datatype location = RegisterAt register_operand | MemoryAt memory_address | MmxAt u32 | XmmAt u32

datatype operand = Immediate u32 | AddressOf effective_address | At location | SegmentOperand segment | X87StackIndex u32

datatype write_target = TargetRegister register_selection | TargetMemory memory_operand

fun target_read :: "'s builder \<Rightarrow> write_target \<Rightarrow> ('s, 'a::len word) run" where
  "target_read b (TargetRegister r) = read_register r"
| "target_read b (TargetMemory mo) = operand_read b mo 0"

fun target_write :: "'s builder \<Rightarrow> write_target \<Rightarrow> 'a::len word \<Rightarrow> ('s, unit) run" where
  "target_write b (TargetRegister r) v = write_register r v"
| "target_write b (TargetMemory mo) v = operand_write b mo 0 v"

definition target_modify ::
  "'s builder \<Rightarrow> write_target \<Rightarrow> 'a::len word operand_update \<Rightarrow> bool \<Rightarrow> ('a word \<Rightarrow> ('s, unit) run) \<Rightarrow> ('s, unit) run" where
  "target_modify b target update locked complete =
     (case (target, locked) of
        (TargetMemory mo, True) \<Rightarrow> and_then (operand_atomic_update b mo update) complete
      | _ \<Rightarrow>
          and_then (target_read b target) (\<lambda>previous.
          and_then (complete previous) (\<lambda>_.
          target_write b target (update_apply update previous))))"

text \<open>Operands of the SIMD, x87 and segment instructions never reach the integer accesses.\<close>

definition exec_read :: "'s builder \<Rightarrow> operand \<Rightarrow> ('s, 'a::len word) run" where
  "exec_read b operand =
     (case operand of
        Immediate bits \<Rightarrow> ret (ucast bits)
      | AddressOf ea \<Rightarrow> and_then (resolve_address ea []) (\<lambda>v. ret (ucast v))
      | At (RegisterAt r) \<Rightarrow> and_then (require (register_view TYPE('a) r)) read_register
      | At (MemoryAt address) \<Rightarrow> exec_read_memory b address
      | _ \<Rightarrow> require None)"

definition prepare_write :: "'a::len itself \<Rightarrow> 's builder \<Rightarrow> location \<Rightarrow> register_value list \<Rightarrow> ('s, write_target) run" where
  "prepare_write T b location bindings =
     (case location of
        RegisterAt r \<Rightarrow> and_then (require (register_view T r)) (\<lambda>r. ret (TargetRegister r))
      | MemoryAt address \<Rightarrow> and_then (prepare_memory_write T b address bindings) (\<lambda>mo. ret (TargetMemory mo))
      | _ \<Rightarrow> require None)"

definition exec_write :: "'s builder \<Rightarrow> location \<Rightarrow> 'a::len word \<Rightarrow> ('s, unit) run" where
  "exec_write b location v = and_then (prepare_write TYPE('a) b location []) (\<lambda>target. target_write b target v)"

definition exec_update :: "'s builder \<Rightarrow> location \<Rightarrow> ('a::len word \<Rightarrow> ('s, 'a word) run) \<Rightarrow> ('s, unit) run" where
  "exec_update b location update =
     and_then (prepare_write TYPE('a) b location []) (\<lambda>target.
     and_then (target_read b target) (\<lambda>old.
     and_then (update old) (\<lambda>v. target_write b target v)))"

subsection \<open>instruction/operands.rs\<close>

definition parent_location :: "gpr32 \<Rightarrow> location" where
  "parent_location parent = RegisterAt (NamedOperand (low_register parent))"

definition read_parent :: "gpr32 \<Rightarrow> ('s, 'a::len word) run" where
  "read_parent parent = read_register (NamedView parent 0)"

definition write_parent :: "gpr32 \<Rightarrow> 'a::len word \<Rightarrow> ('s, unit) run" where
  "write_parent parent v = write_register (NamedView parent 0) v"

fun offset_memory :: "location \<Rightarrow> u32 \<Rightarrow> location" where
  "offset_memory (MemoryAt a) offset =
     MemoryAt (a\<lparr>ma_offset := (ma_offset a)\<lparr>ea_displacement := ea_displacement (ma_offset a) + offset\<rparr>\<rparr>)"
| "offset_memory location offset = location"

subsection \<open>execution/address.rs\<close>

definition data_segment :: "'s builder \<Rightarrow> segment" where
  "data_segment b = (case eb_override b of None \<Rightarrow> Ds | Some seg \<Rightarrow> seg)"

definition memory_address_at_register :: "'s builder \<Rightarrow> gpr32 \<Rightarrow> segment \<Rightarrow> memory_address" where
  "memory_address_at_register b base seg =
     \<lparr>ma_segment = seg, ma_offset = \<lparr>ea_size = eb_address_size b,
        ea_base = Some \<lparr>rt_register = NamedView base 0, rt_present = None\<rparr>, ea_index = None, ea_displacement = 0\<rparr>\<rparr>"

definition memory_at_register :: "'s builder \<Rightarrow> gpr32 \<Rightarrow> segment \<Rightarrow> location" where
  "memory_at_register b base seg = MemoryAt (memory_address_at_register b base seg)"

definition read_address_register :: "'s builder \<Rightarrow> gpr32 \<Rightarrow> ('s, u32) run" where
  "read_address_register b r =
     (case eb_address_size b of
        Address16 \<Rightarrow> and_then (read_parent r) (\<lambda>v :: u16. ret (ucast v))
      | Address32 \<Rightarrow> read_parent r)"

definition write_address_register :: "'s builder \<Rightarrow> gpr32 \<Rightarrow> u32 \<Rightarrow> ('s, unit) run" where
  "write_address_register b r v =
     (case eb_address_size b of
        Address16 \<Rightarrow> write_parent r (ucast v :: u16)
      | Address32 \<Rightarrow> write_parent r v)"

subsection \<open>execution/register_pairs.rs\<close>

definition read_register_pair :: "'a::len itself \<Rightarrow> gpr32 \<Rightarrow> gpr32 \<Rightarrow> ('s, 'd::len word) run" where
  "read_register_pair T high low =
     and_then (read_parent low) (\<lambda>l :: 'a word.
     and_then (read_parent high) (\<lambda>h :: 'a word.
     ret (ucast l OR val_shl (ucast h) (of_nat LENGTH('a)))))"

definition write_register_pair :: "'a::len itself \<Rightarrow> gpr32 \<Rightarrow> gpr32 \<Rightarrow> 'd::len word \<Rightarrow> ('s, unit) run" where
  "write_register_pair T high low v =
     and_then (write_parent low (ucast v :: 'a word)) (\<lambda>_.
     write_parent high (ucast (val_shr_unsigned v (of_nat LENGTH('a))) :: 'a word))"

subsection \<open>execution/stack.rs\<close>

record stack_pointer =
  sp_esp :: u32
  sp_mask :: u32

record stack_frame =
  sf_linear :: u32
  sf_checked :: u32
  sf_intent :: intent
  sf_pointer :: stack_pointer
  sf_adjustment :: u32

definition pointer_offset :: "stack_pointer \<Rightarrow> u32" where
  "pointer_offset p = sp_esp p AND sp_mask p"

definition with_offset :: "stack_pointer \<Rightarrow> u32 \<Rightarrow> stack_pointer" where
  "with_offset p offset = p\<lparr>sp_esp := (sp_esp p AND (sp_mask p XOR - 1)) OR (offset AND sp_mask p)\<rparr>"

definition pointer_advance :: "stack_pointer \<Rightarrow> u32 \<Rightarrow> stack_pointer" where
  "pointer_advance p bytes = with_offset p (sp_esp p + bytes)"

definition pointer_check_write :: "'s builder \<Rightarrow> stack_pointer \<Rightarrow> u32 \<Rightarrow> ('s, unit) run" where
  "pointer_check_write b p bytes = and_then (checked b Ss (pointer_offset p) (span_of bytes) Write) (\<lambda>_. ret ())"

definition pointer_commit :: "stack_pointer \<Rightarrow> ('s, unit) run" where
  "pointer_commit p = write_register (NamedView Esp 0) (sp_esp p)"

definition pointer_push_frame :: "'s builder \<Rightarrow> stack_pointer \<Rightarrow> u32 \<Rightarrow> u32 \<Rightarrow> ('s, stack_frame) run" where
  "pointer_push_frame b p slot_bytes checked_bytes =
     (let adjustment = - slot_bytes;
          offset = pointer_offset (pointer_advance p adjustment) in
      and_then (exec_translate b Ss offset checked_bytes Write) (\<lambda>linear.
      ret \<lparr>sf_linear = linear, sf_checked = checked_bytes, sf_intent = Write, sf_pointer = p, sf_adjustment = adjustment\<rparr>))"

definition pointer_pop_frame :: "'s builder \<Rightarrow> stack_pointer \<Rightarrow> u32 \<Rightarrow> u32 \<Rightarrow> ('s, stack_frame) run" where
  "pointer_pop_frame b p slot_bytes checked_bytes =
     and_then (exec_translate b Ss (pointer_offset p) checked_bytes intent.Read) (\<lambda>linear.
     ret \<lparr>sf_linear = linear, sf_checked = checked_bytes, sf_intent = intent.Read, sf_pointer = p, sf_adjustment = slot_bytes\<rparr>)"

definition frame_field :: "'a::len itself \<Rightarrow> 's builder \<Rightarrow> stack_frame \<Rightarrow> u32 \<Rightarrow> ('s, access) run" where
  "frame_field T b f offset =
     (if \<not> (offset \<le> sf_checked f \<and> width_bytes_of T \<le> sf_checked f - offset) then require None
      else resolve_access b (sf_linear f + offset) (width_bytes_of T) (sf_intent f))"

definition next_pointer :: "stack_frame \<Rightarrow> stack_pointer" where
  "next_pointer f = pointer_advance (sf_pointer f) (sf_adjustment f)"

definition frame_commit :: "stack_frame \<Rightarrow> u32 \<Rightarrow> ('s, unit) run" where
  "frame_commit f discard_bytes = pointer_commit (pointer_advance (sf_pointer f) (discard_bytes + sf_adjustment f))"

definition segment_big :: "execution_profile \<Rightarrow> segment \<Rightarrow> segment_register \<Rightarrow> bool" where
  "segment_big profile seg r =
     (case profile of Real16 \<Rightarrow> False | Protected p \<Rightarrow> known (as_big (assumptions p seg)) (sr_big r) \<noteq> 0)"

definition read_stack_pointer :: "'s builder \<Rightarrow> ('s, stack_pointer) run" where
  "read_stack_pointer b =
     look (\<lambda>c. \<lparr>sp_esp = get_view (NamedView Esp 0) (gprs c),
       sp_mask = (if segment_big (eb_profile b) Ss (segments_index (segs c) Ss) then - 1 else 0xFFFF)\<rparr>)"

definition push_frame :: "'s builder \<Rightarrow> u32 \<Rightarrow> u32 \<Rightarrow> ('s, stack_frame) run" where
  "push_frame b slot_bytes checked_bytes =
     and_then (read_stack_pointer b) (\<lambda>p. pointer_push_frame b p slot_bytes checked_bytes)"

definition pop_frame :: "'s builder \<Rightarrow> u32 \<Rightarrow> u32 \<Rightarrow> ('s, stack_frame) run" where
  "pop_frame b slot_bytes checked_bytes =
     and_then (read_stack_pointer b) (\<lambda>p. pointer_pop_frame b p slot_bytes checked_bytes)"

definition push_value :: "'s builder \<Rightarrow> 'a::len word \<Rightarrow> u32 \<Rightarrow> ('s, unit) run" where
  "push_value b v slot_bytes =
     and_then (push_frame b slot_bytes (width_bytes_of TYPE('a))) (\<lambda>f.
     and_then (frame_field TYPE('a) b f 0) (\<lambda>field.
     and_then (memory_write (eb_memory b) field 0 v) (\<lambda>_.
     frame_commit f 0)))"

subsection \<open>execution/control.rs\<close>

definition check_code_target :: "'s builder \<Rightarrow> u32 \<Rightarrow> bool option \<Rightarrow> ('s, unit) run" where
  "check_code_target b target taken =
     and_then (look (\<lambda>c. fst (segment_check (eb_profile b) Cs (segments_index (segs c) Cs) target 1 Fetch))) (\<lambda>denied.
     fault_if (case taken of Some taken \<Rightarrow> taken \<and> denied | None \<Rightarrow> denied) (GeneralProtection 0))"

definition jump :: "'s builder \<Rightarrow> u32 \<Rightarrow> ('s, u32) run" where
  "jump b target = and_then (check_code_target b target None) (\<lambda>_. ret target)"

definition branch :: "'s builder \<Rightarrow> bool \<Rightarrow> u32 \<Rightarrow> u32 \<Rightarrow> ('s, u32) run" where
  "branch b taken target fallthrough =
     and_then (check_code_target b target (Some taken)) (\<lambda>_. ret (if taken then target else fallthrough))"

subsection \<open>flags/image.rs\<close>

primrec flag_bit :: "flag \<Rightarrow> nat" where
  "flag_bit (Status s) = (case s of CF \<Rightarrow> 0 | PF \<Rightarrow> 2 | AF \<Rightarrow> 4 | ZF \<Rightarrow> 6 | SF \<Rightarrow> 7 | OF \<Rightarrow> 11)"
| "flag_bit TF = 8"
| "flag_bit IF = 9"
| "flag_bit DF = 10"
| "flag_bit NT = 14"
| "flag_bit AC = 18"
| "flag_bit ID = 21"

record flag_image =
  fi_flags :: "flag list"
  fi_fixed :: u32

definition AH_IMAGE :: flag_image where
  "AH_IMAGE = \<lparr>fi_flags = [Status CF, Status PF, Status AF, Status ZF, Status SF], fi_fixed = 0x02\<rparr>"

definition WORD_IMAGE :: flag_image where
  "WORD_IMAGE = \<lparr>fi_flags = [Status CF, Status PF, Status AF, Status ZF, Status SF, Status OF, TF, DF, NT], fi_fixed = 0x02\<rparr>"

definition DWORD_IMAGE :: flag_image where
  "DWORD_IMAGE =
     \<lparr>fi_flags = [Status CF, Status PF, Status AF, Status ZF, Status SF, Status OF, TF, DF, NT, AC, ID], fi_fixed = 0x02\<rparr>"

definition image_pack :: "flag_image \<Rightarrow> bool list \<Rightarrow> u32" where
  "image_pack im vs = fold (\<lambda>(f, v) acc. acc OR val_shl (of_bool v) (of_nat (flag_bit f))) (zip (fi_flags im) vs) (fi_fixed im)"

definition image_change :: "flag_image \<Rightarrow> u32 \<Rightarrow> flag_change" where
  "image_change im w = change_partial (map (\<lambda>f. (f, bit (val_shr_unsigned w (of_nat (flag_bit f))) 0)) (fi_flags im))"

definition exec_read_flags :: "flag list \<Rightarrow> ('s, bool list) run" where
  "exec_read_flags fs = look (\<lambda>c. map (cpu_flags c) fs)"

definition read_stack_image :: "'s builder \<Rightarrow> ('s, 'a::len word) run" where
  "read_stack_image b =
     and_then (if LENGTH('a) = 16 then and_then (exec_read_flags (fi_flags WORD_IMAGE)) (\<lambda>vs. ret (image_pack WORD_IMAGE vs))
       else if LENGTH('a) = 32 then and_then (exec_read_flags (fi_flags DWORD_IMAGE)) (\<lambda>vs. ret (image_pack DWORD_IMAGE vs))
       else require None) (\<lambda>w.
     and_then (case eb_profile b of
         Protected _ \<Rightarrow> ret (w OR 0x0200)
       | Real16 \<Rightarrow>
           and_then (read_flag IF) (\<lambda>enabled.
           and_then read_iopl (\<lambda>level.
           ret (w OR val_shl (of_bool enabled) (of_nat (flag_bit IF)) OR val_shl (ucast level) 12)))) (\<lambda>w.
     ret (ucast w)))"

definition write_stack_image :: "'s builder \<Rightarrow> 'a::len word \<Rightarrow> ('s, bool) run" where
  "write_stack_image b v =
     (let w = ucast v :: u32 in
      and_then (require (if LENGTH('a) = 16 then Some (image_change WORD_IMAGE w)
        else if LENGTH('a) = 32 then Some (image_change DWORD_IMAGE w) else None)) (\<lambda>ch.
      and_then (write_flags ch) (\<lambda>_.
      case eb_profile b of
        Protected _ \<Rightarrow> ret False
      | Real16 \<Rightarrow>
          and_then (read_flag IF) (\<lambda>before.
          and_then (ret (bit (val_shr_unsigned w (of_nat (flag_bit IF))) 0)) (\<lambda>enabled.
          and_then (write_flag IF enabled) (\<lambda>_.
          and_then (write_iopl (ucast (val_shr_unsigned w 12))) (\<lambda>_.
          ret (\<not> before \<and> enabled))))))))"

subsection \<open>Laws of runs\<close>

named_theorems run_simps
named_theorems free_intros
named_theorems sure_intros
named_theorems precise_intros

text \<open>A run without effects, a run that cannot fault, and a run whose faults come before its first effect.\<close>

definition effect_free :: "('s, 'v) run \<Rightarrow> bool" where
  "effect_free m \<longleftrightarrow> (\<forall>c r c'. m c = Some (r, c') \<longrightarrow> c' = c)"

definition cannot_fault :: "('s, 'v) run \<Rightarrow> bool" where
  "cannot_fault m \<longleftrightarrow> (\<forall>c x c'. m c \<noteq> Some (Inl x, c'))"

definition precise :: "('s, 'v) run \<Rightarrow> bool" where
  "precise m \<longleftrightarrow> (\<forall>c x c'. m c = Some (Inl x, c') \<longrightarrow> c' = c)"

lemma and_then_Some:
  "and_then m k c = Some r \<longleftrightarrow>
     (\<exists>x c'. m c = Some (Inl x, c') \<and> r = (Inl x, c')) \<or> (\<exists>v c'. m c = Some (Inr v, c') \<and> k v c' = Some r)"
  by (auto simp: and_then_def split: option.splits sum.splits prod.splits)

lemma run_steps [run_simps]:
  "ret v c = Some (Inr v, c)" "require (Some v) c = Some (Inr v, c)" "require None c = None" "look f c = Some (Inr (f c), c)"
  "change h c = Some (Inr (), h c)" "fault_if p x c = Some (if p then Inl x else Inr (), c)"
  "m c = Some (Inr v, c') \<Longrightarrow> and_then m k c = k v c'" "m c = Some (Inl x, c') \<Longrightarrow> and_then m k c = Some (Inl x, c')"
  "m c = None \<Longrightarrow> and_then m k c = None"
  by (simp_all add: ret_def require_def look_def change_def fault_if_def and_then_def)

lemma ret_and_then [simp]: "and_then (ret v) k = k v"
  by (rule ext) (simp add: run_simps)

lemma and_then_assoc: "and_then (and_then m k) l = and_then m (\<lambda>v. and_then (k v) l)"
  by (rule ext) (simp add: and_then_def split: option.splits sum.splits prod.splits)

lemma free_basic [free_intros]:
  "effect_free (ret v)" "effect_free (require w)" "effect_free (look f)" "effect_free (fault_if p x)"
  by (auto simp: effect_free_def ret_def require_def look_def fault_if_def split: option.splits)

lemma free_and_then [free_intros]: "effect_free m \<Longrightarrow> (\<And>v. effect_free (k v)) \<Longrightarrow> effect_free (and_then m k)"
  unfolding effect_free_def and_then_Some by blast

lemma sure_basic [sure_intros]:
  "cannot_fault (ret v)" "cannot_fault (require w)" "cannot_fault (look f)" "cannot_fault (change h)"
  by (auto simp: cannot_fault_def ret_def require_def look_def change_def split: option.splits)

lemma sure_and_then [sure_intros]: "cannot_fault m \<Longrightarrow> (\<And>v. cannot_fault (k v)) \<Longrightarrow> cannot_fault (and_then m k)"
  unfolding cannot_fault_def and_then_Some by blast

lemma free_precise [precise_intros]: "effect_free m \<Longrightarrow> precise m"
  unfolding effect_free_def precise_def by blast

lemma sure_precise [precise_intros]: "cannot_fault m \<Longrightarrow> precise m"
  unfolding cannot_fault_def precise_def by blast

text \<open>Checks and reads, then effects: what keeps an instruction restartable. The rules are used as conditional
  rewrites, so that a failed attempt falls back on the next one.\<close>

lemma precise_and_then [precise_intros]:
  "precise m \<Longrightarrow> (\<And>v. cannot_fault (k v)) \<Longrightarrow> precise (and_then m k)"
  "effect_free m \<Longrightarrow> (\<And>v. precise (k v)) \<Longrightarrow> precise (and_then m k)"
  unfolding effect_free_def cannot_fault_def precise_def and_then_Some by blast+

lemma free_cases [free_intros]:
  "effect_free m \<Longrightarrow> effect_free n \<Longrightarrow> effect_free (if p then m else n)"
  "effect_free m \<Longrightarrow> (\<And>v. effect_free (k v)) \<Longrightarrow> effect_free (case w of None \<Rightarrow> m | Some v \<Rightarrow> k v)"
  "effect_free m \<Longrightarrow> (\<And>v. effect_free (h v)) \<Longrightarrow> effect_free (case profile of Real16 \<Rightarrow> m | Protected v \<Rightarrow> h v)"
  "effect_free m \<Longrightarrow> effect_free n \<Longrightarrow> effect_free (case sz of Address16 \<Rightarrow> m | Address32 \<Rightarrow> n)"
  by (auto split: option.splits execution_profile.splits address_size.splits)

lemma sure_cases [sure_intros]:
  "cannot_fault m \<Longrightarrow> cannot_fault n \<Longrightarrow> cannot_fault (if p then m else n)"
  "cannot_fault m \<Longrightarrow> (\<And>v. cannot_fault (k v)) \<Longrightarrow> cannot_fault (case w of None \<Rightarrow> m | Some v \<Rightarrow> k v)"
  "cannot_fault m \<Longrightarrow> (\<And>v. cannot_fault (h v)) \<Longrightarrow> cannot_fault (case profile of Real16 \<Rightarrow> m | Protected v \<Rightarrow> h v)"
  "cannot_fault m \<Longrightarrow> cannot_fault n \<Longrightarrow> cannot_fault (case sz of Address16 \<Rightarrow> m | Address32 \<Rightarrow> n)"
  by (auto split: option.splits execution_profile.splits address_size.splits)

lemma precise_cases [precise_intros]:
  "precise m \<Longrightarrow> precise n \<Longrightarrow> precise (if p then m else n)"
  "precise m \<Longrightarrow> (\<And>v. precise (k v)) \<Longrightarrow> precise (case w of None \<Rightarrow> m | Some v \<Rightarrow> k v)"
  by (auto split: option.splits)

subsection \<open>Which accesses have effects and which can fault\<close>

definition is_virtual :: "'s builder \<Rightarrow> bool" where
  "is_virtual b \<longleftrightarrow> (case eb_memory b of VirtualMemory _ \<Rightarrow> True | _ \<Rightarrow> False)"

lemma free_state [free_intros]:
  "effect_free (read_register r)" "effect_free (read_flag f)" "effect_free read_iopl" "effect_free (exec_condition cc)"
  "effect_free (exec_translate b seg offset bytes i)" "effect_free (resolve_access b linear bytes i)"
  "effect_free (exec_read_flags fs)" "effect_free (term_read t bindings)" "effect_free (read_parent g)" "effect_free (fault x)"
  "effect_free (read_stack_pointer b)"
  by (simp_all add: read_register_def read_flag_def read_iopl_def exec_condition_def exec_read_flags_def term_read_def
      read_parent_def fault_def read_stack_pointer_def free_intros)
    (auto simp: effect_free_def exec_translate_def resolve_access_def split: option.splits)

lemma sure_state [sure_intros]:
  "cannot_fault (read_register r)" "cannot_fault (read_flag f)" "cannot_fault read_iopl" "cannot_fault (exec_condition cc)"
  "cannot_fault (write_register r w)" "cannot_fault (write_flags ch)" "cannot_fault (write_flag f y)" "cannot_fault (write_iopl l)"
  "cannot_fault (exec_read_flags fs)" "cannot_fault (term_read t bindings)" "cannot_fault (read_parent g)"
  "cannot_fault (write_parent g w)" "cannot_fault (read_stack_pointer b)" "cannot_fault (pointer_commit p)"
  by (simp_all add: read_register_def read_flag_def read_iopl_def exec_condition_def exec_read_flags_def term_read_def
      read_parent_def write_parent_def write_register_def write_flags_def write_flag_def write_iopl_def read_stack_pointer_def
      pointer_commit_def sure_intros)

lemma sure_memory [sure_intros]:
  "cannot_fault (memory_read m a offset)" "cannot_fault (memory_write m a offset v)"
  by (auto simp: cannot_fault_def memory_read_def memory_write_def split: memory_model.splits if_splits)

lemma sure_memory_update [sure_intros]: "cannot_fault (memory_update m a update)"
proof (cases m)
  case (VirtualMemory table)
  then show ?thesis by (auto simp: cannot_fault_def memory_update_def)
qed (simp add: memory_update_def sure_intros)

lemma sure_operands [sure_intros]:
  "cannot_fault (operand_read b mo offset)" "cannot_fault (operand_write b mo offset v)" "cannot_fault (operand_atomic_update b mo update)"
  "cannot_fault (target_read b target)" "cannot_fault (target_write b target v)"
  "cannot_fault (read_address_register b g)" "cannot_fault (write_address_register b g w)"
  "cannot_fault (read_register_pair T g h)" "cannot_fault (write_register_pair T g h z)" "cannot_fault (frame_commit f d)"
  by (cases target; simp add: operand_read_def operand_write_def operand_atomic_update_def read_address_register_def
      write_address_register_def read_register_pair_def write_register_pair_def frame_commit_def sure_intros)+

lemma sure_target_modify [sure_intros]:
  "(\<And>v. cannot_fault (complete v)) \<Longrightarrow> cannot_fault (target_modify b target update locked complete)"
  by (auto simp: target_modify_def sure_intros split: write_target.splits bool.splits)

lemma free_memory_read [free_intros]:
  "is_virtual b \<Longrightarrow> effect_free (memory_read (eb_memory b) a offset)"
  by (auto simp: effect_free_def memory_read_def is_virtual_def split: memory_model.splits)

lemma free_resolve_address [free_intros]: "effect_free (resolve_address ea bindings)"
  by (simp add: resolve_address_def free_intros)

lemma free_checks [free_intros]:
  "effect_free (checked b seg offset spn i)" "effect_free (check_code_target b target taken)" "effect_free (jump b target)"
  "effect_free (branch b taken_now target fallthrough)" "effect_free (read_address_register b g)" "effect_free (read_register_pair T g h)"
  "effect_free (pointer_push_frame b p m n)" "effect_free (pointer_pop_frame b p m n)" "effect_free (frame_field U b f d)"
  by (simp_all add: checked_def check_code_target_def jump_def branch_def read_address_register_def read_register_pair_def
      pointer_push_frame_def pointer_pop_frame_def frame_field_def Let_def free_intros)

lemma free_frames [free_intros]:
  "effect_free (push_frame b m n)" "effect_free (pop_frame b m n)" "effect_free (pointer_check_write b p n)"
  "effect_free (memory_operand_at b address spn i bindings)" "effect_free (read_stack_image b)"
  by (simp_all add: push_frame_def pop_frame_def pointer_check_write_def memory_operand_at_def read_stack_image_def free_intros)

lemma free_prepare [free_intros]:
  "effect_free (prepare_memory_write T b address bindings)" "effect_free (prepare_write T b location bindings)"
  by (auto simp: prepare_memory_write_def prepare_write_def free_intros split: location.splits)

lemma free_operand_read [free_intros]: "is_virtual b \<Longrightarrow> effect_free (operand_read b mo offset)"
  by (simp add: operand_read_def free_intros)

lemma free_target_read [free_intros]: "is_virtual b \<Longrightarrow> effect_free (target_read b target)"
  by (cases target) (simp_all add: free_intros)

lemma free_exec_read [free_intros]: "is_virtual b \<Longrightarrow> effect_free (exec_read b operand)"
  by (auto simp: exec_read_def exec_read_memory_def free_intros split: operand.splits location.splits)

lemma sure_stack_image [sure_intros]: "cannot_fault (write_stack_image b v)"
  by (simp add: write_stack_image_def Let_def sure_intros split: execution_profile.splits)

subsection \<open>Precise accesses\<close>

lemma precise_exec_write [precise_intros]: "precise (exec_write b location v)"
  by (simp add: exec_write_def free_intros sure_intros precise_intros)

lemma precise_exec_update [precise_intros]:
  "is_virtual b \<Longrightarrow> (\<And>v. precise (update v)) \<Longrightarrow> precise (exec_update b location update)"
  by (simp add: exec_update_def free_intros sure_intros precise_intros)

lemma precise_push_value [precise_intros]: "precise (push_value b v n)"
  by (simp add: push_value_def free_intros sure_intros precise_intros)

lemma precise_modify_memory [precise_intros]: "precise (modify_memory b address update)"
  by (simp add: modify_memory_def free_intros sure_intros precise_intros)

end
