(* ===== verification/Stack_Slots.thy ===== *)
theory Stack_Slots
  imports X86_Execution
begin

unbundle bit_operations_syntax

text \<open>
  The slots of a stack over translated memory: where the bytes of a slot lie, what a push changes, and what a
  later pop reads. The page tables may map two pages to one frame and the stack may straddle them: the bytes
  of a frame still differ in their page offsets, so a frame of at most a page is read back as it was written.
  The same holds when a 16-bit stack pointer wraps.
\<close>

subsection \<open>Page offsets\<close>

definition page_tag :: "nat \<Rightarrow> 12 word" where
  "page_tag q = of_nat q"

lemma page_tag_translated: "page_tag (translated t x) = ucast x"
proof -
  have "unat (page_tag (translated t x)) = unat x mod 4096"
    by (simp add: page_tag_def translated_def unat_physical unsigned_of_nat take_bit_eq_mod del: of_nat_add of_nat_mult)
  moreover have "unat (ucast x :: 12 word) = unat x mod 4096"
    by (simp add: unsigned_ucast_eq take_bit_eq_mod)
  ultimately show ?thesis by (simp add: word_unat_eq_iff)
qed

lemma ucast_add_narrow:
  "(ucast (x + y :: u32) :: 12 word) = ucast x + ucast y" "(ucast (x + y :: u32) :: u16) = ucast x + ucast y"
  by (simp_all add: word_unat_eq_iff unsigned_ucast_eq take_bit_eq_mod unat_word_ariths mod_mod_cancel mod_add_eq)

lemma ucast_of_nat12: "(ucast (of_nat n :: u32) :: 12 word) = of_nat n"
  by (simp add: word_unat_eq_iff unsigned_ucast_eq unsigned_of_nat)

lemma of_nat12_eq: "j < 4096 \<Longrightarrow> k < 4096 \<Longrightarrow> (of_nat j :: 12 word) = of_nat k \<longleftrightarrow> j = k"
  by (simp add: word_unat_eq_iff unsigned_of_nat take_bit_nat_eq_self)

lemma translated_offset_inj:
  "j < 4096 \<Longrightarrow> k < 4096 \<Longrightarrow> translated t (l + of_nat j) = translated t (l + of_nat k) \<Longrightarrow> j = k"
  by (metis add_left_cancel of_nat12_eq page_tag_translated ucast_add_narrow ucast_of_nat12)

lemma write_linear_other:
  "(\<And>k. k < length bs \<Longrightarrow> translated t (l + of_nat k) \<noteq> q) \<Longrightarrow> write_linear t l bs g q = g q"
proof -
  assume a: "\<And>k. k < length bs \<Longrightarrow> translated t (l + of_nat k) \<noteq> q"
  have "fold (\<lambda>k g. g(translated t (l + of_nat k) := bs ! k)) [0..<n] g q = g q" if "n \<le> length bs" for n
    using that by (induction n) (use a in \<open>auto simp: Suc_le_eq\<close>)
  then show ?thesis by (simp add: write_linear_def)
qed

lemma write_linear_at:
  assumes "length bs \<le> 4096" "k < length bs"
  shows "write_linear t l bs g (translated t (l + of_nat k)) = bs ! k"
proof -
  have "fold (\<lambda>k g. g(translated t (l + of_nat k) := bs ! k)) [0..<n] g (translated t (l + of_nat k)) =
    (if k < n then bs ! k else g (translated t (l + of_nat k)))" if "n \<le> length bs" for n
    using that
  proof (induction n)
    case (Suc n)
    have "translated t (l + of_nat k) = translated t (l + of_nat n) \<longleftrightarrow> k = n"
      using translated_offset_inj [of k n t l] Suc.prems assms by auto
    with Suc show ?case by (auto simp: less_Suc_eq)
  qed simp
  then show ?thesis using assms by (simp add: write_linear_def)
qed

lemma linear_bytes_written: "length bs \<le> 4096 \<Longrightarrow> linear_bytes t (write_linear t l bs g) l (length bs) = bs"
  by (auto intro!: nth_equalityI simp: linear_bytes_def write_linear_at)

subsection \<open>Stack pointers\<close>

text \<open>A stack of 16 or 32 bits.\<close>

definition pointer_ok :: "stack_pointer \<Rightarrow> bool" where
  "pointer_ok p \<longleftrightarrow> sp_mask p = - 1 \<or> sp_mask p = 0xFFFF"

lemma bit_low16: "bit (0xFFFF :: int) n \<longleftrightarrow> n < 16"
proof -
  have "(0xFFFF :: int) = mask 16" by (simp add: mask_eq_exp_minus_1)
  then show ?thesis by (simp only: bit_mask_iff) simp
qed

lemma with_offset_simps [simp]:
  "sp_mask (with_offset p x) = sp_mask p" "pointer_ok (with_offset p x) = pointer_ok p"
  "sp_mask (pointer_advance p x) = sp_mask p" "pointer_ok (pointer_advance p x) = pointer_ok p"
  by (simp_all add: with_offset_def pointer_advance_def pointer_ok_def)

lemma with_offset_esp:
  assumes "pointer_ok p"
  shows "bit (sp_esp (with_offset p x)) n \<longleftrightarrow> (if sp_mask p = - 1 \<or> n < 16 then bit x n else bit (sp_esp p) n)"
proof (cases "n < 32")
  case True
  with assms show ?thesis by (auto simp: pointer_ok_def with_offset_def bit_simps bit_low16)
next
  case False
  then show ?thesis by (simp add: impossible_bit)
qed

lemma low_bits_add:
  fixes x y z :: u32
  assumes "\<And>n. n < 16 \<Longrightarrow> bit x n = bit y n"
  shows "n < 16 \<Longrightarrow> bit (x + z) n = bit (y + z) n"
proof -
  assume n: "n < 16"
  have "(ucast x :: u16) = ucast y" by (rule bit_word_eqI) (simp add: bit_ucast_iff assms)
  then have "(ucast (x + z) :: u16) = ucast (y + z)" by (simp add: ucast_add_narrow)
  then have "bit (ucast (x + z) :: u16) n = bit (ucast (y + z) :: u16) n" by simp
  then show "bit (x + z) n = bit (y + z) n" using n by (simp add: bit_ucast_iff)
qed

lemma pointer_advance_twice:
  assumes "pointer_ok p"
  shows "pointer_advance (pointer_advance p x) y = pointer_advance p (x + y)"
proof -
  have "sp_esp (pointer_advance (pointer_advance p x) y) = sp_esp (pointer_advance p (x + y))"
  proof (rule bit_word_eqI)
    fix n assume "n < LENGTH(32)"
    show "bit (sp_esp (pointer_advance (pointer_advance p x) y)) n = bit (sp_esp (pointer_advance p (x + y))) n"
    proof (cases "sp_mask p = - 1")
      case True
      then have "sp_esp (with_offset p z) = z" for z by (simp add: with_offset_def)
      with True show ?thesis by (simp add: pointer_advance_def with_offset_def add.assoc)
    next
      case False
      have "bit (sp_esp (with_offset p (sp_esp p + x)) + y) n = bit (sp_esp p + x + y) n" if "n < 16"
        using that assms by (intro low_bits_add) (simp_all add: with_offset_esp)
      with False assms show ?thesis
        by (simp add: pointer_advance_def with_offset_esp [of "with_offset p (sp_esp p + x)"] with_offset_esp [of p] add.assoc)
    qed
  qed
  then show ?thesis by (simp add: pointer_advance_def with_offset_def)
qed

lemma advance_zero: "pointer_ok p \<Longrightarrow> pointer_advance p 0 = p"
proof -
  assume p: "pointer_ok p"
  have "sp_esp (pointer_advance p 0) = sp_esp p"
    by (rule bit_word_eqI) (simp add: pointer_advance_def with_offset_esp [OF p])
  then show ?thesis by (simp add: pointer_advance_def with_offset_def)
qed

lemma pointer_tag:
  assumes "pointer_ok p"
  shows "(ucast (pointer_offset (pointer_advance p x)) :: 12 word) = ucast (sp_esp p) + ucast x"
proof -
  have "bit (pointer_offset (pointer_advance p x)) n = bit (sp_esp p + x) n" if "n < 12" for n
    using assms that by (auto simp: pointer_offset_def pointer_advance_def bit_and_iff with_offset_esp pointer_ok_def bit_low16)
  then have "(ucast (pointer_offset (pointer_advance p x)) :: 12 word) = ucast (sp_esp p + x)"
    by (intro bit_word_eqI) (simp add: bit_ucast_iff)
  then show ?thesis by (simp add: ucast_add_narrow)
qed

subsection \<open>One slot\<close>

definition stack_width :: "'a::len itself \<Rightarrow> bool" where
  "stack_width _ \<longleftrightarrow> LENGTH('a) = 16 \<or> LENGTH('a) = 32"

lemma stack_widthD:
  assumes "stack_width TYPE('a::len)"
  shows "unat (width_bytes_of TYPE('a)) = LENGTH('a) div 8" "field_width TYPE('a)" "1 \<le> LENGTH('a) div 8" "LENGTH('a) div 8 \<le> 4"
    "LENGTH('a) mod 8 = 0"
  using assms by (auto simp: stack_width_def width_bytes_of_def field_width_def)

text \<open>The stack segment of a state, and whether its bytes may be read: a segment that admits stores is a data
  segment, and those are readable.\<close>

abbreviation stack_segment :: "'s cpu \<Rightarrow> segment_register" where
  "stack_segment c \<equiv> segments_index (segs c) Ss"

definition stack_readable :: "'s builder \<Rightarrow> segment_register \<Rightarrow> bool" where
  "stack_readable b r =
     (case eb_profile b of Real16 \<Rightarrow> True | Protected p \<Rightarrow> emitted_permitted (assumptions p Ss) r intent.Read)"

definition stack_base :: "'s builder \<Rightarrow> segment_register \<Rightarrow> u32" where
  "stack_base b r = (case eb_profile b of Real16 \<Rightarrow> sr_base r | Protected p \<Rightarrow> known (as_base (assumptions p Ss)) (sr_base r))"

lemma translate_stack:
  assumes "translate_segment (eb_profile b) Ss r offset n Write = Inr l"
  shows "l = stack_base b r + offset" "stack_readable b r \<Longrightarrow> translate_segment (eb_profile b) Ss r offset n intent.Read = Inr l"
  using assms
  by (auto simp: translate_segment_def segment_check_def stack_base_def stack_readable_def access_denied_def Let_def
      split: execution_profile.splits if_splits)

text \<open>The page offsets of the \<open>k\<close> bytes below a stack pointer.\<close>

definition below :: "'s builder \<Rightarrow> segment_register \<Rightarrow> stack_pointer \<Rightarrow> nat \<Rightarrow> 12 word set" where
  "below b r p k = (\<lambda>j. ucast (stack_base b r) + ucast (sp_esp p) - of_nat j) ` {1..k}"

definition holds_at :: "'s builder \<Rightarrow> stack_pointer \<Rightarrow> 'a::len word \<Rightarrow> 's cpu \<Rightarrow> bool" where
  "holds_at b p v d \<longleftrightarrow> (\<exists>f a.
     pointer_pop_frame b p (width_bytes_of TYPE('a)) (width_bytes_of TYPE('a)) d = Some (Inr f, d) \<and>
     sf_pointer f = p \<and> sf_adjustment f = width_bytes_of TYPE('a) \<and>
     frame_field TYPE('a) b f 0 d = Some (Inr a, d) \<and> memory_read (eb_memory b) a 0 d = Some (Inr v, d))"

lemma resolve_virtual:
  assumes "eb_memory b = VirtualMemory t" "1 \<le> unat n" "unat n \<le> 4096"
  shows "resolve_access b l n i c = Some (Inr a, c') \<Longrightarrow>
      c' = c \<and> proves t a \<and> ac_linear a = l \<and> ac_bytes a = Some n \<and> ac_intent a = i"
    and "first_denied t (required_permissions i) l (unat n) = None \<Longrightarrow> \<exists>a. resolve_access b l n i c = Some (Inr a, c)"
proof -
  have ok: "anchors_ok t no_anchors" by (simp add: anchors_ok_def no_anchors_def)
  note spec = accesses_resolve_spec [OF ok assms(2,3), where same_write = False and same_read = False and start = l and i = i, simplified]
  show "c' = c \<and> proves t a \<and> ac_linear a = l \<and> ac_bytes a = Some n \<and> ac_intent a = i"
    if "resolve_access b l n i c = Some (Inr a, c')"
    using that spec by (auto simp: resolve_access_def memory_resolve_def assms(1) split: option.splits)
  show "\<exists>a. resolve_access b l n i c = Some (Inr a, c)" if "first_denied t (required_permissions i) l (unat n) = None"
    using that spec by (auto simp: resolve_access_def memory_resolve_def assms(1) split: option.splits)
qed

lemma write_then_read_permission:
  assumes "proves t a" "ac_bytes a = Some n" "ac_intent a = Write"
  shows "first_denied t (required_permissions intent.Read) (ac_linear a) (unat n) = None"
proof -
  have "first_denied t (required_permissions Write) (ac_linear a) (unat n) = None" using assms by (auto simp: proves_def)
  moreover have "required_permissions Write AND required_permissions intent.Read = required_permissions intent.Read"
    by (simp add: required_permissions_def page_consts)
  ultimately show ?thesis unfolding first_denied_None using permissions_subset by blast
qed

lemma stack_transfer:
  assumes "eb_memory b = VirtualMemory t" "stack_width TYPE('a::len)" "proves t a" "ac_bytes a = Some (width_bytes_of TYPE('a))"
  shows "memory_read (eb_memory b) a 0 c =
      Some (Inr (from_le_bytes (linear_bytes t (storage (cpu_guest c)) (ac_linear a) (LENGTH('a) div 8)) :: 'a word), c)"
    and "ac_intent a = Write \<Longrightarrow> memory_write (eb_memory b) a 0 (v :: 'a word) c =
      Some (Inr (), c\<lparr>cpu_guest := (cpu_guest c)\<lparr>storage := write_linear t (ac_linear a) (to_le_bytes v) (storage (cpu_guest c))\<rparr>\<rparr>)"
  using virtual_read_exact [OF stack_widthD(2) [OF assms(2)] assms(3,4), of 0 "storage (cpu_guest c)"]
    virtual_write_exact [OF stack_widthD(2) [OF assms(2)] assms(3,4), of 0 v "storage (cpu_guest c)"]
    stack_widthD(1) [OF assms(2)] assms(1)
  by (simp_all add: memory_read_def memory_write_def)

text \<open>The guest byte behind byte \<open>j\<close> of the slot a stack pointer points to, and the bytes of the \<open>k\<close> slots of
  \<open>n\<close> bytes below it.\<close>

definition pointer_of :: "'s builder \<Rightarrow> 's cpu \<Rightarrow> stack_pointer" where
  "pointer_of b c = \<lparr>sp_esp = gprs c Esp, sp_mask = (if segment_big (eb_profile b) Ss (stack_segment c) then - 1 else 0xFFFF)\<rparr>"

definition slot_byte :: "'s builder \<Rightarrow> backing \<Rightarrow> segment_register \<Rightarrow> stack_pointer \<Rightarrow> nat \<Rightarrow> nat" where
  "slot_byte b t r p j = translated t (stack_base b r + pointer_offset p + of_nat j)"

definition below_stack :: "'s builder \<Rightarrow> backing \<Rightarrow> segment_register \<Rightarrow> stack_pointer \<Rightarrow> nat \<Rightarrow> nat \<Rightarrow> nat \<Rightarrow> bool" where
  "below_stack b t r p n k q \<longleftrightarrow> (\<exists>i\<in>{1..k}. \<exists>j<n. q = slot_byte b t r (pointer_advance p (- of_nat (i * n))) j)"

text \<open>A pushed value is on top of the stack of every state that keeps the segment and the bytes of the slot.\<close>

definition push_at :: "'s builder \<Rightarrow> stack_pointer \<Rightarrow> 'a::len word \<Rightarrow> ('s, stack_frame) run" where
  "push_at b p v =
     and_then (pointer_push_frame b p (width_bytes_of TYPE('a)) (width_bytes_of TYPE('a))) (\<lambda>f.
     and_then (frame_field TYPE('a) b f 0) (\<lambda>field.
     and_then (memory_write (eb_memory b) field 0 v) (\<lambda>_. ret f)))"

lemma slot_tags:
  assumes "pointer_ok p" "k < n"
  shows "page_tag (slot_byte b t r (pointer_advance p (- of_nat n)) k) \<in> below b r p n"
proof -
  let ?l = "stack_base b r + pointer_offset (pointer_advance p (- of_nat n))"
  have neg: "(ucast (- of_nat n :: u32) :: 12 word) = - of_nat n"
    using ucast_add_narrow(1) [of "of_nat n" "- of_nat n"] by (simp add: ucast_of_nat12 add_eq_0_iff)
  have "(ucast (?l + of_nat k) :: 12 word) = ucast (stack_base b r) + ucast (sp_esp p) - of_nat (n - k)"
    using assms(2) by (simp add: ucast_add_narrow pointer_tag [OF assms(1)] ucast_of_nat12 neg of_nat_diff)
  moreover have "n - k \<in> {1..n}" using assms(2) by auto
  ultimately show ?thesis unfolding below_def slot_byte_def page_tag_translated by blast
qed

lemma push_at_slot:
  fixes v :: "'a::len word"
  assumes b: "eb_memory b = VirtualMemory t" and w: "stack_width TYPE('a)" and p: "pointer_ok p"
    and m: "push_at b p v c = Some (Inr f, c1)"
  shows "next_pointer f = pointer_advance p (- width_bytes_of TYPE('a))" "sf_pointer f = p" "sf_adjustment f = - width_bytes_of TYPE('a)"
    and "\<exists>g. c1 = c\<lparr>cpu_guest := (cpu_guest c)\<lparr>storage := g\<rparr>\<rparr> \<and>
      (\<forall>q. (\<forall>j<LENGTH('a) div 8. q \<noteq> slot_byte b t (stack_segment c) (pointer_advance p (- width_bytes_of TYPE('a))) j) \<longrightarrow>
        g q = storage (cpu_guest c) q)"
    and "stack_segment d = stack_segment c \<Longrightarrow> stack_readable b (stack_segment c) \<Longrightarrow>
      (\<And>j. j < LENGTH('a) div 8 \<Longrightarrow>
        storage (cpu_guest d) (slot_byte b t (stack_segment c) (pointer_advance p (- width_bytes_of TYPE('a))) j) =
        storage (cpu_guest c1) (slot_byte b t (stack_segment c) (pointer_advance p (- width_bytes_of TYPE('a))) j)) \<Longrightarrow>
      holds_at b (pointer_advance p (- width_bytes_of TYPE('a))) v d"
proof -
  let ?n = "width_bytes_of TYPE('a)"
  let ?o = "pointer_offset (pointer_advance p (- ?n))"
  note wd = stack_widthD [OF w]
  have n: "1 \<le> unat ?n" "unat ?n \<le> 4096" using wd by simp_all
  from m obtain l a c' where f: "f = \<lparr>sf_linear = l, sf_checked = ?n, sf_intent = Write, sf_pointer = p, sf_adjustment = - ?n\<rparr>"
    and l: "translate_segment (eb_profile b) Ss (stack_segment c) ?o ?n Write = Inr l"
    and ra: "resolve_access b l ?n Write c = Some (Inr a, c')"
    and wr': "memory_write (eb_memory b) a 0 v c' = Some (Inr (), c1)"
    by (auto simp: push_at_def and_then_Some pointer_push_frame_def Let_def exec_translate_def ret_def frame_field_def require_def
        split: if_splits sum.splits)
  show "next_pointer f = pointer_advance p (- ?n)" "sf_pointer f = p" "sf_adjustment f = - ?n" by (simp_all add: f next_pointer_def)
  have a: "proves t a" "ac_linear a = l" "ac_bytes a = Some ?n" "ac_intent a = Write"
    and wr: "memory_write (eb_memory b) a 0 v c = Some (Inr (), c1)" using resolve_virtual(1) [OF b n ra] wr' by auto
  let ?g = "write_linear t l (to_le_bytes v) (storage (cpu_guest c))"
  have c1: "c1 = c\<lparr>cpu_guest := (cpu_guest c)\<lparr>storage := ?g\<rparr>\<rparr>"
    using wr stack_transfer(2) [OF b w a(1,3,4), of v c] by (simp add: a(2))
  have byte: "translated t (l + of_nat k) = slot_byte b t (stack_segment c) (pointer_advance p (- ?n)) k" for k
    using translate_stack(1) [OF l] by (simp add: slot_byte_def)
  have "?g q = storage (cpu_guest c) q" if "\<forall>j<LENGTH('a) div 8. q \<noteq> slot_byte b t (stack_segment c) (pointer_advance p (- ?n)) j" for q
    by (rule write_linear_other) (use that in \<open>auto simp: byte\<close>)
  with c1 show "\<exists>g. c1 = c\<lparr>cpu_guest := (cpu_guest c)\<lparr>storage := g\<rparr>\<rparr> \<and>
      (\<forall>q. (\<forall>j<LENGTH('a) div 8. q \<noteq> slot_byte b t (stack_segment c) (pointer_advance p (- ?n)) j) \<longrightarrow> g q = storage (cpu_guest c) q)"
    by blast
  show "holds_at b (pointer_advance p (- ?n)) v d" if d: "stack_segment d = stack_segment c" "stack_readable b (stack_segment c)"
    "\<And>j. j < LENGTH('a) div 8 \<Longrightarrow> storage (cpu_guest d) (slot_byte b t (stack_segment c) (pointer_advance p (- ?n)) j) =
      storage (cpu_guest c1) (slot_byte b t (stack_segment c) (pointer_advance p (- ?n)) j)"
  proof -
    have "first_denied t (required_permissions intent.Read) l (unat ?n) = None" using write_then_read_permission [OF a(1,3,4)] a(2) by simp
    then obtain a' where rd: "resolve_access b l ?n intent.Read d = Some (Inr a', d)" using resolve_virtual(2) [OF b n] by blast
    have a': "proves t a'" "ac_linear a' = l" "ac_bytes a' = Some ?n" using resolve_virtual(1) [OF b n rd] by auto
    have "linear_bytes t (storage (cpu_guest d)) l (LENGTH('a) div 8) = linear_bytes t ?g l (LENGTH('a) div 8)"
      using d(3) by (simp add: linear_bytes_def c1 byte)
    also have "\<dots> = to_le_bytes v" using linear_bytes_written [of "to_le_bytes v" t l] wd(4) by simp
    finally have "memory_read (eb_memory b) a' 0 d = Some (Inr v, d)"
      using stack_transfer(1) [OF b w a'(1,3), of d] by (simp add: a'(2) from_le_bytes_to_le_bytes wd(5))
    moreover have "pointer_pop_frame b (pointer_advance p (- ?n)) ?n ?n d =
        Some (Inr \<lparr>sf_linear = l, sf_checked = ?n, sf_intent = intent.Read, sf_pointer = pointer_advance p (- ?n), sf_adjustment = ?n\<rparr>, d)"
      using translate_stack(2) [OF l d(2)] d(1) by (simp add: pointer_pop_frame_def exec_translate_def and_then_def ret_def)
    moreover have "frame_field TYPE('a) b \<lparr>sf_linear = l, sf_checked = ?n, sf_intent = intent.Read, sf_pointer = pointer_advance p (- ?n),
        sf_adjustment = ?n\<rparr> 0 d = Some (Inr a', d)" using rd by (simp add: frame_field_def)
    ultimately show ?thesis unfolding holds_at_def by fastforce
  qed
qed

subsection \<open>The stack pointer\<close>

lemma full_view [simp]: "(get_view (NamedView g 0) regs :: u32) = regs g" "set_view (NamedView g 0) (v :: u32) regs = regs(g := v)"
proof -
  have "(mask 32 :: u32) = - 1" by (simp add: mask_eq_exp_minus_1)
  then show "(get_view (NamedView g 0) regs :: u32) = regs g" "set_view (NamedView g 0) (v :: u32) regs = regs(g := v)"
    by (simp_all add: get_view_def set_view_def)
qed

lemma read_stack_pointer_run: "read_stack_pointer b c = Some (Inr (pointer_of b c), c)"
  by (simp add: read_stack_pointer_def look_def pointer_of_def)

lemma pointer_of_ok [simp]: "pointer_ok (pointer_of b c)"
  by (simp add: pointer_of_def pointer_ok_def)

lemma pointer_of_eq: "stack_segment d = stack_segment c \<Longrightarrow> gprs d Esp = sp_esp (pointer_advance (pointer_of b c) x) \<Longrightarrow>
    pointer_of b d = pointer_advance (pointer_of b c) x"
  by (simp add: pointer_of_def pointer_advance_def with_offset_def)

end
