(* ===== verification/X86_Instructions.thy ===== *)
theory X86_Instructions
  imports Stack_Slots
begin

unbundle bit_operations_syntax

text \<open>
  The integer instructions of \<^verbatim>\<open>instruction/definitions/*.rs\<close>, one definition per handler, over the runs of
  \<open>X86_Execution\<close>; a handler's width parameter is the type of its words. The property is that an instruction that
  faults can be restarted: it has changed nothing, or for PUSHA, ENTER and POPA only a stated part of the state.
  \<open>X86_Stack\<close> and \<open>X86_Operations\<close> state what else software relies on. The string and repeat, segment-load,
  far-transfer, port and interrupt instructions are not among the handlers modelled here.
\<close>

subsection \<open>alu.rs\<close>

datatype binary_operation = OpAdd | OpAddWithCarry | OpSubtract | OpSubtractWithBorrow | OpAnd | OpOr | OpXor

definition update_binary :: "'a::len itself \<Rightarrow> 's builder \<Rightarrow> location \<Rightarrow> operand \<Rightarrow> binary_operation \<Rightarrow> ('s, unit) run" where
  "update_binary T b destination source operation =
     and_then (prepare_write T b destination []) (\<lambda>target.
     and_then (exec_read b source) (\<lambda>right :: 'a word.
     and_then (if operation = OpAddWithCarry \<or> operation = OpSubtractWithBorrow then read_flag (Status CF) else ret False) (\<lambda>carry.
     target_modify b target
       (case operation of
          OpAdd \<Rightarrow> UpdateAdd right
        | OpSubtract \<Rightarrow> UpdateSubtract right
        | OpAddWithCarry \<Rightarrow> UpdateAddWithCarry right carry
        | OpSubtractWithBorrow \<Rightarrow> UpdateSubtractWithBorrow right carry
        | OpAnd \<Rightarrow> UpdateAnd right
        | OpOr \<Rightarrow> UpdateOr right
        | OpXor \<Rightarrow> UpdateXor right)
       (eb_locked b)
       (\<lambda>left. write_flags (ar_flags (case operation of
          OpAdd \<Rightarrow> arithmetic_apply Add left right
        | OpSubtract \<Rightarrow> arithmetic_apply Subtract left right
        | OpAddWithCarry \<Rightarrow> apply_with_carry Add left right carry
        | OpSubtractWithBorrow \<Rightarrow> apply_with_carry Subtract left right carry
        | OpAnd \<Rightarrow> logic_apply LogicAnd left right
        | OpOr \<Rightarrow> logic_apply LogicOr left right
        | OpXor \<Rightarrow> logic_apply LogicXor left right))))))"

definition exec_compare :: "'a::len itself \<Rightarrow> 's builder \<Rightarrow> location \<Rightarrow> operand \<Rightarrow> ('s, unit) run" where
  "exec_compare T b left right =
     and_then (exec_read b (At left)) (\<lambda>l :: 'a word.
     and_then (exec_read b right) (\<lambda>r.
     write_flags (ar_flags (arithmetic_apply Subtract l r))))"

definition exec_test :: "'a::len itself \<Rightarrow> 's builder \<Rightarrow> location \<Rightarrow> operand \<Rightarrow> ('s, unit) run" where
  "exec_test T b left right =
     and_then (exec_read b (At left)) (\<lambda>l :: 'a word.
     and_then (exec_read b right) (\<lambda>r.
     write_flags (ar_flags (logic_apply LogicAnd l r))))"

definition update_unary :: "'a::len itself \<Rightarrow> 's builder \<Rightarrow> location \<Rightarrow> alu_unary_op \<Rightarrow> ('s, unit) run" where
  "update_unary T b destination operation =
     (let modified = (\<lambda>update :: 'a word operand_update.
        and_then (prepare_write T b destination []) (\<lambda>target.
        target_modify b target update (eb_locked b) (\<lambda>input.
          and_then (require (unary_apply operation input)) (\<lambda>outcome. write_flags (ar_flags outcome)))))
      in case operation of
        Increment \<Rightarrow> modified (UpdateAdd 1)
      | Decrement \<Rightarrow> modified (UpdateSubtract 1)
      | Complement \<Rightarrow> modified (UpdateXor (- 1))
      | Negate \<Rightarrow> modified UpdateNegate
      | ByteSwap \<Rightarrow> exec_update b destination (\<lambda>input :: 'a word.
          and_then (require (unary_apply operation input)) (\<lambda>outcome.
          and_then (write_flags (ar_flags outcome)) (\<lambda>_. ret (ar_result outcome)))))"

subsection \<open>multiply.rs, divide.rs\<close>

definition implicit_multiply :: "'a::len itself \<Rightarrow> 'd::len itself \<Rightarrow> 's builder \<Rightarrow> operand \<Rightarrow> multiply_op \<Rightarrow> ('s, unit) run" where
  "implicit_multiply T D b source operation =
     and_then (exec_read b source) (\<lambda>source :: 'a word.
     and_then (read_parent Eax) (\<lambda>accumulator.
     let outcome = multiply_apply operation accumulator source :: 'd word alu_result in
     and_then (if LENGTH('a) div 8 = 1 then write_parent Eax (ucast (ar_result outcome) :: u16)
       else write_register_pair T Edx Eax (ar_result outcome)) (\<lambda>_.
     write_flags (ar_flags outcome))))"

definition multiply_destination :: "'a::len itself \<Rightarrow> 'd::len itself \<Rightarrow> 's builder \<Rightarrow> location \<Rightarrow> operand \<Rightarrow> ('s, unit) run" where
  "multiply_destination T D b destination source =
     and_then (exec_read b source) (\<lambda>source :: 'a word.
     exec_update b destination (\<lambda>previous.
       let outcome = multiply_apply MulSigned previous source :: 'd word alu_result in
       and_then (write_flags (ar_flags outcome)) (\<lambda>_. ret (ucast (ar_result outcome) :: 'a word))))"

definition multiply_sources :: "'a::len itself \<Rightarrow> 'd::len itself \<Rightarrow> 's builder \<Rightarrow> location \<Rightarrow> operand \<Rightarrow> operand \<Rightarrow> ('s, unit) run" where
  "multiply_sources T D b destination first_source second_source =
     and_then (exec_read b first_source) (\<lambda>left :: 'a word.
     and_then (exec_read b second_source) (\<lambda>right.
     let outcome = multiply_apply MulSigned left right :: 'd word alu_result in
     and_then (exec_write b destination (ucast (ar_result outcome) :: 'a word)) (\<lambda>_.
     write_flags (ar_flags outcome))))"

definition divide :: "'a::len itself \<Rightarrow> 'd::len itself \<Rightarrow> 's builder \<Rightarrow> operand \<Rightarrow> divide_op \<Rightarrow> ('s, unit) run" where
  "divide T D b source operation =
     and_then (exec_read b source) (\<lambda>divisor :: 'a word.
     and_then (if LENGTH('a) div 8 = 1 then and_then (read_parent Eax) (\<lambda>ax :: u16. ret (ucast ax))
       else read_register_pair T Edx Eax) (\<lambda>dividend :: 'd word.
     and_then (fault_if (input_fault operation dividend divisor) DivideError) (\<lambda>_.
     and_then (require (divide_apply operation dividend divisor)) (\<lambda>outcome.
     and_then (case dr_overflow outcome of Some overflow \<Rightarrow> fault_if overflow DivideError | None \<Rightarrow> ret ()) (\<lambda>_.
     if LENGTH('a) div 8 = 1
     then write_parent Eax (ucast (ucast (dr_quotient outcome) OR val_shl (ucast (dr_remainder outcome) :: 'd word) 8) :: u16)
     else and_then (write_parent Eax (dr_quotient outcome)) (\<lambda>_. write_parent Edx (dr_remainder outcome)))))))"

subsection \<open>shifts.rs\<close>

definition shift_operand :: "'s builder \<Rightarrow> operand \<Rightarrow> ('s, u32) run" where
  "shift_operand b amount = and_then (exec_read b amount) (\<lambda>n :: u8. ret (ucast (n AND 31)))"

definition finish_update :: "'a::len word alu_result \<Rightarrow> ('s, 'a word) run" where
  "finish_update outcome = and_then (write_flags (ar_flags outcome)) (\<lambda>_. ret (ar_result outcome))"

definition exec_rotate :: "'a::len itself \<Rightarrow> 's builder \<Rightarrow> location \<Rightarrow> operand \<Rightarrow> rotate_direction \<Rightarrow> ('s, unit) run" where
  "exec_rotate T b destination amount direction =
     exec_update b destination (\<lambda>input :: 'a word.
       and_then (shift_operand b amount) (\<lambda>n. finish_update (rotate_apply direction input n)))"

definition exec_rotate_through_carry :: "'a::len itself \<Rightarrow> 's builder \<Rightarrow> location \<Rightarrow> operand \<Rightarrow> rotate_direction \<Rightarrow> ('s, unit) run" where
  "exec_rotate_through_carry T b destination amount direction =
     exec_update b destination (\<lambda>input :: 'a word.
       and_then (shift_operand b amount) (\<lambda>n.
       and_then (read_flag (Status CF)) (\<lambda>carry. finish_update (rotate_through_carry direction input n carry))))"

definition exec_shift :: "'a::len itself \<Rightarrow> 's builder \<Rightarrow> location \<Rightarrow> operand \<Rightarrow> shift_kind \<Rightarrow> ('s, unit) run" where
  "exec_shift T b destination amount operation =
     exec_update b destination (\<lambda>input :: 'a word.
       and_then (shift_operand b amount) (\<lambda>n. finish_update (shift_apply operation input n)))"

definition exec_double_shift :: "'a::len itself \<Rightarrow> 's builder \<Rightarrow> location \<Rightarrow> operand \<Rightarrow> operand \<Rightarrow> double_shift \<Rightarrow> ('s, unit) run" where
  "exec_double_shift T b destination source amount operation =
     exec_update b destination (\<lambda>input :: 'a word.
       and_then (exec_read b source) (\<lambda>source.
       and_then (shift_operand b amount) (\<lambda>n. finish_update (double_shift_apply operation input source n))))"

subsection \<open>adjust.rs, bit_tests.rs, bit_scans.rs, bounds.rs\<close>

definition exec_adjust_unpacked :: "'s builder \<Rightarrow> location \<Rightarrow> arithmetic_op \<Rightarrow> ('s, unit) run" where
  "exec_adjust_unpacked b accumulator operation =
     exec_update b accumulator (\<lambda>v.
       and_then (read_flag (Status AF)) (\<lambda>auxiliary. finish_update (adjust_unpacked operation v auxiliary)))"

definition exec_adjust_packed :: "'s builder \<Rightarrow> location \<Rightarrow> arithmetic_op \<Rightarrow> ('s, unit) run" where
  "exec_adjust_packed b accumulator operation =
     exec_update b accumulator (\<lambda>v.
       and_then (exec_read_flags [Status AF, Status CF]) (\<lambda>vs. finish_update (adjust_packed operation v (vs ! 0) (vs ! 1))))"

definition exec_adjust_after_multiply :: "'s builder \<Rightarrow> location \<Rightarrow> operand \<Rightarrow> operand \<Rightarrow> ('s, unit) run" where
  "exec_adjust_after_multiply b destination source base =
     and_then (exec_read b base) (\<lambda>base.
     and_then (fault_if (base = 0) DivideError) (\<lambda>_.
     and_then (exec_read b source) (\<lambda>source.
     and_then (require (adjust_after_multiply source base)) (\<lambda>outcome.
     and_then (write_flags (ar_flags outcome)) (\<lambda>_.
     exec_write b destination (ar_result outcome))))))"

definition exec_adjust_before_division :: "'s builder \<Rightarrow> location \<Rightarrow> operand \<Rightarrow> ('s, unit) run" where
  "exec_adjust_before_division b accumulator base =
     exec_update b accumulator (\<lambda>v.
       and_then (exec_read b base) (\<lambda>base. finish_update (adjust_before_division v base)))"

definition exec_bit_test :: "'a::len itself \<Rightarrow> 'o::len itself \<Rightarrow> 's builder \<Rightarrow> location \<Rightarrow> operand \<Rightarrow> bit_test_op \<Rightarrow> ('s, unit) run" where
  "exec_bit_test T U b destination offset operation =
     and_then (exec_read b offset) (\<lambda>n :: 'o word.
     let (destination, n) =
       (case offset of
          Immediate _ \<Rightarrow> (destination, ucast n)
        | _ \<Rightarrow>
            let n = scast n :: u32;
                unit = val_shr_signed n (of_nat (trailing_zeros (of_nat LENGTH('a) :: u32)));
                byte_offset = val_shl unit (of_nat (trailing_zeros (width_bytes_of T)))
            in (offset_memory destination byte_offset, n)) in
     if operation = BitTest
     then and_then (exec_read b (At destination)) (\<lambda>input :: 'a word. write_flags (ar_flags (bit_test_apply operation input n)))
     else
       and_then (prepare_write T b destination []) (\<lambda>target.
       and_then (require (case operation of
           BitSet \<Rightarrow> Some (UpdateOr (bit_test_mask n))
         | BitReset \<Rightarrow> Some (UpdateAnd (bit_test_mask n XOR - 1))
         | BitComplement \<Rightarrow> Some (UpdateXor (bit_test_mask n))
         | BitTest \<Rightarrow> None)) (\<lambda>update :: 'a word operand_update.
       target_modify b target update (eb_locked b) (\<lambda>input. write_flags (ar_flags (bit_test_apply operation input n))))))"

definition exec_bit_scan :: "'a::len itself \<Rightarrow> 's builder \<Rightarrow> location \<Rightarrow> operand \<Rightarrow> bit_scan_op \<Rightarrow> ('s, unit) run" where
  "exec_bit_scan T b destination source operation =
     and_then (exec_read b source) (\<lambda>source :: 'a word.
     exec_update b destination (\<lambda>previous. finish_update (bit_scan_apply operation source previous)))"

definition check_bounds :: "'a::len itself \<Rightarrow> 's builder \<Rightarrow> operand \<Rightarrow> memory_address \<Rightarrow> ('s, unit) run" where
  "check_bounds T b index source =
     and_then (exec_read b index) (\<lambda>index :: 'a word.
     and_then (exec_read b (At (MemoryAt source))) (\<lambda>lower.
     and_then (fault_if (index <s lower) BoundRangeExceeded) (\<lambda>_.
     and_then (exec_read b (At (offset_memory (MemoryAt source) (width_bytes_of T)))) (\<lambda>upper.
     fault_if (upper <s index) BoundRangeExceeded))))"

subsection \<open>moves.rs, extensions.rs, conditions.rs, memory_control.rs\<close>

definition translate_byte :: "'s builder \<Rightarrow> ('s, unit) run" where
  "translate_byte b =
     and_then (read_parent Eax) (\<lambda>index :: u8.
     and_then (exec_read b (At (offset_memory (memory_at_register b Ebx (data_segment b)) (ucast index)))) (\<lambda>v :: u8.
     write_parent Eax v))"

definition mov :: "'a::len itself \<Rightarrow> 's builder \<Rightarrow> location \<Rightarrow> operand \<Rightarrow> ('s, unit) run" where
  "mov T b destination source = and_then (exec_read b source) (\<lambda>v :: 'a word. exec_write b destination v)"

definition store_non_temporal :: "'s builder \<Rightarrow> memory_address \<Rightarrow> location \<Rightarrow> ('s, unit) run" where
  "store_non_temporal b destination source =
     and_then (exec_read b (At source)) (\<lambda>v :: u32.
     and_then (memory_operand_at b destination (span_of 4) Write []) (\<lambda>mo. operand_write b mo 0 v))"

definition movzx :: "'d::len itself \<Rightarrow> 'a::len itself \<Rightarrow> 's builder \<Rightarrow> location \<Rightarrow> operand \<Rightarrow> ('s, unit) run" where
  "movzx D T b destination source = and_then (exec_read b source) (\<lambda>v :: 'a word. exec_write b destination (ucast v :: 'd word))"

definition movsx :: "'d::len itself \<Rightarrow> 'a::len itself \<Rightarrow> 's builder \<Rightarrow> location \<Rightarrow> operand \<Rightarrow> ('s, unit) run" where
  "movsx D T b destination source = and_then (exec_read b source) (\<lambda>v :: 'a word. exec_write b destination (scast v :: 'd word))"

definition sign_fill :: "'a::len itself \<Rightarrow> 's builder \<Rightarrow> location \<Rightarrow> operand \<Rightarrow> ('s, unit) run" where
  "sign_fill T b destination source =
     and_then (exec_read b source) (\<lambda>v :: 'a word. exec_write b destination (val_shr_signed v (width_bytes_of T * 8 - 1)))"

definition setcc :: "'s builder \<Rightarrow> location \<Rightarrow> condition \<Rightarrow> ('s, unit) run" where
  "setcc b destination cc = and_then (exec_condition cc) (\<lambda>v. exec_write b destination (of_bool v :: u8))"

definition cmov :: "'a::len itself \<Rightarrow> 's builder \<Rightarrow> location \<Rightarrow> operand \<Rightarrow> condition \<Rightarrow> ('s, unit) run" where
  "cmov T b destination source cc =
     and_then (exec_read b source) (\<lambda>v :: 'a word.
     and_then (exec_condition cc) (\<lambda>predicate.
     exec_update b destination (\<lambda>previous. ret (if predicate then v else previous))))"

subsection \<open>exchanges.rs\<close>

definition xchg :: "'a::len itself \<Rightarrow> 's builder \<Rightarrow> location \<Rightarrow> location \<Rightarrow> ('s, unit) run" where
  "xchg T b left right =
     and_then (prepare_write T b left []) (\<lambda>left.
     and_then (prepare_write T b right []) (\<lambda>right.
     and_then (target_read b right) (\<lambda>replacement :: 'a word.
     target_modify b left (UpdateExchange replacement) True (\<lambda>previous. target_write b right previous))))"

definition xadd :: "'a::len itself \<Rightarrow> 's builder \<Rightarrow> location \<Rightarrow> location \<Rightarrow> ('s, unit) run" where
  "xadd T b destination source =
     and_then (prepare_write T b destination []) (\<lambda>destination.
     and_then (prepare_write T b source []) (\<lambda>source.
     and_then (target_read b source) (\<lambda>addend :: 'a word.
     target_modify b destination (UpdateAdd addend) (eb_locked b) (\<lambda>previous.
       and_then (write_flags (ar_flags (arithmetic_apply Add previous addend))) (\<lambda>_. target_write b source previous)))))"

definition cmpxchg :: "'a::len itself \<Rightarrow> 's builder \<Rightarrow> location \<Rightarrow> operand \<Rightarrow> ('s, unit) run" where
  "cmpxchg T b destination source =
     and_then (prepare_write T b destination []) (\<lambda>destination.
     and_then (prepare_write T b (parent_location Eax) []) (\<lambda>accumulator.
     and_then (target_read b accumulator) (\<lambda>expected :: 'a word.
     and_then (exec_read b source) (\<lambda>replacement.
     target_modify b destination (UpdateCompareExchange expected replacement) (eb_locked b) (\<lambda>previous.
       and_then (write_flags (ar_flags (arithmetic_apply Subtract expected previous))) (\<lambda>_.
       target_write b accumulator previous))))))"

definition cmpxchg8b :: "'s builder \<Rightarrow> memory_address \<Rightarrow> ('s, unit) run" where
  "cmpxchg8b b destination =
     and_then (read_register_pair TYPE(32) Edx Eax) (\<lambda>accumulator :: u64.
     and_then (read_register_pair TYPE(32) Ecx Ebx) (\<lambda>replacement.
     and_then (modify_memory b destination (UpdateCompareExchange accumulator replacement)) (\<lambda>previous.
     and_then (write_flags (change_partial [(Status ZF, accumulator = previous)])) (\<lambda>_.
     write_register_pair TYPE(32) Edx Eax previous))))"

subsection \<open>flag_transfer.rs, flag_control.rs\<close>

definition load_flags :: "'s builder \<Rightarrow> location \<Rightarrow> ('s, unit) run" where
  "load_flags b destination =
     and_then (exec_read_flags (fi_flags AH_IMAGE)) (\<lambda>vs. exec_write b destination (ucast (image_pack AH_IMAGE vs) :: u8))"

definition store_flags :: "'s builder \<Rightarrow> operand \<Rightarrow> ('s, unit) run" where
  "store_flags b source = and_then (exec_read b source) (\<lambda>byte :: u8. write_flags (image_change AH_IMAGE (ucast byte)))"

definition complement_carry :: "('s, unit) run" where
  "complement_carry = and_then (read_flag (Status CF)) (\<lambda>carry. write_flag (Status CF) (carry \<noteq> True))"

text \<open>How an instruction ends: the next address, and whether execution stops there for interrupts.\<close>

datatype completion = Continue u32 | InterruptInhibited u32 | InterruptsEnabled u32

definition interrupt_inhibited_if :: "'s builder \<Rightarrow> bool \<Rightarrow> u32 \<Rightarrow> completion" where
  "interrupt_inhibited_if b condition next_ip =
     (if eb_profile b = Real16 \<and> condition then InterruptInhibited next_ip else Continue next_ip)"

definition interrupts_enabled_if :: "'s builder \<Rightarrow> bool \<Rightarrow> u32 \<Rightarrow> completion" where
  "interrupts_enabled_if b condition next_ip =
     (if eb_profile b = Real16 \<and> condition then InterruptsEnabled next_ip else Continue next_ip)"

definition enable_interrupts :: "'s builder \<Rightarrow> u32 \<Rightarrow> ('s, completion) run" where
  "enable_interrupts b fallthrough =
     and_then (read_flag IF) (\<lambda>enabled.
     and_then (write_flag IF True) (\<lambda>_.
     ret (interrupt_inhibited_if b (\<not> enabled) fallthrough)))"

subsection \<open>stack.rs\<close>

definition exec_push :: "'a::len itself \<Rightarrow> 's builder \<Rightarrow> operand \<Rightarrow> ('s, unit) run" where
  "exec_push T b source = and_then (exec_read b source) (\<lambda>v :: 'a word. push_value b v (width_bytes_of T))"

definition exec_pop :: "'a::len itself \<Rightarrow> 's builder \<Rightarrow> location \<Rightarrow> ('s, unit) run" where
  "exec_pop T b destination =
     and_then (pop_frame b (width_bytes_of T) (width_bytes_of T)) (\<lambda>frame.
     and_then (frame_field T b frame 0) (\<lambda>field.
     and_then (memory_read (eb_memory b) field 0) (\<lambda>v :: 'a word.
     and_then (prepare_write T b destination [(Esp, sp_esp (next_pointer frame))]) (\<lambda>target.
     and_then (frame_commit frame 0) (\<lambda>_.
     target_write b target v)))))"

fun push_registers :: "'a::len itself \<Rightarrow> 's builder \<Rightarrow> gpr32 list \<Rightarrow> stack_pointer \<Rightarrow> ('s, stack_pointer) run" where
  "push_registers T b [] p = ret p"
| "push_registers T b (r # rs) p =
     and_then (read_parent r) (\<lambda>v :: 'a word.
     and_then (pointer_push_frame b p (width_bytes_of T) (width_bytes_of T)) (\<lambda>frame.
     and_then (frame_field T b frame 0) (\<lambda>field.
     and_then (memory_write (eb_memory b) field 0 v) (\<lambda>_.
     push_registers T b rs (next_pointer frame)))))"

definition push_all_registers :: "'a::len itself \<Rightarrow> 's builder \<Rightarrow> ('s, unit) run" where
  "push_all_registers T b =
     and_then (read_stack_pointer b) (\<lambda>p.
     and_then (case eb_profile b of
         Real16 \<Rightarrow> let sp = pointer_offset p in fault_if (sp AND 1 \<noteq> 0 \<and> sp \<ge> 7 \<and> sp < 16) (GeneralProtection 0)
       | Protected _ \<Rightarrow> ret ()) (\<lambda>_.
     and_then (push_registers T b ALL_GPRS p) pointer_commit))"

fun pop_registers :: "'a::len itself \<Rightarrow> 's builder \<Rightarrow> gpr32 list \<Rightarrow> stack_pointer \<Rightarrow> ('s, stack_pointer) run" where
  "pop_registers T b [] p = ret p"
| "pop_registers T b (r # rs) p =
     and_then (pointer_pop_frame b p (width_bytes_of T) (width_bytes_of T)) (\<lambda>frame.
     and_then (frame_field T b frame 0) (\<lambda>field.
     and_then (if r \<noteq> Esp then and_then (memory_read (eb_memory b) field 0) (\<lambda>v :: 'a word. write_parent r v) else ret ()) (\<lambda>_.
     pop_registers T b rs (next_pointer frame))))"

definition pop_all_registers :: "'a::len itself \<Rightarrow> 's builder \<Rightarrow> ('s, unit) run" where
  "pop_all_registers T b =
     and_then (read_stack_pointer b) (\<lambda>p.
     and_then (pop_registers T b (rev ALL_GPRS) p) pointer_commit)"

definition push_flags :: "'a::len itself \<Rightarrow> 's builder \<Rightarrow> ('s, unit) run" where
  "push_flags T b = and_then (read_stack_image b) (\<lambda>w :: 'a word. push_value b w (width_bytes_of T))"

definition pop_flags :: "'a::len itself \<Rightarrow> 's builder \<Rightarrow> u32 \<Rightarrow> ('s, completion) run" where
  "pop_flags T b fallthrough =
     and_then (pop_frame b (width_bytes_of T) (width_bytes_of T)) (\<lambda>frame.
     and_then (frame_field T b frame 0) (\<lambda>field.
     and_then (memory_read (eb_memory b) field 0) (\<lambda>flags :: 'a word.
     and_then (frame_commit frame 0) (\<lambda>_.
     and_then (write_stack_image b flags) (\<lambda>enabled.
     ret (interrupts_enabled_if b enabled fallthrough))))))"

subsection \<open>stack/frame.rs\<close>

text \<open>Register definitions of a nested region do not reach its parent; guest stores do.\<close>

definition nested :: "('s, 'v) run \<Rightarrow> ('s, 'v) run" where
  "nested m = (\<lambda>c. case m c of
       Some (Inr v, c') \<Rightarrow> Some (Inr v, c\<lparr>cpu_guest := cpu_guest c'\<rparr>)
     | r \<Rightarrow> r)"

text \<open>One copied display entry: the next source offset and stack pointer.\<close>

definition enter_copy :: "'a::len itself \<Rightarrow> 's builder \<Rightarrow> stack_pointer \<Rightarrow> u32 \<Rightarrow> u32 \<Rightarrow> ('s, u32 \<times> u32) run" where
  "enter_copy T b pointer source esp =
     (let source = pointer_advance (with_offset pointer source) (- width_bytes_of T) in
      and_then (pointer_pop_frame b source (width_bytes_of T) (width_bytes_of T)) (\<lambda>rd.
      and_then (frame_field T b rd 0) (\<lambda>field.
      and_then (memory_read (eb_memory b) field 0) (\<lambda>v :: 'a word.
      and_then (pointer_push_frame b (with_offset pointer esp) (width_bytes_of T) (width_bytes_of T)) (\<lambda>wr.
      and_then (frame_field T b wr 0) (\<lambda>field.
      and_then (memory_write (eb_memory b) field 0 v) (\<lambda>_.
      ret (pointer_offset source, sp_esp (next_pointer wr)))))))))"

fun enter_display :: "'a::len itself \<Rightarrow> 's builder \<Rightarrow> stack_pointer \<Rightarrow> nat \<Rightarrow> u32 \<Rightarrow> u32 \<Rightarrow> ('s, u32) run" where
  "enter_display T b pointer 0 source esp = ret esp"
| "enter_display T b pointer (Suc remaining) source esp =
     and_then (nested (enter_copy T b pointer source esp)) (\<lambda>(source, esp). enter_display T b pointer remaining source esp)"

definition enter_frame :: "'a::len itself \<Rightarrow> 's builder \<Rightarrow> operand \<Rightarrow> operand \<Rightarrow> ('s, unit) run" where
  "enter_frame T b allocation nesting =
     and_then (exec_read b allocation) (\<lambda>allocation :: u16.
     and_then (exec_read b nesting) (\<lambda>nesting :: u8.
     let level = (ucast nesting :: u32) AND 31 in
     and_then (read_parent Ebp) (\<lambda>old_frame :: u32.
     and_then (read_stack_pointer b) (\<lambda>pointer.
     and_then (pointer_push_frame b pointer (width_bytes_of T) (width_bytes_of T)) (\<lambda>saved.
     let frame_pointer = sp_esp (next_pointer saved) in
     and_then (frame_field T b saved 0) (\<lambda>field.
     and_then (memory_write (eb_memory b) field 0 (ucast old_frame :: 'a word)) (\<lambda>_.
     and_then (if level \<noteq> 0 then nested (
         and_then (enter_display T b pointer (unat (level - 1)) old_frame frame_pointer) (\<lambda>esp.
         and_then (pointer_push_frame b (with_offset pointer esp) (width_bytes_of T) (width_bytes_of T)) (\<lambda>link.
         and_then (frame_field T b link 0) (\<lambda>field.
         and_then (memory_write (eb_memory b) field 0 (ucast frame_pointer :: 'a word)) (\<lambda>_.
         ret (sp_esp (next_pointer link)))))))
       else ret frame_pointer) (\<lambda>display_end.
     let allocated = with_offset pointer (display_end - ucast allocation) in
     and_then (case eb_profile b of Protected _ \<Rightarrow> pointer_check_write b allocated (width_bytes_of T) | Real16 \<Rightarrow> ret ()) (\<lambda>_.
     and_then (write_parent Ebp (ucast frame_pointer :: 'a word)) (\<lambda>_.
     pointer_commit allocated))))))))))"

definition leave_frame :: "'a::len itself \<Rightarrow> 's builder \<Rightarrow> ('s, unit) run" where
  "leave_frame T b =
     and_then (read_parent Ebp) (\<lambda>frame_pointer :: u32.
     and_then (read_stack_pointer b) (\<lambda>p.
     and_then (pointer_pop_frame b (with_offset p frame_pointer) (width_bytes_of T) (width_bytes_of T)) (\<lambda>frame.
     and_then (frame_field T b frame 0) (\<lambda>field.
     and_then (memory_read (eb_memory b) field 0) (\<lambda>saved :: 'a word.
     and_then (frame_commit frame 0) (\<lambda>_.
     write_parent Ebp saved))))))"

subsection \<open>branches.rs\<close>

definition relative_target :: "'a::len itself \<Rightarrow> u32 \<Rightarrow> u32 \<Rightarrow> u32" where
  "relative_target T fallthrough displacement = ucast (ucast (fallthrough + displacement) :: 'a word)"

definition jump_relative :: "'a::len itself \<Rightarrow> 's builder \<Rightarrow> operand \<Rightarrow> condition option \<Rightarrow> u32 \<Rightarrow> ('s, u32) run" where
  "jump_relative T b displacement cc fallthrough =
     and_then (exec_read b displacement) (\<lambda>d.
     let target = relative_target T fallthrough d in
     case cc of
       Some cc \<Rightarrow> and_then (exec_condition cc) (\<lambda>taken. branch b taken target fallthrough)
     | None \<Rightarrow> jump b target)"

definition jump_if_count_zero :: "'a::len itself \<Rightarrow> 's builder \<Rightarrow> operand \<Rightarrow> u32 \<Rightarrow> ('s, u32) run" where
  "jump_if_count_zero T b displacement fallthrough =
     and_then (exec_read b displacement) (\<lambda>d.
     and_then (read_address_register b Ecx) (\<lambda>n.
     branch b (n = 0) (relative_target T fallthrough d) fallthrough))"

definition loop_relative :: "'a::len itself \<Rightarrow> 's builder \<Rightarrow> operand \<Rightarrow> u32 \<Rightarrow> condition option \<Rightarrow> ('s, u32) run" where
  "loop_relative T b displacement fallthrough loop_condition =
     and_then (exec_read b displacement) (\<lambda>d.
     and_then (read_address_register b Ecx) (\<lambda>n.
     let n = wrap_address (eb_address_size b) (n - 1) in
     and_then (case loop_condition of
         Some cc \<Rightarrow> and_then (exec_condition cc) (\<lambda>holds. ret (n \<noteq> 0 \<and> holds))
       | None \<Rightarrow> ret (n \<noteq> 0)) (\<lambda>taken.
     and_then (branch b taken (relative_target T fallthrough d) fallthrough) (\<lambda>next_eip.
     and_then (write_address_register b Ecx n) (\<lambda>_.
     ret next_eip)))))"

definition call_relative :: "'a::len itself \<Rightarrow> 's builder \<Rightarrow> operand \<Rightarrow> u32 \<Rightarrow> ('s, u32) run" where
  "call_relative T b displacement fallthrough =
     and_then (exec_read b displacement) (\<lambda>d.
     and_then (jump b (relative_target T fallthrough d)) (\<lambda>target.
     and_then (push_value b (ucast fallthrough :: 'a word) (width_bytes_of T)) (\<lambda>_.
     ret target)))"

definition call_indirect :: "'a::len itself \<Rightarrow> 's builder \<Rightarrow> operand \<Rightarrow> u32 \<Rightarrow> ('s, u32) run" where
  "call_indirect T b source fallthrough =
     and_then (exec_read b source) (\<lambda>target :: 'a word.
     and_then (jump b (ucast target)) (\<lambda>target.
     and_then (push_value b (ucast fallthrough :: 'a word) (width_bytes_of T)) (\<lambda>_.
     ret target)))"

definition jump_indirect :: "'a::len itself \<Rightarrow> 's builder \<Rightarrow> operand \<Rightarrow> ('s, u32) run" where
  "jump_indirect T b source = and_then (exec_read b source) (\<lambda>target :: 'a word. jump b (ucast target))"

definition return_near :: "'a::len itself \<Rightarrow> 's builder \<Rightarrow> operand \<Rightarrow> ('s, u32) run" where
  "return_near T b discard_bytes =
     and_then (exec_read b discard_bytes) (\<lambda>discard :: u16.
     and_then (pop_frame b (width_bytes_of T) (width_bytes_of T)) (\<lambda>frame.
     and_then (frame_field T b frame 0) (\<lambda>field.
     and_then (memory_read (eb_memory b) field 0) (\<lambda>v :: 'a word.
     and_then (jump b (ucast v)) (\<lambda>target.
     and_then (frame_commit frame (ucast discard)) (\<lambda>_.
     ret target))))))"

subsection \<open>Instructions\<close>

text \<open>The families of \<^verbatim>\<open>instruction_families!\<close> with their operands, and the handler each executes at its
  operand size. The decimal adjustments have fixed operands.\<close>

datatype alu_instruction =
  Binary binary_operation location operand
| Cmp location operand
| TestBits location operand
| Unary alu_unary_op location
| ImplicitMultiply multiply_op operand
| MultiplyDestination location operand
| MultiplySources location operand operand
| DivideBy divide_op operand
| Rotate rotate_direction location operand
| RotateThroughCarry rotate_direction location operand
| Shift shift_kind location operand
| DoubleShift double_shift location operand operand
| AdjustUnpacked arithmetic_op
| AdjustPacked arithmetic_op
| AdjustAfterMultiply u32
| AdjustBeforeDivision u32
| BitTestAt bit_test_op location operand
| BitScan bit_scan_op location operand
| Bound operand memory_address

datatype move_instruction =
  Xlat
| Mov location operand
| MovNonTemporal memory_address location
| MovZeroExtend bool location operand
| MovSignExtend bool location operand
| SignFill location operand
| SetCondition condition location
| MovCondition condition location operand
| Exchange location location
| ExchangeAdd location location
| CompareExchange location operand
| CompareExchange8 memory_address
| LoadFlags
| StoreFlags
| SetFlag flag bool
| ComplementCarry
| Nop
| FlushLine memory_address

datatype stack_instruction =
  Push operand
| Pop location
| PushAll
| PopAll
| PushFlags
| Enter operand operand
| Leave

datatype transfer_instruction =
  EnableInterrupts
| PopFlags
| JumpRelative "condition option" operand
| JumpCountZero operand
| LoopRelative "condition option" operand
| CallRelative operand
| CallIndirect operand
| JumpIndirect operand
| ReturnNear operand

datatype instruction = Alu alu_instruction | Move move_instruction | Stack stack_instruction | Transfer transfer_instruction

datatype operand_size = SizeByte | SizeWord | SizeDword

primrec at_size :: "operand_size \<Rightarrow> 'r \<Rightarrow> 'r \<Rightarrow> 'r \<Rightarrow> 'r" where
  "at_size SizeByte b w d = b"
| "at_size SizeWord b w d = w"
| "at_size SizeDword b w d = d"

abbreviation al_location :: location where
  "al_location \<equiv> RegisterAt (NamedOperand (low_register Eax))"

abbreviation ah_location :: location where
  "ah_location \<equiv> RegisterAt (NamedOperand AH)"

text \<open>The handlers that fall through, file by file.\<close>

primrec run_alu :: "'s builder \<Rightarrow> operand_size \<Rightarrow> alu_instruction \<Rightarrow> ('s, unit) run" where
  "run_alu b w (Binary operation d s) =
     at_size w (update_binary TYPE(8) b d s operation) (update_binary TYPE(16) b d s operation) (update_binary TYPE(32) b d s operation)"
| "run_alu b w (Cmp l r) =
     at_size w (exec_compare TYPE(8) b l r) (exec_compare TYPE(16) b l r) (exec_compare TYPE(32) b l r)"
| "run_alu b w (TestBits l r) =
     at_size w (exec_test TYPE(8) b l r) (exec_test TYPE(16) b l r) (exec_test TYPE(32) b l r)"
| "run_alu b w (Unary operation d) =
     at_size w (update_unary TYPE(8) b d operation) (update_unary TYPE(16) b d operation) (update_unary TYPE(32) b d operation)"
| "run_alu b w (ImplicitMultiply operation s) =
     at_size w (implicit_multiply TYPE(8) TYPE(16) b s operation) (implicit_multiply TYPE(16) TYPE(32) b s operation)
       (implicit_multiply TYPE(32) TYPE(64) b s operation)"
| "run_alu b w (MultiplyDestination d s) =
     at_size w (require None) (multiply_destination TYPE(16) TYPE(32) b d s) (multiply_destination TYPE(32) TYPE(64) b d s)"
| "run_alu b w (MultiplySources d s t) =
     at_size w (require None) (multiply_sources TYPE(16) TYPE(32) b d s t) (multiply_sources TYPE(32) TYPE(64) b d s t)"
| "run_alu b w (DivideBy operation s) =
     at_size w (divide TYPE(8) TYPE(16) b s operation) (divide TYPE(16) TYPE(32) b s operation) (divide TYPE(32) TYPE(64) b s operation)"
| "run_alu b w (Rotate direction d n) =
     at_size w (exec_rotate TYPE(8) b d n direction) (exec_rotate TYPE(16) b d n direction) (exec_rotate TYPE(32) b d n direction)"
| "run_alu b w (RotateThroughCarry direction d n) =
     at_size w (exec_rotate_through_carry TYPE(8) b d n direction) (exec_rotate_through_carry TYPE(16) b d n direction)
       (exec_rotate_through_carry TYPE(32) b d n direction)"
| "run_alu b w (Shift operation d n) =
     at_size w (exec_shift TYPE(8) b d n operation) (exec_shift TYPE(16) b d n operation) (exec_shift TYPE(32) b d n operation)"
| "run_alu b w (DoubleShift operation d s n) =
     at_size w (require None) (exec_double_shift TYPE(16) b d s n operation) (exec_double_shift TYPE(32) b d s n operation)"
| "run_alu b w (AdjustUnpacked operation) =
     exec_adjust_unpacked b al_location operation"
| "run_alu b w (AdjustPacked operation) =
     exec_adjust_packed b al_location operation"
| "run_alu b w (AdjustAfterMultiply base) =
     exec_adjust_after_multiply b al_location (At al_location) (Immediate base)"
| "run_alu b w (AdjustBeforeDivision base) =
     exec_adjust_before_division b al_location (Immediate base)"
| "run_alu b w (BitTestAt operation d n) =
     (let immediate = (case n of Immediate _ \<Rightarrow> True | _ \<Rightarrow> False) in
      at_size w (require None)
        (if immediate then exec_bit_test TYPE(16) TYPE(8) b d n operation else exec_bit_test TYPE(16) TYPE(16) b d n operation)
        (if immediate then exec_bit_test TYPE(32) TYPE(8) b d n operation else exec_bit_test TYPE(32) TYPE(32) b d n operation))"
| "run_alu b w (BitScan operation d s) =
     at_size w (require None) (exec_bit_scan TYPE(16) b d s operation) (exec_bit_scan TYPE(32) b d s operation)"
| "run_alu b w (Bound index s) =
     at_size w (require None) (check_bounds TYPE(16) b index s) (check_bounds TYPE(32) b index s)"

primrec run_move :: "'s builder \<Rightarrow> operand_size \<Rightarrow> move_instruction \<Rightarrow> ('s, unit) run" where
  "run_move b w Xlat =
     translate_byte b"
| "run_move b w (Mov d s) =
     at_size w (mov TYPE(8) b d s) (mov TYPE(16) b d s) (mov TYPE(32) b d s)"
| "run_move b w (MovNonTemporal d s) =
     store_non_temporal b d s"
| "run_move b w (MovZeroExtend from_byte d s) =
     at_size w (require None)
       (if from_byte then movzx TYPE(16) TYPE(8) b d s else movzx TYPE(16) TYPE(16) b d s)
       (if from_byte then movzx TYPE(32) TYPE(8) b d s else movzx TYPE(32) TYPE(16) b d s)"
| "run_move b w (MovSignExtend from_byte d s) =
     at_size w (require None)
       (if from_byte then movsx TYPE(16) TYPE(8) b d s else movsx TYPE(16) TYPE(16) b d s)
       (if from_byte then movsx TYPE(32) TYPE(8) b d s else movsx TYPE(32) TYPE(16) b d s)"
| "run_move b w (SignFill d s) =
     at_size w (require None) (sign_fill TYPE(16) b d s) (sign_fill TYPE(32) b d s)"
| "run_move b w (SetCondition cc d) =
     setcc b d cc"
| "run_move b w (MovCondition cc d s) =
     at_size w (require None) (cmov TYPE(16) b d s cc) (cmov TYPE(32) b d s cc)"
| "run_move b w (Exchange l r) =
     at_size w (xchg TYPE(8) b l r) (xchg TYPE(16) b l r) (xchg TYPE(32) b l r)"
| "run_move b w (ExchangeAdd d s) =
     at_size w (xadd TYPE(8) b d s) (xadd TYPE(16) b d s) (xadd TYPE(32) b d s)"
| "run_move b w (CompareExchange d s) =
     at_size w (cmpxchg TYPE(8) b d s) (cmpxchg TYPE(16) b d s) (cmpxchg TYPE(32) b d s)"
| "run_move b w (CompareExchange8 d) =
     cmpxchg8b b d"
| "run_move b w LoadFlags =
     load_flags b ah_location"
| "run_move b w StoreFlags =
     store_flags b (At ah_location)"
| "run_move b w (SetFlag f v) =
     write_flag f v"
| "run_move b w ComplementCarry =
     complement_carry"
| "run_move b w Nop =
     ret ()"
| "run_move b w (FlushLine a) =
     flush_cache_line b a"

primrec run_stack :: "'s builder \<Rightarrow> operand_size \<Rightarrow> stack_instruction \<Rightarrow> ('s, unit) run" where
  "run_stack b w (Push s) =
     at_size w (require None) (exec_push TYPE(16) b s) (exec_push TYPE(32) b s)"
| "run_stack b w (Pop d) =
     at_size w (require None) (exec_pop TYPE(16) b d) (exec_pop TYPE(32) b d)"
| "run_stack b w PushAll =
     at_size w (require None) (push_all_registers TYPE(16) b) (push_all_registers TYPE(32) b)"
| "run_stack b w PopAll =
     at_size w (require None) (pop_all_registers TYPE(16) b) (pop_all_registers TYPE(32) b)"
| "run_stack b w PushFlags =
     at_size w (require None) (push_flags TYPE(16) b) (push_flags TYPE(32) b)"
| "run_stack b w (Enter allocation nesting) =
     at_size w (require None) (enter_frame TYPE(16) b allocation nesting) (enter_frame TYPE(32) b allocation nesting)"
| "run_stack b w Leave =
     at_size w (require None) (leave_frame TYPE(16) b) (leave_frame TYPE(32) b)"

text \<open>The handlers that select the next address.\<close>

primrec run_transfer :: "'s builder \<Rightarrow> operand_size \<Rightarrow> u32 \<Rightarrow> transfer_instruction \<Rightarrow> ('s, completion) run" where
  "run_transfer b w fallthrough EnableInterrupts =
     enable_interrupts b fallthrough"
| "run_transfer b w fallthrough PopFlags =
     at_size w (require None) (pop_flags TYPE(16) b fallthrough) (pop_flags TYPE(32) b fallthrough)"
| "run_transfer b w fallthrough (JumpRelative cc d) =
     and_then (at_size w (require None) (jump_relative TYPE(16) b d cc fallthrough) (jump_relative TYPE(32) b d cc fallthrough))
       (\<lambda>ip. ret (Continue ip))"
| "run_transfer b w fallthrough (JumpCountZero d) =
     and_then (at_size w (require None) (jump_if_count_zero TYPE(16) b d fallthrough) (jump_if_count_zero TYPE(32) b d fallthrough))
       (\<lambda>ip. ret (Continue ip))"
| "run_transfer b w fallthrough (LoopRelative cc d) =
     and_then (at_size w (require None) (loop_relative TYPE(16) b d fallthrough cc) (loop_relative TYPE(32) b d fallthrough cc))
       (\<lambda>ip. ret (Continue ip))"
| "run_transfer b w fallthrough (CallRelative d) =
     and_then (at_size w (require None) (call_relative TYPE(16) b d fallthrough) (call_relative TYPE(32) b d fallthrough))
       (\<lambda>ip. ret (Continue ip))"
| "run_transfer b w fallthrough (CallIndirect s) =
     and_then (at_size w (require None) (call_indirect TYPE(16) b s fallthrough) (call_indirect TYPE(32) b s fallthrough))
       (\<lambda>ip. ret (Continue ip))"
| "run_transfer b w fallthrough (JumpIndirect s) =
     and_then (at_size w (require None) (jump_indirect TYPE(16) b s) (jump_indirect TYPE(32) b s)) (\<lambda>ip. ret (Continue ip))"
| "run_transfer b w fallthrough (ReturnNear n) =
     and_then (at_size w (require None) (return_near TYPE(16) b n) (return_near TYPE(32) b n)) (\<lambda>ip. ret (Continue ip))"

definition fall_through :: "('s, unit) run \<Rightarrow> u32 \<Rightarrow> ('s, completion) run" where
  "fall_through m fallthrough = and_then m (\<lambda>_. ret (Continue fallthrough))"

text \<open>The call of the decoded handler, over the handlers of this theory; the operand size selects the handler's
  width as the instruction tables do.\<close>

definition run_instruction :: "'s builder \<Rightarrow> operand_size \<Rightarrow> u32 \<Rightarrow> instruction \<Rightarrow> ('s, completion) run" where
  "run_instruction b w fallthrough i =
     (case i of
        Alu a \<Rightarrow> fall_through (run_alu b w a) fallthrough
      | Move a \<Rightarrow> fall_through (run_move b w a) fallthrough
      | Stack a \<Rightarrow> fall_through (run_stack b w a) fallthrough
      | Transfer a \<Rightarrow> run_transfer b w fallthrough a)"

subsection \<open>requirements.rs, lower.rs\<close>

datatype cpu_feature =
  Cx8_Feature | Cmov_Feature | Tsc_Feature | Fpu_Feature | Mmx_Feature | Fxsr_Feature | Sse_Feature | Sse2_Feature | Clflush_Feature

definition feature_mask :: "cpu_feature \<Rightarrow> u32" where
  "feature_mask f = push_bit (case f of
       Cx8_Feature \<Rightarrow> 0 | Cmov_Feature \<Rightarrow> 1 | Tsc_Feature \<Rightarrow> 2 | Fpu_Feature \<Rightarrow> 3 | Mmx_Feature \<Rightarrow> 4
     | Fxsr_Feature \<Rightarrow> 5 | Sse_Feature \<Rightarrow> 6 | Sse2_Feature \<Rightarrow> 7 | Clflush_Feature \<Rightarrow> 8) 1"

definition supports_features :: "u32 \<Rightarrow> cpu_feature list \<Rightarrow> bool" where
  "supports_features bits features =
     (let required = fold (\<lambda>feature mask. mask OR feature_mask feature) features 0 in bits AND required = required)"

datatype availability = AllModes | ProtectedOnly | IoPrivileged

record requirements =
  req_availability :: availability
  req_features :: "cpu_feature list"

definition mode_fault :: "requirements \<Rightarrow> execution_profile \<Rightarrow> exception option" where
  "mode_fault r profile =
     (case (req_availability r, profile) of
        (ProtectedOnly, Real16) \<Rightarrow> Some InvalidOpcode
      | (IoPrivileged, Protected _) \<Rightarrow> Some (GeneralProtection 0)
      | _ \<Rightarrow> None)"

text \<open>\<^verbatim>\<open>lower\<close>: the feature and mode checks, before the handler. The features of the processor and the requirements
  of the decoded instruction are parameters. After an unconditional fault no path goes on.\<close>

definition lower_instruction ::
    "'s builder \<Rightarrow> u32 \<Rightarrow> requirements \<Rightarrow> operand_size \<Rightarrow> u32 \<Rightarrow> instruction \<Rightarrow> ('s, completion) run" where
  "lower_instruction b cpu_features r w fallthrough i =
     and_then (fault_if (\<not> supports_features cpu_features (req_features r)) InvalidOpcode) (\<lambda>_.
     case mode_fault r (eb_profile b) of
       Some exception \<Rightarrow> and_then (fault exception) (\<lambda>_. ret (Continue fallthrough))
     | None \<Rightarrow> run_instruction b w fallthrough i)"

text \<open>\<^verbatim>\<open>ExecutionBuilder::execute\<close>: a completed instruction publishes its successor and counts as retired; a
  fault publishes the state at the restart boundary.\<close>

definition completion_ip :: "completion \<Rightarrow> u32" where
  "completion_ip r = (case r of Continue ip \<Rightarrow> ip | InterruptInhibited ip \<Rightarrow> ip | InterruptsEnabled ip \<Rightarrow> ip)"

definition execute_instruction ::
    "'s builder \<Rightarrow> u32 \<Rightarrow> requirements \<Rightarrow> operand_size \<Rightarrow> instruction \<Rightarrow> u32 \<Rightarrow> ('s, completion) run" where
  "execute_instruction b cpu_features r w i fallthrough =
     and_then (lower_instruction b cpu_features r w fallthrough i) (\<lambda>done.
     and_then (change (\<lambda>c. c\<lparr>cpu_eip := completion_ip done, retired := retired c + 1\<rparr>)) (\<lambda>_.
     ret done))"

subsection \<open>Restartable instructions\<close>

lemma precise_finish [precise_intros]: "precise (finish_update outcome)"
  by (simp add: finish_update_def sure_intros precise_intros)

lemma free_shift_operand [free_intros]: "is_virtual b \<Longrightarrow> effect_free (shift_operand b n)"
  by (simp add: shift_operand_def free_intros)

text \<open>AAM has written flags when it stores, which a register destination survives.\<close>

lemma sure_write_register_location [sure_intros]: "cannot_fault (exec_write b (RegisterAt r) v)"
  by (simp add: exec_write_def prepare_write_def sure_intros)

lemmas restart_laws = free_intros sure_intros precise_intros

lemma precise_finish_after [precise_intros]: "precise (fall_through m n) \<longleftrightarrow> precise m"
  by (auto simp: precise_def fall_through_def and_then_Some ret_def)

lemma precise_alu [precise_intros]:
  assumes "is_virtual b"
  shows "precise (update_binary T b d s operation)" "precise (exec_compare T b l r)" "precise (exec_test T b l r)"
  using assms by (simp_all add: update_binary_def exec_compare_def exec_test_def restart_laws)

lemma precise_unary [precise_intros]: "is_virtual b \<Longrightarrow> precise (update_unary T b d operation)"
  by (simp add: update_unary_def Let_def restart_laws split: alu_unary_op.splits)

lemma precise_multiply [precise_intros]:
  assumes "is_virtual b"
  shows "precise (implicit_multiply T D b s m)" "precise (multiply_destination T D b d s)" "precise (multiply_sources T D b d s t)"
  using assms by (simp_all add: implicit_multiply_def multiply_destination_def multiply_sources_def Let_def restart_laws)

lemma precise_divide [precise_intros]: "is_virtual b \<Longrightarrow> precise (divide T D b s operation)"
  by (simp add: divide_def restart_laws)

lemma precise_shifts [precise_intros]:
  assumes "is_virtual b"
  shows "precise (exec_rotate T b d n r)" "precise (exec_rotate_through_carry T b d n r)" "precise (exec_shift T b d n k)"
    "precise (exec_double_shift T b d s n h)"
  using assms by (simp_all add: exec_rotate_def exec_rotate_through_carry_def exec_shift_def exec_double_shift_def restart_laws)

lemma precise_adjust [precise_intros]:
  assumes "is_virtual b"
  shows "precise (exec_adjust_unpacked b d a)" "precise (exec_adjust_packed b d a)"
    "precise (exec_adjust_after_multiply b (RegisterAt r) s n)" "precise (exec_adjust_before_division b d n)"
  using assms by (simp_all add: exec_adjust_unpacked_def exec_adjust_packed_def exec_adjust_after_multiply_def
      exec_adjust_before_division_def restart_laws)

lemma precise_bits [precise_intros]:
  assumes "is_virtual b"
  shows "precise (exec_bit_test T U b d n t)" "precise (exec_bit_scan T b d s q)" "precise (check_bounds T b i address)"
  using assms by (auto simp add: exec_bit_test_def exec_bit_scan_def check_bounds_def Let_def restart_laws split: operand.splits)

lemma precise_run_alu [precise_intros]: "is_virtual b \<Longrightarrow> precise (run_alu b w i)"
  by (cases i; cases w) (simp_all add: precise_intros Let_def sure_intros)

lemma precise_moves [precise_intros]:
  assumes "is_virtual b"
  shows "precise (translate_byte b)" "precise (mov T b d s)" "precise (store_non_temporal b address d)"
    "precise (movzx D T b d s)" "precise (movsx D T b d s)" "precise (sign_fill T b d s)" "precise (setcc b d cc)"
    "precise (cmov T b d s cc)" "precise (load_flags b d)" "precise (store_flags b s)" "precise complement_carry"
    "precise (flush_cache_line b address)"
  using assms by (simp_all add: translate_byte_def mov_def store_non_temporal_def movzx_def movsx_def sign_fill_def setcc_def
      cmov_def load_flags_def store_flags_def complement_carry_def flush_cache_line_def restart_laws)

lemma precise_exchanges [precise_intros]:
  assumes "is_virtual b"
  shows "precise (xchg T b d e)" "precise (xadd T b d e)" "precise (cmpxchg T b d s)" "precise (cmpxchg8b b address)"
  using assms by (simp_all add: xchg_def xadd_def cmpxchg_def cmpxchg8b_def restart_laws)

lemma precise_run_move [precise_intros]: "is_virtual b \<Longrightarrow> precise (run_move b w i)"
  by (cases i; cases w) (simp_all add: precise_intros sure_intros)

lemma precise_stack [precise_intros]:
  assumes "is_virtual b"
  shows "precise (exec_push T b s)" "precise (exec_pop T b d)" "precise (push_flags T b)" "precise (pop_flags T b n)" "precise (leave_frame T b)"
  using assms by (simp_all add: exec_push_def exec_pop_def push_flags_def pop_flags_def leave_frame_def restart_laws)

lemma precise_branches [precise_intros]:
  assumes "is_virtual b"
  shows "precise (jump_relative T b d cc n)" "precise (jump_if_count_zero T b d n)" "precise (loop_relative T b d n cc)"
    "precise (call_relative T b d n)" "precise (call_indirect T b d n)" "precise (jump_indirect T b d)" "precise (return_near T b d)"
    "precise (enable_interrupts b n)"
  using assms by (simp_all add: jump_relative_def jump_if_count_zero_def loop_relative_def call_relative_def call_indirect_def
      jump_indirect_def return_near_def enable_interrupts_def Let_def restart_laws)

lemma precise_run_transfer [precise_intros]: "is_virtual b \<Longrightarrow> precise (run_transfer b w n i)"
  by (cases i; cases w) (simp_all add: precise_intros sure_intros)

subsection \<open>Partial progress\<close>

text \<open>PUSHA and ENTER store before a later check can fault, and POPA restores registers one by one: their
  faults stay within a part of the state. A part is a preorder between states.\<close>

definition within :: "('s cpu \<Rightarrow> 's cpu \<Rightarrow> bool) \<Rightarrow> ('s, 'v) run \<Rightarrow> bool" where
  "within P m \<longleftrightarrow> (\<forall>c r c'. m c = Some (r, c') \<longrightarrow> P c c')"

definition faults_within :: "('s cpu \<Rightarrow> 's cpu \<Rightarrow> bool) \<Rightarrow> ('s, 'v) run \<Rightarrow> bool" where
  "faults_within P m \<longleftrightarrow> (\<forall>c x c'. m c = Some (Inl x, c') \<longrightarrow> P c c')"

definition returns :: "('v \<Rightarrow> bool) \<Rightarrow> ('s, 'v) run \<Rightarrow> bool" where
  "returns Q m \<longleftrightarrow> (\<forall>c v c'. m c = Some (Inr v, c') \<longrightarrow> Q v)"

lemma returns_rules:
  "Q v \<Longrightarrow> returns Q (ret v)" "(\<And>v. returns Q (k v)) \<Longrightarrow> returns Q (and_then m k)"
  "returns R m \<Longrightarrow> (\<And>v. R v \<Longrightarrow> returns Q (k v)) \<Longrightarrow> returns Q (and_then m k)" "returns Q n \<Longrightarrow> returns Q (nested n)"
  by (fastforce simp: returns_def and_then_Some ret_def nested_def split: option.splits sum.splits)+

locale state_part =
  fixes P :: "'s cpu \<Rightarrow> 's cpu \<Rightarrow> bool"
  assumes part_refl: "P c c"
    and part_trans: "P a b \<Longrightarrow> P b c \<Longrightarrow> P a c"
begin

lemma within_free: "effect_free m \<Longrightarrow> within P m"
  unfolding effect_free_def within_def using part_refl by blast

lemma within_and_then: "within P m \<Longrightarrow> (\<And>v. within P (k v)) \<Longrightarrow> within P (and_then m k)"
  unfolding within_def and_then_Some by (blast intro: part_trans)

lemma within_if: "within P m \<Longrightarrow> within P n \<Longrightarrow> within P (if q then m else n)"
  by simp

lemma faults_within_within: "within P m \<Longrightarrow> faults_within P m"
  unfolding within_def faults_within_def by blast

lemma faults_within_precise: "precise m \<Longrightarrow> faults_within P m"
  unfolding precise_def faults_within_def using part_refl by blast

lemma faults_and_then:
  "faults_within P m \<Longrightarrow> (\<And>v. cannot_fault (k v)) \<Longrightarrow> faults_within P (and_then m k)"
  "within P m \<Longrightarrow> (\<And>v. faults_within P (k v)) \<Longrightarrow> faults_within P (and_then m k)"
  unfolding cannot_fault_def within_def faults_within_def and_then_Some by (blast intro: part_trans)+

lemma returns_and_then:
  "within P m \<Longrightarrow> returns Q m \<Longrightarrow> (\<And>v. Q v \<Longrightarrow> within P (k v)) \<Longrightarrow> within P (and_then m k)"
  "within P m \<Longrightarrow> returns Q m \<Longrightarrow> (\<And>v. Q v \<Longrightarrow> faults_within P (k v)) \<Longrightarrow> faults_within P (and_then m k)"
  unfolding returns_def within_def faults_within_def and_then_Some by (blast intro: part_trans)+

lemmas part_laws = within_free within_and_then within_if faults_within_within faults_within_precise faults_and_then

end

text \<open>Only the bytes in \<open>W\<close> of guest memory differ, from a state whose stack has the segment \<open>r\<close> and the pointer \<open>p\<close>.\<close>

definition stores_in :: "'s builder \<Rightarrow> segment_register \<Rightarrow> stack_pointer \<Rightarrow> (nat \<Rightarrow> bool) \<Rightarrow> 's cpu \<Rightarrow> 's cpu \<Rightarrow> bool" where
  "stores_in b r p W c c' \<longleftrightarrow> (stack_segment c = r \<and> pointer_of b c = p \<longrightarrow>
     (\<exists>g. c' = c\<lparr>cpu_guest := (cpu_guest c)\<lparr>storage := g\<rparr>\<rparr> \<and> (\<forall>q. \<not> W q \<longrightarrow> g q = storage (cpu_guest c) q)))"

definition registers_only :: "'s cpu \<Rightarrow> 's cpu \<Rightarrow> bool" where
  "registers_only c c' \<longleftrightarrow> c' = c\<lparr>gprs := (gprs c')(Esp := gprs c Esp)\<rparr>"

lemma registers_only_fields:
  "registers_only c c' \<longleftrightarrow> gprs c' Esp = gprs c Esp \<and> cpu_flags c' = cpu_flags c \<and> cpu_iopl c' = cpu_iopl c \<and> segs c' = segs c \<and>
     cpu_eip c' = cpu_eip c \<and> retired c' = retired c \<and> cpu_guest c' = cpu_guest c"
  by (cases c; cases c') (auto simp: registers_only_def fun_upd_idem_iff dest: fun_cong [where x = Esp])

lemma pointer_of_guest [simp]: "pointer_of b (c\<lparr>cpu_guest := g\<rparr>) = pointer_of b c"
  by (simp add: pointer_of_def)

lemma stores_in_refl: "stores_in b r p W c c"
  unfolding stores_in_def by (rule impI, rule exI [where x = "storage (cpu_guest c)"]) simp

lemma stores_in_trans: "stores_in b r p W c c' \<Longrightarrow> stores_in b r p W c' c'' \<Longrightarrow> stores_in b r p W c c''"
proof -
  assume a: "stores_in b r p W c c'" "stores_in b r p W c' c''"
  have "\<exists>g. c'' = c\<lparr>cpu_guest := (cpu_guest c)\<lparr>storage := g\<rparr>\<rparr> \<and> (\<forall>q. \<not> W q \<longrightarrow> g q = storage (cpu_guest c) q)"
    if c: "stack_segment c = r" "pointer_of b c = p"
  proof -
    obtain g where g: "c' = c\<lparr>cpu_guest := (cpu_guest c)\<lparr>storage := g\<rparr>\<rparr>" "\<forall>q. \<not> W q \<longrightarrow> g q = storage (cpu_guest c) q"
      using a(1) c unfolding stores_in_def by blast
    then obtain h where "c'' = c'\<lparr>cpu_guest := (cpu_guest c')\<lparr>storage := h\<rparr>\<rparr>" "\<forall>q. \<not> W q \<longrightarrow> h q = storage (cpu_guest c') q"
      using a(2) c unfolding stores_in_def by fastforce
    with g show ?thesis by (intro exI [where x = h]) simp
  qed
  then show ?thesis unfolding stores_in_def by blast
qed

interpretation store_part: state_part "stores_in b r p W" for b r p W
  by unfold_locales (rule stores_in_refl, erule (1) stores_in_trans)

interpretation register_part: state_part registers_only
  by unfold_locales (simp_all add: registers_only_fields)

lemma push_at_then:
  "and_then (pointer_push_frame b p (width_bytes_of TYPE('a)) (width_bytes_of TYPE('a))) (\<lambda>f.
   and_then (frame_field TYPE('a::len) b f 0) (\<lambda>field.
   and_then (memory_write (eb_memory b) field 0 (v :: 'a word)) (\<lambda>_. k f))) = and_then (push_at b p v) k"
  by (simp add: push_at_def and_then_assoc)

lemma push_at_part:
  assumes "eb_memory b = VirtualMemory t" "stack_width TYPE('a::len)" "pointer_ok p"
  shows "(\<And>j. j < LENGTH('a) div 8 \<Longrightarrow> W (slot_byte b t r (pointer_advance p (- width_bytes_of TYPE('a))) j)) \<Longrightarrow>
      within (stores_in b r sp W) (push_at b p (v :: 'a word))"
    and "returns (\<lambda>f. next_pointer f = pointer_advance p (- width_bytes_of TYPE('a))) (push_at b p (v :: 'a word))"
proof -
  show "returns (\<lambda>f. next_pointer f = pointer_advance p (- width_bytes_of TYPE('a))) (push_at b p v)"
    unfolding returns_def using push_at_slot(1) [OF assms] by blast
  assume w: "\<And>j. j < LENGTH('a) div 8 \<Longrightarrow> W (slot_byte b t r (pointer_advance p (- width_bytes_of TYPE('a))) j)"
  have "is_virtual b" using assms(1) by (simp add: is_virtual_def)
  have "stores_in b r sp W c c'" if m: "push_at b p v c = Some (z, c')" for c z c'
  proof (cases z)
    case (Inr f)
    obtain g where c': "c' = c\<lparr>cpu_guest := (cpu_guest c)\<lparr>storage := g\<rparr>\<rparr>"
      and g: "\<And>q. (\<forall>j<LENGTH('a) div 8. q \<noteq> slot_byte b t (stack_segment c) (pointer_advance p (- width_bytes_of TYPE('a))) j) \<Longrightarrow>
        g q = storage (cpu_guest c) q"
      using push_at_slot(4) [OF assms m [unfolded Inr]] by blast
    have "g q = storage (cpu_guest c) q" if "stack_segment c = r" "\<not> W q" for q
      by (rule g) (use w that in auto)
    then show ?thesis unfolding stores_in_def c' by blast
  next
    case (Inl x)
    have "precise (push_at b p v)" unfolding push_at_def by (simp add: precise_intros free_intros sure_intros)
    with m Inl have "c' = c" by (simp add: precise_def)
    then show ?thesis by (simp add: stores_in_refl)
  qed
  then show "within (stores_in b r sp W) (push_at b p v)" by (simp add: within_def)
qed

lemma below_stackI:
  "1 \<le> i \<Longrightarrow> i \<le> k \<Longrightarrow> j < n \<Longrightarrow> below_stack b t r p n k (slot_byte b t r (pointer_advance p (- of_nat (i * n))) j)"
  unfolding below_stack_def by auto

text \<open>The stack pointer after \<open>i\<close> pushes.\<close>

definition pushed :: "'a::len itself \<Rightarrow> stack_pointer \<Rightarrow> nat \<Rightarrow> stack_pointer" where
  "pushed _ p i = pointer_advance p (- of_nat (i * (LENGTH('a) div 8)))"

lemma pushed_simps:
  assumes "pointer_ok p"
  shows "pushed T p 0 = p" "pointer_ok (pushed T p i)" "with_offset p (sp_esp (pushed T p i)) = pushed T p i"
    "pointer_advance (pushed TYPE('a::len) p i) (- width_bytes_of TYPE('a)) = pushed TYPE('a) p (Suc i)"
proof -
  have "sp_esp (with_offset p (sp_esp (with_offset p y))) = sp_esp (with_offset p y)" for y
    by (rule bit_word_eqI) (auto simp: with_offset_def bit_simps)
  then show "with_offset p (sp_esp (pushed T p i)) = pushed T p i" by (simp add: pushed_def pointer_advance_def with_offset_def)
  have "- of_nat (i * (LENGTH('a) div 8)) + - width_bytes_of TYPE('a) = (- of_nat (Suc i * (LENGTH('a) div 8)) :: u32)"
    by (simp add: width_bytes_of_def)
  then show "pointer_advance (pushed TYPE('a) p i) (- width_bytes_of TYPE('a)) = pushed TYPE('a) p (Suc i)"
    by (simp only: pushed_def pointer_advance_twice [OF assms])
qed (use assms in \<open>simp_all add: pushed_def advance_zero\<close>)

lemma push_stores:
  assumes "eb_memory b = VirtualMemory t" "stack_width TYPE('a::len)" "pointer_ok p" "i < k"
  shows "within (stores_in b r p (below_stack b t r p (LENGTH('a) div 8) k)) (push_at b (pushed TYPE('a) p i) (v :: 'a word))"
    "returns (\<lambda>f. next_pointer f = pushed TYPE('a) p (Suc i)) (push_at b (pushed TYPE('a) p i) (v :: 'a word))"
proof -
  note at = pushed_simps [OF assms(3)]
  show "returns (\<lambda>f. next_pointer f = pushed TYPE('a) p (Suc i)) (push_at b (pushed TYPE('a) p i) v)"
    using push_at_part(2) [OF assms(1,2) at(2) [where T = "TYPE('a)" and i = i]] by (simp only: at(4))
  show "within (stores_in b r p (below_stack b t r p (LENGTH('a) div 8) k)) (push_at b (pushed TYPE('a) p i) v)"
  proof (rule push_at_part(1) [OF assms(1,2) at(2)])
    fix j assume "j < LENGTH('a) div 8"
    then show "below_stack b t r p (LENGTH('a) div 8) k (slot_byte b t r (pointer_advance (pushed TYPE('a) p i) (- width_bytes_of TYPE('a))) j)"
      unfolding at(4) unfolding pushed_def by (intro below_stackI) (use assms(4) in simp_all)
  qed
qed

lemma stores_push_registers:
  assumes "eb_memory b = VirtualMemory t" "stack_width TYPE('a::len)" "pointer_ok p"
  shows "i + length rs \<le> k \<Longrightarrow> within (stores_in b r p (below_stack b t r p (LENGTH('a) div 8) k))
    (push_registers TYPE('a) b rs (pushed TYPE('a) p i))"
proof (induction rs arbitrary: i)
  case (Cons g rs)
  let ?P = "stores_in b r p (below_stack b t r p (LENGTH('a) div 8) k)"
  have i: "i < k" using Cons.prems by simp
  have "within ?P (and_then (push_at b (pushed TYPE('a) p i) v) (\<lambda>f. push_registers TYPE('a) b rs (next_pointer f)))" for v :: "'a word"
    by (rule store_part.returns_and_then(1) [OF push_stores [OF assms i]]) (use Cons.prems in \<open>simp add: Cons.IH\<close>)
  then show ?case
    by (simp only: push_registers.simps push_at_then) (rule store_part.within_and_then, simp_all add: store_part.within_free free_intros)
qed (simp add: store_part.within_free free_intros)

lemma stores_read_pointer:
  "faults_within (stores_in b r p W) (k p) \<Longrightarrow> faults_within (stores_in b r p W) (and_then (read_stack_pointer b) k)"
  by (auto simp: faults_within_def stores_in_def run_steps(7) [OF read_stack_pointer_run])

lemma faults_push_all:
  assumes "eb_memory b = VirtualMemory t" "stack_width TYPE('a::len)" "pointer_ok p"
  shows "faults_within (stores_in b r p (below_stack b t r p (LENGTH('a) div 8) 8)) (push_all_registers TYPE('a) b)"
proof -
  have "within (stores_in b r p (below_stack b t r p (LENGTH('a) div 8) 8)) (push_registers TYPE('a) b ALL_GPRS p)"
    using stores_push_registers [OF assms, of 0 ALL_GPRS 8] by (simp add: ALL_GPRS_def pushed_simps(1) [OF assms(3)])
  then show ?thesis unfolding push_all_registers_def
    by (intro stores_read_pointer)
      (simp add: store_part.part_laws free_intros sure_intros Let_def split: execution_profile.splits)
qed

lemma stores_nested: "within (stores_in b r p W) m \<Longrightarrow> within (stores_in b r p W) (nested m)"
  unfolding within_def
proof (intro allI impI)
  fix c z c' assume m: "\<forall>c z c'. m c = Some (z, c') \<longrightarrow> stores_in b r p W c c'" and n: "nested m c = Some (z, c')"
  from n obtain y d where d: "m c = Some (y, d)" "c' = d \<or> c' = c\<lparr>cpu_guest := cpu_guest d\<rparr>"
    by (auto simp: nested_def split: option.splits sum.splits)
  from m d(1) have "stores_in b r p W c d" by blast
  with d(2) show "stores_in b r p W c c'" unfolding stores_in_def by fastforce
qed

lemma stores_enter_copy:
  assumes "eb_memory b = VirtualMemory t" "stack_width TYPE('a::len)" "pointer_ok p" "i < k"
  shows "within (stores_in b r p (below_stack b t r p (LENGTH('a) div 8) k)) (enter_copy TYPE('a) b p source (sp_esp (pushed TYPE('a) p i)))"
    and "returns (\<lambda>(s, e). e = sp_esp (pushed TYPE('a) p (Suc i))) (enter_copy TYPE('a) b p source (sp_esp (pushed TYPE('a) p i)))"
proof -
  have v: "is_virtual b" using assms(1) by (simp add: is_virtual_def)
  note push = push_stores [OF assms]
  show "within (stores_in b r p (below_stack b t r p (LENGTH('a) div 8) k)) (enter_copy TYPE('a) b p source (sp_esp (pushed TYPE('a) p i)))"
    unfolding enter_copy_def Let_def pushed_simps(3) [OF assms(3)] push_at_then
    by (simp add: store_part.part_laws push(1) free_intros v)
  show "returns (\<lambda>(s, e). e = sp_esp (pushed TYPE('a) p (Suc i))) (enter_copy TYPE('a) b p source (sp_esp (pushed TYPE('a) p i)))"
    unfolding enter_copy_def Let_def pushed_simps(3) [OF assms(3)] push_at_then
    by (rule returns_rules(2), rule returns_rules(2), rule returns_rules(2), rule returns_rules(3) [OF push(2)], rule returns_rules(1)) simp
qed

lemma stores_enter_display:
  assumes "eb_memory b = VirtualMemory t" "stack_width TYPE('a::len)" "pointer_ok p"
  shows "i + n \<le> k \<Longrightarrow>
    within (stores_in b r p (below_stack b t r p (LENGTH('a) div 8) k)) (enter_display TYPE('a) b p n source (sp_esp (pushed TYPE('a) p i))) \<and>
    returns (\<lambda>e. e = sp_esp (pushed TYPE('a) p (i + n))) (enter_display TYPE('a) b p n source (sp_esp (pushed TYPE('a) p i)))"
proof (induction n arbitrary: i source)
  case 0
  then show ?case by (simp add: store_part.within_free free_intros returns_rules(1))
next
  case (Suc n)
  let ?P = "stores_in b r p (below_stack b t r p (LENGTH('a) div 8) k)"
  have ik: "i < k" "Suc i + n \<le> k" using Suc.prems by simp_all
  note copy = stores_enter_copy [OF assms ik(1), where source = source]
  have rest: "within ?P (enter_display TYPE('a) b p n s e)" "returns (\<lambda>e. e = sp_esp (pushed TYPE('a) p (i + Suc n))) (enter_display TYPE('a) b p n s e)"
    if "e = sp_esp (pushed TYPE('a) p (Suc i))" for s e using Suc.IH [OF ik(2)] that by simp_all
  have "within ?P (enter_display TYPE('a) b p (Suc n) source (sp_esp (pushed TYPE('a) p i)))"
    unfolding enter_display.simps
    by (rule store_part.returns_and_then(1) [OF stores_nested [OF copy(1)] returns_rules(4) [OF copy(2)]]) (auto intro: rest(1) split: prod.splits)
  moreover have "returns (\<lambda>e. e = sp_esp (pushed TYPE('a) p (i + Suc n))) (enter_display TYPE('a) b p (Suc n) source (sp_esp (pushed TYPE('a) p i)))"
    unfolding enter_display.simps
    by (rule returns_rules(3) [OF returns_rules(4) [OF copy(2)]]) (use rest(2) in \<open>auto split: prod.splits\<close>)
  ultimately show ?case ..
qed

lemma sure_frame_end: "cannot_fault (and_then (write_parent g v) (\<lambda>_. pointer_commit p))"
  by (simp add: sure_intros)

lemma nesting_level:
  fixes x :: u32
  assumes "x AND 31 \<noteq> 0"
  shows "unat ((x AND 31) - 1) \<le> 30"
proof -
  define y where "y = x AND 31"
  have "y \<le> 31" unfolding y_def by (rule word_and_le1)
  then have "unat y \<le> 31" by (simp add: word_le_nat_alt)
  moreover have "unat (y - 1) = unat y - 1" using assms by (intro unat_minus_one) (simp add: y_def)
  ultimately show ?thesis by (simp only: y_def)
qed

lemma stores_enter_link:
  assumes "eb_memory b = VirtualMemory t" "stack_width TYPE('a::len)" "pointer_ok p" "n \<le> 30"
  shows "within (stores_in b r p (below_stack b t r p (LENGTH('a) div 8) 32))
    (nested (and_then (enter_display TYPE('a) b p n source (sp_esp (pushed TYPE('a) p 1)))
      (\<lambda>esp. and_then (push_at b (with_offset p esp) (w :: 'a word)) (\<lambda>link. ret (sp_esp (next_pointer link))))))"
proof (rule stores_nested, rule store_part.returns_and_then(1))
  let ?P = "stores_in b r p (below_stack b t r p (LENGTH('a) div 8) 32)"
  have n: "1 + n \<le> 32" "1 + n < 32" using assms(4) by simp_all
  note d = stores_enter_display [OF assms(1-3) n(1), where r = r and source = source]
  from d show "within ?P (enter_display TYPE('a) b p n source (sp_esp (pushed TYPE('a) p 1)))" by blast
  from d show "returns (\<lambda>e. e = sp_esp (pushed TYPE('a) p (1 + n))) (enter_display TYPE('a) b p n source (sp_esp (pushed TYPE('a) p 1)))" by blast
  show "within ?P (and_then (push_at b (with_offset p e) w) (\<lambda>link. ret (sp_esp (next_pointer link))))" if "e = sp_esp (pushed TYPE('a) p (1 + n))" for e
    unfolding that pushed_simps(3) [OF assms(3)]
    by (rule store_part.within_and_then [OF push_stores(1) [OF assms(1-3) n(2)] store_part.within_free]) (simp add: free_intros)
qed

lemma faults_enter:
  assumes "eb_memory b = VirtualMemory t" "stack_width TYPE('a::len)" "pointer_ok p"
  shows "faults_within (stores_in b r p (below_stack b t r p (LENGTH('a) div 8) 32)) (enter_frame TYPE('a) b allocation nesting)"
proof -
  let ?P = "stores_in b r p (below_stack b t r p (LENGTH('a) div 8) 32)"
  have v: "is_virtual b" using assms(1) by (simp add: is_virtual_def)
  have first: "faults_within ?P (and_then (push_at b p (w :: 'a word)) k)"
    if "\<And>f. next_pointer f = pushed TYPE('a) p 1 \<Longrightarrow> faults_within ?P (k f)" for k w
    by (rule store_part.returns_and_then(2) [OF push_stores [OF assms, of 0 32, unfolded pushed_simps(1) [OF assms(3)]]]) (simp_all add: that)
  show ?thesis
    unfolding enter_frame_def Let_def push_at_then
    apply (rule store_part.faults_and_then(2), simp add: store_part.within_free free_intros v)
    apply (rule store_part.faults_and_then(2), simp add: store_part.within_free free_intros v)
    apply (rule store_part.faults_and_then(2), simp add: store_part.within_free free_intros v)
    apply (rule stores_read_pointer, rule first)
    apply (rule store_part.faults_and_then(2))
     apply (simp only: split: if_split)
     apply (intro conjI impI)
      apply (rule stores_enter_link [OF assms nesting_level], assumption)
     apply (simp add: store_part.within_free free_intros)
    apply (simp add: store_part.part_laws free_intros sure_frame_end split: execution_profile.splits)
    done
qed

lemma registers_only_write: "g \<noteq> Esp \<Longrightarrow> within registers_only (write_parent g v)"
  by (simp add: within_def registers_only_fields write_parent_def write_register_def change_def set_view_def)

lemma registers_only_pop_registers: "is_virtual b \<Longrightarrow> within registers_only (pop_registers T b rs p)"
  by (induction rs arbitrary: p) (simp_all add: register_part.part_laws registers_only_write free_intros)

lemma faults_pop_all: "is_virtual b \<Longrightarrow> faults_within registers_only (pop_all_registers T b)"
  unfolding pop_all_registers_def
  by (simp add: register_part.part_laws registers_only_pop_registers free_intros sure_intros)

text \<open>The part of the state a faulting instruction may have changed.\<close>

definition fault_part :: "'s builder \<Rightarrow> backing \<Rightarrow> operand_size \<Rightarrow> instruction \<Rightarrow> 's cpu \<Rightarrow> 's cpu \<Rightarrow> bool" where
  "fault_part b t w i c c' =
     (let pushes = (\<lambda>k. stores_in b (stack_segment c) (pointer_of b c)
            (below_stack b t (stack_segment c) (pointer_of b c) (at_size w 1 2 4) k) c c') in
      case i of
        Stack PushAll \<Rightarrow> pushes 8
      | Stack (Enter _ _) \<Rightarrow> pushes 32
      | Stack PopAll \<Rightarrow> registers_only c c'
      | _ \<Rightarrow> c' = c)"

lemma fault_part_refl: "fault_part b t w i c c"
  by (simp add: fault_part_def stores_in_refl register_part.part_refl split: instruction.splits stack_instruction.splits)

lemma precise_faults: "precise m \<Longrightarrow> m c = Some (Inl x, c') \<Longrightarrow> c' = c"
  by (simp add: precise_def)

lemma fall_through_fault: "fall_through m n c = Some (Inl x, c') \<longleftrightarrow> m c = Some (Inl x, c')"
  by (auto simp: fall_through_def and_then_Some ret_def)

lemma run_stack_fault:
  assumes b: "eb_memory b = VirtualMemory t" and run: "run_stack b w i c = Some (Inl x, c')"
  shows "fault_part b t w (Stack i) c c'"
proof -
  have v: "is_virtual b" using b by (simp add: is_virtual_def)
  have width: "stack_width TYPE(16)" "stack_width TYPE(32)" by (simp_all add: stack_width_def)
  note push16 = faults_push_all [OF b width(1) pointer_of_ok [of b c], where r = "stack_segment c"]
    faults_enter [OF b width(1) pointer_of_ok [of b c], where r = "stack_segment c"]
  note push32 = faults_push_all [OF b width(2) pointer_of_ok [of b c], where r = "stack_segment c"]
    faults_enter [OF b width(2) pointer_of_ok [of b c], where r = "stack_segment c"]
  show ?thesis
  proof (cases i)
    case PushAll
    with run push16(1) push32(1) show ?thesis by (cases w) (auto simp: fault_part_def faults_within_def require_def)
  next
    case (Enter s u)
    with run push16(2) push32(2) show ?thesis by (cases w) (auto simp: fault_part_def faults_within_def require_def)
  next
    case PopAll
    with run faults_pop_all [OF v, of "TYPE(16)"] faults_pop_all [OF v, of "TYPE(32)"] show ?thesis
      by (cases w) (auto simp: fault_part_def faults_within_def require_def)
  qed (use run v in \<open>cases w; auto simp: fault_part_def require_def dest: precise_stack [THEN precise_faults, rotated]\<close>)+
qed

text \<open>C2: faults are restartable. Over translated memory, when an instruction of \<open>instruction\<close> (the arithmetic,
  logic, shift, bit, multiply, divide, adjust, move, exchange, flag, stack and near transfer families; no
  string, repeat, segment-load, far, port or interrupt instruction) raises an exception, it has left registers,
  flags, segments, instruction pointer, retired count and every byte of memory as it found them, with three
  exceptions. PUSHA may have changed bytes of the eight slots below the stack pointer, and ENTER of the
  thirty-two slots below it, of guest memory and nothing else; POPA may have changed general registers other
  than ESP and nothing else.\<close>

theorem faults_are_restartable:
  assumes "eb_memory b = VirtualMemory t" and "execute_instruction b features r w i fallthrough c = Some (Inl x, c')"
  shows "case i of
      Stack PushAll \<Rightarrow> \<exists>g. c' = c\<lparr>cpu_guest := (cpu_guest c)\<lparr>storage := g\<rparr>\<rparr> \<and>
        (\<forall>q. \<not> below_stack b t (stack_segment c) (pointer_of b c) (at_size w 1 2 4) 8 q \<longrightarrow> g q = storage (cpu_guest c) q)
    | Stack (Enter allocation nesting) \<Rightarrow> \<exists>g. c' = c\<lparr>cpu_guest := (cpu_guest c)\<lparr>storage := g\<rparr>\<rparr> \<and>
        (\<forall>q. \<not> below_stack b t (stack_segment c) (pointer_of b c) (at_size w 1 2 4) 32 q \<longrightarrow> g q = storage (cpu_guest c) q)
    | Stack PopAll \<Rightarrow> c' = c\<lparr>gprs := (gprs c')(Esp := gprs c Esp)\<rparr>
    | _ \<Rightarrow> c' = c"
proof -
  have v: "is_virtual b" using assms(1) by (simp add: is_virtual_def)
  from assms(2) consider "c' = c" | "run_instruction b w fallthrough i c = Some (Inl x, c')"
    by (auto simp: execute_instruction_def lower_instruction_def fault_def fault_if_def and_then_Some ret_def change_def
        split: option.splits if_splits)
  then have "fault_part b t w i c c'"
  proof cases
    case run: 2
    show ?thesis
    proof (cases i)
      case (Stack s)
      then show ?thesis using run run_stack_fault [OF assms(1)] by (simp add: run_instruction_def fall_through_fault)
    qed (use run v in \<open>auto simp: run_instruction_def fall_through_fault fault_part_def
        dest: precise_run_alu [THEN precise_faults, rotated] precise_run_move [THEN precise_faults, rotated]
          precise_run_transfer [THEN precise_faults, rotated]\<close>)
  qed (simp add: fault_part_refl)
  then show ?thesis by (auto simp: fault_part_def stores_in_def registers_only_def split: instruction.splits stack_instruction.splits)
qed

text \<open>A flat protected-mode machine with one mapped page.\<close>

definition sample_builder :: "unit builder" where
  "sample_builder = \<lparr>eb_profile = Protected Flat32, eb_memory = VirtualMemory (store_bytes 0 (to_le_bytes (0x5003 :: u32)) (\<lambda>_. 0)),
     eb_override = None, eb_address_size = Address32, eb_locked = False\<rparr>"

definition sample_cpu :: "u32 \<Rightarrow> unit cpu" where
  "sample_cpu esp = \<lparr>gprs = (\<lambda>r. case r of Esp \<Rightarrow> esp | Eax \<Rightarrow> 7 | _ \<Rightarrow> 0), cpu_flags = (\<lambda>f. f = Status ZF), cpu_iopl = 0, segs = segments_flat32,
     cpu_eip = 0, retired = 0, cpu_guest = \<lparr>storage = (\<lambda>_. 0), devices = ()\<rparr>\<rparr>"

definition any_mode :: requirements where
  "any_mode = \<lparr>req_availability = AllModes, req_features = []\<rparr>"

theorem faults_are_restartable_witness:
  "\<exists>x. execute_instruction sample_builder 0x1FF any_mode SizeDword (Stack (Push (Immediate 1))) 2 (sample_cpu 0x1002) = Some (Inl x, sample_cpu 0x1002)"
proof -
  have v: "eb_memory sample_builder = VirtualMemory (store_bytes 0 (to_le_bytes (0x5003 :: u32)) (\<lambda>_. 0))"
    by (simp add: sample_builder_def)
  have "case execute_instruction sample_builder 0x1FF any_mode SizeDword (Stack (Push (Immediate 1))) 2 (sample_cpu 0x1002) of Some (Inl x, _) \<Rightarrow> True | _ \<Rightarrow> False"
    by code_simp
  then obtain x c' where "execute_instruction sample_builder 0x1FF any_mode SizeDword (Stack (Push (Immediate 1))) 2 (sample_cpu 0x1002) = Some (Inl x, c')"
    by (auto split: option.splits sum.splits)
  with faults_are_restartable [OF v this] show ?thesis by simp
qed

end
