(* ===== verification/X86_Stack.thy ===== *)
theory X86_Stack
  imports X86_Instructions
begin

unbundle bit_operations_syntax

text \<open>
  The stack instructions undo each other over translated memory, whatever the page tables alias and wherever
  the stack pointer wraps: PUSH and POP, the near calls and RET, PUSHF and POPF, PUSHA and POPA. The code between
  the two may do anything that keeps the stack segment, the stack pointer and the bytes of the slots in use.
\<close>

subsection \<open>The top of the stack\<close>

text \<open>What code between a push and its pop has to keep: the segment, the pointer and the bytes of the \<open>k\<close> slots
  of \<open>n\<close> bytes on top of the stack.\<close>

definition same_stack :: "'s builder \<Rightarrow> backing \<Rightarrow> nat \<Rightarrow> nat \<Rightarrow> 's cpu \<Rightarrow> 's cpu \<Rightarrow> bool" where
  "same_stack b t n k c d \<longleftrightarrow> stack_segment d = stack_segment c \<and> gprs d Esp = gprs c Esp \<and>
     (\<forall>i<k. \<forall>j<n. let q = slot_byte b t (stack_segment c) (pointer_advance (pointer_of b c) (of_nat (i * n))) j in
        storage (cpu_guest d) q = storage (cpu_guest c) q)"

lemma same_stack_refl: "same_stack b t n k c c"
  by (simp add: same_stack_def)

lemma same_stack_top:
  "same_stack b t n 1 c d \<Longrightarrow> j < n \<Longrightarrow>
    storage (cpu_guest d) (slot_byte b t (stack_segment c) (pointer_of b c) j) =
    storage (cpu_guest c) (slot_byte b t (stack_segment c) (pointer_of b c) j)"
  by (simp add: same_stack_def Let_def advance_zero)

lemma push_value_at:
  "push_value b (v :: 'a::len word) (width_bytes_of TYPE('a)) c =
     and_then (push_at b (pointer_of b c) v) (\<lambda>f. frame_commit f 0) c"
  by (simp add: push_value_def push_frame_def push_at_def and_then_assoc run_steps(7) [OF read_stack_pointer_run])

lemma push_value_top:
  fixes v :: "'a::len word"
  assumes b: "eb_memory b = VirtualMemory t" and w: "stack_width TYPE('a)" and r: "stack_readable b (stack_segment c)"
    and m: "push_value b v (width_bytes_of TYPE('a)) c = Some (Inr (), c1)" and d: "same_stack b t (LENGTH('a) div 8) 1 c1 d"
  shows "holds_at b (pointer_of b d) v d"
    and "pointer_advance (pointer_of b d) (x + width_bytes_of TYPE('a)) = pointer_advance (pointer_of b c) x"
    and "segs c1 = segs c"
proof -
  let ?n = "width_bytes_of TYPE('a)"
  from m obtain f c' where f: "push_at b (pointer_of b c) v c = Some (Inr f, c')" and c1: "frame_commit f 0 c' = Some (Inr (), c1)"
    by (auto simp: push_value_at and_then_Some)
  note slot = push_at_slot [OF b w pointer_of_ok f]
  obtain g where c': "c' = c\<lparr>cpu_guest := (cpu_guest c)\<lparr>storage := g\<rparr>\<rparr>" using slot(4) by blast
  have c1': "c1 = c'\<lparr>gprs := (gprs c')(Esp := sp_esp (pointer_advance (pointer_of b c) (- ?n)))\<rparr>"
    using c1 by (simp add: frame_commit_def pointer_commit_def write_register_def change_def slot(2,3))
  show segs: "segs c1 = segs c" by (simp add: c1' c')
  have d': "stack_segment d = stack_segment c" "gprs d Esp = sp_esp (pointer_advance (pointer_of b c) (- ?n))"
    "stack_segment c1 = stack_segment c" "gprs c1 Esp = sp_esp (pointer_advance (pointer_of b c) (- ?n))"
    "storage (cpu_guest c1) = storage (cpu_guest c')" using d by (simp_all add: same_stack_def c1' c')
  have p: "pointer_of b d = pointer_advance (pointer_of b c) (- ?n)" by (rule pointer_of_eq [OF d'(1,2)])
  have p1: "pointer_of b c1 = pointer_advance (pointer_of b c) (- ?n)" by (rule pointer_of_eq [OF d'(3,4)])
  show "holds_at b (pointer_of b d) v d"
    unfolding p by (rule slot(5) [OF d'(1) r]) (use same_stack_top [OF d] in \<open>simp add: p1 d'(5) segs\<close>)
  show "pointer_advance (pointer_of b d) (x + ?n) = pointer_advance (pointer_of b c) x"
    unfolding p by (simp add: pointer_advance_twice)
qed

lemma holds_pop:
  assumes "holds_at b (pointer_of b d) (v :: 'a::len word) d"
  shows "\<exists>f a. pop_frame b (width_bytes_of TYPE('a)) (width_bytes_of TYPE('a)) d = Some (Inr f, d) \<and>
    frame_field TYPE('a) b f 0 d = Some (Inr a, d) \<and> memory_read (eb_memory b) a 0 d = Some (Inr v, d) \<and>
    sf_pointer f = pointer_of b d \<and> sf_adjustment f = width_bytes_of TYPE('a)"
  using assms unfolding holds_at_def by (auto simp: pop_frame_def run_steps(7) [OF read_stack_pointer_run])

subsection \<open>Flag images\<close>

lemma change_partial_flag:
  "change_flag (change_partial (map (\<lambda>f. (f, h f)) fs)) f = (if f \<in> set fs then Some (h f) else None)"
proof -
  have "case fold (\<lambda>(f, v) (values, writes). (values[flag_index f := Some v], writes OR mask_of f)) (map (\<lambda>f. (f, h f)) fs)
      (replicate 12 None, MASK_EMPTY) of (vs, w) \<Rightarrow>
    length vs = 12 \<and> (\<forall>f. mask_contains w f = (f \<in> set fs) \<and> (f \<in> set fs \<longrightarrow> vs ! flag_index f = Some (h f)))"
  proof (induction fs rule: rev_induct)
    case (snoc f fs)
    then show ?case by (auto simp: nth_list_update split: prod.splits)
  qed simp
  then show ?thesis by (auto simp: change_partial_def change_flag_def split: prod.splits)
qed

lemma flags_after_partial: "flags_after (change_partial (map (\<lambda>f. (f, h f)) fs)) v f = (if f \<in> set fs then h f else v f)"
  by (simp add: flags_after_def change_partial_flag)

lemma flag_bit_less: "flag_bit f < 32"
  by (cases f) (auto split: status_flag.splits)

lemma flag_bit_inject: "flag_bit f = flag_bit g \<longleftrightarrow> f = g"
  by (cases f; cases g) (auto split: status_flag.splits)

lemma shift_flag_bit: "shift_amount (x :: u32) (of_nat (flag_bit f)) = flag_bit f"
  using flag_bit_less [of f] by (simp add: shift_amount_def unsigned_of_nat take_bit_nat_eq_self)

lemma bit_image_pack:
  "bit (image_pack im vs) n \<longleftrightarrow> bit (fi_fixed im) n \<or> (\<exists>(f, v) \<in> set (zip (fi_flags im) vs). flag_bit f = n \<and> v)"
proof -
  have one: "bit (val_shl (1 :: u32) (of_nat (flag_bit f))) n \<longleftrightarrow> flag_bit f = n" "\<not> bit (val_shl (0 :: u32) (of_nat (flag_bit f))) n" for f
    using flag_bit_less [of f]
    by (auto simp: val_shl_def shift_flag_bit bit_push_bit_iff bit_exp_iff)
  have "bit (fold (\<lambda>(f, v) acc. acc OR val_shl (of_bool v) (of_nat (flag_bit f))) xs (acc :: u32)) n \<longleftrightarrow>
      bit acc n \<or> (\<exists>(f, v) \<in> set xs. flag_bit f = n \<and> v)" for xs acc
  proof (induction xs arbitrary: acc)
    case (Cons x xs)
    obtain f v where x: "x = (f, v)" by (cases x)
    show ?case unfolding x using one [where f = f] by (cases v) (simp_all add: Cons.IH bit_or_iff)
  qed simp
  then show ?thesis by (simp only: image_pack_def)
qed

lemma image_restores:
  assumes "\<And>f. f \<in> set (fi_flags im) \<Longrightarrow> bit w (flag_bit f) = fl f"
  shows "flags_after (image_change im w) v f = (if f \<in> set (fi_flags im) then fl f else v f)"
proof -
  have "bit (val_shr_unsigned w (of_nat (flag_bit f))) 0 = bit w (flag_bit f)" for f
    by (simp add: val_shr_unsigned_def shift_flag_bit bit_drop_bit_eq)
  then show ?thesis using assms by (simp add: image_change_def flags_after_partial)
qed

lemma image_flags_bits:
  assumes "im = WORD_IMAGE \<or> im = DWORD_IMAGE" "f \<in> set (fi_flags im)"
  shows "bit (image_pack im (map fl (fi_flags im))) (flag_bit f) = fl f"
proof -
  have fixed: "\<not> bit (fi_fixed im) (flag_bit f)" using assms by (auto simp: WORD_IMAGE_def DWORD_IMAGE_def)
  have "set (zip (fi_flags im) (map fl (fi_flags im))) = (\<lambda>f. (f, fl f)) ` set (fi_flags im)"
    by (simp add: zip_map2 zip_same_conv_map image_image)
  then show ?thesis using assms(2) by (auto simp: bit_image_pack fixed flag_bit_inject)
qed

text \<open>The flags a protected-mode stack image restores at a width.\<close>

definition image_flags :: "nat \<Rightarrow> flag set" where
  "image_flags width = set (fi_flags (if width = 16 then WORD_IMAGE else DWORD_IMAGE))"

lemma bit_0x200: "bit (0x200 :: int) n \<longleftrightarrow> n = 9"
proof -
  have "(0x200 :: int) = 2 ^ 9" by simp
  then show ?thesis by (simp only: bit_exp_iff) auto
qed

lemma stack_image_bits:
  fixes w :: "'a::len word"
  assumes wd: "stack_width TYPE('a)" and p: "eb_profile b = Protected p" and m: "read_stack_image b c = Some (Inr w, c')"
    and f: "f \<in> image_flags LENGTH('a)"
  shows "bit w (flag_bit f) = cpu_flags c f"
proof -
  define im where "im = (if LENGTH('a) = 16 then WORD_IMAGE else DWORD_IMAGE)"
  let ?w0 = "image_pack im (map (cpu_flags c) (fi_flags im))"
  have len: "LENGTH('a) = 16 \<or> LENGTH('a) = 32" using wd by (simp add: stack_width_def)
  have g: "f \<in> set (fi_flags im)" using f by (simp add: image_flags_def im_def)
  have small: "flag_bit f < LENGTH('a)" "flag_bit f \<noteq> 9"
    using g len by (auto simp: im_def WORD_IMAGE_def DWORD_IMAGE_def split: if_splits)
  have base: "bit ?w0 (flag_bit f) = cpu_flags c f"
    by (rule image_flags_bits [OF _ g]) (simp add: im_def)
  have "w = ucast (?w0 OR 0x200)"
    using m len p by (auto simp: read_stack_image_def im_def exec_read_flags_def and_then_Some look_def ret_def require_def split: if_splits)
  then show ?thesis using base small by (simp add: bit_ucast_iff bit_or_iff bit_0x200)
qed

subsection \<open>Round trips\<close>

lemma sample_stack:
  "eb_memory sample_builder = VirtualMemory (store_bytes 0 (to_le_bytes (0x5003 :: u32)) (\<lambda>_. 0))"
  "eb_profile sample_builder = Protected Flat32" "stack_width TYPE(32)" "same_stack b t n k d d"
  "stack_readable sample_builder (stack_segment (sample_cpu esp))"
  by (simp_all add: sample_builder_def stack_width_def same_stack_refl stack_readable_def emitted_permitted_def known_def assumptions_def)

lemma frame_commit_run:
  "frame_commit f k d = Some (Inr (), d\<lparr>gprs := (gprs d)(Esp := sp_esp (pointer_advance (sf_pointer f) (k + sf_adjustment f)))\<rparr>)"
  by (simp add: frame_commit_def pointer_commit_def write_register_def change_def)

lemma popped_pointer:
  "pointer_advance (pointer_of b d) (0 + n) = pointer_advance (pointer_of b c) 0 \<Longrightarrow> sp_esp (pointer_advance (pointer_of b d) n) = gprs c Esp"
  by (simp add: advance_zero) (simp add: pointer_of_def)

lemma below_split:
  assumes "pointer_ok p" "n + k < 4096"
  shows "below b r (pointer_advance p (- of_nat n)) k \<subseteq> below b r p (n + k)"
    "below b r (pointer_advance p (- of_nat n)) k \<inter> below b r p n = {}"
    "below b r p n \<subseteq> below b r p (n + k)"
proof -
  have neg: "(ucast (- of_nat n :: u32) :: 12 word) = - of_nat n"
    using ucast_add_narrow(1) [of "of_nat n" "- of_nat n"] by (simp add: ucast_of_nat12 add_eq_0_iff)
  have "bit (sp_esp (pointer_advance p x)) m = bit (sp_esp p + x) m" if "m < 12" for m x
    using assms(1) that by (auto simp: pointer_advance_def with_offset_esp pointer_ok_def)
  then have "(ucast (sp_esp (pointer_advance p x)) :: 12 word) = ucast (sp_esp p + x)" for x
    by (intro bit_word_eqI) (simp add: bit_ucast_iff)
  then have e: "(ucast (sp_esp (pointer_advance p (- of_nat n))) :: 12 word) = ucast (sp_esp p) - of_nat n"
    by (simp add: ucast_add_narrow neg)
  let ?h = "\<lambda>j. ucast (stack_base b r) + ucast (sp_esp p) - of_nat j :: 12 word"
  have lower: "below b r (pointer_advance p (- of_nat n)) k = ?h ` (\<lambda>j. n + j) ` {1..k}"
    unfolding below_def e image_image by (rule image_cong) (simp_all add: algebra_simps)
  show "below b r (pointer_advance p (- of_nat n)) k \<subseteq> below b r p (n + k)"
    unfolding lower unfolding below_def by (rule image_mono) auto
  show "below b r p n \<subseteq> below b r p (n + k)"
    unfolding below_def by (rule image_mono) auto
  show "below b r (pointer_advance p (- of_nat n)) k \<inter> below b r p n = {}"
  proof -
    have "?h i = ?h j \<longleftrightarrow> i = j" if "i < 4096" "j < 4096" for i j using that by (simp add: of_nat12_eq)
    then show ?thesis unfolding lower unfolding below_def using assms(2) by (auto simp del: of_nat_add)
  qed
qed

subsection \<open>PUSHA and POPA\<close>

definition restored :: "'a::len itself \<Rightarrow> register_file \<Rightarrow> gpr32 list \<Rightarrow> register_file \<Rightarrow> register_file" where
  "restored _ saved rs regs =
     fold (\<lambda>r regs. if r = Esp then regs else set_view (NamedView r 0) (get_view (NamedView r 0) saved :: 'a word) regs) rs regs"

lemma look_and_then: "and_then (look h) k c = k (h c) c"
  by (simp add: and_then_def look_def)

lemma pop_registers_append:
  "pop_registers T b (xs @ ys) p = and_then (pop_registers T b xs p) (pop_registers T b ys)"
proof (induction xs arbitrary: p)
  case (Cons x xs)
  then show ?case by (simp only: append_Cons pop_registers.simps and_then_assoc)
qed simp

lemma pop_one:
  assumes "holds_at b p (v :: 'a::len word) d"
  shows "pop_registers TYPE('a) b [r] p d =
    Some (Inr (pointer_advance p (width_bytes_of TYPE('a))), if r = Esp then d else d\<lparr>gprs := set_view (NamedView r 0) v (gprs d)\<rparr>)"
  using assms unfolding holds_at_def
  by (auto simp: and_then_def run_steps(1-5) next_pointer_def write_parent_def write_register_def)

lemma push_registers_saved:
  assumes b: "eb_memory b = VirtualMemory t" and w: "stack_width TYPE('a::len)"
  shows "pointer_ok p \<Longrightarrow> length rs * (LENGTH('a) div 8) < 4096 \<Longrightarrow> stack_readable b (stack_segment c) \<Longrightarrow>
    push_registers TYPE('a) b rs p c = Some (Inr q, c1) \<Longrightarrow>
    q = pointer_advance p (- of_nat (length rs * (LENGTH('a) div 8))) \<and>
    (\<exists>g. c1 = c\<lparr>cpu_guest := (cpu_guest c)\<lparr>storage := g\<rparr>\<rparr> \<and>
      (\<forall>x. page_tag x \<notin> below b (stack_segment c) p (length rs * (LENGTH('a) div 8)) \<longrightarrow> g x = storage (cpu_guest c) x)) \<and>
    (\<forall>d. stack_segment d = stack_segment c \<longrightarrow>
      (\<forall>i<length rs. \<forall>j<LENGTH('a) div 8.
        let x = slot_byte b t (stack_segment c) (pointer_advance q (of_nat (i * (LENGTH('a) div 8)))) j in
        storage (cpu_guest d) x = storage (cpu_guest c1) x) \<longrightarrow>
      pop_registers TYPE('a) b (rev rs) q d = Some (Inr p, d\<lparr>gprs := restored TYPE('a) (gprs c) (rev rs) (gprs d)\<rparr>))"
proof (induction rs arbitrary: p c)
  case Nil
  then show ?case by (auto simp: ret_def advance_zero restored_def intro: exI [where x = "storage (cpu_guest c)"])
next
  case (Cons r rs)
  let ?n = "LENGTH('a) div 8" and ?seg = "stack_segment c"
  let ?v = "get_view (NamedView r 0) (gprs c) :: 'a word"
  have nb: "width_bytes_of TYPE('a) = of_nat ?n" by (simp add: width_bytes_of_def)
  have run: "push_registers TYPE('a) b (r # rs) p c = and_then (push_at b p ?v) (\<lambda>f. push_registers TYPE('a) b rs (next_pointer f)) c"
    by (simp add: push_at_def and_then_assoc read_parent_def read_register_def look_and_then)
  from Cons.prems(4) obtain f c' where f: "push_at b p ?v c = Some (Inr f, c')"
    and rest: "push_registers TYPE('a) b rs (next_pointer f) c' = Some (Inr q, c1)" unfolding run by (auto simp: and_then_Some)
  note slot = push_at_slot [OF b w Cons.prems(1) f, unfolded nb]
  define p' where "p' = pointer_advance p (- of_nat ?n)"
  have tags: "page_tag (slot_byte b t ?seg p' j) \<in> below b ?seg p ?n" if "j < ?n" for j
    using slot_tags [OF Cons.prems(1) that] by (simp add: p'_def)
  obtain g where c': "c' = c\<lparr>cpu_guest := (cpu_guest c)\<lparr>storage := g\<rparr>\<rparr>"
    and g0: "\<And>x. (\<forall>j<?n. x \<noteq> slot_byte b t ?seg p' j) \<Longrightarrow> g x = storage (cpu_guest c) x" using slot(4) unfolding p'_def by blast
  have g: "g x = storage (cpu_guest c) x" if "page_tag x \<notin> below b ?seg p ?n" for x by (rule g0) (use tags that in auto)
  have p': "pointer_ok p'" using Cons.prems(1) by (simp add: p'_def)
  have same: "stack_segment c' = ?seg" "gprs c' = gprs c" "storage (cpu_guest c') = g" by (simp_all add: c')
  have "length rs * ?n < 4096" "stack_readable b (stack_segment c')" using Cons.prems(2,3) by (simp_all add: c')
  note ih = Cons.IH [OF p' this rest [unfolded slot(1) p'_def [symmetric]], unfolded same]
  have ih1: "q = pointer_advance p' (- of_nat (length rs * ?n))" using ih by blast
  have ih3: "pop_registers TYPE('a) b (rev rs) q d = Some (Inr p', d\<lparr>gprs := restored TYPE('a) (gprs c) (rev rs) (gprs d)\<rparr>)"
    if "stack_segment d = ?seg" "\<forall>i<length rs. \<forall>j<?n. let x = slot_byte b t ?seg (pointer_advance q (of_nat (i * ?n))) j in
      storage (cpu_guest d) x = storage (cpu_guest c1) x" for d
    using ih that by blast
  obtain g' where c1: "c1 = c\<lparr>cpu_guest := (cpu_guest c)\<lparr>storage := g'\<rparr>\<rparr>"
    and g': "\<And>x. page_tag x \<notin> below b ?seg p' (length rs * ?n) \<Longrightarrow> g' x = g x" using ih by (auto simp: c')
  have fit: "?n + length rs * ?n < 4096" using Cons.prems(2) by simp
  note parts = below_split [OF Cons.prems(1) fit, of b ?seg, folded p'_def]
  have len: "length (r # rs) * ?n = ?n + length rs * ?n" by simp
  have q: "q = pointer_advance p (- of_nat (length (r # rs) * ?n))"
    unfolding ih1 p'_def len pointer_advance_twice [OF Cons.prems(1)] by (simp only: of_nat_add minus_add_distrib)
  have top: "pointer_advance q (of_nat (length rs * ?n)) = p'"
    unfolding ih1 pointer_advance_twice [OF p'] by (simp add: advance_zero [OF p'])
  have kept: "\<forall>x. page_tag x \<notin> below b ?seg p (length (r # rs) * ?n) \<longrightarrow> g' x = storage (cpu_guest c) x"
  proof (intro allI impI)
    fix x assume x: "page_tag x \<notin> below b ?seg p (length (r # rs) * ?n)"
    then have "page_tag x \<notin> below b ?seg p' (length rs * ?n)" "page_tag x \<notin> below b ?seg p ?n"
      using parts(1,3) unfolding len by blast+
    then show "g' x = storage (cpu_guest c) x" using g g' by simp
  qed
  have pops: "pop_registers TYPE('a) b (rev (r # rs)) q d = Some (Inr p, d\<lparr>gprs := restored TYPE('a) (gprs c) (rev (r # rs)) (gprs d)\<rparr>)"
    if d: "stack_segment d = ?seg" "\<forall>i<length (r # rs). \<forall>j<?n. let x = slot_byte b t ?seg (pointer_advance q (of_nat (i * ?n))) j in
      storage (cpu_guest d) x = storage (cpu_guest c1) x" for d
  proof -
    let ?d = "d\<lparr>gprs := restored TYPE('a) (gprs c) (rev rs) (gprs d)\<rparr>"
    have "pop_registers TYPE('a) b (rev rs) q d = Some (Inr p', ?d)"
      by (rule ih3 [OF d(1)]) (use d(2) in simp)
    moreover have "holds_at b p' ?v ?d"
      unfolding p'_def
    proof (rule slot(5), goal_cases)
      case (3 j)
      let ?x = "slot_byte b t ?seg p' j"
      have "page_tag ?x \<notin> below b ?seg p' (length rs * ?n)" using tags [OF 3] parts(2) by blast
      then have "storage (cpu_guest c1) ?x = g ?x" using g' by (simp add: c1)
      moreover have "storage (cpu_guest d) ?x = storage (cpu_guest c1) ?x"
        using d(2) [rule_format, of "length rs" j] 3 by (simp only: top Let_def) simp
      ultimately show ?case by (simp add: c' p'_def)
    qed (use d(1) Cons.prems(3) in simp_all)
    moreover have "pointer_advance p' (width_bytes_of TYPE('a)) = p"
      unfolding p'_def nb by (simp add: pointer_advance_twice [OF Cons.prems(1)] advance_zero [OF Cons.prems(1)])
    ultimately show ?thesis
      using pop_one [of b p' ?v ?d r]
      by (simp add: pop_registers_append and_then_def [of "pop_registers _ _ _ _"] restored_def del: pop_registers.simps)
  qed
  show ?case using q c1 kept pops by blast
qed

lemma sample_entry:
  assumes "unat a < 4096"
  shows "page_entry (store_bytes 0 (to_le_bytes (0x5003 :: u32)) (\<lambda>_. 0)) a = 0x5003"
proof -
  have "drop_bit 12 a = 0" using assms by (simp add: drop_bit_eq_div word_unat_eq_iff unat_div)
  then have e: "push_bit 2 (drop_bit 12 a) = 0" by simp
  show ?thesis unfolding page_entry_def e by code_simp
qed

lemma sample_push:
  assumes "segs c = segments_flat32" "sp_mask p = - 1" "4 \<le> unat (sp_esp p)" "unat (sp_esp p) \<le> 4096"
  shows "\<exists>f c1. push_at sample_builder p (v :: u32) c = Some (Inr f, c1)"
proof -
  let ?t = "store_bytes 0 (to_le_bytes (0x5003 :: u32)) (\<lambda>_. 0)" and ?l = "sp_esp p - 4"
  have l: "unat ?l = unat (sp_esp p) - 4" using assms(3) by (simp add: unat_sub word_le_nat_alt)
  have "unat (?l + of_nat k) < 4096" if "k < 4" for k
    using l assms(3,4) that by (simp add: unat_word_ariths unsigned_of_nat take_bit_nat_eq_self)
  then have "first_denied ?t (required_permissions Write) ?l (unat (4 :: u32)) = None"
    by (simp add: first_denied_None sample_entry required_permissions_def page_consts)
  then obtain a where a: "resolve_access sample_builder ?l 4 Write c = Some (Inr a, c)"
    using resolve_virtual(2) [OF sample_stack(1), of 4 Write ?l c] by auto
  have p: "proves ?t a" "ac_bytes a = Some (width_bytes_of TYPE(32))" "ac_intent a = Write"
    using resolve_virtual(1) [OF sample_stack(1) _ _ a] by (simp_all add: width_bytes_of_def)
  have tr: "translate_segment (eb_profile sample_builder) Ss (segments_index (segs c) Ss) (pointer_offset (pointer_advance p (- 4))) 4 Write = Inr ?l"
    using assms(1,2)
    by (simp add: translate_segment_def segment_check_def sample_builder_def access_denied_def assumptions_def known_def emitted_permitted_def
        pointer_offset_def pointer_advance_def with_offset_def)
  show ?thesis
    using stack_transfer(2) [OF sample_stack(1,3) p, of v c] a tr
    by (simp add: push_at_def pointer_push_frame_def Let_def exec_translate_def and_then_def ret_def frame_field_def width_bytes_of_def)
qed

lemma sample_push_value:
  assumes "segs c = segments_flat32" "4 \<le> unat (gprs c Esp)" "unat (gprs c Esp) \<le> 4096"
  shows "\<exists>c1. push_value sample_builder (v :: u32) 4 c = Some (Inr (), c1)"
proof -
  have p: "sp_mask (pointer_of sample_builder c) = - 1" "sp_esp (pointer_of sample_builder c) = gprs c Esp"
    using assms(1) by (simp_all add: pointer_of_def sample_builder_def segment_big_def assumptions_def known_def)
  obtain f c1 where "push_at sample_builder (pointer_of sample_builder c) v c = Some (Inr f, c1)"
    using sample_push [OF assms(1) p(1)] p(2) assms(2,3) by metis
  with push_value_at [of sample_builder v c] show ?thesis
    by (auto simp: width_bytes_of_def and_then_def frame_commit_run)
qed

lemma sample_push_registers:
  "segs c = segments_flat32 \<Longrightarrow> sp_mask p = - 1 \<Longrightarrow> 4 * length rs \<le> unat (sp_esp p) \<Longrightarrow> unat (sp_esp p) \<le> 4096 \<Longrightarrow>
   \<exists>q c1. push_registers TYPE(32) sample_builder rs p c = Some (Inr q, c1)"
proof (induction rs arbitrary: p c)
  case (Cons r rs)
  let ?v = "get_view (NamedView r 0) (gprs c) :: u32"
  have ok: "pointer_ok p" using Cons.prems(2) by (simp add: pointer_ok_def)
  obtain f c1 where f: "push_at sample_builder p ?v c = Some (Inr f, c1)"
    using sample_push [of c p ?v] Cons.prems by auto
  note slot = push_at_slot [OF sample_stack(1,3) ok f]
  have n: "next_pointer f = pointer_advance p (- 4)" "segs c1 = segments_flat32" using slot(1,4) Cons.prems(1) by (auto simp: width_bytes_of_def)
  have "sp_esp (next_pointer f) = sp_esp p - 4" by (simp add: n Cons.prems(2) pointer_advance_def with_offset_def)
  moreover have "unat (sp_esp p - 4) = unat (sp_esp p) - 4" using Cons.prems(3) by (simp add: unat_sub word_le_nat_alt)
  ultimately have e: "unat (sp_esp (next_pointer f)) = unat (sp_esp p) - 4" by simp
  have "sp_mask (next_pointer f) = - 1" by (simp add: n(1) Cons.prems(2))
  moreover have "4 * length rs \<le> unat (sp_esp (next_pointer f))" using e Cons.prems(3) by simp
  moreover have "unat (sp_esp (next_pointer f)) \<le> 4096" using e Cons.prems(4) by simp
  ultimately obtain q c2 where "push_registers TYPE(32) sample_builder rs (next_pointer f) c1 = Some (Inr q, c2)"
    using Cons.IH [OF n(2)] by blast
  moreover have "push_registers TYPE(32) sample_builder (r # rs) p c =
      and_then (push_at sample_builder p ?v) (\<lambda>f. push_registers TYPE(32) sample_builder rs (next_pointer f)) c"
    by (simp add: push_at_def and_then_assoc read_parent_def read_register_def look_and_then)
  ultimately show ?case using f by (simp add: and_then_def)
qed (simp add: ret_def)

lemma sample_esp: "segs (sample_cpu esp) = segments_flat32" "gprs (sample_cpu esp) Esp = esp"
  by (simp_all add: sample_cpu_def)

text \<open>C10: PUSH and POP undo each other. Over translated memory with a readable stack segment, whatever the page
  tables alias, a word or doubleword pushed from any operand is what a later POP into a register receives, and
  the stack pointer is the one before the push. The code between them may change everything but SS, ESP and
  the bytes of the pushed slot.\<close>

theorem push_pop_round_trip:
  fixes b :: "'s builder"
  assumes "eb_memory b = VirtualMemory t" and "stack_width TYPE('a::len)" and "stack_readable b (stack_segment c)"
    and "exec_push TYPE('a) b source c = Some (Inr (), c1)" and "same_stack b t (LENGTH('a) div 8) 1 c1 d" and "register_view TYPE('a) r = Some view"
  shows "\<exists>v :: 'a word. exec_read b source c = Some (Inr v, c) \<and>
    exec_pop TYPE('a) b (RegisterAt r) d = Some (Inr (), d\<lparr>gprs := set_view view v ((gprs d)(Esp := gprs c Esp))\<rparr>)"
proof -
  have "is_virtual b" using assms(1) by (simp add: is_virtual_def)
  then obtain v :: "'a word" where v: "exec_read b source c = Some (Inr v, c)"
    and m: "push_value b v (width_bytes_of TYPE('a)) c = Some (Inr (), c1)"
    using assms(4) free_exec_read [of b source] by (auto simp: exec_push_def and_then_Some effect_free_def)
  note top = push_value_top [OF assms(1-3) m assms(5)]
  obtain f a where f: "pop_frame b (width_bytes_of TYPE('a)) (width_bytes_of TYPE('a)) d = Some (Inr f, d)"
    "frame_field TYPE('a) b f 0 d = Some (Inr a, d)" "memory_read (eb_memory b) a 0 d = Some (Inr v, d)"
    "sf_pointer f = pointer_of b d" "sf_adjustment f = width_bytes_of TYPE('a)"
    using holds_pop [OF top(1)] by blast
  have "exec_pop TYPE('a) b (RegisterAt r) d = Some (Inr (), d\<lparr>gprs := set_view view v ((gprs d)(Esp := gprs c Esp))\<rparr>)"
    using popped_pointer [OF top(2) [of 0]]
    by (simp add: exec_pop_def and_then_def f prepare_write_def assms(6) run_steps(1-5) frame_commit_run write_register_def)
  with v show ?thesis by blast
qed

theorem push_pop_round_trip_witness:
  "\<exists>c1. exec_push TYPE(32) sample_builder (Immediate 9) (sample_cpu 0x100) = Some (Inr (), c1) \<and>
    exec_pop TYPE(32) sample_builder (RegisterAt (NamedOperand (low_register Ebx))) c1 =
      Some (Inr (), c1\<lparr>gprs := (gprs c1)(Esp := 0x100, Ebx := 9)\<rparr>)"
proof -
  obtain c1 where c1: "exec_push TYPE(32) sample_builder (Immediate 9) (sample_cpu 0x100) = Some (Inr (), c1)"
    using sample_push_value [of "sample_cpu 0x100" 9] by (auto simp: sample_esp exec_push_def exec_read_def width_bytes_of_def)
  have view: "register_view TYPE(32) (NamedOperand (low_register Ebx)) = Some (NamedView Ebx 0)"
    by (simp add: low_register_def register_named_def)
  have esp: "gprs (sample_cpu 0x100) Esp = 0x100" by (simp add: sample_cpu_def)
  from push_pop_round_trip [OF sample_stack(1,3,5) c1 sample_stack(4) view] c1 esp show ?thesis
    by (auto simp: exec_read_def ret_def)
qed

text \<open>C11: a near CALL, direct or indirect, and RET undo each other over translated memory with a readable stack
  segment. From any state with the SS, the ESP and the bytes of the pushed slot the call left, and whatever else,
  RET returns to the address after the call, truncated to the operand size, with the stack pointer before the
  call advanced by the discarded bytes, provided that address passes the code segment's check.\<close>

theorem call_return_round_trip:
  fixes b :: "'s builder"
  assumes "eb_memory b = VirtualMemory t" and "stack_width TYPE('a::len)" and "stack_readable b (stack_segment c)"
    and "call_relative TYPE('a) b operand fallthrough c = Some (Inr target, c1) \<or>
      call_indirect TYPE('a) b operand fallthrough c = Some (Inr target, c1)"
    and "same_stack b t (LENGTH('a) div 8) 1 c1 d"
    and "\<not> fst (segment_check (eb_profile b) Cs (segments_index (segs d) Cs) (ucast (ucast fallthrough :: 'a word)) 1 Fetch)"
  shows "return_near TYPE('a) b (Immediate discard) d =
    Some (Inr (ucast (ucast fallthrough :: 'a word)),
      d\<lparr>gprs := (gprs d)(Esp := sp_esp (pointer_advance (pointer_of b c) (ucast (ucast discard :: u16))))\<rparr>)"
proof -
  have "is_virtual b" using assms(1) by (simp add: is_virtual_def)
  have m: "push_value b (ucast fallthrough :: 'a word) (width_bytes_of TYPE('a)) c = Some (Inr (), c1)"
    using assms(4)
  proof (rule disjE)
    assume "call_relative TYPE('a) b operand fallthrough c = Some (Inr target, c1)"
    with \<open>is_virtual b\<close> show ?thesis using free_exec_read [of b operand] free_checks(3) [of b]
      by (fastforce simp: call_relative_def and_then_Some effect_free_def ret_def)
  next
    assume "call_indirect TYPE('a) b operand fallthrough c = Some (Inr target, c1)"
    with \<open>is_virtual b\<close> show ?thesis using free_exec_read [of b operand] free_checks(3) [of b]
      by (fastforce simp: call_indirect_def and_then_Some effect_free_def ret_def)
  qed
  note top = push_value_top [OF assms(1-3) m assms(5)]
  obtain f a where f: "pop_frame b (width_bytes_of TYPE('a)) (width_bytes_of TYPE('a)) d = Some (Inr f, d)"
    "frame_field TYPE('a) b f 0 d = Some (Inr a, d)" "memory_read (eb_memory b) a 0 d = Some (Inr (ucast fallthrough :: 'a word), d)"
    "sf_pointer f = pointer_of b d" "sf_adjustment f = width_bytes_of TYPE('a)"
    using holds_pop [OF top(1)] by blast
  have j: "jump b (ucast (ucast fallthrough :: 'a word)) d = Some (Inr (ucast (ucast fallthrough :: 'a word)), d)"
    using assms(6) by (simp add: jump_def check_code_target_def and_then_def run_steps(1-6))
  show ?thesis
    by (simp add: return_near_def exec_read_def and_then_def f j run_steps(1-5) frame_commit_run top(2))
qed

theorem call_return_round_trip_witness:
  "\<exists>c1. call_relative TYPE(32) sample_builder (Immediate 0x20) 0x50 (sample_cpu 0x100) = Some (Inr 0x70, c1) \<and>
    call_indirect TYPE(32) sample_builder (Immediate 0x70) 0x50 (sample_cpu 0x100) = Some (Inr 0x70, c1) \<and>
    return_near TYPE(32) sample_builder (Immediate 8) c1 = Some (Inr 0x50, c1\<lparr>gprs := (gprs c1)(Esp := 0x108)\<rparr>)"
proof -
  let ?b = sample_builder
  have j: "jump ?b 0x70 c = Some (Inr 0x70, c)" if "segs c = segments_flat32" for c
    using that by (simp add: jump_def check_code_target_def and_then_def run_steps(1-6) segment_check_def access_denied_def sample_builder_def
        assumptions_def known_def emitted_permitted_def)
  obtain c1 where m: "push_value ?b (ucast (0x50 :: u32) :: u32) 4 (sample_cpu 0x100) = Some (Inr (), c1)"
    using sample_push_value [of "sample_cpu 0x100" "ucast (0x50 :: u32)"] by (auto simp: sample_esp)
  have c1: "call_relative TYPE(32) ?b (Immediate 0x20) 0x50 (sample_cpu 0x100) = Some (Inr 0x70, c1)"
    using m j [of "sample_cpu 0x100"]
    by (simp add: call_relative_def exec_read_def relative_target_def sample_esp width_bytes_of_def) (simp add: and_then_def ret_def)
  have indirect: "call_indirect TYPE(32) ?b (Immediate 0x70) 0x50 (sample_cpu 0x100) = Some (Inr 0x70, c1)"
    using m j [of "sample_cpu 0x100"]
    by (simp add: call_indirect_def exec_read_def sample_esp width_bytes_of_def) (simp add: and_then_def ret_def)
  have cs: "\<not> fst (segment_check (eb_profile ?b) Cs (segments_index (segs c1) Cs) (ucast (ucast (0x50 :: u32) :: u32)) 1 Fetch)"
    by (simp add: segment_check_def access_denied_def sample_builder_def assumptions_def known_def emitted_permitted_def)
  have p: "sp_esp (pointer_advance (pointer_of ?b (sample_cpu 0x100)) (ucast (ucast (8 :: u32) :: u16))) = 0x108" by code_simp
  show ?thesis using call_return_round_trip [OF sample_stack(1,3,5) disjI2 [OF indirect] sample_stack(4) cs, of 8] c1 indirect p by auto
qed

text \<open>C12: PUSHF and POPF undo each other in protected mode, over translated memory with a readable stack segment.
  Whatever happened in between to the flags and to anything else but SS, ESP and the bytes of the pushed slot,
  POPF gives back the value each flag of the image had at PUSHF, at either operand size, and leaves the other
  flags, IF among them, as it finds them.\<close>

theorem flags_round_trip:
  fixes b :: "'s builder"
  assumes "eb_memory b = VirtualMemory t" and "stack_width TYPE('a::len)" and "stack_readable b (stack_segment c)"
    and "eb_profile b = Protected p" and "push_flags TYPE('a) b c = Some (Inr (), c1)" and "same_stack b t (LENGTH('a) div 8) 1 c1 d"
  shows "pop_flags TYPE('a) b fallthrough d =
    Some (Inr (Continue fallthrough), d\<lparr>gprs := (gprs d)(Esp := gprs c Esp),
      cpu_flags := (\<lambda>f. if f \<in> image_flags LENGTH('a) then cpu_flags c f else cpu_flags d f)\<rparr>)"
proof -
  obtain w :: "'a word" where w: "read_stack_image b c = Some (Inr w, c)"
    and m: "push_value b w (width_bytes_of TYPE('a)) c = Some (Inr (), c1)"
    using assms(5) free_frames(5) [of b] by (fastforce simp: push_flags_def and_then_Some effect_free_def)
  note top = push_value_top [OF assms(1-3) m assms(6)]
  obtain f a where f: "pop_frame b (width_bytes_of TYPE('a)) (width_bytes_of TYPE('a)) d = Some (Inr f, d)"
    "frame_field TYPE('a) b f 0 d = Some (Inr a, d)" "memory_read (eb_memory b) a 0 d = Some (Inr w, d)"
    "sf_pointer f = pointer_of b d" "sf_adjustment f = width_bytes_of TYPE('a)"
    using holds_pop [OF top(1)] by blast
  define im where "im = (if LENGTH('a) = 16 then WORD_IMAGE else DWORD_IMAGE)"
  have len: "LENGTH('a) = 16 \<or> LENGTH('a) = 32" using assms(2) by (simp add: stack_width_def)
  have bits: "bit (ucast w :: u32) (flag_bit g) = cpu_flags c g" if "g \<in> set (fi_flags im)" for g
    using stack_image_bits [OF assms(2,4) w, of g] that flag_bit_less [of g] len
    by (auto simp: image_flags_def im_def bit_ucast_iff bit_imp_le_length)
  have fl: "flags_after (image_change im (ucast w)) (cpu_flags d) = (\<lambda>f. if f \<in> image_flags LENGTH('a) then cpu_flags c f else cpu_flags d f)"
    using image_restores [of im "ucast w" "cpu_flags c" "cpu_flags d"] bits by (simp add: fun_eq_iff image_flags_def im_def)
  have im': "(if LENGTH('a) = 16 then Some (image_change WORD_IMAGE (ucast w)) else if LENGTH('a) = 32 then Some (image_change DWORD_IMAGE (ucast w)) else None)
      = Some (image_change im (ucast w))" using len by (auto simp: im_def)
  show ?thesis
    using popped_pointer [OF top(2) [of 0]] fl
    by (simp add: pop_flags_def and_then_def f frame_commit_run write_stack_image_def Let_def im' run_steps(1-5) assms(4) write_flags_def
        interrupts_enabled_if_def)
qed

lemma restored_all:
  "restored TYPE('a) saved (rev ALL_GPRS) regs g =
     (if g = Esp then regs Esp else set_view (NamedView g 0) (get_view (NamedView g 0) saved :: 'a::len word) regs g)"
  by (cases g) (simp_all add: restored_def ALL_GPRS_def set_view_def)

theorem flags_round_trip_witness:
  "\<exists>c1. push_flags TYPE(32) sample_builder (sample_cpu 0x100) = Some (Inr (), c1) \<and>
    (\<exists>d. pop_flags TYPE(32) sample_builder 2 (c1\<lparr>cpu_flags := (\<lambda>_. True)\<rparr>) = Some (Inr (Continue 2), d) \<and>
      cpu_flags d (Status ZF) \<and> \<not> cpu_flags d (Status CF) \<and> cpu_flags d IF)"
proof -
  let ?b = sample_builder
  obtain w :: u32 where w: "read_stack_image ?b (sample_cpu 0x100) = Some (Inr w, sample_cpu 0x100)"
    by (simp add: read_stack_image_def exec_read_flags_def and_then_def ret_def look_def sample_stack(2))
  obtain c1 where c1: "push_flags TYPE(32) ?b (sample_cpu 0x100) = Some (Inr (), c1)"
    using sample_push_value [of "sample_cpu 0x100" w] w by (auto simp: sample_esp push_flags_def and_then_def width_bytes_of_def)
  have same: "same_stack ?b t n k c1 (c1\<lparr>cpu_flags := (\<lambda>_. True)\<rparr>)" for t n k by (simp add: same_stack_def)
  have fl: "Status ZF \<in> image_flags 32" "Status CF \<in> image_flags 32" "IF \<notin> image_flags 32"
    "cpu_flags (sample_cpu 0x100) (Status ZF)" "\<not> cpu_flags (sample_cpu 0x100) (Status CF)"
    by (simp_all add: image_flags_def DWORD_IMAGE_def sample_cpu_def)
  from flags_round_trip [OF sample_stack(1,3,5,2) c1 same, of 2] c1 fl show ?thesis by simp
qed

text \<open>C5: PUSHA and POPA undo each other over translated memory with a readable stack segment. The code in between
  may change every register but SS and ESP and every byte of memory but the eight slots PUSHA filled. However
  those sixteen or thirty-two bytes are laid out over aliased or scattered pages or a wrapping stack pointer, POPA
  gives back each register's operand-sized low part and the stack pointer before PUSHA.\<close>

theorem push_all_pop_all:
  fixes b :: "'s builder"
  assumes "eb_memory b = VirtualMemory t" and "stack_width TYPE('a::len)" and "stack_readable b (stack_segment c)"
    and "push_all_registers TYPE('a) b c = Some (Inr (), c1)" and "same_stack b t (LENGTH('a) div 8) 8 c1 d"
  shows "pop_all_registers TYPE('a) b d = Some (Inr (), d\<lparr>gprs := (\<lambda>g.
    if g = Esp then gprs c Esp
    else set_view (NamedView g 0) (get_view (NamedView g 0) (gprs c) :: 'a word) (gprs d) g)\<rparr>)"
proof -
  let ?p = "pointer_of b c"
  from assms(4) obtain q c' where q: "push_registers TYPE('a) b ALL_GPRS ?p c = Some (Inr q, c')"
    and c1: "c1 = c'\<lparr>gprs := (gprs c')(Esp := sp_esp q)\<rparr>"
    by (auto simp: push_all_registers_def and_then_Some read_stack_pointer_run Let_def fault_if_def ret_def pointer_commit_def
        write_register_def change_def split: execution_profile.splits if_splits)
  have len: "length ALL_GPRS * (LENGTH('a) div 8) < 4096" using assms(2) by (auto simp: ALL_GPRS_def stack_width_def)
  note saved = push_registers_saved [OF assms(1,2) pointer_of_ok len assms(3) q]
  then obtain g where c': "c' = c\<lparr>cpu_guest := (cpu_guest c)\<lparr>storage := g\<rparr>\<rparr>" by blast
  have d: "stack_segment d = stack_segment c" "stack_segment c1 = stack_segment c" "gprs d Esp = sp_esp q" "gprs c1 Esp = sp_esp q"
    using assms(5) by (simp_all add: same_stack_def c1 c')
  have "q = pointer_advance ?p (- of_nat (length ALL_GPRS * (LENGTH('a) div 8)))" using saved by blast
  with d have p: "pointer_of b d = q" "pointer_of b c1 = q" by (metis pointer_of_eq)+
  have bytes: "\<forall>i<length ALL_GPRS. \<forall>j<LENGTH('a) div 8.
      let x = slot_byte b t (stack_segment c) (pointer_advance q (of_nat (i * (LENGTH('a) div 8)))) j in
      storage (cpu_guest d) x = storage (cpu_guest c') x"
  proof -
    have "length ALL_GPRS = 8" "segs c1 = segs c" by (simp_all add: ALL_GPRS_def c1 c')
    moreover have "storage (cpu_guest c') = storage (cpu_guest c1)" by (simp add: c1)
    ultimately show ?thesis using assms(5) unfolding same_stack_def p by metis
  qed
  then have "pop_registers TYPE('a) b (rev ALL_GPRS) q d =
      Some (Inr ?p, d\<lparr>gprs := restored TYPE('a) (gprs c) (rev ALL_GPRS) (gprs d)\<rparr>)" using saved d(1) by blast
  moreover have "(restored TYPE('a) (gprs c) (rev ALL_GPRS) (gprs d))(Esp := sp_esp ?p) = (\<lambda>g.
      if g = Esp then gprs c Esp else set_view (NamedView g 0) (get_view (NamedView g 0) (gprs c) :: 'a word) (gprs d) g)"
    by (rule ext) (simp add: restored_all pointer_of_def)
  ultimately show ?thesis
    by (simp add: p pop_all_registers_def and_then_def read_stack_pointer_run pointer_commit_def write_register_def run_steps(5))
qed

theorem push_all_pop_all_witness:
  "\<exists>c1. push_all_registers TYPE(32) sample_builder (sample_cpu 0x100) = Some (Inr (), c1) \<and>
    pop_all_registers TYPE(32) sample_builder (c1\<lparr>gprs := (\<lambda>_. 5)(Esp := gprs c1 Esp)\<rparr>) =
      Some (Inr (), c1\<lparr>gprs := gprs (sample_cpu 0x100)\<rparr>)"
proof -
  let ?b = sample_builder
  have "sp_mask (pointer_of ?b (sample_cpu 0x100)) = - 1" "sp_esp (pointer_of ?b (sample_cpu 0x100)) = 0x100"
    by (simp_all add: pointer_of_def sample_builder_def segment_big_def assumptions_def known_def sample_esp)
  then obtain q c' where "push_registers TYPE(32) ?b ALL_GPRS (pointer_of ?b (sample_cpu 0x100)) (sample_cpu 0x100) = Some (Inr q, c')"
    using sample_push_registers [of "sample_cpu 0x100" "pointer_of ?b (sample_cpu 0x100)" ALL_GPRS] by (auto simp: sample_esp ALL_GPRS_def)
  then obtain c1 where c1: "push_all_registers TYPE(32) ?b (sample_cpu 0x100) = Some (Inr (), c1)"
    by (auto simp: push_all_registers_def and_then_def read_stack_pointer_run sample_stack(2) ret_def pointer_commit_def write_register_def change_def)
  have same: "same_stack ?b t n k c1 (c1\<lparr>gprs := (\<lambda>_. 5)(Esp := gprs c1 Esp)\<rparr>)" for t n k by (simp add: same_stack_def)
  from push_all_pop_all [OF sample_stack(1,3,5) c1 same] c1 show ?thesis by (auto simp: fun_eq_iff cong: if_cong)
qed

end
