(* ===== verification/X86_Operations.thy ===== *)
theory X86_Operations
  imports X86_Stack
begin

unbundle bit_operations_syntax

text \<open>
  Results of the arithmetic instructions as the processor's state shows them: the LOCK prefix changes no
  result of a sequential run, and DIV and IDIV deliver the mathematical quotient and remainder of the
  register pair or raise the divide error without an effect.
\<close>

subsection \<open>The LOCK prefix\<close>

lemma locked_builder [simp]:
  "eb_memory (b\<lparr>eb_locked := l\<rparr>) = eb_memory b" "eb_profile (b\<lparr>eb_locked := l\<rparr>) = eb_profile b"
  "eb_override (b\<lparr>eb_locked := l\<rparr>) = eb_override b" "eb_address_size (b\<lparr>eb_locked := l\<rparr>) = eb_address_size b"
  "eb_locked (b\<lparr>eb_locked := l\<rparr>) = l"
  by simp_all

lemma locked_checks [simp]:
  "exec_translate (b\<lparr>eb_locked := l\<rparr>) = exec_translate b" "resolve_access (b\<lparr>eb_locked := l\<rparr>) = resolve_access b"
  by (simp_all add: fun_eq_iff exec_translate_def resolve_access_def)

lemma locked_checked [simp]: "checked (b\<lparr>eb_locked := l\<rparr>) = checked b"
  by (simp add: fun_eq_iff checked_def)

lemma locked_operand_at [simp]: "memory_operand_at (b\<lparr>eb_locked := l\<rparr>) = memory_operand_at b"
  by (simp add: fun_eq_iff memory_operand_at_def)

lemma locked_operands [simp]:
  "operand_read (b\<lparr>eb_locked := l\<rparr>) = operand_read b" "operand_write (b\<lparr>eb_locked := l\<rparr>) = operand_write b"
  "operand_atomic_update (b\<lparr>eb_locked := l\<rparr>) = operand_atomic_update b"
  by (simp_all add: fun_eq_iff operand_read_def operand_write_def operand_atomic_update_def)

lemma locked_target_read [simp]: "target_read (b\<lparr>eb_locked := l\<rparr>) = target_read b"
  by (rule ext, rename_tac x, case_tac x) simp_all

lemma locked_target_write [simp]: "target_write (b\<lparr>eb_locked := l\<rparr>) = target_write b"
  by (rule ext, rename_tac x, case_tac x) (simp_all add: fun_eq_iff)

lemma locked_target_modify [simp]: "target_modify (b\<lparr>eb_locked := l\<rparr>) = target_modify b"
  by (intro ext, unfold target_modify_def locked_target_read locked_target_write locked_operands) (rule refl)

lemma locked_read_memory [simp]: "exec_read_memory (b\<lparr>eb_locked := l\<rparr>) = exec_read_memory b"
  by (simp add: fun_eq_iff exec_read_memory_def)

lemma locked_prepare_memory [simp]: "prepare_memory_write T (b\<lparr>eb_locked := l\<rparr>) = prepare_memory_write T b"
  by (simp add: fun_eq_iff prepare_memory_write_def)

lemma locked_prepare [simp]: "prepare_write T (b\<lparr>eb_locked := l\<rparr>) = prepare_write T b"
  by (intro ext, unfold prepare_write_def locked_prepare_memory, rule refl)

lemma locked_read [simp]: "exec_read (b\<lparr>eb_locked := l\<rparr>) = exec_read b"
  by (intro ext, unfold exec_read_def locked_read_memory, rule refl)

lemma locked_writes [simp]:
  "exec_write (b\<lparr>eb_locked := l\<rparr>) = exec_write b" "exec_update (b\<lparr>eb_locked := l\<rparr>) = exec_update b"
  "shift_operand (b\<lparr>eb_locked := l\<rparr>) = shift_operand b"
  by (simp_all add: fun_eq_iff exec_write_def exec_update_def shift_operand_def)

text \<open>A completion that neither reads nor writes guest memory.\<close>

definition guest_blind :: "('s, 'v) run \<Rightarrow> bool" where
  "guest_blind m \<longleftrightarrow> (\<forall>c g. m (c\<lparr>cpu_guest := g\<rparr>) = map_option (\<lambda>(r, c'). (r, c'\<lparr>cpu_guest := g\<rparr>)) (m c))"

lemma blind_write_flags: "guest_blind (write_flags ch)"
  by (simp add: guest_blind_def write_flags_def change_def)

lemma blind_require: "guest_blind (require v)"
  by (simp add: guest_blind_def require_def split: option.split)

lemma blind_write_register: "guest_blind (write_register r v)"
  by (simp add: guest_blind_def write_register_def change_def)

lemma blind_and_then: "guest_blind m \<Longrightarrow> (\<And>v. guest_blind (k v)) \<Longrightarrow> guest_blind (and_then m k)"
  by (auto simp: guest_blind_def and_then_def split: option.splits sum.splits)

lemmas blind_laws = blind_write_flags blind_require blind_write_register blind_and_then

lemma guest_blind_keeps: "guest_blind m \<Longrightarrow> m c = Some (r, c') \<Longrightarrow> cpu_guest c' = cpu_guest c"
proof -
  assume b: "guest_blind m" and m: "m c = Some (r, c')"
  have same: "c\<lparr>cpu_guest := cpu_guest c\<rparr> = c" by (cases c) simp
  have "m (c\<lparr>cpu_guest := cpu_guest c\<rparr>) = map_option (\<lambda>(r, c'). (r, c'\<lparr>cpu_guest := cpu_guest c\<rparr>)) (m c)"
    using b unfolding guest_blind_def by blast
  then have "c' = c'\<lparr>cpu_guest := cpu_guest c\<rparr>" unfolding same m by simp
  then have "cpu_guest c' = cpu_guest (c'\<lparr>cpu_guest := cpu_guest c\<rparr>)" by (rule arg_cong)
  then show ?thesis by simp
qed

lemma prepared_access:
  assumes "eb_memory b = VirtualMemory t" "operand_width TYPE('a::len)"
    and "prepare_write TYPE('a) b location bindings c = Some (Inr (TargetMemory mo), c')"
  shows "proves t (mo_access mo) \<and> ac_bytes (mo_access mo) = Some (width_bytes_of TYPE('a)) \<and> ac_intent (mo_access mo) = Write"
proof -
  let ?n = "width_bytes_of TYPE('a)"
  have n: "1 \<le> unat ?n" "unat ?n \<le> 4096" using assms(2) by (auto simp: width_bytes_of_def operand_width_def)
  from assms(3) obtain l d d' where "resolve_access b l ?n Write d = Some (Inr (mo_access mo), d')"
    by (auto simp: prepare_write_def and_then_Some ret_def require_def prepare_memory_write_def memory_operand_at_def checked_def
        span_of_def split: location.splits option.splits)
  from resolve_virtual(1) [OF assms(1) n this] show ?thesis by blast
qed

lemma modify_locked:
  fixes update :: "'a::len word operand_update" and b :: "'s builder"
  assumes b: "eb_memory b = VirtualMemory t" and w: "operand_width TYPE('a)"
    and a: "proves t (mo_access mo)" "ac_bytes (mo_access mo) = Some (width_bytes_of TYPE('a))" "ac_intent (mo_access mo) = Write"
    and k: "\<And>v. guest_blind (complete v)" "\<And>v. cannot_fault (complete v)"
  shows "target_modify b (TargetMemory mo) update True complete = target_modify b (TargetMemory mo) update False complete"
proof (rule ext)
  fix c :: "'s cpu"
  let ?a = "mo_access mo" and ?n = "LENGTH('a) div 8" and ?s = "storage (cpu_guest c)"
  have fw: "field_width TYPE('a)" and w': "LENGTH('a) \<in> {8, 16, 32, 64}" and un: "unat (width_bytes_of TYPE('a)) = ?n"
    using w by (auto simp: operand_width_def field_width_def width_bytes_of_def)
  define previous where "previous = (from_le_bytes (linear_bytes t ?s (ac_linear ?a) ?n) :: 'a word)"
  define g where "g = (cpu_guest c)\<lparr>storage := write_linear t (ac_linear ?a) (to_le_bytes (update_apply update previous)) ?s\<rparr>"
  have read: "operand_read b mo 0 c = Some (Inr previous, c)"
    using virtual_read_exact [OF fw a(1,2), of 0 ?s] un by (simp add: operand_read_def memory_read_def b previous_def)
  have upd: "operand_atomic_update b mo update c = Some (Inr previous, c\<lparr>cpu_guest := g\<rparr>)"
    using virtual_update_exact [OF w' a(1) _ a(3) previous_def, of update] a(2)
    by (simp add: operand_atomic_update_def memory_update_def b g_def width_bytes_of_def)
  have wr: "operand_write b mo 0 (update_apply update previous) d = Some (Inr (), d\<lparr>cpu_guest := g\<rparr>)" if "cpu_guest d = cpu_guest c" for d
    using virtual_write_exact [OF fw a(1,2) _ a(3), of 0 "update_apply update previous" ?s] un that
    by (simp add: operand_write_def memory_write_def b g_def)
  show "target_modify b (TargetMemory mo) update True complete c = target_modify b (TargetMemory mo) update False complete c"
  proof (cases "complete previous c")
    case None
    then show ?thesis using k(1) [of previous] by (simp add: target_modify_def and_then_def read upd guest_blind_def)
  next
    case (Some p)
    then obtain d where d: "complete previous c = Some (Inr (), d)" using k(2) [of previous] by (cases p; cases "fst p") (auto simp: cannot_fault_def)
    then have "complete previous (c\<lparr>cpu_guest := g\<rparr>) = Some (Inr (), d\<lparr>cpu_guest := g\<rparr>)" using k(1) [of previous] by (simp add: guest_blind_def)
    then show ?thesis using d wr [OF guest_blind_keeps [OF k(1) d]] by (simp add: target_modify_def and_then_def read upd)
  qed
qed

text \<open>A prepared target has one result whether its update is locked or not.\<close>

definition target_ok :: "backing \<Rightarrow> 'a::len itself \<Rightarrow> write_target \<Rightarrow> bool" where
  "target_ok t T target =
     (case target of
        TargetRegister _ \<Rightarrow> True
      | TargetMemory mo \<Rightarrow> proves t (mo_access mo) \<and> ac_bytes (mo_access mo) = Some (width_bytes_of T) \<and> ac_intent (mo_access mo) = Write)"

lemma modify_any:
  fixes update :: "'a::len word operand_update"
  assumes "eb_memory b = VirtualMemory t" "operand_width TYPE('a)" "target_ok t TYPE('a) target"
    "\<And>v. guest_blind (complete v)" "\<And>v. cannot_fault (complete v)"
  shows "target_modify b target update l complete = target_modify b target update False complete"
proof (cases target)
  case (TargetMemory mo)
  with assms(3) modify_locked [OF assms(1,2) _ _ _ assms(4,5), of mo update] show ?thesis by (cases l) (simp_all add: target_ok_def)
qed (simp add: target_modify_def)

lemma under_prepare:
  assumes "eb_memory b = VirtualMemory t" "operand_width TYPE('a::len)" "\<And>target. target_ok t TYPE('a) target \<Longrightarrow> k target = k' target"
  shows "and_then (prepare_write TYPE('a) b location bindings) k = and_then (prepare_write TYPE('a) b location bindings) k'"
proof (rule ext)
  fix c
  have "k target = k' target" if "prepare_write TYPE('a) b location bindings c = Some (Inr target, c')" for target c'
    using prepared_access [OF assms(1,2), of location bindings c _ c'] that
    by (intro assms(3)) (auto simp: target_ok_def split: write_target.split)
  then show "and_then (prepare_write TYPE('a) b location bindings) k c = and_then (prepare_write TYPE('a) b location bindings) k' c"
    by (auto simp: and_then_def split: option.splits sum.splits)
qed

lemma locked_binary:
  assumes "eb_memory b = VirtualMemory t" "operand_width TYPE('a::len)"
  shows "update_binary TYPE('a) (b\<lparr>eb_locked := l\<rparr>) d s operation = update_binary TYPE('a) b d s operation"
  unfolding update_binary_def locked_builder locked_prepare locked_read locked_target_modify
  by (rule under_prepare [OF assms]) (simp add: modify_any [OF assms, where l = l] modify_any [OF assms, where l = "eb_locked b"] blind_laws sure_intros)

lemma locked_unary:
  assumes "eb_memory b = VirtualMemory t" "operand_width TYPE('a::len)"
  shows "update_unary TYPE('a) (b\<lparr>eb_locked := l\<rparr>) d operation = update_unary TYPE('a) b d operation"
proof -
  have "and_then (prepare_write TYPE('a) b d []) (\<lambda>target. target_modify b target update l
      (\<lambda>input. and_then (require (unary_apply operation input)) (\<lambda>outcome. write_flags (ar_flags outcome)))) =
    and_then (prepare_write TYPE('a) b d []) (\<lambda>target. target_modify b target update (eb_locked b)
      (\<lambda>input. and_then (require (unary_apply operation input)) (\<lambda>outcome. write_flags (ar_flags outcome))))"
    for update :: "'a word operand_update"
    by (rule under_prepare [OF assms])
      (simp add: modify_any [OF assms, where l = l] modify_any [OF assms, where l = "eb_locked b"] blind_laws sure_intros)
  then show ?thesis unfolding update_unary_def Let_def locked_builder locked_prepare locked_writes locked_target_modify
    by (cases operation) simp_all
qed

lemma locked_bit_test:
  assumes "eb_memory b = VirtualMemory t" "operand_width TYPE('a::len)"
  shows "exec_bit_test TYPE('a) U (b\<lparr>eb_locked := l\<rparr>) d n operation = exec_bit_test TYPE('a) U b d n operation"
proof -
  have "and_then (prepare_write TYPE('a) b d []) (\<lambda>target. and_then (require update) (\<lambda>update. target_modify b target update l
      (\<lambda>input. write_flags (h input)))) =
    and_then (prepare_write TYPE('a) b d []) (\<lambda>target. and_then (require update) (\<lambda>update. target_modify b target update (eb_locked b)
      (\<lambda>input. write_flags (h input))))" for d and update :: "'a word operand_update option" and h
    by (rule under_prepare [OF assms])
      (simp add: modify_any [OF assms, where l = l] modify_any [OF assms, where l = "eb_locked b"] blind_laws sure_intros)
  then show ?thesis unfolding exec_bit_test_def Let_def locked_builder locked_prepare locked_read locked_target_modify
    by (simp cong: if_cong split: prod.splits)
qed

lemma locked_exchange_add:
  assumes "eb_memory b = VirtualMemory t" "operand_width TYPE('a::len)"
  shows "xadd TYPE('a) (b\<lparr>eb_locked := l\<rparr>) d (RegisterAt r) = xadd TYPE('a) b d (RegisterAt r)"
  unfolding xadd_def locked_builder locked_prepare locked_target_read locked_target_write locked_target_modify
proof (rule under_prepare [OF assms])
  fix target assume ok: "target_ok t TYPE('a) target"
  let ?run = "\<lambda>l. and_then (prepare_write TYPE('a) b (RegisterAt r) []) (\<lambda>source. and_then (target_read b source) (\<lambda>addend :: 'a word.
      target_modify b target (UpdateAdd addend) l (\<lambda>previous.
        and_then (write_flags (ar_flags (arithmetic_apply Add previous addend))) (\<lambda>_. target_write b source previous))))"
  have "?run l = ?run False" for l
    by (simp add: prepare_write_def and_then_assoc modify_any [OF assms ok, where l = l]
        blind_laws sure_intros)
  from this [of l] this [of "eb_locked b"] show "?run l = ?run (eb_locked b)" by (simp only:)
qed

lemma locked_compare_exchange:
  assumes "eb_memory b = VirtualMemory t" "operand_width TYPE('a::len)"
  shows "cmpxchg TYPE('a) (b\<lparr>eb_locked := l\<rparr>) d s = cmpxchg TYPE('a) b d s"
  unfolding cmpxchg_def locked_builder locked_prepare locked_read locked_target_read locked_target_write locked_target_modify
proof (rule under_prepare [OF assms])
  fix target assume ok: "target_ok t TYPE('a) target"
  let ?run = "\<lambda>l. and_then (prepare_write TYPE('a) b (parent_location Eax) []) (\<lambda>accumulator. and_then (target_read b accumulator) (\<lambda>expected :: 'a word.
      and_then (exec_read b s) (\<lambda>replacement. target_modify b target (UpdateCompareExchange expected replacement) l (\<lambda>previous.
        and_then (write_flags (ar_flags (arithmetic_apply Subtract expected previous))) (\<lambda>_. target_write b accumulator previous)))))"
  have "?run l = ?run False" for l
    by (simp add: prepare_write_def parent_location_def and_then_assoc modify_any [OF assms ok, where l = l] blind_laws sure_intros)
  from this [of l] this [of "eb_locked b"] show "?run l = ?run (eb_locked b)" by (simp only:)
qed

lemmas locked_bodies = update_unary_def exec_compare_def exec_test_def implicit_multiply_def multiply_destination_def multiply_sources_def divide_def
  exec_rotate_def exec_rotate_through_carry_def exec_shift_def exec_double_shift_def exec_adjust_unpacked_def exec_adjust_packed_def
  exec_adjust_after_multiply_def exec_adjust_before_division_def exec_bit_scan_def check_bounds_def
  locked_read locked_writes

lemma locked_others:
  "exec_compare T (b\<lparr>eb_locked := l\<rparr>) x y = exec_compare T b x y" "exec_test T (b\<lparr>eb_locked := l\<rparr>) x y = exec_test T b x y"
  "implicit_multiply T D (b\<lparr>eb_locked := l\<rparr>) y m = implicit_multiply T D b y m"
  "multiply_destination T D (b\<lparr>eb_locked := l\<rparr>) x y = multiply_destination T D b x y"
  "multiply_sources T D (b\<lparr>eb_locked := l\<rparr>) x y z = multiply_sources T D b x y z"
  "divide T D (b\<lparr>eb_locked := l\<rparr>) y v = divide T D b y v"
  "exec_rotate T (b\<lparr>eb_locked := l\<rparr>) x y r = exec_rotate T b x y r"
  "exec_rotate_through_carry T (b\<lparr>eb_locked := l\<rparr>) x y r = exec_rotate_through_carry T b x y r"
  "exec_shift T (b\<lparr>eb_locked := l\<rparr>) x y k = exec_shift T b x y k"
  "exec_double_shift T (b\<lparr>eb_locked := l\<rparr>) x y z h = exec_double_shift T b x y z h"
  "exec_adjust_unpacked (b\<lparr>eb_locked := l\<rparr>) x a = exec_adjust_unpacked b x a"
  "exec_adjust_packed (b\<lparr>eb_locked := l\<rparr>) x a = exec_adjust_packed b x a"
  "exec_adjust_after_multiply (b\<lparr>eb_locked := l\<rparr>) x y z = exec_adjust_after_multiply b x y z"
  "exec_adjust_before_division (b\<lparr>eb_locked := l\<rparr>) x y = exec_adjust_before_division b x y"
  "exec_bit_scan T (b\<lparr>eb_locked := l\<rparr>) x y q = exec_bit_scan T b x y q"
  "check_bounds T (b\<lparr>eb_locked := l\<rparr>) y address = check_bounds T b y address"
  by (unfold locked_bodies; rule refl)+

text \<open>C4: the LOCK prefix changes no result. Over translated memory every arithmetic instruction, CMPXCHG, and XADD
  with its register operand run to the same state, flags and memory included, or to the same fault, with and
  without the prefix: the atomic update in place of the separate load and store is an equivalent.\<close>

theorem lock_changes_no_result:
  fixes b :: "'s builder"
  assumes "eb_memory b = VirtualMemory t" and "operand_width TYPE('a::len)"
  shows "run_alu (b\<lparr>eb_locked := l\<rparr>) w i = run_alu b w i \<and>
    cmpxchg TYPE('a) (b\<lparr>eb_locked := l\<rparr>) d s = cmpxchg TYPE('a) b d s \<and>
    xadd TYPE('a) (b\<lparr>eb_locked := l\<rparr>) d (RegisterAt r) = xadd TYPE('a) b d (RegisterAt r)"
proof -
  have "operand_width TYPE(8)" "operand_width TYPE(16)" "operand_width TYPE(32)" by (simp_all add: operand_width_def)
  note widths = this [THEN locked_binary [OF assms(1)]] this [THEN locked_unary [OF assms(1)]] this [THEN locked_bit_test [OF assms(1)]]
  have "run_alu (b\<lparr>eb_locked := l\<rparr>) w i = run_alu b w i"
    by (cases i) (simp_all only: run_alu.simps Let_def locked_others widths)
  then show ?thesis using locked_compare_exchange [OF assms] locked_exchange_add [OF assms] by blast
qed

theorem lock_changes_no_result_witness:
  "run_alu (sample_builder\<lparr>eb_locked := True\<rparr>) SizeDword (Binary OpAdd (RegisterAt (NamedOperand (low_register Eax))) (Immediate 1)) =
     run_alu sample_builder SizeDword (Binary OpAdd (RegisterAt (NamedOperand (low_register Eax))) (Immediate 1)) \<and>
   operand_width TYPE(32)"
proof -
  have w: "operand_width TYPE(32)" by (simp add: operand_width_def)
  from lock_changes_no_result [OF sample_stack(1) w] w show ?thesis by blast
qed

subsection \<open>DIV and IDIV\<close>

text \<open>The register above the accumulator at each width: AH, DX and EDX.\<close>

definition high_view :: "nat \<Rightarrow> register_selection" where
  "high_view n = (if n = 8 then NamedView Eax 1 else NamedView Edx 0)"

lemma double_bits:
  fixes h l :: "'a::len word"
  assumes "LENGTH('d::len) = 2 * LENGTH('a)"
  shows "bit (ucast l OR push_bit LENGTH('a) (ucast h) :: 'd word) k \<longleftrightarrow> (if k < LENGTH('a) then bit l k else bit h (k - LENGTH('a)))"
  using assms bit_imp_le_length [of h "k - LENGTH('a)"] bit_imp_le_length [of l k]
  by (auto simp: bit_or_iff bit_push_bit_iff bit_ucast_iff)

lemma double_uint:
  fixes h l :: "'a::len word"
  assumes "LENGTH('d::len) = 2 * LENGTH('a)"
  shows "uint (ucast l OR push_bit LENGTH('a) (ucast h) :: 'd word) = uint h * 2 ^ LENGTH('a) + uint l"
proof -
  have high: "n < 2 * LENGTH('a)" "n - LENGTH('a) < LENGTH('a)" if "bit h (n - LENGTH('a))" for n
    using bit_imp_le_length [OF that] by linarith+
  have "uint (ucast l OR push_bit LENGTH('a) (ucast h) :: 'd word) = uint l OR push_bit LENGTH('a) (uint h)"
    by (rule bit_eqI) (use double_bits [OF assms, of l h] assms high bit_imp_le_length [of l] in
      \<open>auto simp: bit_uint_iff bit_or_iff bit_push_bit_iff\<close>)
  also have "\<dots> = uint l + push_bit LENGTH('a) (uint h)"
    by (rule disjunctive_add [symmetric]) (auto simp: bit_uint_iff bit_push_bit_iff)
  finally show ?thesis by (simp add: push_bit_eq_mult mult.commute)
qed

lemma sint_top_bit: "sint (x :: 'b::len word) = uint x - 2 ^ LENGTH('b) * of_bool (bit x (LENGTH('b) - 1))"
proof -
  have "sint x = signed_take_bit (LENGTH('b) - 1) (uint x)" by (simp add: sint_uint)
  also have "\<dots> = take_bit LENGTH('b) (uint x) - 2 ^ LENGTH('b) * of_bool (bit (uint x) (LENGTH('b) - 1))"
    using signed_take_bit_eq_take_bit_minus [of "LENGTH('b) - 1" "uint x"] by simp
  also have "take_bit LENGTH('b) (uint x) = uint x"
    using unsigned_less [of x, where 'a = int] by (simp add: take_bit_int_eq_self_iff)
  finally show ?thesis by (simp add: bit_uint_iff)
qed

lemma double_sint:
  fixes h l :: "'a::len word"
  assumes "LENGTH('d::len) = 2 * LENGTH('a)"
  shows "sint (ucast l OR push_bit LENGTH('a) (ucast h) :: 'd word) = sint h * 2 ^ LENGTH('a) + uint l"
proof -
  have "bit (ucast l OR push_bit LENGTH('a) (ucast h) :: 'd word) (LENGTH('d) - 1) = bit h (LENGTH('a) - 1)"
  proof -
    have "\<not> LENGTH('d) - 1 < LENGTH('a)" "LENGTH('d) - 1 - LENGTH('a) = LENGTH('a) - 1"
      using assms len_gt_0 [where 'a = 'a] by linarith+
    then show ?thesis unfolding double_bits [OF assms] by simp
  qed
  then have "sint (ucast l OR push_bit LENGTH('a) (ucast h) :: 'd word) =
      uint h * 2 ^ LENGTH('a) + uint l - 2 ^ (2 * LENGTH('a)) * of_bool (bit h (LENGTH('a) - 1))"
    unfolding sint_top_bit double_uint [OF assms] assms by simp
  then show ?thesis unfolding sint_top_bit [of h] by (simp add: power_add mult_2 left_diff_distrib)
qed

lemma dividend_run:
  assumes "operand_width TYPE('a::len)" "LENGTH('d::len) = 2 * LENGTH('a)"
  shows "(if LENGTH('a) div 8 = 1 then and_then (read_parent Eax) (\<lambda>ax :: u16. ret (ucast ax))
       else read_register_pair TYPE('a) Edx Eax) c =
    Some (Inr (ucast (get_view (NamedView Eax 0) (gprs c) :: 'a word) OR push_bit LENGTH('a) (ucast (get_view (high_view LENGTH('a)) (gprs c) :: 'a word)) :: 'd word), c)"
proof (cases "LENGTH('a) = 8")
  case True
  have "(ucast (get_view (NamedView Eax 0) (gprs c) :: u16) :: 'd word) =
    ucast (get_view (NamedView Eax 0) (gprs c) :: 'a word) OR push_bit LENGTH('a) (ucast (get_view (high_view LENGTH('a)) (gprs c) :: 'a word))"
    by (rule bit_word_eqI) (use assms(2) True in \<open>auto simp: get_view_def high_view_def bit_or_iff bit_push_bit_iff bit_ucast_iff bit_drop_bit_eq\<close>)
  with True show ?thesis by (simp add: read_parent_def read_register_def and_then_def look_def ret_def)
next
  case False
  then have n: "LENGTH('a) = 16 \<or> LENGTH('a) = 32" using assms(1) by (auto simp: operand_width_def)
  then have "shift_amount (x :: 'd word) (of_nat LENGTH('a)) = LENGTH('a)" for x
    using assms(2) by (auto simp: shift_amount_def)
  with n show ?thesis
    by (auto simp: read_register_pair_def read_parent_def read_register_def and_then_def look_def ret_def high_view_def val_shl_def)
qed

lemma divide_writes:
  assumes "operand_width TYPE('a::len)" "LENGTH('d::len) = 2 * LENGTH('a)"
  shows "(if LENGTH('a) div 8 = 1 then write_parent Eax (ucast (ucast (q :: 'a word) OR val_shl (ucast (r :: 'a word) :: 'd word) 8) :: u16)
     else and_then (write_parent Eax q) (\<lambda>_. write_parent Edx r)) c =
    Some (Inr (), c\<lparr>gprs := set_view (high_view LENGTH('a)) r (set_view (NamedView Eax 0) q (gprs c))\<rparr>)"
proof (cases "LENGTH('a) = 8")
  case True
  have sh: "shift_amount (x :: 'd word) 8 = 8" for x using assms(2) True by (simp add: shift_amount_def)
  have high: "n < 16" "n - 8 < 16" "n - 8 < 8" if "bit r (n - 8)" for n using bit_imp_le_length [OF that] True by linarith+
  have low: "n < 8" if "bit q n" for n using bit_imp_le_length [OF that] True by simp
  have "set_view (NamedView Eax 0) (ucast (ucast q OR val_shl (ucast r :: 'd word) 8) :: u16) (gprs c) =
      set_view (NamedView Eax 1) r (set_view (NamedView Eax 0) q (gprs c))"
    unfolding set_view_def
    by (rule ext, rule bit_word_eqI)
      (use assms(2) True high in \<open>auto simp: val_shl_def sh bit_or_iff bit_and_iff bit_not_iff bit_push_bit_iff bit_ucast_iff
          bit_mask_iff dest: low\<close>)
  with True show ?thesis by (simp add: write_parent_def write_register_def change_def high_view_def)
next
  case False
  then have "LENGTH('a) = 16 \<or> LENGTH('a) = 32" using assms(1) by (auto simp: operand_width_def)
  then show ?thesis by (auto simp: write_parent_def write_register_def change_def high_view_def and_then_def)
qed

lemma and_then_at: "m c = Some (Inr v, c') \<Longrightarrow> and_then m k c = k v c'"
  by (simp add: and_then_def)

lemma divide_run:
  fixes divisor :: "'a::len word"
  assumes "operand_width TYPE('a)" "LENGTH('d::len) = 2 * LENGTH('a)" "exec_read b s c = Some (Inr divisor, c)"
    and out: "division_outcome operation (ucast (get_view (NamedView Eax 0) (gprs c) :: 'a word) OR
      push_bit LENGTH('a) (ucast (get_view (high_view LENGTH('a)) (gprs c) :: 'a word)) :: 'd word) divisor = Some r"
  shows "divide TYPE('a) TYPE('d) b s operation c =
    (case r of None \<Rightarrow> Some (Inl DivideError, c)
     | Some (q, r) \<Rightarrow> Some (Inr (), c\<lparr>gprs := set_view (high_view LENGTH('a)) r (set_view (NamedView Eax 0) q (gprs c))\<rparr>))"
  unfolding divide_def
proof (rule trans, rule and_then_at, rule assms(3), rule trans, rule and_then_at, rule dividend_run [OF assms(1,2)], goal_cases)
  case 1
  note writes = divide_writes [OF assms(1,2), simplified]
  let ?w = "ucast (get_view (NamedView Eax 0) (gprs c) :: 'a word) OR
    push_bit LENGTH('a) (ucast (get_view (high_view LENGTH('a)) (gprs c) :: 'a word)) :: 'd word"
  show ?case
  proof (cases "input_fault operation ?w divisor")
    case True
    with out show ?thesis by (auto simp: and_then_def fault_if_def division_outcome_def)
  next
    case False
    with out obtain z where z: "divide_apply operation ?w divisor = Some z"
      and r: "r = (if dr_overflow z = Some True then None else Some (dr_quotient z, dr_remainder z))"
      by (auto simp: division_outcome_def)
    with False show ?thesis
      by (cases "dr_overflow z") (auto simp: and_then_def fault_if_def require_def ret_def writes)
  qed
qed

text \<open>C8: DIV and IDIV are mathematical division. At every operand width the dividend is the number in the
  register pair (AH:AL, DX:AX or EDX:EAX), unsigned or signed; a zero divisor or a quotient outside the
  operand width raises the divide error and changes nothing; otherwise the accumulator receives the
  quotient, truncated toward zero, and the high register the remainder, and nothing else changes.\<close>

theorem divide_instruction_exact:
  fixes divisor :: "'a::len word"
  assumes "operand_width TYPE('a)" and "LENGTH('d::len) = 2 * LENGTH('a)" and "exec_read b s c = Some (Inr divisor, c)"
    and "high = (get_view (high_view LENGTH('a)) (gprs c) :: 'a word)" and "low = (get_view (NamedView Eax 0) (gprs c) :: 'a word)"
  shows "divide TYPE('a) TYPE('d) b s operation c =
    (let n = (case operation of DivideUnsigned \<Rightarrow> uint high | DivideSigned \<Rightarrow> sint high) * 2 ^ LENGTH('a) + uint low;
         (q, r, fits) = (case operation of
             DivideUnsigned \<Rightarrow> (n div uint divisor, n mod uint divisor, n div uint divisor < 2 ^ LENGTH('a))
           | DivideSigned \<Rightarrow> (n sdiv sint divisor, n smod sint divisor, fits_signed LENGTH('a) (n sdiv sint divisor)))
     in if divisor = 0 \<or> \<not> fits then Some (Inl DivideError, c)
        else Some (Inr (), c\<lparr>gprs :=
          set_view (high_view LENGTH('a)) (word_of_int r :: 'a word) (set_view (NamedView Eax 0) (word_of_int q :: 'a word) (gprs c))\<rparr>))"
  using divide_run [OF assms(1-3)] divide_unsigned [OF assms(1,2), of _ divisor] divide_signed [OF assms(1,2), of _ divisor]
  unfolding assms(4,5)
  by (cases operation) (auto simp: double_uint [OF assms(2)] double_sint [OF assms(2)] Let_def)

theorem divide_instruction_exact_witness:
  "divide TYPE(32) TYPE(64) sample_builder (Immediate 3) DivideUnsigned (sample_cpu 0x100) =
     Some (Inr (), (sample_cpu 0x100)\<lparr>gprs := (gprs (sample_cpu 0x100))(Eax := 2, Edx := 1)\<rparr>) \<and>
   divide TYPE(32) TYPE(64) sample_builder (Immediate 0) DivideSigned (sample_cpu 0x100) = Some (Inl DivideError, sample_cpu 0x100)"
proof -
  have w: "operand_width TYPE(32)" "LENGTH(64) = 2 * LENGTH(32)" by (simp_all add: operand_width_def)
  have r: "exec_read sample_builder (Immediate n) c = Some (Inr n, c)" for n and c :: "unit cpu" by (simp add: exec_read_def ret_def)
  show ?thesis
    using divide_instruction_exact [OF w r [of 3 "sample_cpu 0x100"] refl refl, where operation = DivideUnsigned]
      divide_instruction_exact [OF w r [of 0 "sample_cpu 0x100"] refl refl, where operation = DivideSigned]
    by (simp add: high_view_def sample_cpu_def Let_def fun_upd_twist)
qed

end
