(* ===== verification/Spec2Isabelle.thy ===== *)
theory Spec2Isabelle
  imports Table_Sound Pc_Devices Dos_Loader Guest_Transfer Pc_Memory X86_Operations
begin

text \<open>
  A verification library for Relocade, which translates x86 guest code to WebAssembly and runs
  DOS programs on an emulated PC. Paths below are relative to \<open>src/crates/\<close>.

  The parts of the program and how they meet:
  \<^item> the compiler crate builds typed expressions in an append-only value table, folds constants,
    tracks how many bits each value needs and emits WebAssembly;
  \<^item> the x86 crate decodes and translates guest code in that expression language; its memory
    layer decides at run time, from a serialized routing table, whether a transfer goes to backing
    storage or calls the host; its segment layer checks every access first;
  \<^item> the machine crate owns the backing memory, the host's view of it and the device bus that
    serves ports, memory-mapped transfers and interrupts;
  \<^item> the devices (interrupt controller, timer, keyboard controller, keyboard, speaker, video) live
    on that bus and are wired by the pc crate;
  \<^item> the dos crate loads programs into conventional memory and serves their calls.

  Theories, bottom up:
  \<^item> \<open>Prelude\<close>, \<open>Bytes\<close>: machine integers, standard-library operations, little-endian rows.
  \<^item> \<open>Values\<close>, \<open>Expressions\<close>, \<open>Evaluate\<close>: types, literals, operators and constant evaluation
    (\<open>compiler/src/types.rs\<close>, \<open>literal.rs\<close>, \<open>integer.rs\<close>, \<open>bitwise.rs\<close>, \<open>floating.rs\<close>,
    \<open>expression.rs\<close> and \<open>expression/\<close>). IEEE arithmetic of the host is the parameter \<open>float_host\<close>.
  \<^item> \<open>Value_Table\<close>, \<open>Bounds_Sound\<close>, \<open>Table_Sound\<close>: the value table of \<open>compiler/src/body/values.rs\<close>
    with \<open>values/bounds.rs\<close>; a step relation lists the ways the builder extends it, each with the
    contract construction keeps (typed operands, parameters within their bounds), and rule induction
    shows that the recorded bit bounds hold of the carrier value of every id in every run, that
    folded results stay in their type, that ids are canonical and stable, that carriers can be
    recovered and that representatives exist. A run gives an unsigned division a value only where its
    dividend is within the logical width, which construction or the facts of a path ensure.
  \<^item> \<open>Pic\<close>: the 8259 of \<open>pic/src/\<close>: arbitration, acknowledgement and end of interrupt, and that a
    parked CPU is woken whenever an interrupt becomes ready.
  \<^item> \<open>Pit_Counter\<close>, \<open>Pit\<close>: the 8254 of \<open>pit/src/\<close>: advancing a counter by many clocks equals ticking it
    one by one; predicted edges are the first ones; the activity's deadlines are exact.
  \<^item> \<open>Scancodes\<close>, \<open>Keyboard_Controller\<close>, \<open>Keyboard\<close>: the 8042, the AT keyboard and its scan codes
    (\<open>at-keyboard/src/\<close>): buffers, interrupt lines, whole sequences. Asynchronous functions are
    their atomic segments, ordered by step relations.
  \<^item> \<open>Io_Bus\<close>: \<open>machine/src/io.rs\<close>: validation and routing. Device callbacks are parameters acting on
    one shared state; nothing is assumed of them.
  \<^item> \<open>Pc_Devices\<close>: the wiring of \<open>pc/src/lib.rs\<close> and the speaker port. The locale \<open>bus_devices\<close> is the
    contract between devices and bus; its interpretation is the PC's own device list.
  \<^item> \<open>Segments\<close>: \<open>x86/src/segment/\<close> and the loaded caches of \<open>x86/src/state/layout/segments.rs\<close>: packed
    descriptors round-trip, the packed tables answer as the host tables do, loads follow the
    user-level rules, and the emitted check, with constants a profile fixes, denies exactly the
    accesses that leave the segment.
  \<^item> \<open>Guest_Memory\<close>, \<open>Guest_Transfer\<close>, \<open>Pc_Memory\<close>: the physical map and its table
    (\<open>x86/src/memory/physical_map.rs\<close>, \<open>physical/table.rs\<close>), the host's view
    (\<open>machine/src/memory/view/\<close>), the guest's emitted transfers (\<open>x86/src/memory/physical.rs\<close>,
    \<open>physical/transfer.rs\<close>) and the PC's fixed map (\<open>pc/src/configuration.rs\<close>). The
    host's transfers are specified without pages, as plain bytes and runs of consecutive bus
    addresses, each one device transfer cut into eight-byte requests; the guest's transfers issue the
    same device requests and leave the same guest, for any devices; and conventional memory is
    plain storage.
  \<^item> \<open>Paging\<close>: protected-mode memory (\<open>x86/src/memory/page_table.rs\<close>, \<open>access.rs\<close>, \<open>accesses.rs\<close>,
    \<open>transfer.rs\<close>, \<open>update.rs\<close>): whole spans are checked before anything moves, faults name the first
    denied byte, reused proofs and cached entries never change an answer, and transfers go byte
    by byte through the page table however frames are scattered.
  \<^item> \<open>State_Fields\<close>, \<open>X86_Registers\<close>: retained state fields (\<open>x86/src/ssa/\<close>) refine a flat backing memory,
    and register views (\<open>x86/src/register.rs\<close>, \<open>state/access.rs\<close>) share one register file.
  \<^item> \<open>X86_Flags\<close>, \<open>Lazy_Flags\<close>: the six status flags (\<open>x86/src/flags/\<close>, \<open>alu/status.rs\<close>,
    \<open>state/flags/\<close>): the flag equations against integer arithmetic, conditions answered from
    comparison operands, and the lazy tracker, which refines eagerly computed flags through any
    sequence of changes, queries and publications.
  \<^item> \<open>X86_Alu\<close>: the integer operations of \<open>x86/src/alu/\<close>: shifts and rotates are repeated one-bit
    steps, division faults exactly when it must, decimal adjustment is decimal arithmetic.
  \<^item> \<open>X86_Execution\<close>, \<open>Stack_Slots\<close>, \<open>X86_Instructions\<close>, \<open>X86_Stack\<close>, \<open>X86_Operations\<close>: the execution builder of
    \<open>x86/src/execution.rs\<close> and \<open>execution/\<close> as runs over the processor's state, and the integer, move,
    stack, flag and near branch handlers of \<open>instruction/definitions/\<close> written in them. Laws of runs
    (effect free, never faulting, faulting before the first effect) show that a faulting instruction
    changes nothing, or for PUSHA and ENTER only bytes of a bounded number of slots below the stack
    pointer and for POPA only general registers; over translated memory the stack
    instructions undo each other whatever the page tables alias, as long as the slots in use, the
    stack segment and the stack pointer are kept; a locked update has the result of
    the plain one; division delivers the mathematical quotient and remainder or its fault.
  \<^item> \<open>Cpu_Config\<close>: profile compatibility (\<open>x86/src/profile.rs\<close>), table registers and the validation a CPU
    image passes before it is restored (\<open>machine/src/config/cpu.rs\<close>, \<open>machine/src/cpu.rs\<close>).
  \<^item> \<open>Dos_Memory\<close>, \<open>Dos_Loader\<close>: the memory control block allocator of \<open>dos/src/memory.rs\<close>, refined to an
    abstract set of allocations through the locale \<open>paragraph_arena\<close>, and the COM and MZ loaders
    of \<open>dos/src/com.rs\<close>, \<open>mz.rs\<close>, \<open>load.rs\<close> and \<open>process/\<close>: on a real-mode machine
    they never panic on any input, the final restore of the CPU image included.

  Conventions. A panic (failed assertion, index out of range, \<open>expect\<close>) is \<open>None\<close>; an error value
  of the code is \<open>Inl\<close>. Machine words are words where wrap-around matters; addresses and sizes
  that the code keeps in range are natural numbers, with the range stated. Loops are total
  functions with a measure, except the transfer loops of the guest, which are partial functions
  that the properties show to return.

  Not modelled: the compiler's folder, control-flow lowering and WebAssembly encoding; the x86
  decoder with its encoding tables; the string, repeat, segment-load, far, port, interrupt, SIMD and
  x87 handlers; masked transfers; the CPU runner and its asynchronous scheduling; video memory and
  rendering; BIOS services; DOS files and interrupt dispatch; the host frontends, which are window,
  audio and browser glue. The code is modelled as a release build
  runs it: the debug assertions of \<open>compiler/src/literal.rs\<close>, \<open>body/values.rs\<close>, \<open>expression/evaluate.rs\<close>
  and \<open>x86/src/state/cpu/flags.rs\<close> are left out.
\<close>

end
